(* ===== verification/Prelude.thy ===== *)
theory Prelude
  imports Main "HOL-Library.Word" "HOL-Library.Multiset"
begin

unbundle bit_operations_syntax

text \<open>
  Shared vocabulary of the development: the machine integers and memory cells of the model, the
  error values a C++ operation can end in, the error monad that threads them, and the generic
  lemmas on lists cut into equal chunks, on overwriting a list in place and on bits of words that
  the component theories use.
\<close>

subsection \<open>Collections\<close>

named_theorems inv_intro \<open>operations preserve the invariant of their component\<close>
named_theorems result_simps \<open>evaluation of the error monad\<close>

subsection \<open>Machine types\<close>

type_synonym u8 = "8 word"
type_synonym u16 = "16 word"
type_synonym u32 = "32 word"
type_synonym u64 = "64 word"

text \<open>One byte of memory: \<open>None\<close> is a byte that was allocated and never written
  (an indeterminate value in C++).\<close>

type_synonym cell = "u8 option"

text \<open>Subtraction on \<open>size_t\<close> values that are kept as \<^typ>\<open>nat\<close>: it wraps around.\<close>

definition size_sub :: "nat \<Rightarrow> nat \<Rightarrow> nat" where
  "size_sub a b = (if b \<le> a then a - b else a + 2 ^ 64 - b)"

lemma size_sub_le [simp]: "b \<le> a \<Longrightarrow> size_sub a b = a - b"
  by (simp add: size_sub_def)

subsection \<open>Errors as values\<close>

text \<open>
  How an operation can end other than by returning: a dereference of a null pointer, a thrown
  \<open>std::out_of_range\<close>, \<open>std::invalid_argument\<close> or \<open>std::logic_error\<close>, an integer division by
  zero, an access past the end of a buffer, a failed \<open>PHASE0_ASSERT\<close>, the use of an
  indeterminate value, an erase at an end iterator, a loop that never ends, or arithmetic that C++
  leaves undefined (a signed overflow, a shift by the width of the type or more).
\<close>

datatype cpp_error =
    NullDeref | OutOfRange | InvalidArgument | LogicError | DivByZero | BufferOverflow
  | AssertFail | Indeterminate | BadIterator | NonTermination | SignedOverflow | BadShift

type_synonym 'a result = "cpp_error + 'a"

definition bind_r :: "'a result \<Rightarrow> ('a \<Rightarrow> 'b result) \<Rightarrow> 'b result" where
  "bind_r m f = (case m of Inl e \<Rightarrow> Inl e | Inr x \<Rightarrow> f x)"

lemma bind_r_simps [simp, result_simps]:
  "bind_r (Inl e) f = Inl e"
  "bind_r (Inr x) f = f x"
  by (simp_all add: bind_r_def)

lemma bind_r_Inr_iff [result_simps]:
  "bind_r m f = Inr y \<longleftrightarrow> (\<exists>x. m = Inr x \<and> f x = Inr y)"
  by (cases m) auto

lemma bind_r_Inr_elim [elim]:
  assumes "bind_r m f = Inr y"
  obtains x where "m = Inr x" and "f x = Inr y"
  using assms by (auto simp: bind_r_Inr_iff)

lemma bind_r_assoc: "bind_r (bind_r m f) g = bind_r m (\<lambda>x. bind_r (f x) g)"
  by (cases m) auto

lemma bind_r_cong [fundef_cong]:
  "m = m' \<Longrightarrow> (\<And>x. m' = Inr x \<Longrightarrow> f x = f' x) \<Longrightarrow> bind_r m f = bind_r m' f'"
  by (cases m') auto

text \<open>\<open>PHASE0_ASSERT\<close>: continue when the condition holds, abort otherwise.\<close>

definition assert_r :: "bool \<Rightarrow> 'a result \<Rightarrow> 'a result" where
  "assert_r b m = (if b then m else Inl AssertFail)"

lemma assert_r_simps [simp, result_simps]:
  "assert_r True m = m"
  "assert_r False m = Inl AssertFail"
  by (simp_all add: assert_r_def)

lemma assert_r_Inr_iff [result_simps]: "assert_r b m = Inr y \<longleftrightarrow> b \<and> m = Inr y"
  by (simp add: assert_r_def)

subsection \<open>Overwriting a list in place\<close>

definition overwrite :: "'a list \<Rightarrow> nat \<Rightarrow> 'a list \<Rightarrow> 'a list" where
  "overwrite xs p ys = take p xs @ ys @ drop (p + length ys) xs"

lemma length_overwrite [simp]:
  "p + length ys \<le> length xs \<Longrightarrow> length (overwrite xs p ys) = length xs"
  by (simp add: overwrite_def)

lemma overwrite_Nil [simp]: "overwrite xs p [] = xs"
  by (simp add: overwrite_def)

lemma take_overwrite [simp]: "p \<le> length xs \<Longrightarrow> take p (overwrite xs p ys) = take p xs"
  by (simp add: overwrite_def)

lemma overwrite_read [simp]:
  "p \<le> length xs \<Longrightarrow> take (length ys) (drop p (overwrite xs p ys)) = ys"
  by (simp add: overwrite_def)

lemma drop_overwrite:
  "p \<le> length xs \<Longrightarrow> drop (p + length ys) (overwrite xs p ys) = drop (p + length ys) xs"
  by (simp add: overwrite_def)

lemma overwrite_overwrite:
  assumes "p \<le> length xs"
  shows "overwrite (overwrite xs p ys) (p + length ys) zs = overwrite xs p (ys @ zs)"
  using assms by (simp add: overwrite_def ac_simps)

lemma overwrite_append_left:
  "p + length ys \<le> length xs \<Longrightarrow> overwrite (xs @ zs) p ys = overwrite xs p ys @ zs"
  by (simp add: overwrite_def)

lemma overwrite_append_right:
  "length xs \<le> p \<Longrightarrow> overwrite (xs @ zs) p ys = xs @ overwrite zs (p - length xs) ys"
  by (simp add: overwrite_def)

subsection \<open>Lists of equal chunks\<close>

lemma length_concat_chunks:
  "\<forall>x \<in> set xss. length x = b \<Longrightarrow> length (concat xss) = b * length xss"
  by (induction xss) auto

lemma concat_chunk_update:
  assumes "\<forall>x \<in> set xss. length x = b" and "i < length xss" and "n + length ys \<le> b"
  shows "concat (xss[i := overwrite (xss ! i) n ys]) = overwrite (concat xss) (i * b + n) ys"
  using assms
proof (induction xss arbitrary: i)
  case Nil
  then show ?case by simp
next
  case (Cons x xss)
  show ?case
  proof (cases i)
    case 0
    with Cons.prems show ?thesis by (simp add: overwrite_append_left)
  next
    case (Suc j)
    with Cons show ?thesis by (simp add: overwrite_append_right)
  qed
qed

lemma concat_chunk_read:
  assumes "\<forall>x \<in> set xss. length x = b" and "i < length xss" and "off + n \<le> b"
  shows "take n (drop (i * b + off) (concat xss)) = take n (drop off (xss ! i))"
  using assms
proof (induction xss arbitrary: i)
  case Nil
  then show ?case by simp
next
  case (Cons x xss)
  show ?case
  proof (cases i)
    case 0
    with Cons.prems show ?thesis by simp
  next
    case (Suc j)
    with Cons show ?thesis by simp
  qed
qed

lemma take_drop_split:
  "take (m + n) (drop p xs) = take m (drop p xs) @ take n (drop (p + m) xs)"
  by (simp add: take_add add.commute)

subsection \<open>Bits of words\<close>

lemma word_and_mask_or_shift:
  fixes w :: "'a::len word"
  shows "push_bit i (w AND mask k) OR push_bit (i + k) (drop_bit k w) = push_bit i w"
proof (rule bit_word_eqI)
  fix n
  assume n: "n < LENGTH('a)"
  consider "n < i" | "i \<le> n" "n < i + k" | "i + k \<le> n" by linarith
  then show "bit (push_bit i (w AND mask k) OR push_bit (i + k) (drop_bit k w)) n
    = bit (push_bit i w) n"
  proof cases
    case 3
    then have "k + (n - (i + k)) = n - i" by simp
    with 3 n show ?thesis by (auto simp: bit_simps)
  qed (use n in \<open>auto simp: bit_simps\<close>)
qed

lemma unat_bound: "unat w < 2 ^ LENGTH('a)" for w :: "'a::len word"
  by (rule unsigned_less)

lemma bit_0x80: "bit (0x80 :: int) n \<longleftrightarrow> n = 7"
proof -
  have "(0x80 :: int) = 2 ^ 7" by simp
  then show ?thesis by (simp only: bit_exp_iff) auto
qed

lemma unat_ge_128_iff: "128 \<le> unat b \<longleftrightarrow> bit b 7" for b :: u8
proof -
  have "unat b < 256" using unat_bound [of b] by simp
  then have "unat b div 2 ^ 7 = (if 128 \<le> unat b then 1 else 0)"
    by (auto intro: div_nat_eqI)
  then have "odd (unat b div 2 ^ 7) \<longleftrightarrow> 128 \<le> unat b" by simp
  moreover have "bit b 7 \<longleftrightarrow> bit (unat b) 7" by (simp add: bit_unsigned_iff)
  moreover have "bit (unat b) 7 \<longleftrightarrow> odd (unat b div 2 ^ 7)" by (rule bit_iff_odd)
  ultimately show ?thesis by simp
qed

lemma mask7: "mask 7 = (0x7F :: 'a::len word)"
  by (simp add: mask_eq_exp_minus_1)

text \<open>Conversion of a 64-bit value to a 32-bit \<open>int\<close>.\<close>

lemma sint_ucast32:
  fixes t :: u64
  assumes "unat t < 2 ^ 32"
  shows "sint (ucast t :: u32) = int (unat t) - 2 ^ 32 * of_bool (odd (unat t div 2 ^ 31))"
proof -
  have "uint t < 2 ^ 32" using assms nat_less_iff [of "uint t" "2 ^ 32"] by (simp only: unat_eq_nat_uint uint_ge_0 of_nat_power of_nat_numeral)
  then have "take_bit 32 (uint t) = uint t" by (intro take_bit_int_eq_self) simp_all
  then have u: "uint (ucast t :: u32) = uint t" by (simp add: unsigned_ucast_eq)
  have "sint (ucast t :: u32) = signed_take_bit 31 (uint t)"
    by (simp add: sint_uint u)
  also have "\<dots> = uint t - 2 ^ 32 * of_bool (bit (uint t) 31)"
    using \<open>take_bit 32 (uint t) = uint t\<close> by (simp add: signed_take_bit_eq_take_bit_minus)
  also have "bit (uint t) 31 = odd (unat t div 2 ^ 31)"
    unfolding unat_eq_nat_uint bit_iff_odd by (subst even_of_nat_iff [symmetric, where 'a = int]) (simp add: zdiv_int)
  finally show ?thesis by simp
qed

end
