(* ===== verification/Endian.thy ===== *)
theory Endian
  imports Prelude
begin

text \<open>
  \<open>src/socket/include/endians.h\<close> and the object representation of integers it works on. The
  target is little-endian (\<open>PHASE0_BYTE_ORDER\<close> is \<open>PHASE0_LITTLE_ENDIAN\<close>): \<open>mem_bytes\<close> is what
  \<open>memcpy(tmp, &value, sizeof(value))\<close> copies, \<open>mem_value\<close> the integer such bytes denote.
\<close>

datatype endian = PHASE0_LITTLE_ENDIAN | PHASE0_BIG_ENDIAN

definition PHASE0_BYTE_ORDER :: endian where
  "PHASE0_BYTE_ORDER = PHASE0_LITTLE_ENDIAN"

text \<open>\<open>sizeof\<close> of an integer type.\<close>

definition size_of :: "'a::len word \<Rightarrow> nat" where
  "size_of w = LENGTH('a) div 8"

fun bytes_le :: "nat \<Rightarrow> 'a::len word \<Rightarrow> u8 list" where
  "bytes_le 0 w = []"
| "bytes_le (Suc n) w = ucast w # bytes_le n (drop_bit 8 w)"

fun word_le :: "u8 list \<Rightarrow> 'a::len word" where
  "word_le [] = 0"
| "word_le (b # bs) = ucast b OR push_bit 8 (word_le bs)"

definition mem_bytes :: "'a::len word \<Rightarrow> u8 list" where
  "mem_bytes w = bytes_le (size_of w) w"

definition mem_value :: "u8 list \<Rightarrow> 'a::len word" where
  "mem_value bs = word_le bs"

text \<open>
  The templates \<open>byteswap\<close> (one per operand size, over \<open>bswap_16\<close>, \<open>bswap_32\<close> and \<open>bswap_64\<close> of
  the C library: the bytes in reverse order) and the two conditional swaps.
\<close>

definition byteswap :: "'a::len word \<Rightarrow> 'a word" where
  "byteswap w = mem_value (rev (mem_bytes w))"

definition byteswapOnLittleEndian :: "'a::len word \<Rightarrow> 'a word" where
  "byteswapOnLittleEndian t =
     (if PHASE0_BYTE_ORDER = PHASE0_BIG_ENDIAN then t else byteswap t)"

definition byteswapOnBigEndian :: "'a::len word \<Rightarrow> 'a word" where
  "byteswapOnBigEndian t =
     (if PHASE0_BYTE_ORDER = PHASE0_BIG_ENDIAN then byteswap t else t)"

subsection \<open>Bytes and values determine each other\<close>

lemma length_bytes_le [simp]: "length (bytes_le n w) = n"
  by (induction n arbitrary: w) auto

lemma length_mem_bytes [simp]: "length (mem_bytes w) = size_of w"
  by (simp add: mem_bytes_def)

lemma bit_word_le:
  fixes bs :: "u8 list"
  shows "bit (word_le bs :: 'a::len word) n \<longleftrightarrow>
    n < LENGTH('a) \<and> n div 8 < length bs \<and> bit (bs ! (n div 8)) (n mod 8)"
proof (induction bs arbitrary: n)
  case Nil
  then show ?case by simp
next
  case (Cons b bs)
  show ?case
  proof (cases "n < 8")
    case True
    then show ?thesis by (auto simp: bit_simps)
  next
    case False
    then obtain m where m: "n = m + 8" by (metis add.commute le_Suc_ex not_less)
    have "\<not> bit b (m + 8)" by (auto dest: bit_imp_le_length)
    moreover have "(m + 8) div 8 = Suc (m div 8)" by simp
    ultimately show ?thesis using Cons.IH [of m] by (auto simp: bit_simps m)
  qed
qed

lemma nth_bytes_le: "k < n \<Longrightarrow> bytes_le n w ! k = ucast (drop_bit (8 * k) w)"
proof (induction n arbitrary: w k)
  case 0
  then show ?case by simp
next
  case (Suc n)
  then show ?case by (cases k) (auto simp: add.commute)
qed

lemma word_le_bytes_le:
  fixes w :: "'a::len word"
  assumes "LENGTH('a) \<le> 8 * n"
  shows "word_le (bytes_le n w) = w"
proof (rule bit_word_eqI)
  fix m
  assume m: "m < LENGTH('a)"
  with assms have "m div 8 < n" by linarith
  then have "bit (word_le (bytes_le n w) :: 'a word) m \<longleftrightarrow>
      bit (ucast (drop_bit (8 * (m div 8)) w) :: u8) (m mod 8)"
    using m by (simp add: bit_word_le nth_bytes_le)
  also have "\<dots> \<longleftrightarrow> bit w m" by (simp add: bit_simps)
  finally show "bit (word_le (bytes_le n w) :: 'a word) m \<longleftrightarrow> bit w m" .
qed

lemma bytes_le_word_le:
  fixes bs :: "u8 list"
  assumes "8 * length bs \<le> LENGTH('a::len)"
  shows "bytes_le (length bs) (word_le bs :: 'a word) = bs"
proof (rule nth_equalityI)
  show "length (bytes_le (length bs) (word_le bs :: 'a word)) = length bs" by simp
next
  fix k
  assume "k < length (bytes_le (length bs) (word_le bs :: 'a word))"
  then have k: "k < length bs" by simp
  have "ucast (drop_bit (8 * k) (word_le bs :: 'a word)) = bs ! k"
  proof (rule bit_word_eqI)
    fix m
    assume "m < LENGTH(8)"
    then have "m < 8" by simp
    then show "bit (ucast (drop_bit (8 * k) (word_le bs :: 'a word)) :: u8) m = bit (bs ! k) m"
      using k assms by (auto simp: bit_simps bit_word_le)
  qed
  with k show "bytes_le (length bs) (word_le bs :: 'a word) ! k = bs ! k"
    by (simp add: nth_bytes_le)
qed

text \<open>The theorems about \<open>byteswap\<close> need a whole number of bytes.\<close>

lemma mem_value_mem_bytes:
  fixes w :: "'a::len word"
  assumes "8 dvd LENGTH('a)"
  shows "mem_value (mem_bytes w) = w"
  using assms by (simp add: mem_value_def mem_bytes_def size_of_def word_le_bytes_le)

lemma mem_bytes_mem_value:
  assumes "8 dvd LENGTH('a::len)" and "length bs = LENGTH('a) div 8"
  shows "mem_bytes (mem_value bs :: 'a word) = bs"
proof -
  have "8 * length bs \<le> LENGTH('a)" using assms by auto
  then have "bytes_le (length bs) (word_le bs :: 'a word) = bs" by (rule bytes_le_word_le)
  then show ?thesis using assms(2) by (simp add: mem_value_def mem_bytes_def size_of_def)
qed

lemma mem_bytes_byteswap:
  fixes w :: "'a::len word"
  assumes "8 dvd LENGTH('a)"
  shows "mem_bytes (byteswap w) = rev (mem_bytes w)"
  using assms by (simp add: byteswap_def mem_bytes_mem_value size_of_def)

lemma byteswap_byteswap:
  fixes w :: "'a::len word"
  assumes "8 dvd LENGTH('a)"
  shows "byteswap (byteswap w) = w"
  using assms
  by (simp add: byteswap_def [of "byteswap w"] mem_bytes_byteswap mem_value_mem_bytes)

lemma size_of_simps [simp]:
  "size_of (w8 :: u8) = 1" "size_of (w16 :: u16) = 2"
  "size_of (w32 :: u32) = 4" "size_of (w64 :: u64) = 8"
  by (simp_all add: size_of_def)

lemmas mem_roundtrip [simp] =
  mem_value_mem_bytes [where 'a = 8, simplified] mem_value_mem_bytes [where 'a = 16, simplified]
  mem_value_mem_bytes [where 'a = 32, simplified] mem_value_mem_bytes [where 'a = 64, simplified]

lemmas byteswap_involution [simp] =
  byteswap_byteswap [where 'a = 16, simplified] byteswap_byteswap [where 'a = 32, simplified]
  byteswap_byteswap [where 'a = 64, simplified]

end
