(* ===== verification/Varint.thy ===== *)
theory Varint
  imports Endian
begin

text \<open>
  The integer codes of \<open>src/utils/bytearray.cc\<close>: the zigzag map between signed and unsigned
  values and the base-128 varint loops of \<open>writeUint32\<close>, \<open>writeUint64\<close>, \<open>readUint32\<close> and
  \<open>readUint64\<close>. The C++ writes each of them twice, for 32 and for 64 bits; here they are
  polymorphic in the width. A signed argument is its bit pattern; the signed operations \<open>-v\<close> and
  \<open>v * 2\<close> wrap around (at \<open>INT_MIN\<close> and above \<open>INT_MAX / 2\<close> the C++ expressions overflow, which
  its compilers take as two's complement wrap-around).
\<close>

subsection \<open>Zigzag\<close>

definition EncodeZigzag :: "'a::len word \<Rightarrow> 'a word" where
  "EncodeZigzag v = (if sint v < 0 then (- v) * 2 - 1 else v * 2)"

definition DecodeZigzag :: "'a::len word \<Rightarrow> 'a word" where
  "DecodeZigzag v = drop_bit 1 v XOR (- (v AND 1))"

definition EncodeZigzag32 :: "u32 \<Rightarrow> u32" where
  "EncodeZigzag32 v = EncodeZigzag v"

definition EncodeZigzag64 :: "u64 \<Rightarrow> u64" where
  "EncodeZigzag64 v = EncodeZigzag v"

definition DecodeZigzag32 :: "u32 \<Rightarrow> u32" where
  "DecodeZigzag32 v = DecodeZigzag v"

definition DecodeZigzag64 :: "u64 \<Rightarrow> u64" where
  "DecodeZigzag64 v = DecodeZigzag v"

lemma EncodeZigzag_neg: "sint v < 0 \<Longrightarrow> EncodeZigzag v = NOT (push_bit 1 v)"
  by (simp add: EncodeZigzag_def not_eq_complement push_bit_eq_mult)

lemma EncodeZigzag_nonneg: "\<not> sint v < 0 \<Longrightarrow> EncodeZigzag v = push_bit 1 v"
  by (simp add: EncodeZigzag_def push_bit_eq_mult)

lemma DecodeZigzag_odd:
  assumes "odd e"
  shows "DecodeZigzag e = NOT (drop_bit 1 e)"
proof -
  have "e AND 1 = 1" using assms by (simp add: and_one_eq odd_iff_mod_2_eq_one)
  then have "DecodeZigzag e = drop_bit 1 e XOR - 1" by (simp add: DecodeZigzag_def)
  also have "\<dots> = NOT (drop_bit 1 e)" by (rule bit_word_eqI) (simp add: bit_simps)
  finally show ?thesis .
qed

lemma DecodeZigzag_even:
  assumes "even e"
  shows "DecodeZigzag e = drop_bit 1 e"
proof -
  have "e AND 1 = 0" using assms by (simp add: and_one_eq even_iff_mod_2_eq_zero)
  then show ?thesis by (simp add: DecodeZigzag_def)
qed

text \<open>Shifting left and back loses the top bit only, which is the sign.\<close>

lemma last_bit_iff: "n < l \<Longrightarrow> l \<le> n + 1 \<longleftrightarrow> n = l - Suc 0" for n l :: nat
  by auto

lemma bit_drop_push:
  fixes v :: "'a::len word"
  shows "bit (drop_bit k (push_bit k v)) n \<longleftrightarrow> bit v n \<and> n + k < LENGTH('a)"
  by (auto simp: bit_simps)

lemma bit_not_drop_not_push:
  fixes v :: "'a::len word"
  assumes "n < LENGTH('a)"
  shows "bit (NOT (drop_bit k (NOT (push_bit k v)))) n \<longleftrightarrow> bit v n \<or> LENGTH('a) \<le> n + k"
  using assms by (auto simp: bit_simps)

lemma DecodeZigzag_EncodeZigzag: "DecodeZigzag (EncodeZigzag v) = (v :: 'a::len word)"
proof (cases "sint v < 0")
  case True
  then have top: "bit v (LENGTH('a) - Suc 0)" by (simp add: bit_last_iff)
  have "odd (NOT (push_bit 1 v))"
    by (simp add: not_eq_complement push_bit_eq_mult)
  then have "DecodeZigzag (EncodeZigzag v) = NOT (drop_bit 1 (NOT (push_bit 1 v)))"
    unfolding EncodeZigzag_neg [OF True] by (rule DecodeZigzag_odd)
  also have "\<dots> = v"
    by (rule bit_word_eqI)
      (use top in \<open>auto simp only: bit_not_drop_not_push last_bit_iff\<close>)
  finally show ?thesis .
next
  case False
  then have top: "\<not> bit v (LENGTH('a) - Suc 0)" by (simp add: bit_last_iff)
  have "even (push_bit 1 v)" by (simp add: push_bit_eq_mult)
  then have "DecodeZigzag (EncodeZigzag v) = drop_bit 1 (push_bit 1 v)"
    unfolding EncodeZigzag_nonneg [OF False] by (rule DecodeZigzag_even)
  also have "\<dots> = v"
    by (rule bit_word_eqI) (use top in \<open>auto simp only: bit_drop_push dest: bit_imp_le_length last_bit_iff\<close>)
  finally show ?thesis .
qed

text \<open>The code of a value as a number: non-negative values are even, negative ones odd.\<close>

lemma uint_EncodeZigzag32:
  "uint (EncodeZigzag32 v) = (if sint v < 0 then - 2 * sint v - 1 else 2 * sint v)"
proof -
  have r: "- (2 ^ 31) \<le> sint v" "sint v < 2 ^ 31"
    using sint_ge [of v] sint_lt [of v] by simp_all
  show ?thesis
  proof (cases "sint v < 0")
    case True
    have e: "EncodeZigzag32 v = word_of_int (- 2 * sint v - 1)"
      using True by (simp add: EncodeZigzag32_def EncodeZigzag_def mult.commute)
    have "uint (EncodeZigzag32 v) = (- 2 * sint v - 1) mod 2 ^ 32"
      unfolding e by (simp only: uint_word_of_int len_num1 len_bit0) simp
    with True r show ?thesis by simp
  next
    case False
    have e: "EncodeZigzag32 v = word_of_int (2 * sint v)"
      using False by (simp add: EncodeZigzag32_def EncodeZigzag_def mult.commute)
    have "uint (EncodeZigzag32 v) = (2 * sint v) mod 2 ^ 32"
      unfolding e by (simp only: uint_word_of_int len_num1 len_bit0) simp
    with False r show ?thesis by simp
  qed
qed

subsection \<open>Base-128 varints\<close>

lemma unat_drop_bit_div: "unat (drop_bit k w) = unat w div 2 ^ k"
  by (simp add: unat_drop_bit_eq drop_bit_eq_div [of _ "unat w"])

text \<open>The loop of \<open>writeUint32\<close> and \<open>writeUint64\<close> that fills \<open>tmp\<close>.\<close>

function varint_bytes :: "'a::len word \<Rightarrow> u8 list" where
  "varint_bytes value =
     (if 128 \<le> unat value
      then ucast ((value AND 0x7F) OR 0x80) # varint_bytes (drop_bit 7 value)
      else [ucast value])"
  by pat_completeness auto
termination
  by (relation "measure unat") (auto simp: unat_drop_bit_div)

declare varint_bytes.simps [simp del]

lemma varint_bytes_small: "unat v < 128 \<Longrightarrow> varint_bytes v = [ucast v]"
  by (simp add: varint_bytes.simps [of v])

lemma varint_bytes_big:
  "128 \<le> unat v \<Longrightarrow>
   varint_bytes v = ucast ((v AND 0x7F) OR 0x80) # varint_bytes (drop_bit 7 v)"
  by (simp add: varint_bytes.simps [of v])

text \<open>\<open>tmp\<close> is long enough: a value below \<open>2 ^ (7 * n)\<close> takes at most \<open>n\<close> bytes.\<close>

lemma length_varint_bytes_le:
  "unat v < 2 ^ (7 * n) \<Longrightarrow> 0 < n \<Longrightarrow> length (varint_bytes v) \<le> n"
proof (induction n arbitrary: v)
  case 0
  then show ?case by simp
next
  case (Suc n)
  show ?case
  proof (cases "unat v < 128")
    case True
    then show ?thesis by (simp add: varint_bytes_small)
  next
    case False
    have "unat v < 2 ^ (7 * n) * 128"
      using Suc.prems(1) by (simp add: power_add mult.commute)
    then have "unat (drop_bit 7 v) < 2 ^ (7 * n)"
      by (simp add: unat_drop_bit_div div_less_iff_less_mult)
    moreover have "0 < n" using False Suc.prems(1) by (cases n) auto
    ultimately have "length (varint_bytes (drop_bit 7 v)) \<le> n" by (rule Suc.IH)
    with False show ?thesis by (simp add: varint_bytes_big)
  qed
qed

lemma length_varint_bytes32: "length (varint_bytes (v :: u32)) \<le> 5"
proof -
  have "unat v < 2 ^ (7 * 5)" using unat_bound [of v] by simp
  then show ?thesis by (rule length_varint_bytes_le) simp
qed

lemma length_varint_bytes64: "length (varint_bytes (v :: u64)) \<le> 10"
proof -
  have "unat v < 2 ^ (7 * 10)" using unat_bound [of v] by simp
  then show ?thesis by (rule length_varint_bytes_le) simp
qed

lemma varint_bytes_nonempty [simp]: "varint_bytes v \<noteq> []"
  by (simp add: varint_bytes.simps [of v])

text \<open>What one round of the decoding loop sees of an encoded byte.\<close>

lemma bit_varint_head:
  fixes v :: "'a::len word"
  assumes "8 \<le> LENGTH('a)" and "n < 8"
  shows "bit (ucast ((v AND 0x7F) OR 0x80) :: u8) n \<longleftrightarrow> bit v n \<or> n = 7"
  using assms
  by (auto simp: bit_or_iff bit_and_iff bit_mask_iff bit_unsigned_iff bit_0x80 simp flip: mask7)

lemma varint_head_big:
  fixes v :: "'a::len word"
  assumes "8 \<le> LENGTH('a)"
  shows "128 \<le> unat (ucast ((v AND 0x7F) OR 0x80) :: u8)"
  using assms by (simp add: unat_ge_128_iff bit_varint_head)

lemma varint_head_low:
  fixes v :: "'a::len word"
  assumes "8 \<le> LENGTH('a)"
  shows "ucast ((ucast ((v AND 0x7F) OR 0x80) :: u8) AND 0x7F) = v AND mask 7"
proof (rule bit_word_eqI)
  fix n
  assume "n < LENGTH('a)"
  then show "bit (ucast ((ucast ((v AND 0x7F) OR 0x80) :: u8) AND 0x7F) :: 'a word) n
      = bit (v AND mask 7) n"
    using bit_varint_head [OF assms, of n v]
    by (cases "n < 8") (auto simp: bit_simps simp flip: mask7 dest: bit_imp_le_length)
qed

lemma varint_head_small:
  fixes v :: "'a::len word"
  assumes "unat v < 128"
  shows "unat (ucast v :: u8) < 128" and "ucast (ucast v :: u8) = v"
proof -
  have "unat (ucast v :: u8) = unat v"
    using assms by (simp add: unsigned_ucast_eq take_bit_nat_eq_self)
  then show "unat (ucast v :: u8) < 128" using assms by simp
  have "take_bit 8 v = v"
    using assms by (simp add: word_unat_eq_iff unsigned_take_bit_eq take_bit_nat_eq_self)
  then show "ucast (ucast v :: u8) = v" by (simp add: unsigned_ucast_eq)
qed

end
