(* ===== verification/ByteArray.thy ===== *)
theory ByteArray
  imports Varint
begin

text \<open>
  Class \<open>ByteArray\<close> of \<open>src/utils/bytearray.cc\<close>: a serialisation buffer kept as a chain of nodes
  of \<open>m_baseSize\<close> bytes. The chain \<open>m_root \<rightarrow> next \<rightarrow> ...\<close> is the list \<open>m_nodes\<close>; a
  \<open>Node*\<close> is an index into it, \<open>None\<close> the null pointer. Every dereference of \<open>m_cur\<close> and every
  \<open>memcpy\<close> is checked, so that a null pointer or an access past a node is an error value and not a
  silent default. Sizes are \<open>size_t\<close> values as \<^typ>\<open>nat\<close>; the two subtractions that can wrap
  around go through \<^const>\<open>size_sub\<close>. The number of nodes to add is computed in the source as
  \<open>ceil(1.0 * size / m_baseSize)\<close>, which is exact for sizes below \<open>2 ^ 53\<close>.
\<close>

record node =
  node_ptr :: "cell list"
  node_size :: nat

record byte_array =
  m_baseSize :: nat
  m_position :: nat
  m_capacity :: nat
  m_size :: nat
  m_endian :: endian
  m_nodes :: "node list"
  m_cur :: "nat option"

definition Node :: "nat \<Rightarrow> node" where
  "Node s = \<lparr>node_ptr = replicate s None, node_size = s\<rparr>"

definition new_ByteArray :: "nat \<Rightarrow> byte_array" where
  "new_ByteArray base_size =
     \<lparr>m_baseSize = base_size, m_position = 0, m_capacity = base_size, m_size = 0,
      m_endian = PHASE0_BIG_ENDIAN, m_nodes = [Node base_size], m_cur = Some 0\<rparr>"

definition isLittleEndian :: "byte_array \<Rightarrow> bool" where
  "isLittleEndian ba \<longleftrightarrow> m_endian ba = PHASE0_LITTLE_ENDIAN"

definition setIsLittleEndian :: "bool \<Rightarrow> byte_array \<Rightarrow> byte_array" where
  "setIsLittleEndian val ba =
     (if val then ba\<lparr>m_endian := PHASE0_LITTLE_ENDIAN\<rparr>
      else ba\<lparr>m_endian := PHASE0_BIG_ENDIAN\<rparr>)"

definition getReadSize :: "byte_array \<Rightarrow> nat" where
  "getReadSize ba = size_sub (m_size ba) (m_position ba)"

definition getCapacity :: "byte_array \<Rightarrow> nat" where
  "getCapacity ba = size_sub (m_capacity ba) (m_position ba)"

subsection \<open>Pointers and copies\<close>

definition deref :: "node list \<Rightarrow> nat option \<Rightarrow> node result" where
  "deref nds p = (case p of None \<Rightarrow> Inl NullDeref
     | Some i \<Rightarrow> if i < length nds then Inr (nds ! i) else Inl NullDeref)"

definition next_of :: "node list \<Rightarrow> nat option \<Rightarrow> nat option" where
  "next_of nds p = (case p of None \<Rightarrow> None
     | Some i \<Rightarrow> if Suc i < length nds then Some (Suc i) else None)"

definition memcpy_in :: "cell list \<Rightarrow> nat \<Rightarrow> cell list \<Rightarrow> cell list result" where
  "memcpy_in dst off src =
     (if off + length src \<le> length dst then Inr (overwrite dst off src) else Inl BufferOverflow)"

definition memcpy_out :: "cell list \<Rightarrow> nat \<Rightarrow> nat \<Rightarrow> cell list result" where
  "memcpy_out src off n =
     (if off + n \<le> length src then Inr (take n (drop off src)) else Inl BufferOverflow)"

subsection \<open>Capacity and position\<close>

definition addCapacity :: "nat \<Rightarrow> byte_array \<Rightarrow> byte_array result" where
  "addCapacity sz ba =
     (if sz = 0 then Inr ba
      else let old_cap = getCapacity ba in
        if sz \<le> old_cap then Inr ba
        else if m_baseSize ba = 0 then Inl DivByZero
        else let sz' = sz - old_cap;
                 count = (sz' + m_baseSize ba - 1) div m_baseSize ba;
                 first = length (m_nodes ba);
                 ba' = ba\<lparr>m_nodes := m_nodes ba @ replicate count (Node (m_baseSize ba)),
                          m_capacity := m_capacity ba + count * m_baseSize ba\<rparr>
             in Inr (if old_cap = 0 then ba'\<lparr>m_cur := Some first\<rparr> else ba'))"

text \<open>The loop of \<open>setPosition\<close>: \<open>while (v > m_cur->size) { v -= m_cur->size; m_cur = m_cur->next; }\<close>
  and the test after it, over the rest of the chain that starts at node \<open>i\<close>.\<close>

fun seek :: "nat \<Rightarrow> nat \<Rightarrow> node list \<Rightarrow> nat option result" where
  "seek v i [] = Inl NullDeref"
| "seek v i (nd # nds) =
     (if node_size nd < v then seek (v - node_size nd) (Suc i) nds
      else if v = node_size nd then Inr (if nds = [] then None else Some (Suc i))
      else Inr (Some i))"

definition setPosition :: "nat \<Rightarrow> byte_array \<Rightarrow> byte_array result" where
  "setPosition v ba =
     (if m_capacity ba < v then Inl OutOfRange
      else bind_r (seek v 0 (m_nodes ba)) (\<lambda>cur.
        Inr (ba\<lparr>m_position := v, m_size := max (m_size ba) v, m_cur := cur\<rparr>)))"

definition clear :: "byte_array \<Rightarrow> byte_array" where
  "clear ba = ba\<lparr>m_position := 0, m_size := 0, m_capacity := m_baseSize ba,
                 m_nodes := take 1 (m_nodes ba), m_cur := Some 0\<rparr>"

subsection \<open>Writing and reading\<close>

text \<open>The loop of \<open>write\<close>: \<open>buf\<close> is what is left of the caller's buffer.\<close>

function write_loop :: "byte_array \<Rightarrow> cell list \<Rightarrow> nat \<Rightarrow> nat \<Rightarrow> byte_array result" where
  "write_loop ba buf npos ncap =
     (case m_cur ba of None \<Rightarrow> Inl NullDeref
      | Some i \<Rightarrow>
        if i < length (m_nodes ba) then
          let nd = m_nodes ba ! i; sz = length buf; nxt = next_of (m_nodes ba) (Some i) in
          if sz \<le> ncap then
            bind_r (memcpy_in (node_ptr nd) npos buf) (\<lambda>p.
              Inr (ba\<lparr>m_nodes := (m_nodes ba)[i := nd\<lparr>node_ptr := p\<rparr>],
                      m_cur := if node_size nd = npos + sz then nxt else Some i,
                      m_position := m_position ba + sz\<rparr>))
          else
            bind_r (memcpy_in (node_ptr nd) npos (take ncap buf)) (\<lambda>p.
              bind_r (deref (m_nodes ba) nxt) (\<lambda>nd'.
                write_loop
                  (ba\<lparr>m_nodes := (m_nodes ba)[i := nd\<lparr>node_ptr := p\<rparr>],
                      m_cur := Some (Suc i),
                      m_position := m_position ba + ncap\<rparr>)
                  (drop ncap buf) 0 (node_size nd')))
        else Inl NullDeref)"
  by pat_completeness auto
termination
  by (relation "measure (\<lambda>(ba, buf, npos, ncap). length (m_nodes ba) - the (m_cur ba))") auto

declare write_loop.simps [simp del]

definition write_ba :: "cell list \<Rightarrow> byte_array \<Rightarrow> byte_array result" where
  "write_ba buf ba =
     (if buf = [] then Inr ba
      else bind_r (addCapacity (length buf) ba) (\<lambda>ba1.
        if m_baseSize ba1 = 0 then Inl DivByZero
        else let npos = m_position ba1 mod m_baseSize ba1 in
          bind_r (deref (m_nodes ba1) (m_cur ba1)) (\<lambda>nd.
            bind_r (write_loop ba1 buf npos (size_sub (node_size nd) npos)) (\<lambda>ba2.
              Inr (if m_size ba2 < m_position ba2 then ba2\<lparr>m_size := m_position ba2\<rparr> else ba2)))))"

text \<open>
  The copying loop shared by the two \<open>read\<close> members, over a local cursor: it returns the bytes
  copied and the cursor after them. \<open>read(buf, size)\<close> starts it at \<open>m_cur\<close> and stores the cursor
  back; the \<open>const\<close> overload \<open>read(buf, size, position)\<close> also starts it at \<open>m_cur\<close>, whatever
  \<open>position\<close> is.
\<close>

function read_loop ::
  "node list \<Rightarrow> nat option \<Rightarrow> nat \<Rightarrow> nat \<Rightarrow> nat \<Rightarrow> (cell list \<times> nat option) result" where
  "read_loop nds cur npos ncap sz =
     (if sz = 0 then Inr ([], cur)
      else case cur of None \<Rightarrow> Inl NullDeref
      | Some i \<Rightarrow>
        if i < length nds then
          let nd = nds ! i; nxt = next_of nds (Some i) in
          if sz \<le> ncap then
            bind_r (memcpy_out (node_ptr nd) npos sz) (\<lambda>cs.
              Inr (cs, if node_size nd = npos + sz then nxt else Some i))
          else
            bind_r (memcpy_out (node_ptr nd) npos ncap) (\<lambda>cs.
              bind_r (deref nds nxt) (\<lambda>nd'.
                bind_r (read_loop nds (Some (Suc i)) 0 (node_size nd') (sz - ncap)) (\<lambda>(cs', cur').
                  Inr (cs @ cs', cur'))))
        else Inl NullDeref)"
  by pat_completeness auto
termination
  by (relation "measure (\<lambda>(nds, cur, npos, ncap, sz). length nds - the cur)") auto

declare read_loop.simps [simp del]

definition read_ba :: "nat \<Rightarrow> byte_array \<Rightarrow> (cell list \<times> byte_array) result" where
  "read_ba sz ba =
     (if getReadSize ba < sz then Inl OutOfRange
      else if m_baseSize ba = 0 then Inl DivByZero
      else let npos = m_position ba mod m_baseSize ba in
        bind_r (deref (m_nodes ba) (m_cur ba)) (\<lambda>nd.
          bind_r (read_loop (m_nodes ba) (m_cur ba) npos (size_sub (node_size nd) npos) sz)
            (\<lambda>(cs, cur). Inr (cs, ba\<lparr>m_cur := cur, m_position := m_position ba + sz\<rparr>))))"

definition read_at :: "nat \<Rightarrow> nat \<Rightarrow> byte_array \<Rightarrow> cell list result" where
  "read_at sz position ba =
     (if size_sub (m_size ba) position < sz then Inl OutOfRange
      else if m_baseSize ba = 0 then Inl DivByZero
      else let npos = position mod m_baseSize ba in
        bind_r (deref (m_nodes ba) (m_cur ba)) (\<lambda>nd.
          bind_r (read_loop (m_nodes ba) (m_cur ba) npos (size_sub (node_size nd) npos) sz)
            (\<lambda>(cs, cur). Inr cs)))"

definition toString :: "byte_array \<Rightarrow> cell list result" where
  "toString ba = (if getReadSize ba = 0 then Inr []
     else read_at (getReadSize ba) (m_position ba) ba)"

subsection \<open>The invariant of the chain\<close>

text \<open>
  \<open>m_cur\<close> is the node that holds \<open>m_position\<close>, and null exactly when \<open>m_position\<close> is at the end
  of the last node. \<open>contents\<close> is the whole storage, read in chain order.
\<close>

definition cur_at :: "nat \<Rightarrow> nat \<Rightarrow> nat \<Rightarrow> nat option" where
  "cur_at b n p = (if p div b < n then Some (p div b) else None)"

definition nodes_ok :: "nat \<Rightarrow> node list \<Rightarrow> bool" where
  "nodes_ok b nds \<longleftrightarrow> list_all (\<lambda>nd. node_size nd = b \<and> length (node_ptr nd) = b) nds"

definition ba_inv :: "byte_array \<Rightarrow> bool" where
  "ba_inv ba \<longleftrightarrow> 0 < m_baseSize ba \<and> m_nodes ba \<noteq> [] \<and> nodes_ok (m_baseSize ba) (m_nodes ba)
     \<and> m_capacity ba = length (m_nodes ba) * m_baseSize ba
     \<and> m_position ba \<le> m_size ba \<and> m_size ba \<le> m_capacity ba
     \<and> m_cur ba = cur_at (m_baseSize ba) (length (m_nodes ba)) (m_position ba)"

definition contents :: "byte_array \<Rightarrow> cell list" where
  "contents ba = concat (map node_ptr (m_nodes ba))"

lemma contents_upd [simp]:
  "contents (ba\<lparr>m_position := p\<rparr>) = contents ba"
  "contents (ba\<lparr>m_capacity := p\<rparr>) = contents ba"
  "contents (ba\<lparr>m_size := p\<rparr>) = contents ba"
  "contents (ba\<lparr>m_endian := e\<rparr>) = contents ba"
  "contents (ba\<lparr>m_cur := c\<rparr>) = contents ba"
  "contents (ba\<lparr>m_nodes := nds\<rparr>) = concat (map node_ptr nds)"
  by (simp_all add: contents_def)

lemma nodes_ok_chunks:
  "nodes_ok b nds \<Longrightarrow> \<forall>x \<in> set (map node_ptr nds). length x = b"
  by (auto simp: nodes_ok_def list_all_iff)

lemma nodes_ok_nth:
  "nodes_ok b nds \<Longrightarrow> i < length nds \<Longrightarrow>
   node_size (nds ! i) = b \<and> length (node_ptr (nds ! i)) = b"
  by (auto simp: nodes_ok_def list_all_iff)

lemma nodes_ok_update:
  "nodes_ok b nds \<Longrightarrow> i < length nds \<Longrightarrow> length p = b \<Longrightarrow>
   nodes_ok b (nds[i := (nds ! i)\<lparr>node_ptr := p\<rparr>])"
  by (auto simp: nodes_ok_def list_all_length nth_list_update)

lemma nodes_ok_extend: "nodes_ok b nds \<Longrightarrow> nodes_ok b (nds @ replicate n (Node b))"
  by (auto simp: nodes_ok_def list_all_iff Node_def)

lemma length_contents: "ba_inv ba \<Longrightarrow> length (contents ba) = m_capacity ba"
  using length_concat_chunks [OF nodes_ok_chunks, of "m_baseSize ba" "m_nodes ba"]
  by (simp add: contents_def ba_inv_def mult.commute)

lemma cur_at_less: "0 < b \<Longrightarrow> p < n * b \<Longrightarrow> cur_at b n p = Some (p div b)"
  by (simp add: cur_at_def div_less_iff_less_mult)

lemma cur_at_end: "0 < b \<Longrightarrow> cur_at b n (n * b) = None"
  by (simp add: cur_at_def)

lemma ba_invD:
  assumes "ba_inv ba"
  shows "0 < m_baseSize ba" and "m_nodes ba \<noteq> []"
    and "nodes_ok (m_baseSize ba) (m_nodes ba)"
    and "m_capacity ba = length (m_nodes ba) * m_baseSize ba"
    and "m_position ba \<le> m_size ba" and "m_size ba \<le> m_capacity ba"
    and "m_position ba \<le> m_capacity ba"
    and "m_cur ba = cur_at (m_baseSize ba) (length (m_nodes ba)) (m_position ba)"
  using assms by (simp_all add: ba_inv_def)

lemma ba_inv_sizes [simp]:
  "ba_inv ba \<Longrightarrow> getReadSize ba = m_size ba - m_position ba"
  "ba_inv ba \<Longrightarrow> getCapacity ba = m_capacity ba - m_position ba"
  by (auto simp: ba_inv_def getReadSize_def getCapacity_def)

subsection \<open>Construction, clearing, byte order\<close>

lemma ba_inv_new [inv_intro]: "0 < b \<Longrightarrow> ba_inv (new_ByteArray b)"
  by (simp add: ba_inv_def new_ByteArray_def nodes_ok_def Node_def cur_at_def)

lemma ba_inv_clear [inv_intro]: "ba_inv ba \<Longrightarrow> ba_inv (clear ba)"
  by (cases "m_nodes ba") (auto simp: ba_inv_def clear_def nodes_ok_def cur_at_def)

lemma ba_inv_setIsLittleEndian [inv_intro]:
  "ba_inv ba \<Longrightarrow> ba_inv (setIsLittleEndian v ba)"
  by (simp add: ba_inv_def setIsLittleEndian_def)

subsection \<open>Seeking\<close>

lemma seek_correct:
  assumes "0 < b" and "nodes_ok b nds" and "nds \<noteq> []" and "v \<le> length nds * b"
  shows "seek v i nds = Inr (map_option (\<lambda>k. i + k) (cur_at b (length nds) v))"
  using assms(2-4)
proof (induction nds arbitrary: v i)
  case Nil
  then show ?case by simp
next
  case (Cons nd nds)
  have nd: "node_size nd = b" and ok: "nodes_ok b nds"
    using Cons.prems(1) by (auto simp: nodes_ok_def)
  show ?case
  proof (cases "b < v")
    case True
    then have "nds \<noteq> []" using Cons.prems(3) by auto
    moreover have "v - b \<le> length nds * b" using Cons.prems(3) by simp
    ultimately have "seek (v - b) (Suc i) nds
        = Inr (map_option (\<lambda>k. Suc i + k) (cur_at b (length nds) (v - b)))"
      using ok by (intro Cons.IH)
    moreover have "v div b = Suc ((v - b) div b)"
      using True assms(1) by (simp add: le_div_geq)
    ultimately show ?thesis using True nd by (simp add: cur_at_def)
  next
    case False
    then show ?thesis using nd assms(1) by (auto simp: cur_at_def)
  qed
qed

lemma setPosition_correct:
  assumes "ba_inv ba" and "v \<le> m_capacity ba"
  obtains ba' where "setPosition v ba = Inr ba'" and "ba_inv ba'"
    and "m_position ba' = v" and "m_size ba' = max (m_size ba) v"
    and "contents ba' = contents ba" and "m_capacity ba' = m_capacity ba"
    and "m_endian ba' = m_endian ba" and "m_baseSize ba' = m_baseSize ba"
proof -
  let ?cur = "cur_at (m_baseSize ba) (length (m_nodes ba)) v"
  let ?ba' = "ba\<lparr>m_position := v, m_size := max (m_size ba) v, m_cur := ?cur\<rparr>"
  have "seek v 0 (m_nodes ba) = Inr ?cur"
    using assms seek_correct [of "m_baseSize ba" "m_nodes ba" v 0]
    by (simp add: ba_inv_def option.map_ident)
  then have "setPosition v ba = Inr ?ba'" using assms(2) by (simp add: setPosition_def)
  moreover have "ba_inv ?ba'" using assms by (auto simp: ba_inv_def)
  ultimately show thesis by (rule that) (simp_all add: contents_def)
qed

subsection \<open>Growing\<close>

lemma ceil_div_bound:
  fixes n b :: nat
  assumes "0 < b"
  shows "n \<le> (n + b - 1) div b * b"
proof -
  have "n + b - 1 = (n + b - 1) div b * b + (n + b - 1) mod b" by (simp add: div_mult_mod_eq)
  moreover have "(n + b - 1) mod b < b" using assms by simp
  ultimately show ?thesis by linarith
qed

definition grow :: "nat \<Rightarrow> byte_array \<Rightarrow> byte_array" where
  "grow k ba = ba\<lparr>m_nodes := m_nodes ba @ replicate k (Node (m_baseSize ba)),
     m_capacity := m_capacity ba + k * m_baseSize ba,
     m_cur := if m_capacity ba \<le> m_position ba then Some (length (m_nodes ba)) else m_cur ba\<rparr>"

lemma ba_inv_grow:
  assumes "ba_inv ba" and "0 < k"
  shows "ba_inv (grow k ba)"
proof -
  let ?b = "m_baseSize ba" and ?n = "length (m_nodes ba)"
  note inv = ba_invD [OF assms(1)]
  have cur: "m_cur (grow k ba) = cur_at ?b (?n + k) (m_position ba)"
  proof (cases "m_position ba = m_capacity ba")
    case True
    then show ?thesis using inv assms(2) by (simp add: grow_def cur_at_def)
  next
    case False
    then have p: "m_position ba < ?n * ?b" using inv by simp
    then have "m_position ba < (?n + k) * ?b" by (simp add: add_mult_distrib)
    with p False inv show ?thesis by (simp add: grow_def cur_at_less)
  qed
  have "nodes_ok ?b (m_nodes ba @ replicate k (Node ?b))"
    using inv(3) by (rule nodes_ok_extend)
  then show ?thesis using cur inv by (simp add: ba_inv_def grow_def add_mult_distrib)
qed

lemma contents_grow: "contents (grow k ba) = contents ba @ replicate (k * m_baseSize ba) None"
  by (induction k) (auto simp: contents_def grow_def Node_def replicate_add)

lemma addCapacity_correct:
  assumes "ba_inv ba"
  obtains ba' ext where "addCapacity n ba = Inr ba'" and "ba_inv ba'"
    and "m_position ba' = m_position ba" and "m_size ba' = m_size ba"
    and "contents ba' = contents ba @ replicate ext None"
    and "m_capacity ba' = m_capacity ba + ext"
    and "m_position ba + n \<le> m_capacity ba'"
    and "m_endian ba' = m_endian ba" and "m_baseSize ba' = m_baseSize ba"
proof (cases "n \<le> getCapacity ba")
  case True
  then have "addCapacity n ba = Inr ba" by (simp add: addCapacity_def Let_def)
  moreover have "m_position ba + n \<le> m_capacity ba"
    using True ba_invD(7) [OF assms] assms by simp
  ultimately show thesis by (intro that [of ba 0]) (simp_all add: assms)
next
  case False
  let ?b = "m_baseSize ba" and ?old = "m_capacity ba - m_position ba"
  define count where "count = (n - ?old + ?b - 1) div ?b"
  have b: "0 < ?b" by (rule ba_invD(1) [OF assms])
  have n: "?old < n" using False assms by simp
  have le: "n - ?old \<le> count * ?b" unfolding count_def by (rule ceil_div_bound [OF b])
  with n have pos: "0 < count" by (cases count) auto
  have eq: "addCapacity n ba = Inr (grow count ba)"
    using n b assms by (simp add: addCapacity_def Let_def grow_def count_def ac_simps)
  have "m_position ba + n \<le> m_capacity (grow count ba)"
    using le ba_invD(7) [OF assms] by (simp add: grow_def)
  then show thesis
    by (intro that [OF eq ba_inv_grow [OF assms pos]]) (simp_all add: contents_grow, simp_all add: grow_def)
qed

subsection \<open>Writing\<close>

text \<open>One round of either loop touches a single node.\<close>

lemma contents_node_update:
  assumes "nodes_ok b (m_nodes ba)" and "i < length (m_nodes ba)" and "n + length ys \<le> b"
  shows "concat (map node_ptr ((m_nodes ba)
      [i := (m_nodes ba ! i)\<lparr>node_ptr := overwrite (node_ptr (m_nodes ba ! i)) n ys\<rparr>]))
    = overwrite (contents ba) (i * b + n) ys"
proof -
  have "map node_ptr ((m_nodes ba)
      [i := (m_nodes ba ! i)\<lparr>node_ptr := overwrite (node_ptr (m_nodes ba ! i)) n ys\<rparr>])
    = (map node_ptr (m_nodes ba))[i := overwrite (map node_ptr (m_nodes ba) ! i) n ys]"
    using assms(2) by (simp add: map_update)
  then show ?thesis
    using concat_chunk_update [OF nodes_ok_chunks [OF assms(1)], of i n ys] assms(2,3)
    by (simp add: contents_def)
qed

lemma cursor_after:
  assumes "0 < b" and "i < k" and "npos + n \<le> b" and "0 < n"
  shows "(if b = npos + n then if Suc i < k then Some (Suc i) else None else Some i)
    = cur_at b k (i * b + (npos + n))"
proof (cases "npos + n = b")
  case True
  then have "i * b + (npos + n) = Suc i * b" by simp
  with True assms show ?thesis by (simp add: cur_at_def)
next
  case False
  with assms have "(i * b + (npos + n)) div b = i" by simp
  with False assms show ?thesis by (simp add: cur_at_def)
qed

lemma write_loop_correct:
  assumes "nodes_ok b (m_nodes ba)" and "0 < b" and "m_cur ba = Some i"
    and "i < length (m_nodes ba)" and "m_position ba = i * b + npos" and "npos < b"
    and "ncap = b - npos" and "buf \<noteq> []"
    and "m_position ba + length buf \<le> length (m_nodes ba) * b"
  shows "\<exists>nds. write_loop ba buf npos ncap
      = Inr (ba\<lparr>m_nodes := nds, m_position := m_position ba + length buf,
          m_cur := cur_at b (length nds) (m_position ba + length buf)\<rparr>)
    \<and> nodes_ok b nds \<and> length nds = length (m_nodes ba)
    \<and> concat (map node_ptr nds) = overwrite (contents ba) (m_position ba) buf"
  using assms
proof (induction "length buf" arbitrary: ba buf npos ncap i rule: less_induct)
  case less
  let ?nds = "m_nodes ba" and ?nd = "m_nodes ba ! i"
  let ?upd = "\<lambda>ys. ?nds[i := ?nd\<lparr>node_ptr := overwrite (node_ptr ?nd) npos ys\<rparr>]"
  have nd: "node_size ?nd = b" "length (node_ptr ?nd) = b"
    using nodes_ok_nth [OF less.prems(1,4)] by simp_all
  have upd: "nodes_ok b (?upd ys)" "concat (map node_ptr (?upd ys)) =
      overwrite (contents ba) (m_position ba) ys" if "npos + length ys \<le> b" for ys
    using that nodes_ok_update [OF less.prems(1,4)] contents_node_update [OF less.prems(1,4)] nd
    by (simp_all add: less.prems(5))
  show ?case
  proof (cases "length buf \<le> ncap")
    case True
    then have fit: "npos + length buf \<le> b" using less.prems(6,7) by simp
    then have "write_loop ba buf npos ncap = Inr (ba\<lparr>m_nodes := ?upd buf,
        m_position := m_position ba + length buf,
        m_cur := cur_at b (length ?nds) (m_position ba + length buf)\<rparr>)"
      using True nd less.prems cursor_after [of b i "length ?nds" npos "length buf"]
      by (simp add: write_loop.simps [of ba] memcpy_in_def next_of_def Let_def add.assoc)
    with upd [OF fit] show ?thesis by (intro exI [of _ "?upd buf"]) simp
  next
    case False
    let ?ys = "take ncap buf"
    let ?ba' = "ba\<lparr>m_nodes := ?upd ?ys, m_cur := Some (Suc i), m_position := m_position ba + ncap\<rparr>"
    have fit: "npos + length ?ys \<le> b" and len: "length ?ys = ncap"
      using False less.prems(6,7) by simp_all
    have pos': "m_position ba + ncap = Suc i * b" using less.prems(5,6,7) by simp
    have "Suc i * b < length ?nds * b" using False less.prems(9) pos' by simp
    then have i': "Suc i < length ?nds" by (simp only: mult_less_cancel2)
    have nd': "node_size (?nds ! Suc i) = b"
      using nodes_ok_nth [OF less.prems(1) i'] by simp
    have step: "write_loop ba buf npos ncap = write_loop ?ba' (drop ncap buf) 0 b"
      using False nd nd' i' fit len less.prems
      by (simp add: write_loop.simps [of ba buf] memcpy_in_def next_of_def deref_def Let_def)
    have "\<exists>nds. write_loop ?ba' (drop ncap buf) 0 b
      = Inr (?ba'\<lparr>m_nodes := nds, m_position := m_position ?ba' + length (drop ncap buf),
          m_cur := cur_at b (length nds) (m_position ?ba' + length (drop ncap buf))\<rparr>)
      \<and> nodes_ok b nds \<and> length nds = length (m_nodes ?ba')
      \<and> concat (map node_ptr nds)
          = overwrite (contents ?ba') (m_position ?ba') (drop ncap buf)"
      using False i' less.prems upd(1) [OF fit] pos'
      by (intro less.hyps [of "drop ncap buf" ?ba' "Suc i"]) simp_all
    then obtain nds where w: "write_loop ?ba' (drop ncap buf) 0 b
        = Inr (?ba'\<lparr>m_nodes := nds, m_position := m_position ba + length buf,
            m_cur := cur_at b (length nds) (m_position ba + length buf)\<rparr>)"
      and n: "nodes_ok b nds" "length nds = length ?nds"
      and c: "concat (map node_ptr nds)
        = overwrite (contents ?ba') (m_position ba + length ?ys) (drop ncap buf)"
      using False len by auto
    have "m_position ba \<le> length (contents ba)"
      using length_concat_chunks [OF nodes_ok_chunks, OF less.prems(1)] less.prems(9)
      by (simp add: contents_def mult.commute)
    then have "overwrite (overwrite (contents ba) (m_position ba) ?ys)
        (m_position ba + length ?ys) (drop ncap buf) = overwrite (contents ba) (m_position ba) buf"
      by (simp only: overwrite_overwrite append_take_drop_id)
    moreover have "contents ?ba' = overwrite (contents ba) (m_position ba) ?ys"
      using upd(2) [OF fit] by simp
    ultimately have "concat (map node_ptr nds) = overwrite (contents ba) (m_position ba) buf"
      unfolding c by (simp only:)
    with step w n show ?thesis by (intro exI [of _ nds]) simp
  qed
qed

text \<open>
  The contract of \<open>write\<close>: it never fails, extends the storage when needed, puts the bytes at
  \<open>m_position\<close>, and moves the position behind them.
\<close>

lemma write_ba_correct:
  assumes inv: "ba_inv ba"
  obtains ba' ext where "write_ba buf ba = Inr ba'" and "ba_inv ba'"
    and "m_position ba' = m_position ba + length buf"
    and "m_size ba' = max (m_size ba) (m_position ba + length buf)"
    and "contents ba' = overwrite (contents ba @ replicate ext None) (m_position ba) buf"
    and "m_capacity ba' = m_capacity ba + ext"
    and "m_endian ba' = m_endian ba" and "m_baseSize ba' = m_baseSize ba"
proof (cases "buf = []")
  case True
  moreover have "max (m_size ba) (m_position ba) = m_size ba" using ba_invD(5) [OF inv] by simp
  ultimately show thesis using inv by (intro that [of ba 0]) (simp_all add: write_ba_def)
next
  case False
  obtain ba1 ext where add: "addCapacity (length buf) ba = Inr ba1" and inv1: "ba_inv ba1"
    and same: "m_position ba1 = m_position ba" "m_size ba1 = m_size ba"
      "m_endian ba1 = m_endian ba" "m_baseSize ba1 = m_baseSize ba"
      "m_capacity ba1 = m_capacity ba + ext"
    and cont: "contents ba1 = contents ba @ replicate ext None"
    and room: "m_position ba + length buf \<le> m_capacity ba1"
    using inv by (rule addCapacity_correct [of ba "length buf"]) (rule that, assumption+)
  let ?b = "m_baseSize ba1" and ?p = "m_position ba1" and ?n = "length (m_nodes ba1)"
  let ?i = "?p div ?b" and ?npos = "?p mod ?b"
  note i1 = ba_invD [OF inv1]
  have "?p < ?n * ?b" using room False i1(4) same(1) by (cases buf) auto
  then have cur: "m_cur ba1 = Some ?i" and i: "?i < ?n"
    using i1(1,8) by (simp_all add: cur_at_less div_less_iff_less_mult)
  have nd: "node_size (m_nodes ba1 ! ?i) = ?b" using nodes_ok_nth [OF i1(3) i] by simp
  have pos: "?p = ?i * ?b + ?npos" by simp
  have lt: "?npos < ?b" using i1(1) by simp
  have fits: "?p + length buf \<le> ?n * ?b" using room i1(4) same(1) by simp
  obtain nds where wl: "write_loop ba1 buf ?npos (?b - ?npos)
      = Inr (ba1\<lparr>m_nodes := nds, m_position := ?p + length buf,
          m_cur := cur_at ?b (length nds) (?p + length buf)\<rparr>)"
    and n: "nodes_ok ?b nds" "length nds = ?n"
    and c: "concat (map node_ptr nds) = overwrite (contents ba1) ?p buf"
    using write_loop_correct [OF i1(3) i1(1) cur i pos lt refl False fits] by blast
  let ?ba' = "ba1\<lparr>m_nodes := nds, m_position := ?p + length buf,
      m_cur := cur_at ?b (length nds) (?p + length buf),
      m_size := max (m_size ba1) (?p + length buf)\<rparr>"
  have "write_ba buf ba = Inr ?ba'"
    using False add wl cur i nd lt i1(1)
    by (simp add: write_ba_def deref_def Let_def max_def)
  moreover have "ba_inv ?ba'"
    using i1 n room same by (auto simp: ba_inv_def)
  moreover have "contents ?ba' = overwrite (contents ba @ replicate ext None) (m_position ba) buf"
    using c cont same(1) by simp
  ultimately show thesis using same by (intro that [of ?ba' ext]) simp_all
qed

subsection \<open>Reading\<close>

lemma read_loop_correct:
  assumes "nodes_ok b nds" and "0 < b" and "i < length nds" and "npos < b" and "0 < n"
    and "i * b + npos + n \<le> length nds * b"
  shows "read_loop nds (Some i) npos (b - npos) n
    = Inr (take n (drop (i * b + npos) (concat (map node_ptr nds))),
           cur_at b (length nds) (i * b + npos + n))"
  using assms
proof (induction n arbitrary: npos i rule: less_induct)
  case (less n)
  let ?nd = "nds ! i" and ?c = "concat (map node_ptr nds)"
  have nd: "node_size ?nd = b" "length (node_ptr ?nd) = b"
    using nodes_ok_nth [OF less.prems(1,3)] by simp_all
  have chunk: "take m (drop npos (node_ptr ?nd)) = take m (drop (i * b + npos) ?c)"
    if "npos + m \<le> b" for m
    using that concat_chunk_read [OF nodes_ok_chunks [OF less.prems(1)], of i npos m] less.prems(3)
    by simp
  show ?case
  proof (cases "n \<le> b - npos")
    case True
    then have "npos + n \<le> b" using less.prems(4) by simp
    then show ?thesis
      using True nd less.prems chunk [of n] cursor_after [of b i "length nds" npos n]
      by (simp add: read_loop.simps [of nds "Some i"] memcpy_out_def next_of_def add.assoc)
  next
    case False
    let ?m = "b - npos"
    have pos': "i * b + npos + ?m = Suc i * b" using less.prems(4) by simp
    have "Suc i * b < length nds * b" using False less.prems(6) pos' by simp
    then have i': "Suc i < length nds" by (simp only: mult_less_cancel2)
    have nd': "node_size (nds ! Suc i) = b" using nodes_ok_nth [OF less.prems(1) i'] by simp
    have "read_loop nds (Some (Suc i)) 0 (b - 0) (n - ?m)
        = Inr (take (n - ?m) (drop (Suc i * b + 0) ?c),
               cur_at b (length nds) (Suc i * b + 0 + (n - ?m)))"
      using False less.prems i' pos' by (intro less.IH) simp_all
    moreover have "take n (drop (i * b + npos) ?c)
        = take ?m (drop (i * b + npos) ?c) @ take (n - ?m) (drop (Suc i * b) ?c)"
      using take_drop_split [of ?m "n - ?m" "i * b + npos" ?c] False pos' by simp
    moreover have "Suc i * b + (n - ?m) = i * b + npos + n" using False pos' by simp
    ultimately show ?thesis
      using False nd nd' i' less.prems chunk [of ?m]
      by (simp add: read_loop.simps [of nds "Some i" npos] memcpy_out_def next_of_def deref_def
          ac_simps)
  qed
qed

text \<open>
  The contract of \<open>read(buf, size)\<close>, where the cursor is not null: it returns the next bytes, moves
  past them and changes nothing else; asking for more than \<open>getReadSize()\<close> throws.
\<close>

lemma read_ba_out_of_range:
  "ba_inv ba \<Longrightarrow> m_size ba < m_position ba + n \<Longrightarrow> read_ba n ba = Inl OutOfRange"
  by (auto simp: read_ba_def dest: ba_invD(5))

lemma read_ba_exact:
  assumes inv: "ba_inv ba" and n: "0 < n" "m_position ba + n \<le> m_size ba"
  shows "read_ba n ba = Inr (take n (drop (m_position ba) (contents ba)),
    ba\<lparr>m_cur := cur_at (m_baseSize ba) (length (m_nodes ba)) (m_position ba + n),
       m_position := m_position ba + n\<rparr>)"
proof -
  let ?b = "m_baseSize ba" and ?p = "m_position ba" and ?k = "length (m_nodes ba)"
  let ?i = "?p div ?b" and ?npos = "?p mod ?b"
  note iv = ba_invD [OF inv]
  have "?p < ?k * ?b" using n iv(4,6) by simp
  then have cur: "m_cur ba = Some ?i" and i: "?i < ?k"
    using iv(1,8) by (simp_all add: cur_at_less div_less_iff_less_mult)
  have nd: "node_size (m_nodes ba ! ?i) = ?b" using nodes_ok_nth [OF iv(3) i] by simp
  have lt: "?npos < ?b" using iv(1) by simp
  have "?i * ?b + ?npos + n \<le> ?k * ?b" using n iv(4,6) by simp
  from read_loop_correct [OF iv(3) iv(1) i lt n(1) this]
  have "read_loop (m_nodes ba) (Some ?i) ?npos (?b - ?npos) n
    = Inr (take n (drop ?p (contents ba)), cur_at ?b ?k (?p + n))"
    by (simp add: contents_def)
  then show ?thesis
    using inv n cur i nd lt iv(1) by (simp add: read_ba_def deref_def Let_def)
qed

lemma read_ba_correct:
  assumes inv: "ba_inv ba" and n: "0 < n" "m_position ba + n \<le> m_size ba"
  obtains ba' where "read_ba n ba = Inr (take n (drop (m_position ba) (contents ba)), ba')"
    and "ba_inv ba'" and "m_position ba' = m_position ba + n" and "m_size ba' = m_size ba"
    and "contents ba' = contents ba" and "m_endian ba' = m_endian ba"
    and "m_capacity ba' = m_capacity ba" and "m_baseSize ba' = m_baseSize ba"
proof -
  let ?p = "m_position ba" and ?k = "length (m_nodes ba)"
  have "ba_inv (ba\<lparr>m_cur := cur_at (m_baseSize ba) ?k (?p + n), m_position := ?p + n\<rparr>)"
    using ba_invD [OF inv] n by (simp add: ba_inv_def)
  with read_ba_exact [OF assms] show thesis by (rule that) (simp_all add: contents_def)
qed

lemma read_ba_zero:
  assumes "ba_inv ba"
  shows "read_ba 0 ba = (if m_position ba = m_capacity ba then Inl NullDeref else Inr ([], ba))"
proof (cases "m_position ba = m_capacity ba")
  case True
  then show ?thesis
    using ba_invD [OF assms] assms by (simp add: read_ba_def deref_def cur_at_end Let_def)
next
  case False
  then have "m_position ba < length (m_nodes ba) * m_baseSize ba"
    using ba_invD [OF assms] by simp
  then show ?thesis
    using ba_invD [OF assms] assms False
    by (simp add: read_ba_def deref_def cur_at_less div_less_iff_less_mult Let_def
        read_loop.simps [of _ _ _ _ 0])
qed

end
