(* ===== verification/ByteChannel.thy ===== *)
theory ByteChannel
  imports Prelude
begin

text \<open>
  The interface between a byte store and the codecs written over it. \<open>byte_source\<close> is what a
  decoder relies on (reading consumes a prefix of what is available, and fails cleanly when there
  is not enough), \<open>byte_buffer\<close> adds what an encoder relies on (writing appends at the position)
  and the law of seeking back. The calculus of \<open>parses\<close> and \<open>emits\<close> is proved once here and used
  for every data type of the wire format.
\<close>

locale byte_source =
  fixes inv :: "'s \<Rightarrow> bool"
    and ctx :: "'s \<Rightarrow> 'c"
    and avail :: "'s \<Rightarrow> cell list"
    and rd :: "nat \<Rightarrow> 's \<Rightarrow> (cell list \<times> 's) result"
  assumes rd_ok: "inv s \<Longrightarrow> 0 < n \<Longrightarrow> n \<le> length (avail s) \<Longrightarrow>
      \<exists>s'. rd n s = Inr (take n (avail s), s') \<and> inv s' \<and> ctx s' = ctx s \<and> avail s' = drop n (avail s)"
    and rd_short: "inv s \<Longrightarrow> length (avail s) < n \<Longrightarrow> rd n s = Inl OutOfRange"
begin

text \<open>\<open>parses f c bs v\<close>: in context \<open>c\<close>, with the bytes \<open>bs\<close> next in the input, the decoder \<open>f\<close>
  consumes exactly those and returns \<open>v\<close>.\<close>

definition parses :: "('s \<Rightarrow> ('v \<times> 's) result) \<Rightarrow> 'c \<Rightarrow> u8 list \<Rightarrow> 'v \<Rightarrow> bool" where
  "parses f c bs v \<longleftrightarrow> (\<forall>s rest. inv s \<and> ctx s = c \<and> avail s = map Some bs @ rest \<longrightarrow>
     (\<exists>s'. f s = Inr (v, s') \<and> inv s' \<and> ctx s' = c \<and> avail s' = rest))"

lemma parsesI:
  assumes "\<And>s rest. inv s \<Longrightarrow> ctx s = c \<Longrightarrow> avail s = map Some bs @ rest \<Longrightarrow>
    \<exists>s'. f s = Inr (v, s') \<and> inv s' \<and> ctx s' = c \<and> avail s' = rest"
  shows "parses f c bs v"
  using assms by (simp add: parses_def)

lemma parsesE:
  assumes "parses f c bs v" and "inv s" and "ctx s = c" and "avail s = map Some bs @ rest"
  obtains s' where "f s = Inr (v, s')" and "inv s'" and "ctx s' = c" and "avail s' = rest"
  using assms by (auto simp: parses_def)

lemma parses_rd: "bs \<noteq> [] \<Longrightarrow> length bs = n \<Longrightarrow> parses (rd n) c bs (map Some bs)"
proof (rule parsesI)
  fix s rest
  assume bs: "bs \<noteq> []" "length bs = n" and s: "inv s" "ctx s = c" "avail s = map Some bs @ rest"
  then have "0 < n" "n \<le> length (avail s)" by auto
  from rd_ok [OF s(1) this] bs s
  show "\<exists>s'. rd n s = Inr (map Some bs, s') \<and> inv s' \<and> ctx s' = c \<and> avail s' = rest"
    by auto
qed

lemma parses_return: "parses (\<lambda>s. Inr (v, s)) c [] v"
  by (rule parsesI) simp

lemma parses_bind:
  assumes "parses f c bs v" and "parses (g v) c bs' w"
  shows "parses (\<lambda>s. bind_r (f s) (\<lambda>(x, s'). g x s')) c (bs @ bs') w"
proof (rule parsesI)
  fix s rest
  assume "inv s" "ctx s = c" "avail s = map Some (bs @ bs') @ rest"
  then obtain s1 where f: "f s = Inr (v, s1)" and s1: "inv s1" "ctx s1 = c"
      "avail s1 = map Some bs' @ rest"
    using parsesE [OF assms(1), of s "map Some bs' @ rest"] by auto
  from assms(2) s1 obtain s2 where "g v s1 = Inr (w, s2)" "inv s2" "ctx s2 = c" "avail s2 = rest"
    by (rule parsesE)
  with f show "\<exists>s'. bind_r (f s) (\<lambda>(x, s'). g x s') = Inr (w, s') \<and> inv s' \<and> ctx s' = c \<and> avail s' = rest"
    by auto
qed

lemma parses_map:
  assumes "parses f c bs v"
  shows "parses (\<lambda>s. bind_r (f s) (\<lambda>(x, s'). Inr (h x, s'))) c bs (h v)"
proof -
  have "parses (\<lambda>s. bind_r (f s) (\<lambda>(x, s'). Inr (h x, s'))) c (bs @ []) (h v)"
    by (rule parses_bind [OF assms]) (rule parses_return)
  then show ?thesis by simp
qed

lemma parses_cong: "(\<And>s. ctx s = c \<Longrightarrow> f s = g s) \<Longrightarrow> parses f c bs v \<longleftrightarrow> parses g c bs v"
  by (auto simp: parses_def)

end

locale byte_buffer = byte_source inv ctx avail rd
  for inv :: "'s \<Rightarrow> bool" and ctx :: "'s \<Rightarrow> 'c" and avail :: "'s \<Rightarrow> cell list"
    and rd :: "nat \<Rightarrow> 's \<Rightarrow> (cell list \<times> 's) result" +
  fixes pos :: "'s \<Rightarrow> nat"
    and since :: "nat \<Rightarrow> 's \<Rightarrow> cell list"
    and wr :: "cell list \<Rightarrow> 's \<Rightarrow> 's result"
    and sk :: "nat \<Rightarrow> 's \<Rightarrow> 's result"
  assumes since_here: "since (pos s) s = []"
    and wr_ok: "inv s \<Longrightarrow> p \<le> pos s \<Longrightarrow>
      \<exists>s'. wr cs s = Inr s' \<and> inv s' \<and> ctx s' = ctx s \<and> pos s' = pos s + length cs
         \<and> since p s' = since p s @ cs"
    and sk_back: "inv s \<Longrightarrow> p \<le> pos s \<Longrightarrow>
      \<exists>s' rest. sk p s = Inr s' \<and> inv s' \<and> ctx s' = ctx s \<and> pos s' = p \<and> avail s' = since p s @ rest"
begin

text \<open>\<open>emits g c bs\<close>: in context \<open>c\<close> the encoder \<open>g\<close> appends exactly the bytes \<open>bs\<close>.\<close>

definition emits :: "('s \<Rightarrow> 's result) \<Rightarrow> 'c \<Rightarrow> u8 list \<Rightarrow> bool" where
  "emits g c bs \<longleftrightarrow> (\<forall>s p. inv s \<and> ctx s = c \<and> p \<le> pos s \<longrightarrow>
     (\<exists>s'. g s = Inr s' \<and> inv s' \<and> ctx s' = c \<and> pos s' = pos s + length bs
        \<and> since p s' = since p s @ map Some bs))"

lemma emitsE:
  assumes "emits g c bs" and "inv s" and "ctx s = c" and "p \<le> pos s"
  obtains s' where "g s = Inr s'" and "inv s'" and "ctx s' = c" and "pos s' = pos s + length bs"
    and "since p s' = since p s @ map Some bs"
  using assms by (auto simp: emits_def)

lemma emits_wr: "emits (wr (map Some bs)) c bs"
  unfolding emits_def using wr_ok by force

lemma emits_skip: "emits Inr c []"
  by (simp add: emits_def)

lemma emits_seq:
  assumes "emits g c bs" and "emits h c bs'"
  shows "emits (\<lambda>s. bind_r (g s) h) c (bs @ bs')"
  unfolding emits_def
proof (intro allI impI)
  fix s p
  assume s: "inv s \<and> ctx s = c \<and> p \<le> pos s"
  then obtain s1 where g: "g s = Inr s1" and s1: "inv s1" "ctx s1 = c" "pos s1 = pos s + length bs"
      "since p s1 = since p s @ map Some bs"
    using emitsE [OF assms(1)] by metis
  have "p \<le> pos s1" using s s1 by simp
  with assms(2) s1(1,2) obtain s2 where "h s1 = Inr s2" "inv s2" "ctx s2 = c"
      "pos s2 = pos s1 + length bs'" "since p s2 = since p s1 @ map Some bs'"
    by (rule emitsE)
  with g s1 show "\<exists>s'. bind_r (g s) h = Inr s' \<and> inv s' \<and> ctx s' = c
      \<and> pos s' = pos s + length (bs @ bs') \<and> since p s' = since p s @ map Some (bs @ bs')"
    by simp
qed

lemma emits_cong: "(\<And>s. ctx s = c \<Longrightarrow> f s = g s) \<Longrightarrow> emits f c bs \<longleftrightarrow> emits g c bs"
  by (auto simp: emits_def)

text \<open>Write, seek back to where the writing began, read: the value comes back.\<close>

theorem roundtrip:
  assumes "emits g c bs" and "parses f c bs v" and s: "inv s" "ctx s = c"
  shows "\<exists>s'. bind_r (g s) (\<lambda>s1. bind_r (sk (pos s) s1) f) = Inr (v, s')
    \<and> inv s' \<and> ctx s' = c"
proof -
  obtain s1 where g: "g s = Inr s1" and s1: "inv s1" "ctx s1 = c" "pos s1 = pos s + length bs"
      "since (pos s) s1 = map Some bs"
    by (rule emitsE [OF assms(1) s order_refl]) (simp add: since_here)
  then obtain s2 rest where sk: "sk (pos s) s1 = Inr s2" and s2: "inv s2" "ctx s2 = c"
      "avail s2 = map Some bs @ rest"
    using sk_back [OF s1(1), of "pos s"] by auto
  from assms(2) s2 obtain s3 where "f s2 = Inr (v, s3)" "inv s3" "ctx s3 = c"
    by (rule parsesE)
  with g sk show ?thesis by simp
qed

end

end
