(* ===== verification/ByteArrayCodec.thy ===== *)
theory ByteArrayCodec
  imports ByteArray ByteChannel
begin

text \<open>
  The typed members of class \<open>ByteArray\<close> (\<open>src/utils/bytearray.cc\<close>): fixed-width integers in the
  byte order of the array, zigzag varints, floating point values and length-prefixed strings. A
  signed integer is its bit pattern; a \<open>float\<close> or \<open>double\<close> is the pattern the source copies into an
  unsigned integer with \<open>memcpy\<close>; a \<open>std::string\<close> is its list of bytes. A byte that was never
  written is an error when an integer or a string is built from it. Allocation failure of the
  result string (\<open>buff.resize(len)\<close>) is not modelled.
\<close>

definition cells_bytes :: "cell list \<Rightarrow> u8 list result" where
  "cells_bytes cs = (case those cs of None \<Rightarrow> Inl Indeterminate | Some bs \<Rightarrow> Inr bs)"

subsection \<open>Writers\<close>

definition write_int :: "'a::len word \<Rightarrow> byte_array \<Rightarrow> byte_array result" where
  "write_int v ba = write_ba (map Some (mem_bytes v)) ba"

definition writeFint8 :: "u8 \<Rightarrow> byte_array \<Rightarrow> byte_array result" where
  "writeFint8 v ba = write_int v ba"

definition writeFuint8 :: "u8 \<Rightarrow> byte_array \<Rightarrow> byte_array result" where
  "writeFuint8 v ba = write_int v ba"

definition writeFint16 :: "u16 \<Rightarrow> byte_array \<Rightarrow> byte_array result" where
  "writeFint16 v ba =
     write_int (if m_endian ba \<noteq> PHASE0_BYTE_ORDER then byteswap v else v) ba"

definition writeFuint16 :: "u16 \<Rightarrow> byte_array \<Rightarrow> byte_array result" where
  "writeFuint16 v ba =
     write_int (if m_endian ba \<noteq> PHASE0_BYTE_ORDER then byteswap v else v) ba"

definition writeFint32 :: "u32 \<Rightarrow> byte_array \<Rightarrow> byte_array result" where
  "writeFint32 v ba =
     write_int (if m_endian ba \<noteq> PHASE0_BYTE_ORDER then byteswap v else v) ba"

definition writeFuint32 :: "u32 \<Rightarrow> byte_array \<Rightarrow> byte_array result" where
  "writeFuint32 v ba =
     write_int (if m_endian ba \<noteq> PHASE0_BYTE_ORDER then byteswap v else v) ba"

definition writeFint64 :: "u64 \<Rightarrow> byte_array \<Rightarrow> byte_array result" where
  "writeFint64 v ba =
     write_int (if m_endian ba \<noteq> PHASE0_BYTE_ORDER then byteswap v else v) ba"

definition writeFuint64 :: "u64 \<Rightarrow> byte_array \<Rightarrow> byte_array result" where
  "writeFuint64 v ba =
     write_int (if m_endian ba \<noteq> PHASE0_BYTE_ORDER then byteswap v else v) ba"

definition writeUint32 :: "u32 \<Rightarrow> byte_array \<Rightarrow> byte_array result" where
  "writeUint32 v ba = write_ba (map Some (varint_bytes v)) ba"

definition writeInt32 :: "u32 \<Rightarrow> byte_array \<Rightarrow> byte_array result" where
  "writeInt32 v ba = writeUint32 (EncodeZigzag32 v) ba"

definition writeUint64 :: "u64 \<Rightarrow> byte_array \<Rightarrow> byte_array result" where
  "writeUint64 v ba = write_ba (map Some (varint_bytes v)) ba"

definition writeInt64 :: "u64 \<Rightarrow> byte_array \<Rightarrow> byte_array result" where
  "writeInt64 v ba = writeUint64 (EncodeZigzag64 v) ba"

definition writeFloat :: "u32 \<Rightarrow> byte_array \<Rightarrow> byte_array result" where
  "writeFloat v ba = writeFuint32 v ba"

definition writeDouble :: "u64 \<Rightarrow> byte_array \<Rightarrow> byte_array result" where
  "writeDouble v ba = writeFuint64 v ba"

definition writeStringWithoutLength :: "u8 list \<Rightarrow> byte_array \<Rightarrow> byte_array result" where
  "writeStringWithoutLength v ba = write_ba (map Some v) ba"

definition writeStringF16 :: "u8 list \<Rightarrow> byte_array \<Rightarrow> byte_array result" where
  "writeStringF16 v ba =
     bind_r (writeFuint16 (word_of_nat (length v)) ba) (write_ba (map Some v))"

definition writeStringF32 :: "u8 list \<Rightarrow> byte_array \<Rightarrow> byte_array result" where
  "writeStringF32 v ba =
     bind_r (writeFuint32 (word_of_nat (length v)) ba) (write_ba (map Some v))"

definition writeStringF64 :: "u8 list \<Rightarrow> byte_array \<Rightarrow> byte_array result" where
  "writeStringF64 v ba =
     bind_r (writeFuint64 (word_of_nat (length v)) ba) (write_ba (map Some v))"

definition writeStringVint :: "u8 list \<Rightarrow> byte_array \<Rightarrow> byte_array result" where
  "writeStringVint v ba =
     bind_r (writeUint64 (word_of_nat (length v)) ba) (write_ba (map Some v))"

subsection \<open>Readers\<close>

text \<open>The body the macro \<open>XX(type)\<close> expands to, for the type of the result.\<close>

definition read_int :: "byte_array \<Rightarrow> ('a::len word \<times> byte_array) result" where
  "read_int ba = bind_r (read_ba (LENGTH('a) div 8) ba) (\<lambda>(cs, ba').
     bind_r (cells_bytes cs) (\<lambda>bs. Inr (mem_value bs, ba')))"

definition read_swap :: "byte_array \<Rightarrow> ('a::len word \<times> byte_array) result" where
  "read_swap ba = bind_r (read_int ba) (\<lambda>(v, ba').
     Inr (if m_endian ba = PHASE0_BYTE_ORDER then v else byteswap v, ba'))"

definition readFint8 :: "byte_array \<Rightarrow> (u8 \<times> byte_array) result" where
  "readFint8 ba = read_int ba"

definition readFuint8 :: "byte_array \<Rightarrow> (u8 \<times> byte_array) result" where
  "readFuint8 ba = read_int ba"

definition readFint16 :: "byte_array \<Rightarrow> (u16 \<times> byte_array) result" where
  "readFint16 ba = read_swap ba"

definition readFuint16 :: "byte_array \<Rightarrow> (u16 \<times> byte_array) result" where
  "readFuint16 ba = read_swap ba"

definition readFint32 :: "byte_array \<Rightarrow> (u32 \<times> byte_array) result" where
  "readFint32 ba = read_swap ba"

definition readFuint32 :: "byte_array \<Rightarrow> (u32 \<times> byte_array) result" where
  "readFuint32 ba = read_swap ba"

definition readFint64 :: "byte_array \<Rightarrow> (u64 \<times> byte_array) result" where
  "readFint64 ba = read_swap ba"

definition readFuint64 :: "byte_array \<Rightarrow> (u64 \<times> byte_array) result" where
  "readFuint64 ba = read_swap ba"

text \<open>The loop \<open>for (int i = 0; i < bits; i += 7)\<close> of \<open>readUint32\<close> and \<open>readUint64\<close>.\<close>

function readUint_loop ::
  "nat \<Rightarrow> nat \<Rightarrow> 'a::len word \<Rightarrow> byte_array \<Rightarrow> ('a word \<times> byte_array) result" where
  "readUint_loop bits i res ba =
     (if i < bits then
        bind_r (readFuint8 ba) (\<lambda>(b, ba').
          if unat b < 128 then Inr (res OR push_bit i (ucast b), ba')
          else readUint_loop bits (i + 7) (res OR push_bit i (ucast (b AND 0x7F))) ba')
      else Inr (res, ba))"
  by pat_completeness auto
termination
  by (relation "measure (\<lambda>(bits, i, res, ba). bits - i)") auto

declare readUint_loop.simps [simp del]

definition readUint32 :: "byte_array \<Rightarrow> (u32 \<times> byte_array) result" where
  "readUint32 ba = readUint_loop 32 0 0 ba"

definition readInt32 :: "byte_array \<Rightarrow> (u32 \<times> byte_array) result" where
  "readInt32 ba = bind_r (readUint32 ba) (\<lambda>(v, ba'). Inr (DecodeZigzag32 v, ba'))"

definition readUint64 :: "byte_array \<Rightarrow> (u64 \<times> byte_array) result" where
  "readUint64 ba = readUint_loop 64 0 0 ba"

definition readInt64 :: "byte_array \<Rightarrow> (u64 \<times> byte_array) result" where
  "readInt64 ba = bind_r (readUint64 ba) (\<lambda>(v, ba'). Inr (DecodeZigzag64 v, ba'))"

definition readFloat :: "byte_array \<Rightarrow> (u32 \<times> byte_array) result" where
  "readFloat ba = readFuint32 ba"

definition readDouble :: "byte_array \<Rightarrow> (u64 \<times> byte_array) result" where
  "readDouble ba = readFuint64 ba"

definition read_str :: "nat \<Rightarrow> byte_array \<Rightarrow> (u8 list \<times> byte_array) result" where
  "read_str len ba = bind_r (read_ba len ba) (\<lambda>(cs, ba').
     bind_r (cells_bytes cs) (\<lambda>bs. Inr (bs, ba')))"

definition readStringF16 :: "byte_array \<Rightarrow> (u8 list \<times> byte_array) result" where
  "readStringF16 ba = bind_r (readFuint16 ba) (\<lambda>(len, ba'). read_str (unat len) ba')"

definition readStringF32 :: "byte_array \<Rightarrow> (u8 list \<times> byte_array) result" where
  "readStringF32 ba = bind_r (readFuint32 ba) (\<lambda>(len, ba'). read_str (unat len) ba')"

definition readStringF64 :: "byte_array \<Rightarrow> (u8 list \<times> byte_array) result" where
  "readStringF64 ba = bind_r (readFuint64 ba) (\<lambda>(len, ba'). read_str (unat len) ba')"

definition readStringVint :: "byte_array \<Rightarrow> (u8 list \<times> byte_array) result" where
  "readStringVint ba = bind_r (readUint64 ba) (\<lambda>(len, ba'). read_str (unat len) ba')"

subsection \<open>A byte array is a byte buffer\<close>

definition unread :: "byte_array \<Rightarrow> cell list" where
  "unread ba = take (m_size ba - m_position ba) (drop (m_position ba) (contents ba))"

definition written_since :: "nat \<Rightarrow> byte_array \<Rightarrow> cell list" where
  "written_since p ba = take (m_position ba - p) (drop p (contents ba))"

lemma length_unread: "ba_inv ba \<Longrightarrow> length (unread ba) = m_size ba - m_position ba"
  using length_contents [of ba] ba_invD(6) [of ba] by (simp add: unread_def)

lemma overwrite_prefix:
  assumes "q \<le> p" and "p \<le> length xs"
  shows "take (p + length ys - q) (drop q (overwrite xs p ys)) = take (p - q) (drop q xs) @ ys"
  using assms by (simp add: overwrite_def take_drop)

interpretation ba: byte_buffer ba_inv m_endian unread read_ba m_position written_since
  write_ba setPosition
proof
  fix s n
  assume s: "ba_inv s" and n: "0 < n" "n \<le> length (unread s)"
  then have n': "m_position s + n \<le> m_size s" by (simp add: length_unread)
  from s n(1) n' obtain s' where "read_ba n s = Inr (take n (drop (m_position s) (contents s)), s')"
    "ba_inv s'" "m_position s' = m_position s + n" "m_size s' = m_size s"
    "contents s' = contents s" "m_endian s' = m_endian s"
    by (rule read_ba_correct)
  with n' show "\<exists>s'. read_ba n s = Inr (take n (unread s), s') \<and> ba_inv s'
      \<and> m_endian s' = m_endian s \<and> unread s' = drop n (unread s)"
    by (intro exI [of _ s']) (simp add: unread_def drop_take min_absorb1 add.commute)
next
  fix s n
  assume "ba_inv s" "length (unread s) < n"
  then show "read_ba n s = Inl OutOfRange"
    using ba_invD(5) [of s] by (intro read_ba_out_of_range) (auto simp: length_unread)
next
  fix s
  show "written_since (m_position s) s = []" by (simp add: written_since_def)
next
  fix s p cs
  assume s: "ba_inv s" "p \<le> m_position s"
  obtain s' ext where w: "write_ba cs s = Inr s'" "ba_inv s'" "m_position s' = m_position s + length cs"
    "contents s' = overwrite (contents s @ replicate ext None) (m_position s) cs"
    "m_endian s' = m_endian s"
    by (rule write_ba_correct [OF s(1)])
  have "m_position s \<le> length (contents s)"
    using length_contents [OF s(1)] ba_invD(7) [OF s(1)] by simp
  then have "written_since p s' = written_since p s @ cs"
    using w s by (simp add: written_since_def overwrite_prefix)
  with w show "\<exists>s'. write_ba cs s = Inr s' \<and> ba_inv s' \<and> m_endian s' = m_endian s
      \<and> m_position s' = m_position s + length cs \<and> written_since p s' = written_since p s @ cs"
    by blast
next
  fix s p
  assume s: "ba_inv s" "p \<le> m_position s"
  then have "p \<le> m_capacity s" using ba_invD(7) [of s] by simp
  with s(1) obtain s' where sp: "setPosition p s = Inr s'" "ba_inv s'" "m_position s' = p"
    "m_size s' = max (m_size s) p" "contents s' = contents s" "m_endian s' = m_endian s"
    by (rule setPosition_correct)
  have "unread s' = written_since p s
      @ take (m_size s' - m_position s) (drop (m_position s) (contents s))"
    using sp s ba_invD(5) [OF s(1)]
      take_drop_split [of "m_position s - p" "m_size s - m_position s" p "contents s"]
    by (simp add: unread_def written_since_def)
  with sp show "\<exists>s' rest. setPosition p s = Inr s' \<and> ba_inv s' \<and> m_endian s' = m_endian s
      \<and> m_position s' = p \<and> unread s' = written_since p s @ rest"
    by blast
qed

subsection \<open>Every reader inverts its writer\<close>

text \<open>The bytes a value takes on the wire, for the byte order of the array.\<close>

definition wire :: "endian \<Rightarrow> 'a::len word \<Rightarrow> u8 list" where
  "wire e v = mem_bytes (if e \<noteq> PHASE0_BYTE_ORDER then byteswap v else v)"

lemma those_map_Some [simp]: "those (map Some bs) = Some bs"
  by (induction bs) auto

lemma cells_bytes_map_Some [simp]: "cells_bytes (map Some bs) = Inr bs"
  by (simp add: cells_bytes_def)

lemma parses_read_str:
  assumes "bs \<noteq> []" and "length bs = n"
  shows "ba.parses (read_str n) e bs bs"
proof -
  have "ba.parses (\<lambda>s. bind_r (read_ba n s) (\<lambda>(cs, s'). bind_r (cells_bytes cs)
      (\<lambda>bs. Inr (bs, s')))) e (bs @ []) bs"
    by (rule ba.parses_bind [OF ba.parses_rd [OF assms]]) (simp add: ba.parses_return)
  then show ?thesis by (simp add: read_str_def [abs_def])
qed

lemma parses_read_int:
  assumes "bs \<noteq> []" and "length bs = LENGTH('a::len) div 8"
  shows "ba.parses read_int e bs (mem_value bs :: 'a word)"
proof -
  have "(read_int ba :: ('a word \<times> byte_array) result) = bind_r (read_str (LENGTH('a) div 8) ba) (\<lambda>(bs, ba'). Inr (mem_value bs, ba'))"
    for ba :: byte_array
    by (auto simp: read_int_def read_str_def bind_r_assoc split_def)
  then show ?thesis
    using ba.parses_map [OF parses_read_str [OF assms], of "mem_value :: u8 list \<Rightarrow> 'a word" e]
    by (simp add: ba.parses_def)
qed

lemma parses_read_swap:
  fixes v :: "'a::len word"
  assumes "8 dvd LENGTH('a)"
  shows "ba.parses read_swap e (wire e v) v"
proof -
  let ?w = "if e \<noteq> PHASE0_BYTE_ORDER then byteswap v else v"
  let ?h = "\<lambda>x :: 'a word. if e = PHASE0_BYTE_ORDER then x else byteswap x"
  have "0 < LENGTH('a) div 8" using assms by (simp add: div_greater_zero_iff dvd_imp_le)
  then have "wire e v \<noteq> []" "length (wire e v) = LENGTH('a) div 8"
    by (auto simp: wire_def size_of_def dest: arg_cong [where f = length])
  then have "ba.parses read_int e (wire e v) (mem_value (wire e v) :: 'a word)"
    by (rule parses_read_int)
  moreover have "mem_value (wire e v) = ?w"
    using assms by (simp add: wire_def mem_value_mem_bytes)
  ultimately have "ba.parses read_int e (wire e v) ?w" by (simp only:)
  then have "ba.parses (\<lambda>ba. bind_r (read_int ba) (\<lambda>(x, ba'). Inr (?h x, ba'))) e
      (wire e v) (?h ?w)"
    by (rule ba.parses_map)
  moreover have "?h ?w = v" using assms by (simp add: byteswap_byteswap)
  ultimately show ?thesis
    by (subst ba.parses_cong [where g = "\<lambda>ba. bind_r (read_int ba) (\<lambda>(x, ba'). Inr (?h x, ba'))"])
      (auto simp: read_swap_def)
qed

lemma parses_readFuint8: "ba.parses readFuint8 e [b] b"
proof -
  have "mem_value [b] = b" by (simp add: mem_value_def)
  then show ?thesis
    using parses_read_int [of "[b]" e, where 'a = 8]
    by (simp add: readFuint8_def [abs_def])
qed

text \<open>
  The decoding loop meets the encoded bytes of the part of the value it has not read yet; what it
  has read is in \<open>res\<close>.
\<close>

lemma parses_readUint_loop:
  fixes w :: "'a::len word"
  assumes "8 \<le> LENGTH('a)" and "bits = LENGTH('a)" and "i < bits"
    and "unat w < 2 ^ (bits - i)"
  shows "ba.parses (readUint_loop bits i res) e (varint_bytes w) (res OR push_bit i w)"
  using assms(3,4)
proof (induction w arbitrary: i res rule: varint_bytes.induct)
  case (1 w)
  let ?k = "\<lambda>(b :: u8) ba'. if unat b < 128 then Inr (res OR push_bit i (ucast b), ba')
          else readUint_loop bits (i + 7) (res OR push_bit i (ucast (b AND 0x7F))) ba'"
  have loop: "readUint_loop bits i res = (\<lambda>ba. bind_r (readFuint8 ba) (\<lambda>(b, ba'). ?k b ba'))"
    using "1.prems"(1) by (intro ext) (subst readUint_loop.simps, simp)
  show ?case
  proof (cases "128 \<le> unat w")
    case False
    then have "?k (ucast w) = (\<lambda>s. Inr (res OR push_bit i w, s))"
      using varint_head_small [of w] by simp
    then have "ba.parses (\<lambda>ba. bind_r (readFuint8 ba) (\<lambda>(b, ba'). ?k b ba')) e
        ([ucast w] @ []) (res OR push_bit i w)"
      by (intro ba.parses_bind [OF parses_readFuint8]) (simp add: ba.parses_return)
    then show ?thesis using False by (simp add: loop varint_bytes_small)
  next
    case True
    let ?b = "ucast ((w AND 0x7F) OR 0x80) :: u8" and ?w' = "drop_bit 7 w"
    let ?res' = "res OR push_bit i (w AND mask 7)"
    have i: "i + 7 < bits"
    proof (rule ccontr)
      assume "\<not> i + 7 < bits"
      then have "(2::nat) ^ (bits - i) \<le> 2 ^ 7" by (intro power_increasing) auto
      with "1.prems"(2) True show False by simp
    qed
    have "unat ?w' < 2 ^ (bits - (i + 7))"
    proof -
      have "bits - i = bits - (i + 7) + 7" using i by simp
      then have "unat w < 2 ^ (bits - (i + 7)) * 2 ^ 7"
        using "1.prems"(2) by (simp only: power_add)
      then show ?thesis by (simp add: unat_drop_bit_div div_less_iff_less_mult)
    qed
    then have "ba.parses (readUint_loop bits (i + 7) ?res') e (varint_bytes ?w')
        (?res' OR push_bit (i + 7) ?w')"
      using True i by (intro "1.IH") auto
    moreover have "?k ?b = readUint_loop bits (i + 7) ?res'"
      using varint_head_big [OF assms(1), of w] varint_head_low [OF assms(1), of w] by simp
    moreover have "?res' OR push_bit (i + 7) ?w' = res OR push_bit i w"
      using word_and_mask_or_shift [of i w 7] by (simp add: or.assoc)
    ultimately have "ba.parses (\<lambda>ba. bind_r (readFuint8 ba) (\<lambda>(b, ba'). ?k b ba')) e
        ([?b] @ varint_bytes ?w') (res OR push_bit i w)"
      by (intro ba.parses_bind [OF parses_readFuint8]) simp
    then show ?thesis using True by (simp add: loop varint_bytes_big)
  qed
qed

subsection \<open>Sequences of values\<close>

text \<open>
  Any interleaving of the typed members is a list of tagged values: \<open>put\<close> calls the writer, \<open>get\<close>
  the reader of a kind, and \<open>value_bytes\<close> is the wire format.
\<close>

datatype wire_value =
    VFint8 u8
  | VFuint8 u8
  | VFint16 u16
  | VFuint16 u16
  | VFint32 u32
  | VFuint32 u32
  | VFint64 u64
  | VFuint64 u64
  | VInt32 u32
  | VUint32 u32
  | VInt64 u64
  | VUint64 u64
  | VFloat u32
  | VDouble u64
  | VStringF16 "u8 list"
  | VStringF32 "u8 list"
  | VStringF64 "u8 list"
  | VStringVint "u8 list"

datatype wire_kind =
    KFint8 | KFuint8 | KFint16 | KFuint16 | KFint32 | KFuint32 | KFint64 | KFuint64 | KInt32
  | KUint32 | KInt64 | KUint64 | KFloat | KDouble | KStringF16 | KStringF32 | KStringF64 | KStringVint

fun kind_of :: "wire_value \<Rightarrow> wire_kind" where
  "kind_of (VFint8 _) = KFint8"
| "kind_of (VFuint8 _) = KFuint8"
| "kind_of (VFint16 _) = KFint16"
| "kind_of (VFuint16 _) = KFuint16"
| "kind_of (VFint32 _) = KFint32"
| "kind_of (VFuint32 _) = KFuint32"
| "kind_of (VFint64 _) = KFint64"
| "kind_of (VFuint64 _) = KFuint64"
| "kind_of (VInt32 _) = KInt32"
| "kind_of (VUint32 _) = KUint32"
| "kind_of (VInt64 _) = KInt64"
| "kind_of (VUint64 _) = KUint64"
| "kind_of (VFloat _) = KFloat"
| "kind_of (VDouble _) = KDouble"
| "kind_of (VStringF16 _) = KStringF16"
| "kind_of (VStringF32 _) = KStringF32"
| "kind_of (VStringF64 _) = KStringF64"
| "kind_of (VStringVint _) = KStringVint"

fun put :: "wire_value \<Rightarrow> byte_array \<Rightarrow> byte_array result" where
  "put (VFint8 v) = writeFint8 v"
| "put (VFuint8 v) = writeFuint8 v"
| "put (VFint16 v) = writeFint16 v"
| "put (VFuint16 v) = writeFuint16 v"
| "put (VFint32 v) = writeFint32 v"
| "put (VFuint32 v) = writeFuint32 v"
| "put (VFint64 v) = writeFint64 v"
| "put (VFuint64 v) = writeFuint64 v"
| "put (VInt32 v) = writeInt32 v"
| "put (VUint32 v) = writeUint32 v"
| "put (VInt64 v) = writeInt64 v"
| "put (VUint64 v) = writeUint64 v"
| "put (VFloat v) = writeFloat v"
| "put (VDouble v) = writeDouble v"
| "put (VStringF16 v) = writeStringF16 v"
| "put (VStringF32 v) = writeStringF32 v"
| "put (VStringF64 v) = writeStringF64 v"
| "put (VStringVint v) = writeStringVint v"

fun get :: "wire_kind \<Rightarrow> byte_array \<Rightarrow> (wire_value \<times> byte_array) result" where
  "get KFint8 = (\<lambda>ba. bind_r (readFint8 ba) (\<lambda>(v, ba'). Inr (VFint8 v, ba')))"
| "get KFuint8 = (\<lambda>ba. bind_r (readFuint8 ba) (\<lambda>(v, ba'). Inr (VFuint8 v, ba')))"
| "get KFint16 = (\<lambda>ba. bind_r (readFint16 ba) (\<lambda>(v, ba'). Inr (VFint16 v, ba')))"
| "get KFuint16 = (\<lambda>ba. bind_r (readFuint16 ba) (\<lambda>(v, ba'). Inr (VFuint16 v, ba')))"
| "get KFint32 = (\<lambda>ba. bind_r (readFint32 ba) (\<lambda>(v, ba'). Inr (VFint32 v, ba')))"
| "get KFuint32 = (\<lambda>ba. bind_r (readFuint32 ba) (\<lambda>(v, ba'). Inr (VFuint32 v, ba')))"
| "get KFint64 = (\<lambda>ba. bind_r (readFint64 ba) (\<lambda>(v, ba'). Inr (VFint64 v, ba')))"
| "get KFuint64 = (\<lambda>ba. bind_r (readFuint64 ba) (\<lambda>(v, ba'). Inr (VFuint64 v, ba')))"
| "get KInt32 = (\<lambda>ba. bind_r (readInt32 ba) (\<lambda>(v, ba'). Inr (VInt32 v, ba')))"
| "get KUint32 = (\<lambda>ba. bind_r (readUint32 ba) (\<lambda>(v, ba'). Inr (VUint32 v, ba')))"
| "get KInt64 = (\<lambda>ba. bind_r (readInt64 ba) (\<lambda>(v, ba'). Inr (VInt64 v, ba')))"
| "get KUint64 = (\<lambda>ba. bind_r (readUint64 ba) (\<lambda>(v, ba'). Inr (VUint64 v, ba')))"
| "get KFloat = (\<lambda>ba. bind_r (readFloat ba) (\<lambda>(v, ba'). Inr (VFloat v, ba')))"
| "get KDouble = (\<lambda>ba. bind_r (readDouble ba) (\<lambda>(v, ba'). Inr (VDouble v, ba')))"
| "get KStringF16 = (\<lambda>ba. bind_r (readStringF16 ba) (\<lambda>(v, ba'). Inr (VStringF16 v, ba')))"
| "get KStringF32 = (\<lambda>ba. bind_r (readStringF32 ba) (\<lambda>(v, ba'). Inr (VStringF32 v, ba')))"
| "get KStringF64 = (\<lambda>ba. bind_r (readStringF64 ba) (\<lambda>(v, ba'). Inr (VStringF64 v, ba')))"
| "get KStringVint = (\<lambda>ba. bind_r (readStringVint ba) (\<lambda>(v, ba'). Inr (VStringVint v, ba')))"

fun value_bytes :: "endian \<Rightarrow> wire_value \<Rightarrow> u8 list" where
  "value_bytes e (VFint8 v) = mem_bytes v"
| "value_bytes e (VFuint8 v) = mem_bytes v"
| "value_bytes e (VFint16 v) = wire e v"
| "value_bytes e (VFuint16 v) = wire e v"
| "value_bytes e (VFint32 v) = wire e v"
| "value_bytes e (VFuint32 v) = wire e v"
| "value_bytes e (VFint64 v) = wire e v"
| "value_bytes e (VFuint64 v) = wire e v"
| "value_bytes e (VInt32 v) = varint_bytes (EncodeZigzag32 v)"
| "value_bytes e (VUint32 v) = varint_bytes v"
| "value_bytes e (VInt64 v) = varint_bytes (EncodeZigzag64 v)"
| "value_bytes e (VUint64 v) = varint_bytes v"
| "value_bytes e (VFloat v) = wire e v"
| "value_bytes e (VDouble v) = wire e v"
| "value_bytes e (VStringF16 v) = wire e (word_of_nat (length v) :: u16) @ v"
| "value_bytes e (VStringF32 v) = wire e (word_of_nat (length v) :: u32) @ v"
| "value_bytes e (VStringF64 v) = wire e (word_of_nat (length v) :: u64) @ v"
| "value_bytes e (VStringVint v) = varint_bytes (word_of_nat (length v) :: u64) @ v"

text \<open>A string must be non-empty and its length must fit the prefix.\<close>

fun value_ok :: "wire_value \<Rightarrow> bool" where
  "value_ok (VStringF16 v) \<longleftrightarrow> v \<noteq> [] \<and> length v < 2 ^ 16"
| "value_ok (VStringF32 v) \<longleftrightarrow> v \<noteq> [] \<and> length v < 2 ^ 32"
| "value_ok (VStringF64 v) \<longleftrightarrow> v \<noteq> [] \<and> length v < 2 ^ 64"
| "value_ok (VStringVint v) \<longleftrightarrow> v \<noteq> [] \<and> length v < 2 ^ 64"
| "value_ok _ \<longleftrightarrow> True"

fun put_all :: "wire_value list \<Rightarrow> byte_array \<Rightarrow> byte_array result" where
  "put_all [] ba = Inr ba"
| "put_all (v # vs) ba = bind_r (put v ba) (put_all vs)"

fun get_all :: "wire_kind list \<Rightarrow> byte_array \<Rightarrow> (wire_value list \<times> byte_array) result" where
  "get_all [] ba = Inr ([], ba)"
| "get_all (k # ks) ba = bind_r (get k ba) (\<lambda>(v, ba').
     bind_r (get_all ks ba') (\<lambda>(vs, ba''). Inr (v # vs, ba'')))"

lemmas write_defs =
  writeFint8_def [abs_def] writeFuint8_def [abs_def] writeFint16_def [abs_def]
  writeFuint16_def [abs_def] writeFint32_def [abs_def] writeFuint32_def [abs_def]
  writeFint64_def [abs_def] writeFuint64_def [abs_def] writeUint32_def [abs_def]
  writeInt32_def [abs_def] writeUint64_def [abs_def] writeInt64_def [abs_def]
  writeFloat_def [abs_def] writeDouble_def [abs_def] writeStringF16_def [abs_def]
  writeStringF32_def [abs_def] writeStringF64_def [abs_def] writeStringVint_def [abs_def]

lemmas read_defs =
  readFint8_def [abs_def] readFuint8_def [abs_def] readFint16_def [abs_def]
  readFuint16_def [abs_def] readFint32_def [abs_def] readFuint32_def [abs_def]
  readFint64_def [abs_def] readFuint64_def [abs_def] readFloat_def [abs_def]
  readDouble_def [abs_def]

text \<open>The fixed-width writers, uniformly.\<close>

lemma emits_write_int: "ba.emits (write_int v) e (mem_bytes v)"
  using ba.emits_wr [of "mem_bytes v" e] by (simp add: write_int_def [abs_def])

lemma emits_write_swap:
  "ba.emits (\<lambda>ba. write_int (if m_endian ba \<noteq> PHASE0_BYTE_ORDER then byteswap v else v) ba) e (wire e v)"
  by (subst ba.emits_cong [where g = "write_int (if e \<noteq> PHASE0_BYTE_ORDER then byteswap v else v)"])
    (auto simp: wire_def emits_write_int)

lemma emits_put: "ba.emits (put v) e (value_bytes e v)"
  by (cases v)
    (simp_all add: write_defs emits_write_int emits_write_swap ba.emits_wr ba.emits_seq)

lemma emits_put_all: "ba.emits (put_all vs) e (concat (map (value_bytes e) vs))"
proof (induction vs)
  case Nil
  then show ?case by (simp add: ba.emits_skip)
next
  case (Cons v vs)
  then show ?case by (simp add: ba.emits_seq [OF emits_put])
qed

text \<open>The readers.\<close>

lemma parses_read_byte: "ba.parses readFint8 e (mem_bytes v) v"
    "ba.parses readFuint8 e (mem_bytes v) v"
  using parses_readFuint8 [of e v]
  by (simp_all add: mem_bytes_def readFint8_def [abs_def] readFuint8_def [abs_def])

lemma parses_readUint32: "ba.parses readUint32 e (varint_bytes v) v"
proof -
  have "ba.parses (readUint_loop 32 0 0) e (varint_bytes v) (0 OR push_bit 0 v)"
    by (rule parses_readUint_loop) (use unat_bound [of v] in simp_all)
  then show ?thesis by (simp add: readUint32_def [abs_def])
qed

lemma parses_readUint64: "ba.parses readUint64 e (varint_bytes v) v"
proof -
  have "ba.parses (readUint_loop 64 0 0) e (varint_bytes v) (0 OR push_bit 0 v)"
    by (rule parses_readUint_loop) (use unat_bound [of v] in simp_all)
  then show ?thesis by (simp add: readUint64_def [abs_def])
qed

lemma parses_readInt:
  "ba.parses readInt32 e (varint_bytes (EncodeZigzag32 v)) v"
  "ba.parses readInt64 e (varint_bytes (EncodeZigzag64 w)) w"
  using ba.parses_map [OF parses_readUint32, of DecodeZigzag32 e "EncodeZigzag32 v"]
    ba.parses_map [OF parses_readUint64, of DecodeZigzag64 e "EncodeZigzag64 w"]
  by (simp_all add: readInt32_def [abs_def] readInt64_def [abs_def] EncodeZigzag32_def
      EncodeZigzag64_def DecodeZigzag32_def DecodeZigzag64_def DecodeZigzag_EncodeZigzag)

lemma unat_word_of_length:
  "length v < 2 ^ LENGTH('a::len) \<Longrightarrow> unat (word_of_nat (length v) :: 'a word) = length v"
  by (simp add: unat_of_nat take_bit_nat_eq_self)

lemma parses_string:
  assumes "ba.parses rd e bs len" and "v \<noteq> []" and "unat len = length v"
  shows "ba.parses (\<lambda>ba. bind_r (rd ba) (\<lambda>(len, ba'). read_str (unat len) ba')) e (bs @ v) v"
  by (rule ba.parses_bind [OF assms(1)]) (simp add: parses_read_str assms)

lemmas parses_swap =
  parses_read_swap [where 'a = 16, simplified] parses_read_swap [where 'a = 32, simplified]
  parses_read_swap [where 'a = 64, simplified]

lemma parses_fixed:
  "ba.parses readFint16 e (wire e v16) v16" "ba.parses readFuint16 e (wire e v16) v16"
  "ba.parses readFint32 e (wire e v32) v32" "ba.parses readFuint32 e (wire e v32) v32"
  "ba.parses readFint64 e (wire e v64) v64" "ba.parses readFuint64 e (wire e v64) v64"
  "ba.parses readFloat e (wire e v32) v32" "ba.parses readDouble e (wire e v64) v64"
  by (simp_all add: read_defs parses_swap)

lemma parses_get_string:
  "v \<noteq> [] \<Longrightarrow> length v < 2 ^ 16 \<Longrightarrow>
   ba.parses readStringF16 e (wire e (word_of_nat (length v) :: u16) @ v) v"
  "v \<noteq> [] \<Longrightarrow> length v < 2 ^ 32 \<Longrightarrow>
   ba.parses readStringF32 e (wire e (word_of_nat (length v) :: u32) @ v) v"
  "v \<noteq> [] \<Longrightarrow> length v < 2 ^ 64 \<Longrightarrow>
   ba.parses readStringF64 e (wire e (word_of_nat (length v) :: u64) @ v) v"
  "v \<noteq> [] \<Longrightarrow> length v < 2 ^ 64 \<Longrightarrow>
   ba.parses readStringVint e (varint_bytes (word_of_nat (length v) :: u64) @ v) v"
  by (simp_all only: readStringF16_def [abs_def] readStringF32_def [abs_def]
      readStringF64_def [abs_def] readStringVint_def [abs_def] read_defs)
    (rule parses_string [OF parses_swap(1)] parses_string [OF parses_swap(2)]
      parses_string [OF parses_swap(3)] parses_string [OF parses_readUint64];
     simp add: unat_word_of_length)+

lemma parses_get: "value_ok v \<Longrightarrow> ba.parses (get (kind_of v)) e (value_bytes e v) v"
  by (cases v)
    (simp_all add: ba.parses_map parses_read_byte parses_readUint32 parses_readUint64
      parses_readInt parses_get_string [simplified] parses_fixed)

lemma parses_get_all:
  "list_all value_ok vs \<Longrightarrow>
   ba.parses (get_all (map kind_of vs)) e (concat (map (value_bytes e) vs)) vs"
proof (induction vs)
  case Nil
  then show ?case by (simp add: ba.parses_return)
next
  case (Cons v vs)
  then have "ba.parses (\<lambda>s. bind_r (get (kind_of v) s) (\<lambda>(v, s').
      bind_r (get_all (map kind_of vs) s') (\<lambda>(vs, s''). Inr (v # vs, s'')))) e
      (value_bytes e v @ concat (map (value_bytes e) vs)) (v # vs)"
    by (intro ba.parses_bind [OF parses_get] ba.parses_map) simp_all
  then show ?case by simp
qed

text \<open>Big-endian is the default of a fresh array: the most significant byte goes first.\<close>

lemma wire_big:
  assumes "8 dvd LENGTH('a::len)"
  shows "wire PHASE0_BIG_ENDIAN (v :: 'a word) = rev (mem_bytes v)"
  using assms by (simp add: wire_def PHASE0_BYTE_ORDER_def mem_bytes_byteswap)

end
