(* ===== verification/ByteArrayIO.thy ===== *)
theory ByteArrayIO
  imports ByteArrayCodec
begin

text \<open>
  The remaining members of class \<open>ByteArray\<close> (\<open>src/utils/bytearray.cc\<close>): the scatter/gather
  lists handed to \<open>recvmsg\<close> and \<open>sendmsg\<close>, saving to and loading from a file, and the hex dump. A
  \<open>struct iovec\<close> that points into node \<open>i\<close> is the triple of \<open>i\<close>, the offset in the node and the
  length. The file system is a parameter: the bytes of a file that can be opened, \<open>None\<close> otherwise.
\<close>

record iovec =
  iov_node :: nat
  iov_off :: nat
  iov_len :: nat

text \<open>The loop the three buffer members share, from the cursor \<open>cur\<close>.\<close>

function iov_loop ::
  "node list \<Rightarrow> nat option \<Rightarrow> nat \<Rightarrow> nat \<Rightarrow> nat \<Rightarrow> iovec list result" where
  "iov_loop nds cur npos ncap len =
     (if len = 0 then Inr []
      else case cur of None \<Rightarrow> Inl NullDeref
      | Some i \<Rightarrow>
        if i < length nds then
          if len \<le> ncap then Inr [\<lparr>iov_node = i, iov_off = npos, iov_len = len\<rparr>]
          else bind_r (deref nds (next_of nds (Some i))) (\<lambda>nd'.
            bind_r (iov_loop nds (Some (Suc i)) 0 (node_size nd') (len - ncap)) (\<lambda>iovs.
              Inr (\<lparr>iov_node = i, iov_off = npos, iov_len = ncap\<rparr> # iovs)))
        else Inl NullDeref)"
  by pat_completeness auto
termination
  by (relation "measure (\<lambda>(nds, cur, npos, ncap, len). length nds - the cur)") auto

declare iov_loop.simps [simp del]

definition getReadBuffers :: "nat \<Rightarrow> byte_array \<Rightarrow> (nat \<times> iovec list) result" where
  "getReadBuffers len ba =
     (let len' = (if getReadSize ba < len then getReadSize ba else len) in
      if len' = 0 then Inr (0, [])
      else if m_baseSize ba = 0 then Inl DivByZero
      else let npos = m_position ba mod m_baseSize ba in
        bind_r (deref (m_nodes ba) (m_cur ba)) (\<lambda>nd.
          bind_r (iov_loop (m_nodes ba) (m_cur ba) npos (size_sub (node_size nd) npos) len')
            (\<lambda>iovs. Inr (len', iovs))))"

text \<open>The overload with a position walks \<open>position / m_baseSize\<close> steps from the root, but still
  limits the length by \<open>getReadSize()\<close>.\<close>

definition getReadBuffers_at :: "nat \<Rightarrow> nat \<Rightarrow> byte_array \<Rightarrow> (nat \<times> iovec list) result" where
  "getReadBuffers_at len position ba =
     (let len' = (if getReadSize ba < len then getReadSize ba else len) in
      if len' = 0 then Inr (0, [])
      else if m_baseSize ba = 0 then Inl DivByZero
      else let npos = position mod m_baseSize ba;
               count = position div m_baseSize ba in
        bind_r (deref (m_nodes ba) (Some count)) (\<lambda>nd.
          bind_r (iov_loop (m_nodes ba) (Some count) npos (size_sub (node_size nd) npos) len')
            (\<lambda>iovs. Inr (len', iovs))))"

definition getWriteBuffers :: "nat \<Rightarrow> byte_array \<Rightarrow> ((nat \<times> iovec list) \<times> byte_array) result" where
  "getWriteBuffers len ba =
     (if len = 0 then Inr ((0, []), ba)
      else bind_r (addCapacity len ba) (\<lambda>ba1.
        if m_baseSize ba1 = 0 then Inl DivByZero
        else let npos = m_position ba1 mod m_baseSize ba1 in
          bind_r (deref (m_nodes ba1) (m_cur ba1)) (\<lambda>nd.
            bind_r (iov_loop (m_nodes ba1) (m_cur ba1) npos (size_sub (node_size nd) npos) len)
              (\<lambda>iovs. Inr ((len, iovs), ba1)))))"

text \<open>What the kernel reads through a list of buffers, and what it stores through one.\<close>

definition iov_cells :: "node list \<Rightarrow> iovec \<Rightarrow> cell list" where
  "iov_cells nds v = take (iov_len v) (drop (iov_off v) (node_ptr (nds ! iov_node v)))"

definition gather :: "node list \<Rightarrow> iovec list \<Rightarrow> cell list" where
  "gather nds iovs = concat (map (iov_cells nds) iovs)"

fun scatter :: "iovec list \<Rightarrow> cell list \<Rightarrow> node list \<Rightarrow> node list" where
  "scatter [] cs nds = nds"
| "scatter (v # iovs) cs nds =
     (let nd = nds ! iov_node v; part = take (iov_len v) cs in
      scatter iovs (drop (iov_len v) cs)
        (nds[iov_node v := nd\<lparr>node_ptr := overwrite (node_ptr nd) (iov_off v) part\<rparr>]))"

subsection \<open>Files\<close>

text \<open>
  The loop of \<open>writeToFile\<close>. \<open>pos\<close>, \<open>len\<close> and \<open>read_size\<close> are \<open>int64_t\<close>. A negative count is
  outside the contract of \<open>std::ostream::write\<close>, an access past the node a buffer overflow.
\<close>

function save_loop ::
  "nat \<Rightarrow> node list \<Rightarrow> nat option \<Rightarrow> int \<Rightarrow> int \<Rightarrow> cell list result" where
  "save_loop b nds cur pos read_size =
     (if read_size \<le> 0 then Inr []
      else if b = 0 then Inl DivByZero
      else case cur of None \<Rightarrow> Inl NullDeref
      | Some i \<Rightarrow>
        if i < length nds then
          let diff = pos mod int b;
              len = (if int b < read_size then int b else read_size) - diff in
          if len < 0 then Inl BufferOverflow
          else bind_r (memcpy_out (node_ptr (nds ! i)) (nat diff) (nat len)) (\<lambda>cs.
            bind_r (save_loop b nds (if Suc i < length nds then Some (Suc i) else None)
                (pos + len) (read_size - len))
              (\<lambda>rest. Inr (cs @ rest)))
        else Inl NullDeref)"
  by pat_completeness auto
termination
  by (relation "measure (\<lambda>(b, nds, cur, pos, read_size).
      case cur of None \<Rightarrow> 0 | Some i \<Rightarrow> Suc (length nds) - i)") auto

declare save_loop.simps [simp del]

text \<open>\<open>writeToFile\<close>: \<open>opens\<close> tells whether the file could be opened; the result is \<open>false\<close> or the
  bytes written to it.\<close>

definition writeToFile :: "bool \<Rightarrow> byte_array \<Rightarrow> cell list option result" where
  "writeToFile opens ba =
     (if \<not> opens then Inr None
      else bind_r (save_loop (m_baseSize ba) (m_nodes ba) (m_cur ba)
          (int (m_position ba)) (int (getReadSize ba)))
        (\<lambda>cs. Inr (Some cs)))"

text \<open>The loop of \<open>readFromFile\<close>: a read that returns fewer bytes than asked sets \<open>eof\<close>.\<close>

function load_loop :: "u8 list \<Rightarrow> byte_array \<Rightarrow> byte_array result" where
  "load_loop fbytes ba =
     (if m_baseSize ba = 0 then Inl NonTermination
      else if length fbytes < m_baseSize ba then write_ba (map Some fbytes) ba
      else bind_r (write_ba (map Some (take (m_baseSize ba) fbytes)) ba)
        (\<lambda>ba1. load_loop (drop (m_baseSize ba) fbytes) ba1))"
  by pat_completeness auto
termination
  by (relation "measure (\<lambda>(fbytes, ba). length fbytes)") auto

declare load_loop.simps [simp del]

definition readFromFile :: "u8 list option \<Rightarrow> byte_array \<Rightarrow> (bool \<times> byte_array) result" where
  "readFromFile fbytes ba =
     (case fbytes of None \<Rightarrow> Inr (False, ba)
      | Some bs \<Rightarrow> bind_r (load_loop bs ba) (\<lambda>ba'. Inr (True, ba')))"

subsection \<open>Hex dump\<close>

definition hex_digit :: "nat \<Rightarrow> char" where
  "hex_digit n = ''0123456789abcdef'' ! n"

definition hex_byte :: "u8 \<Rightarrow> string" where
  "hex_byte b = [hex_digit (unat b div 16), hex_digit (unat b mod 16), CHR '' '']"

fun hex_lines :: "nat \<Rightarrow> u8 list \<Rightarrow> string" where
  "hex_lines i [] = []"
| "hex_lines i (b # bs) =
     (if 0 < i \<and> i mod 32 = 0 then [CHR 0x0A] else []) @ hex_byte b @ hex_lines (Suc i) bs"

definition toHexString :: "byte_array \<Rightarrow> string result" where
  "toHexString ba = bind_r (toString ba) (\<lambda>cs.
     bind_r (cells_bytes cs) (\<lambda>bs. Inr (hex_lines 0 bs)))"

subsection \<open>Gathering reads what \<open>read\<close> reads\<close>

definition iov_in_bounds :: "node list \<Rightarrow> iovec \<Rightarrow> bool" where
  "iov_in_bounds nds v \<longleftrightarrow> iov_node v < length nds
     \<and> iov_off v + iov_len v \<le> length (node_ptr (nds ! iov_node v))"

lemma iov_loop_read_loop:
  assumes "read_loop nds cur npos ncap n = Inr (cs, cur')"
  shows "\<exists>iovs. iov_loop nds cur npos ncap n = Inr iovs \<and> gather nds iovs = cs
    \<and> list_all (iov_in_bounds nds) iovs"
  using assms
proof (induction nds cur npos ncap n arbitrary: cs cur' rule: iov_loop.induct)
  case (1 nds cur npos ncap n)
  show ?case
  proof (cases "n = 0")
    case True
    with "1.prems" show ?thesis
      by (simp add: iov_loop.simps [of _ _ _ _ 0] read_loop.simps [of _ _ _ _ 0]
          gather_def)
  next
    case n: False
    with "1.prems" obtain i where i: "cur = Some i" "i < length nds"
      by (auto simp: read_loop.simps [of nds cur npos ncap n] split: option.splits if_splits)
    show ?thesis
    proof (cases "n \<le> ncap")
      case True
      with "1.prems" n i show ?thesis
        by (auto simp: iov_loop.simps [of nds "Some i" npos ncap n] memcpy_out_def gather_def
            iov_cells_def iov_in_bounds_def read_loop.simps [of nds "Some i" npos ncap n] Let_def
            split: if_splits)
    next
      case False
      with "1.prems" n i obtain nd' cs1 cs2 where
        nd: "deref nds (next_of nds (Some i)) = Inr nd'"
        and mc: "memcpy_out (node_ptr (nds ! i)) npos ncap = Inr cs1"
        and rl: "read_loop nds (Some (Suc i)) 0 (node_size nd') (n - ncap) = Inr (cs2, cur')"
        and cs: "cs = cs1 @ cs2"
        by (auto simp: read_loop.simps [of nds "Some i" npos ncap n] Let_def bind_r_Inr_iff)
      from "1.IH" [OF n i(1) i(2) False nd rl] obtain iovs where
        "iov_loop nds (Some (Suc i)) 0 (node_size nd') (n - ncap) = Inr iovs"
        "gather nds iovs = cs2" "list_all (iov_in_bounds nds) iovs"
        by blast
      moreover have "iov_in_bounds nds \<lparr>iov_node = i, iov_off = npos, iov_len = ncap\<rparr>"
        and "iov_cells nds \<lparr>iov_node = i, iov_off = npos, iov_len = ncap\<rparr> = cs1"
        using i mc by (auto simp: iov_in_bounds_def iov_cells_def memcpy_out_def split: if_splits)
      ultimately show ?thesis
        using n i False nd cs
        by (auto simp: iov_loop.simps [of nds "Some i" npos ncap n] gather_def)
    qed
  qed
qed

lemma iov_loop_correct:
  assumes "nodes_ok b nds" and "0 < b" and "i < length nds" and "npos < b" and "0 < n"
    and "i * b + npos + n \<le> length nds * b"
  obtains iovs where "iov_loop nds (Some i) npos (b - npos) n = Inr iovs"
    and "gather nds iovs = take n (drop (i * b + npos) (concat (map node_ptr nds)))"
    and "list_all (iov_in_bounds nds) iovs"
  using iov_loop_read_loop [OF read_loop_correct [OF assms]] by blast

text \<open>The cursor of an array with something to read or room to write is not null.\<close>

lemma cursor_node:
  assumes inv: "ba_inv ba" and lt: "m_position ba < m_capacity ba"
  shows "m_cur ba = Some (m_position ba div m_baseSize ba)"
    and "m_position ba div m_baseSize ba < length (m_nodes ba)"
    and "deref (m_nodes ba) (m_cur ba) = Inr (m_nodes ba ! (m_position ba div m_baseSize ba))"
    and "node_size (m_nodes ba ! (m_position ba div m_baseSize ba)) = m_baseSize ba"
proof -
  note iv = ba_invD [OF inv]
  show c: "m_cur ba = Some (m_position ba div m_baseSize ba)"
    and i: "m_position ba div m_baseSize ba < length (m_nodes ba)"
    using iv(1,4,8) lt by (simp_all add: cur_at_less div_less_iff_less_mult)
  show "deref (m_nodes ba) (m_cur ba) = Inr (m_nodes ba ! (m_position ba div m_baseSize ba))"
    using c i by (simp add: deref_def)
  show "node_size (m_nodes ba ! (m_position ba div m_baseSize ba)) = m_baseSize ba"
    using nodes_ok_nth [OF iv(3) i] by simp
qed

lemma getReadBuffers_correct:
  assumes inv: "ba_inv ba"
  obtains iovs where "getReadBuffers len ba = Inr (min len (getReadSize ba), iovs)"
    and "gather (m_nodes ba) iovs = take len (unread ba)"
    and "list_all (iov_in_bounds (m_nodes ba)) iovs"
proof (cases "min len (getReadSize ba) = 0")
  case True
  then have "getReadBuffers len ba = Inr (min len (getReadSize ba), [])"
    by (auto simp: getReadBuffers_def)
  moreover have "take len (unread ba) = []" using True inv length_unread [OF inv] by (auto simp: min_def split: if_splits)
  ultimately show thesis by (intro that [of "[]"]) (simp_all add: gather_def)
next
  case False
  define n where "n = min len (getReadSize ba)"
  note iv = ba_invD [OF inv]
  let ?i = "m_position ba div m_baseSize ba" and ?npos = "m_position ba mod m_baseSize ba"
  have n: "0 < n" using False by (simp add: n_def)
  have fit: "m_position ba + n \<le> m_size ba" using iv(5) inv by (simp add: n_def)
  then have lt: "m_position ba < m_capacity ba" using n iv(6) by linarith
  note cur = cursor_node [OF inv lt]
  have "?i * m_baseSize ba + ?npos + n \<le> length (m_nodes ba) * m_baseSize ba"
    using fit iv(4,6) by simp
  with iv(3,1) cur(2) mod_less_divisor [OF iv(1)] n
  obtain iovs where il: "iov_loop (m_nodes ba) (Some ?i) ?npos (m_baseSize ba - ?npos) n = Inr iovs"
    and g: "gather (m_nodes ba) iovs
      = take n (drop (?i * m_baseSize ba + ?npos) (concat (map node_ptr (m_nodes ba))))"
    and b: "list_all (iov_in_bounds (m_nodes ba)) iovs"
    by (rule iov_loop_correct)
  have len': "(if getReadSize ba < len then getReadSize ba else len) = n" by (simp add: n_def)
  have "getReadBuffers len ba = Inr (n, iovs)"
    unfolding getReadBuffers_def len' Let_def
    using n iv(1) cur il mod_le_divisor [OF iv(1)] by simp
  moreover have "gather (m_nodes ba) iovs = take len (unread ba)"
    using g inv by (simp add: unread_def contents_def n_def)
  ultimately show thesis using b by (intro that) (simp_all only: n_def)
qed

subsection \<open>Scattering stores what \<open>write\<close> stores\<close>

lemma scatter_correct:
  assumes "nodes_ok b nds" and "0 < b" and "i < length nds" and "npos < b" and "0 < n"
    and "i * b + npos + n \<le> length nds * b"
    and "iov_loop nds (Some i) npos (b - npos) n = Inr iovs"
    and "length cs \<le> n" and "nodes_ok b mem" and "length mem = length nds"
  shows "nodes_ok b (scatter iovs cs mem) \<and> length (scatter iovs cs mem) = length nds
    \<and> concat (map node_ptr (scatter iovs cs mem))
        = overwrite (concat (map node_ptr mem)) (i * b + npos) cs"
  using assms(3-10)
proof (induction n arbitrary: npos i iovs cs mem rule: less_induct)
  case (less n)
  let ?nd = "mem ! i"
  let ?upd = "\<lambda>ys. mem[i := ?nd\<lparr>node_ptr := overwrite (node_ptr ?nd) npos ys\<rparr>]"
  have i: "i < length mem" using less.prems(1,8) by simp
  note m = nodes_ok_nth [OF less.prems(7) i]
  have upd: "nodes_ok b (?upd ys)" "concat (map node_ptr (?upd ys))
      = overwrite (concat (map node_ptr mem)) (i * b + npos) ys" if "npos + length ys \<le> b" for ys
    using that m nodes_ok_update [OF less.prems(7) i]
      contents_node_update [of b "new_ByteArray b\<lparr>m_nodes := mem\<rparr>" i npos ys] less.prems(7) i
    by simp_all
  show ?case
  proof (cases "n \<le> b - npos")
    case True
    then have iovs: "iovs = [\<lparr>iov_node = i, iov_off = npos, iov_len = n\<rparr>]"
      using less.prems by (simp add: iov_loop.simps [of nds "Some i" npos _ n])
    have "npos + length cs \<le> b" using True less.prems(2,6) by simp
    from upd [OF this] show ?thesis
      using less.prems(6,8) by (simp add: iovs Let_def)
  next
    case False
    let ?m = "b - npos" and ?cs1 = "take (b - npos) cs"
    have pos': "i * b + npos + ?m = Suc i * b" using less.prems(2) by simp
    have "Suc i * b < length nds * b" using False less.prems(4) pos' by simp
    then have i': "Suc i < length nds" by (simp only: mult_less_cancel2)
    have nd': "node_size (nds ! Suc i) = b" using nodes_ok_nth [OF assms(1) i'] by simp
    obtain iovs' where il: "iov_loop nds (Some (Suc i)) 0 (b - 0) (n - ?m) = Inr iovs'"
      and iovs: "iovs = \<lparr>iov_node = i, iov_off = npos, iov_len = ?m\<rparr> # iovs'"
      using False less.prems i' nd'
      by (auto simp: iov_loop.simps [of nds "Some i" npos _ n] next_of_def deref_def bind_r_Inr_iff)
    have fit: "npos + length ?cs1 \<le> b" using less.prems(2) by simp
    have IH: "nodes_ok b (scatter iovs' (drop ?m cs) (?upd ?cs1))
      \<and> length (scatter iovs' (drop ?m cs) (?upd ?cs1)) = length nds
      \<and> concat (map node_ptr (scatter iovs' (drop ?m cs) (?upd ?cs1)))
        = overwrite (concat (map node_ptr (?upd ?cs1))) (Suc i * b + 0) (drop ?m cs)"
      using False less.prems i' pos' upd(1) [OF fit] assms(2) il
      by (intro less.IH [of "n - ?m"]) simp_all
    have len: "length (concat (map node_ptr mem)) = length nds * b"
      using length_concat_chunks [OF nodes_ok_chunks [OF less.prems(7)]] less.prems(8)
      by (simp add: mult.commute)
    have "overwrite (overwrite (concat (map node_ptr mem)) (i * b + npos) ?cs1) (Suc i * b) (drop ?m cs)
        = overwrite (concat (map node_ptr mem)) (i * b + npos) cs"
    proof (cases "length cs \<le> ?m")
      case True
      then show ?thesis by simp
    next
      case long: False
      then have l: "Suc i * b = i * b + npos + length ?cs1" using pos' by simp
      have "i * b + npos \<le> length (concat (map node_ptr mem))" using len less.prems(4) by simp
      then show ?thesis unfolding l by (simp only: overwrite_overwrite append_take_drop_id)
    qed
    with IH upd(2) [OF fit] show ?thesis by (simp add: iovs Let_def)
  qed
qed

text \<open>
  \<open>getWriteBuffers\<close> grows the array and describes the room behind the position: whatever the kernel
  stores there (up to \<open>len\<close> bytes) ends up where \<open>write\<close> would have put it.
\<close>

lemma getWriteBuffers_correct:
  assumes inv: "ba_inv ba"
  obtains iovs ba' ext where "getWriteBuffers len ba = Inr ((len, iovs), ba')"
    and "ba_inv ba'" and "m_position ba' = m_position ba" and "m_size ba' = m_size ba"
    and "contents ba' = contents ba @ replicate ext None" and "m_endian ba' = m_endian ba"
    and "m_position ba + len \<le> m_capacity ba'"
    and "\<forall>cs. length cs \<le> len \<longrightarrow> nodes_ok (m_baseSize ba') (scatter iovs cs (m_nodes ba'))
      \<and> length (scatter iovs cs (m_nodes ba')) = length (m_nodes ba')
      \<and> concat (map node_ptr (scatter iovs cs (m_nodes ba')))
        = overwrite (contents ba') (m_position ba) cs"
proof (cases "len = 0")
  case True
  then have "getWriteBuffers len ba = Inr ((len, []), ba)" by (simp add: getWriteBuffers_def)
  then show thesis
    using True inv ba_invD [OF inv]
    by (intro that [of "[]" ba 0]) (simp_all add: contents_def)
next
  case False
  obtain ba1 ext where add: "addCapacity len ba = Inr ba1" and inv1: "ba_inv ba1"
    and same: "m_position ba1 = m_position ba" "m_size ba1 = m_size ba"
      "m_endian ba1 = m_endian ba"
    and cont: "contents ba1 = contents ba @ replicate ext None"
    and room: "m_position ba + len \<le> m_capacity ba1"
    by (rule addCapacity_correct [OF inv])
  let ?b = "m_baseSize ba1" and ?p = "m_position ba1"
  let ?i = "?p div ?b" and ?npos = "?p mod ?b"
  note iv = ba_invD [OF inv1]
  have len: "0 < len" using False by simp
  have lt: "?p < m_capacity ba1" using room len same(1) by linarith
  note cur = cursor_node [OF inv1 lt]
  have fit: "?i * ?b + ?npos + len \<le> length (m_nodes ba1) * ?b" using room iv(4) same(1) by simp
  note pre = iv(3,1) cur(2) mod_less_divisor [OF iv(1)] len fit
  obtain iovs where il: "iov_loop (m_nodes ba1) (Some ?i) ?npos (?b - ?npos) len = Inr iovs"
    using pre by (rule iov_loop_correct)
  have "getWriteBuffers len ba = Inr ((len, iovs), ba1)"
    using False add iv(1) cur il mod_le_divisor [OF iv(1)]
    by (simp add: getWriteBuffers_def Let_def)
  moreover note scatter_correct [OF pre il _ iv(3) refl]
  ultimately show thesis
    using inv1 same cont room by (intro that [of iovs ba1 ext]) (simp_all add: contents_def)
qed

subsection \<open>Files\<close>

text \<open>From a node boundary on, \<open>writeToFile\<close> writes the rest of the array, node by node.\<close>

lemma save_loop_step:
  assumes ok: "nodes_ok b nds" and "0 < b" and i: "i < length nds" and "d < b" and n: "0 < n"
    and d: "d \<le> min b n"
  shows "save_loop b nds (Some i) (int (i * b + d)) (int n)
    = bind_r (save_loop b nds (if Suc i < length nds then Some (Suc i) else None)
        (int (i * b + min b n)) (int (n + d - min b n)))
      (\<lambda>rest. Inr (take (min b n - d) (drop (i * b + d) (concat (map node_ptr nds))) @ rest))"
proof -
  define m where "m = min b n - d"
  have m: "d + m \<le> b" "m \<le> n" using d by (auto simp: m_def)
  have len: "(if int b < int n then int b else int n) - int d = int m" using d by (auto simp: m_def)
  have "memcpy_out (node_ptr (nds ! i)) d m
      = Inr (take m (drop (i * b + d) (concat (map node_ptr nds))))"
    using concat_chunk_read [OF nodes_ok_chunks [OF ok], of i d m] i m(1) nodes_ok_nth [OF ok i]
    by (simp add: memcpy_out_def)
  moreover have "int (i * b + d) mod int b = int d"
    using assms(4) by (simp flip: of_nat_mod)
  moreover have "int (i * b + d) + int m = int (i * b + min b n)"
    "int n - int m = int (n + d - min b n)"
    using d by (auto simp: m_def)
  ultimately show ?thesis
    using n i assms(2) unfolding m_def [symmetric]
    by (subst save_loop.simps) (simp only: len Let_def option.case if_True nat_int
        not_le of_nat_0_less_iff if_False bind_r_simps of_nat_less_0_iff neq0_conv simp_thms, simp)
qed

lemma save_loop_aligned:
  assumes "nodes_ok b nds" and "0 < b" and "n \<le> length nds * b - i * b"
  shows "save_loop b nds (if i < length nds then Some i else None) (int (i * b)) (int n)
    = Inr (take n (drop (i * b) (concat (map node_ptr nds))))"
  using assms(3)
proof (induction n arbitrary: i rule: less_induct)
  case (less n)
  let ?c = "concat (map node_ptr nds)"
  show ?case
  proof (cases "n = 0")
    case True
    then show ?thesis by (simp add: save_loop.simps [of _ _ _ _ 0])
  next
    case False
    have i: "i < length nds"
    proof (rule ccontr)
      assume "\<not> i < length nds"
      then have "length nds * b \<le> i * b" by (intro mult_le_mono1) simp
      with False less.prems show False by simp
    qed
    have step: "save_loop b nds (Some i) (int (i * b)) (int n)
      = bind_r (save_loop b nds (if Suc i < length nds then Some (Suc i) else None)
          (int (i * b + min b n)) (int (n - min b n)))
        (\<lambda>rest. Inr (take (min b n) (drop (i * b) ?c) @ rest))"
      using save_loop_step [OF assms(1,2) i assms(2), of n] False by simp
    show ?thesis
    proof (cases "n \<le> b")
      case True
      then show ?thesis using i step by (simp add: save_loop.simps [of _ _ _ _ 0])
    next
      case big: False
      have "n - b \<le> length nds * b - Suc i * b" using less.prems by simp
      then have "save_loop b nds (if Suc i < length nds then Some (Suc i) else None)
          (int (Suc i * b)) (int (n - b)) = Inr (take (n - b) (drop (Suc i * b) ?c))"
        using assms(2) big by (intro less.IH) simp_all
      moreover have "min b n = b" "Suc i * b = i * b + b" using big by simp_all
      ultimately show ?thesis
        using i step take_drop_split [of b "n - b" "i * b" ?c] big
        by (simp only: if_True bind_r_simps) simp
    qed
  qed
qed

text \<open>
  \<open>writeToFile\<close> subtracts the offset in the first node from the length of the first piece after the
  length was cut to \<open>m_baseSize\<close>. That is right when the position is at a node boundary or more than
  one node is left to write.
\<close>

lemma writeToFile_correct:
  assumes inv: "ba_inv ba"
    and ok: "m_position ba mod m_baseSize ba = 0 \<or> m_baseSize ba < getReadSize ba"
  shows "writeToFile True ba = Inr (Some (unread ba))"
proof -
  let ?b = "m_baseSize ba" and ?nds = "m_nodes ba" and ?c = "concat (map node_ptr (m_nodes ba))"
  define i where "i = m_position ba div m_baseSize ba"
  define d where "d = m_position ba mod m_baseSize ba"
  define n where "n = m_size ba - m_position ba"
  note iv = ba_invD [OF inv]
  have p: "m_position ba = i * ?b + d" by (simp add: i_def d_def)
  have d: "d < ?b" using iv(1) by (simp add: d_def)
  have cur: "m_cur ba = (if i < length ?nds then Some i else None)"
    using iv(8) by (simp add: cur_at_def i_def)
  have fit: "i * ?b + d + n \<le> length ?nds * ?b" using iv(4,5,6) p by (simp add: n_def)
  have un: "unread ba = take n (drop (i * ?b + d) ?c)"
    using p by (simp add: unread_def contents_def n_def)
  have "save_loop ?b ?nds (m_cur ba) (int (i * ?b + d)) (int n) = Inr (unread ba)"
  proof (cases "d = 0")
    case True
    have "n \<le> length ?nds * ?b - i * ?b" using fit by simp
    from save_loop_aligned [OF iv(3,1) this] show ?thesis using True cur un by simp
  next
    case False
    then have big: "?b < n" using ok inv by (simp add: d_def n_def)
    then have "i * ?b < length ?nds * ?b" using fit by linarith
    then have i: "i < length ?nds" by (simp only: mult_less_cancel2)
    have "n - (?b - d) \<le> length ?nds * ?b - Suc i * ?b" using fit big d by simp
    from save_loop_aligned [OF iv(3,1) this]
    have "save_loop ?b ?nds (if Suc i < length ?nds then Some (Suc i) else None)
        (int (i * ?b + ?b)) (int (n + d - ?b))
      = Inr (take (n - (?b - d)) (drop (i * ?b + d + (?b - d)) ?c))"
      using d big by (simp add: add.commute)
    moreover have "min ?b n = ?b" "d \<le> min ?b n" using big d by simp_all
    ultimately show ?thesis
      using save_loop_step [OF iv(3,1) i d, of n] big un cur i
        take_drop_split [of "?b - d" "n - (?b - d)" "i * ?b + d" ?c] by simp
  qed
  then show ?thesis using inv p by (simp add: writeToFile_def n_def)
qed

text \<open>Loading appends the whole file, in pieces of \<open>m_baseSize\<close> bytes.\<close>

lemma load_loop_correct:
  assumes "ba_inv ba" and "p \<le> m_position ba"
  shows "\<exists>ba'. load_loop fbytes ba = Inr ba' \<and> ba_inv ba' \<and> m_endian ba' = m_endian ba
    \<and> m_position ba' = m_position ba + length fbytes
    \<and> written_since p ba' = written_since p ba @ map Some fbytes"
  using assms
proof (induction fbytes ba rule: load_loop.induct)
  case (1 fbytes ba)
  note b = ba_invD(1) [OF "1.prems"(1)]
  show ?case
  proof (cases "length fbytes < m_baseSize ba")
    case True
    then show ?thesis
      using b ba.wr_ok [OF "1.prems", of "map Some fbytes"]
      by (auto simp: load_loop.simps [of fbytes ba])
  next
    case False
    let ?piece = "take (m_baseSize ba) fbytes"
    obtain ba1 where w: "write_ba (map Some ?piece) ba = Inr ba1" "ba_inv ba1"
      "m_endian ba1 = m_endian ba" "m_position ba1 = m_position ba + length ?piece"
      "written_since p ba1 = written_since p ba @ map Some ?piece"
      using ba.wr_ok [OF "1.prems", of "map Some ?piece"] by auto
    with "1.IH" [OF _ False w(1,2)] b "1.prems" obtain ba' where
      "load_loop (drop (m_baseSize ba) fbytes) ba1 = Inr ba'" "ba_inv ba'"
      "m_endian ba' = m_endian ba1"
      "m_position ba' = m_position ba1 + length (drop (m_baseSize ba) fbytes)"
      "written_since p ba' = written_since p ba1 @ map Some (drop (m_baseSize ba) fbytes)"
      by auto
    with w False b show ?thesis
      by (subst load_loop.simps) (simp flip: map_append)
  qed
qed

lemma load_loop_size:
  assumes "ba_inv ba" and "m_size ba = m_position ba" and "load_loop fbytes ba = Inr ba'"
  shows "m_size ba' = m_position ba'"
  using assms
proof (induction fbytes ba rule: load_loop.induct)
  case (1 fbytes ba)
  have w: "ba_inv ba1 \<and> m_size ba1 = m_position ba1" if "write_ba cs ba = Inr ba1" for cs ba1
    by (rule write_ba_correct [OF "1.prems"(1), of cs]) (use that "1.prems"(2) in simp)
  show ?case
  proof (cases "length fbytes < m_baseSize ba")
    case True
    then show ?thesis
      using "1.prems"(3) ba_invD(1) [OF "1.prems"(1)] w by (simp add: load_loop.simps [of fbytes ba])
  next
    case False
    then obtain ba1 where "write_ba (map Some (take (m_baseSize ba) fbytes)) ba = Inr ba1"
      "load_loop (drop (m_baseSize ba) fbytes) ba1 = Inr ba'"
      using "1.prems"(3) ba_invD(1) [OF "1.prems"(1)]
      by (auto simp: load_loop.simps [of fbytes ba] bind_r_Inr_iff)
    with "1.IH" [OF _ False] w ba_invD(1) [OF "1.prems"(1)] show ?thesis by simp
  qed
qed

end
