(* ===== verification/ByteArraySpec.thy ===== *)
theory ByteArraySpec
  imports ByteArrayIO
begin

text \<open>
  What class \<open>ByteArray\<close> promises. \<open>flat\<close> is the abstract specification: one sequence of bytes
  with a position. The chain of nodes refines it. \<open>ba_reach\<close> is every array a program can obtain
  through the public members, and each member is shown total and safe on those, the exceptions of
  the source included.
\<close>

subsection \<open>The specification: a flat buffer\<close>

record flat =
  f_data :: "cell list"
  f_pos :: nat
  f_endian :: endian

definition abs_ba :: "byte_array \<Rightarrow> flat" where
  "abs_ba ba = \<lparr>f_data = take (m_size ba) (contents ba), f_pos = m_position ba, f_endian = m_endian ba\<rparr>"

definition flat_write :: "cell list \<Rightarrow> flat \<Rightarrow> flat" where
  "flat_write cs f =
     f\<lparr>f_data := take (f_pos f) (f_data f) @ cs @ drop (f_pos f + length cs) (f_data f),
       f_pos := f_pos f + length cs\<rparr>"

definition flat_read :: "nat \<Rightarrow> flat \<Rightarrow> (cell list \<times> flat) result" where
  "flat_read n f =
     (if length (f_data f) < f_pos f + n then Inl OutOfRange
      else Inr (take n (drop (f_pos f) (f_data f)), f\<lparr>f_pos := f_pos f + n\<rparr>))"

definition flat_seek :: "nat \<Rightarrow> flat \<Rightarrow> flat" where
  "flat_seek v f = f\<lparr>f_pos := v\<rparr>"

lemma flat_data_write:
  assumes "p \<le> k" and "k \<le> length xs"
  shows "take (max k (p + length cs)) (overwrite (xs @ replicate ext e) p cs)
    = take p (take k xs) @ cs @ drop (p + length cs) (take k xs)"
proof (cases "p + length cs \<le> k")
  case True
  then have "take k (overwrite (xs @ replicate ext e) p cs)
      = take p xs @ cs @ take (k - (p + length cs)) (drop (p + length cs) xs)"
    using assms by (simp add: overwrite_def)
  with True assms show ?thesis by (simp add: max_absorb1 drop_take min_absorb1)
next
  case False
  then show ?thesis using assms by (simp add: overwrite_def max_absorb2 min_absorb1)
qed

lemma write_ba_refines:
  assumes "ba_inv ba"
  obtains ba' where "write_ba cs ba = Inr ba'" and "ba_inv ba'"
    and "abs_ba ba' = flat_write cs (abs_ba ba)"
proof -
  obtain ba' ext where w: "write_ba cs ba = Inr ba'" "ba_inv ba'"
    "m_position ba' = m_position ba + length cs"
    "m_size ba' = max (m_size ba) (m_position ba + length cs)"
    "contents ba' = overwrite (contents ba @ replicate ext None) (m_position ba) cs"
    "m_endian ba' = m_endian ba"
    by (rule write_ba_correct [OF assms])
  have "m_size ba \<le> length (contents ba)" using ba_invD(6) length_contents assms by simp
  with w flat_data_write [OF ba_invD(5) [OF assms], of "contents ba" cs ext None]
  have "abs_ba ba' = flat_write cs (abs_ba ba)" by (simp add: abs_ba_def flat_write_def)
  with w(1,2) show thesis by (rule that)
qed

text \<open>The exact behaviour of \<open>read\<close>, on every branch.\<close>

lemma read_ba_cases:
  assumes inv: "ba_inv ba"
  shows "read_ba n ba =
    (if m_size ba < m_position ba + n then Inl OutOfRange
     else if n = 0 \<and> m_position ba = m_capacity ba then Inl NullDeref
     else Inr (take n (unread ba),
       ba\<lparr>m_position := m_position ba + n,
          m_cur := cur_at (m_baseSize ba) (length (m_nodes ba)) (m_position ba + n)\<rparr>))"
proof -
  consider (short) "m_size ba < m_position ba + n" | (zero) "n = 0" "m_position ba \<le> m_size ba"
    | (ok) "0 < n" "m_position ba + n \<le> m_size ba" using ba_invD(5) [OF inv] by linarith
  then show ?thesis
  proof cases
    case short
    then show ?thesis using read_ba_out_of_range [OF inv] by simp
  next
    case zero
    have "ba\<lparr>m_position := m_position ba,
        m_cur := cur_at (m_baseSize ba) (length (m_nodes ba)) (m_position ba)\<rparr> = ba"
      using ba_invD(8) [OF inv] by simp
    with zero show ?thesis using read_ba_zero [OF inv] by simp
  next
    case ok
    then show ?thesis using read_ba_exact [OF inv ok]
      by (simp add: unread_def min_absorb1)
  qed
qed

text \<open>The other members of the class against the specification.\<close>

lemma length_abs_ba: "ba_inv ba \<Longrightarrow> length (f_data (abs_ba ba)) = m_size ba"
  using length_contents ba_invD(6) by (simp add: abs_ba_def)

lemma unread_abs: "unread ba = drop (f_pos (abs_ba ba)) (f_data (abs_ba ba))"
  by (simp add: unread_def abs_ba_def drop_take)

lemma toString_correct:
  assumes inv: "ba_inv ba"
  shows "toString ba = Inr (unread ba)"
proof (cases "getReadSize ba = 0")
  case True
  then show ?thesis using inv by (simp add: toString_def unread_def)
next
  case False
  let ?n = "m_size ba - m_position ba"
  have n: "0 < ?n" "m_position ba + ?n \<le> m_size ba" using False inv ba_invD(5) [OF inv] by auto
  from read_ba_exact [OF inv this] show ?thesis
    using False inv n by (auto simp: toString_def read_at_def read_ba_def unread_def Let_def
        getReadSize_def bind_r_Inr_iff split: if_splits prod.splits)
qed

subsection \<open>The arrays a program can obtain\<close>

text \<open>One call of a public member that changes the array; the serialisers are calls of \<open>put\<close> and
  \<open>get\<close>. A call that throws ends the run.\<close>

datatype ba_call =
    Write "cell list"
  | Read nat
  | SetPosition nat
  | Clear
  | SetLittle bool
  | AddCapacity nat
  | WriteBuffers nat
  | Put wire_value
  | LoadFile "u8 list option"

definition call_ba :: "ba_call \<Rightarrow> byte_array \<Rightarrow> byte_array result" where
  "call_ba c ba = (case c of
       Write cs \<Rightarrow> write_ba cs ba
     | Read n \<Rightarrow> bind_r (read_ba n ba) (\<lambda>(cs, ba'). Inr ba')
     | SetPosition v \<Rightarrow> setPosition v ba
     | Clear \<Rightarrow> Inr (clear ba)
     | SetLittle v \<Rightarrow> Inr (setIsLittleEndian v ba)
     | AddCapacity n \<Rightarrow> addCapacity n ba
     | WriteBuffers n \<Rightarrow> bind_r (getWriteBuffers n ba) (\<lambda>(iovs, ba'). Inr ba')
     | Put v \<Rightarrow> put v ba
     | LoadFile f \<Rightarrow> bind_r (readFromFile f ba) (\<lambda>(ok, ba'). Inr ba'))"

inductive ba_reach :: "byte_array \<Rightarrow> bool" where
  new: "0 < base_size \<Longrightarrow> ba_reach (new_ByteArray base_size)"
| call: "ba_reach ba \<Longrightarrow> call_ba c ba = Inr ba' \<Longrightarrow> ba_reach ba'"

lemma setPosition_cases:
  assumes "ba_inv ba"
  shows "setPosition v ba = (if m_capacity ba < v then Inl OutOfRange
    else Inr (ba\<lparr>m_position := v, m_size := max (m_size ba) v,
      m_cur := cur_at (m_baseSize ba) (length (m_nodes ba)) v\<rparr>))"
  using assms seek_correct [of "m_baseSize ba" "m_nodes ba" v 0]
  by (simp add: setPosition_def ba_inv_def option.map_ident)

lemma ba_inv_call:
  assumes inv: "ba_inv ba" and "call_ba c ba = Inr ba'"
  shows "ba_inv ba'"
proof (cases c)
  case (Write cs)
  with assms show ?thesis by (auto intro: write_ba_correct [OF inv, of cs] simp: call_ba_def)
next
  case (Read n)
  then show ?thesis
    using assms ba_invD [OF inv]
    by (auto simp: call_ba_def read_ba_cases ba_inv_def split: if_splits)
next
  case (SetPosition v)
  then show ?thesis
    using assms ba_invD [OF inv]
    by (auto simp: call_ba_def setPosition_cases ba_inv_def split: if_splits)
next
  case (AddCapacity n)
  with assms show ?thesis by (auto intro: addCapacity_correct [OF inv, of n] simp: call_ba_def)
next
  case (WriteBuffers n)
  with assms show ?thesis by (auto intro: getWriteBuffers_correct [OF inv, of n] simp: call_ba_def)
next
  case (Put v)
  then show ?thesis
    using assms ba.emitsE [OF emits_put inv refl order_refl, of v] by (auto simp: call_ba_def)
next
  case (LoadFile f)
  then show ?thesis
    using assms load_loop_correct [OF inv order_refl, of "the f"]
    by (cases f) (auto simp: call_ba_def readFromFile_def)
qed (use assms in \<open>auto simp: call_ba_def intro: inv_intro\<close>)

lemma ba_inv_reach: "ba_reach ba \<Longrightarrow> ba_inv ba"
  by (induction rule: ba_reach.induct) (auto intro: inv_intro ba_inv_call)

text \<open>Saving: with the position inside the last node and at most a block left, the loop of
  \<open>writeToFile\<close> cuts the first piece short by the offset and walks off the chain.\<close>

lemma writeToFile_unaligned:
  assumes inv: "ba_inv ba" and d: "m_position ba mod m_baseSize ba \<noteq> 0"
    and last: "Suc (m_position ba div m_baseSize ba) = length (m_nodes ba)"
    and n: "0 < getReadSize ba"
  shows "writeToFile True ba = Inl (if m_position ba mod m_baseSize ba \<le> getReadSize ba
    then NullDeref else BufferOverflow)"
proof -
  let ?b = "m_baseSize ba" and ?nds = "m_nodes ba"
  define i where "i = m_position ba div m_baseSize ba"
  define d where "d = m_position ba mod m_baseSize ba"
  define n where "n = m_size ba - m_position ba"
  note iv = ba_invD [OF inv]
  have p: "m_position ba = i * ?b + d" by (simp add: i_def d_def)
  have d: "0 < d" "d < ?b" using iv(1) assms(2) by (simp_all add: d_def)
  have i: "Suc i = length ?nds" using last by (simp add: i_def)
  have cur: "m_cur ba = Some i" using iv(8) i by (simp add: cur_at_def i_def)
  have cap: "m_capacity ba = i * ?b + ?b" using iv(4) i [symmetric] by simp
  have n: "0 < n" "n \<le> ?b" using n inv iv(5,6) cap p by (simp_all add: n_def)
  have md: "(int i * int ?b + int d) mod int ?b = int d" using d by simp
  have "save_loop ?b ?nds (Some i) (int (i * ?b + d)) (int n)
      = Inl (if d \<le> n then NullDeref else BufferOverflow)"
  proof (cases "d \<le> n")
    case True
    then have "d \<le> min ?b n" using d by simp
    from save_loop_step [OF iv(3,1) _ d(2) n(1) this, of i] show ?thesis
      using True d n i iv(1) by (simp add: min_absorb2 save_loop.simps [of _ _ None])
  next
    case False
    then have neg: "(if int ?b < int n then int ?b else int n) - int d < 0" using n by simp
    have "i < length ?nds" "\<not> int n \<le> 0" "?b \<noteq> 0" using i n iv(1) by simp_all
    with neg md False show ?thesis
      by (simp only: save_loop.simps [of ?b ?nds "Some i" _ "int n"] Let_def option.case if_True
          if_False of_nat_add of_nat_mult)
  qed
  then show ?thesis
    using inv cur unfolding p [symmetric]
    by (simp add: writeToFile_def flip: d_def n_def)
qed

text \<open>Loading a file into a fresh array and rewinding gives the bytes of the file.\<close>

lemma readFromFile_new:
  assumes "0 < b"
  shows "\<exists>ba1. readFromFile (Some bs) (new_ByteArray b) = Inr (True, ba1)
    \<and> bind_r (setPosition 0 ba1) toString = Inr (map Some bs)"
proof -
  let ?ba = "new_ByteArray b"
  have inv: "ba_inv ?ba" using assms by (rule ba_inv_new)
  have p: "m_position ?ba = 0" "m_size ?ba = 0" by (simp_all add: new_ByteArray_def)
  with inv obtain ba1 where l: "load_loop bs ?ba = Inr ba1" "ba_inv ba1"
    "m_position ba1 = length bs" "written_since 0 ba1 = written_since 0 ?ba @ map Some bs"
    using load_loop_correct [OF inv, of 0 bs] by auto
  have "m_size ba1 = length bs" using load_loop_size [OF inv _ l(1)] l(3) p by simp
  moreover have "written_since 0 ?ba = []" using p by (simp add: written_since_def)
  ultimately have un: "take (m_size ba1) (contents ba1) = map Some bs"
    using l(3,4) by (simp add: written_since_def)
  obtain ba2 where sp: "setPosition 0 ba1 = Inr ba2" "ba_inv ba2" "m_position ba2 = 0"
    "m_size ba2 = max (m_size ba1) 0" "contents ba2 = contents ba1"
    by (rule setPosition_correct [OF l(2), of 0]) simp_all
  show ?thesis
    using l(1) sp un toString_correct [OF sp(2)] by (simp add: readFromFile_def unread_def)
qed

subsection \<open>Properties\<close>



text \<open>
  C14: On every array a program can obtain through the public members, starting from a positive block
  size, the chain is well formed: the nodes have the block size, the capacity is the storage that
  exists, position \<open>\<le>\<close> size \<open>\<le>\<close> capacity, and the cursor is the node that holds the position (null
  exactly at the end of the storage).
\<close>

theorem reachable_wellformed:
  assumes "ba_reach ba"
  shows "ba_inv ba"
  using assms by (rule ba_inv_reach)

theorem reachable_wellformed_witness:
  "ba_inv (setIsLittleEndian True (new_ByteArray 4))"
proof (rule reachable_wellformed)
  have "call_ba (SetLittle True) (new_ByteArray 4) = Inr (setIsLittleEndian True (new_ByteArray 4))"
    by (simp add: call_ba_def)
  with ba_reach.new [of 4] show "ba_reach (setIsLittleEndian True (new_ByteArray 4))"
    by (auto intro: ba_reach.call)
qed

text \<open>
  C2: \<open>write\<close> never fails on a well-formed array, and the chain of nodes implements the flat buffer:
  the bytes replace what was at the position and behind it, the buffer grows where they reach past
  its end, and the position moves past them.
\<close>

theorem write_refines_flat:
  assumes "ba_inv ba"
  shows "\<exists>ba'. write_ba cs ba = Inr ba' \<and> ba_inv ba' \<and> abs_ba ba' = flat_write cs (abs_ba ba)"
  by (rule write_ba_refines [OF assms]) blast

theorem write_refines_flat_witness:
  "\<exists>ba'. write_ba [Some 1, Some 2, Some 3] (new_ByteArray 2) = Inr ba' \<and> ba_inv ba'
    \<and> abs_ba ba' = flat_write [Some 1, Some 2, Some 3] (abs_ba (new_ByteArray 2))"
  by (rule write_refines_flat) (simp add: ba_inv_new)

text \<open>
  C31: \<open>read\<close> on a well-formed array, on every branch: more than what is left throws
  \<open>out_of_range\<close>; a read of zero bytes with the position at the very end of the storage
  dereferences the null cursor; every other read returns the next bytes and moves the position and
  the cursor, changing nothing else.
\<close>

theorem read_behaviour:
  assumes "ba_inv ba"
  shows "read_ba n ba =
    (if m_size ba < m_position ba + n then Inl OutOfRange
     else if n = 0 \<and> m_position ba = m_capacity ba then Inl NullDeref
     else Inr (take n (unread ba),
       ba\<lparr>m_position := m_position ba + n,
          m_cur := cur_at (m_baseSize ba) (length (m_nodes ba)) (m_position ba + n)\<rparr>))"
  using assms by (rule read_ba_cases)

theorem read_behaviour_witness:
  "read_ba 1 (new_ByteArray 2) = Inl OutOfRange"
  using read_behaviour [OF ba_inv_new [of 2], of 1] by (simp add: new_ByteArray_def)

text \<open>
  \<open>setPosition\<close> throws exactly when the new position is past the capacity; otherwise it moves the
  position and the cursor, and a position past the size makes the bytes in between part of the
  array.
\<close>

theorem setPosition_behaviour:
  assumes "ba_inv ba"
  shows "setPosition v ba = (if m_capacity ba < v then Inl OutOfRange
    else Inr (ba\<lparr>m_position := v, m_size := max (m_size ba) v,
      m_cur := cur_at (m_baseSize ba) (length (m_nodes ba)) v\<rparr>))"
  using assms by (rule setPosition_cases)

theorem setPosition_behaviour_witness: "setPosition 3 (new_ByteArray 2) = Inl OutOfRange"
  using setPosition_behaviour [OF ba_inv_new [of 2], of 3] by (simp add: new_ByteArray_def)

text \<open>
  C32: \<open>toString\<close> and the scatter list of \<open>getReadBuffers\<close> both denote the unread bytes: the string is
  all of them, the buffers handed to the kernel hold the first \<open>len\<close> of them, stay inside their
  nodes, and the length returned is what the list covers.
\<close>

theorem read_views:
  assumes "ba_inv ba"
  shows "toString ba = Inr (unread ba)
    \<and> (\<exists>iovs. getReadBuffers len ba = Inr (min len (getReadSize ba), iovs)
        \<and> gather (m_nodes ba) iovs = take len (unread ba)
        \<and> list_all (iov_in_bounds (m_nodes ba)) iovs)"
  using toString_correct [OF assms] getReadBuffers_correct [OF assms, of len] by blast

theorem read_views_witness:
  "toString (new_ByteArray 2) = Inr (unread (new_ByteArray 2))
    \<and> (\<exists>iovs. getReadBuffers 5 (new_ByteArray 2) = Inr (min 5 (getReadSize (new_ByteArray 2)), iovs)
        \<and> gather (m_nodes (new_ByteArray 2)) iovs = take 5 (unread (new_ByteArray 2))
        \<and> list_all (iov_in_bounds (m_nodes (new_ByteArray 2))) iovs)"
  by (rule read_views) (simp add: ba_inv_new)

text \<open>
  Receiving through \<open>getWriteBuffers\<close> is a \<open>write\<close>: the member reserves the room, leaves position,
  size and contents as they were, and whatever bytes the kernel stores through the list (at most
  \<open>len\<close>) land where \<open>write\<close> would have put them, in storage of the same shape.
\<close>

theorem write_buffers_store:
  assumes "ba_inv ba" and "length cs \<le> len"
  shows "\<exists>iovs ba' ext. getWriteBuffers len ba = Inr ((len, iovs), ba') \<and> ba_inv ba'
    \<and> m_position ba' = m_position ba \<and> m_size ba' = m_size ba
    \<and> contents ba' = contents ba @ replicate ext None
    \<and> nodes_ok (m_baseSize ba') (scatter iovs cs (m_nodes ba'))
    \<and> concat (map node_ptr (scatter iovs cs (m_nodes ba')))
        = overwrite (contents ba') (m_position ba) cs"
proof -
  obtain iovs ba' ext where w: "getWriteBuffers len ba = Inr ((len, iovs), ba')" "ba_inv ba'"
    "m_position ba' = m_position ba" "m_size ba' = m_size ba"
    "contents ba' = contents ba @ replicate ext None" "m_endian ba' = m_endian ba"
    "m_position ba + len \<le> m_capacity ba'"
    and sc: "\<forall>cs. length cs \<le> len \<longrightarrow> nodes_ok (m_baseSize ba') (scatter iovs cs (m_nodes ba'))
      \<and> length (scatter iovs cs (m_nodes ba')) = length (m_nodes ba')
      \<and> concat (map node_ptr (scatter iovs cs (m_nodes ba')))
        = overwrite (contents ba') (m_position ba) cs"
    by (rule getWriteBuffers_correct [OF assms(1), of len])
  then show ?thesis using sc assms(2)
    by (intro exI [of _ iovs] exI [of _ ba'] exI [of _ ext]) simp
qed

theorem write_buffers_store_witness:
  "\<exists>iovs ba' ext. getWriteBuffers 5 (new_ByteArray 2) = Inr ((5, iovs), ba') \<and> ba_inv ba'
    \<and> m_position ba' = m_position (new_ByteArray 2) \<and> m_size ba' = m_size (new_ByteArray 2)
    \<and> contents ba' = contents (new_ByteArray 2) @ replicate ext None
    \<and> nodes_ok (m_baseSize ba') (scatter iovs [Some 7, Some 8, Some 9] (m_nodes ba'))
    \<and> concat (map node_ptr (scatter iovs [Some 7, Some 8, Some 9] (m_nodes ba')))
        = overwrite (contents ba') (m_position (new_ByteArray 2)) [Some 7, Some 8, Some 9]"
  by (rule write_buffers_store) (simp_all add: ba_inv_new)



text \<open>
  Where the position is inside the last node, \<open>writeToFile\<close> never completes: it shortens the first
  piece by the offset in the node, and either follows the null \<open>next\<close> pointer for the rest or asks
  for a negative number of bytes.
\<close>

theorem writeToFile_last_node_fails:
  assumes "ba_inv ba" and "m_position ba mod m_baseSize ba \<noteq> 0"
    and "Suc (m_position ba div m_baseSize ba) = length (m_nodes ba)" and "0 < getReadSize ba"
  shows "writeToFile True ba = Inl (if m_position ba mod m_baseSize ba \<le> getReadSize ba
    then NullDeref else BufferOverflow)"
  using assms by (rule writeToFile_unaligned)

definition sample_array :: byte_array where
  "sample_array = \<lparr>m_baseSize = 4, m_position = 1, m_capacity = 4, m_size = 3,
     m_endian = PHASE0_BIG_ENDIAN,
     m_nodes = [\<lparr>node_ptr = [Some 1, Some 2, Some 3, None], node_size = 4\<rparr>], m_cur = Some 0\<rparr>"

lemma ba_inv_sample: "ba_inv sample_array"
  by (simp add: sample_array_def ba_inv_def nodes_ok_def cur_at_def)

theorem writeToFile_last_node_fails_witness: "writeToFile True sample_array = Inl NullDeref"
  using writeToFile_last_node_fails [OF ba_inv_sample]
  by (simp add: sample_array_def getReadSize_def size_sub_def)

text \<open>
  The empty string is where the round trip breaks: when the length prefix ends exactly at the end
  of the storage, reading it back reads zero bytes at the end and dereferences the null cursor.
\<close>

theorem empty_string_null:
  "bind_r (writeStringF16 [] (new_ByteArray 2)) (\<lambda>ba. bind_r (setPosition 0 ba) readStringF16)
    = Inl NullDeref"
  by code_simp

text \<open>
  The \<open>const\<close> overload \<open>read(buf, size, position)\<close> takes the offset in the node from \<open>position\<close>
  but starts at the node of \<open>m_cur\<close>: with blocks of two bytes holding 1, 2, 3 and the position at
  the end, reading one byte at position 0 gives the byte at position 2.
\<close>

theorem read_at_uses_cursor:
  "bind_r (write_ba [Some 1, Some 2, Some 3] (new_ByteArray 2)) (read_at 1 0) = Inr [Some 3]"
  by code_simp

end
