(* ===== verification/Fiber.thy ===== *)
theory Fiber
  imports Prelude
begin

text \<open>
  Fibers (\<open>src/fiber/fiber.cc\<close>), as seen by one thread. The thread-local pointers \<open>t_fiber\<close>,
  \<open>t_threadFiber\<close> and the scheduler's \<open>t_schedulerFiber\<close> are addresses of fibers; \<open>running\<close> is the
  fiber whose context the thread executes, which is what \<open>swapcontext\<close> changes. \<open>getcontext\<close>,
  \<open>makecontext\<close> and \<open>swapcontext\<close> are taken to succeed (their failure is an assertion in the source),
  and so is the allocation of a stack. A failed \<open>PHASE0_ASSERT\<close> is the error \<open>AssertFail\<close>. The body
  of a fiber is code of the caller: how it ends is the argument of \<open>MainFunc_end\<close>.
\<close>

datatype fiber_state = INIT | HOLD | EXEC | Term | READY | EXCEPT

record fiber =
  m_id :: u64
  m_stacksize :: u32
  m_state :: fiber_state
  m_stack :: bool
  m_cb :: "nat option"
  m_runInScheduler :: bool

record fiber_thread =
  fibers :: "nat \<rightharpoonup> fiber"
  FiberId :: u64
  FiberCount :: u64
  t_fiber :: "nat option"
  t_threadFiber :: "nat option"
  t_schedulerFiber :: "nat option"
  running :: "nat option"

definition fiber_at :: "fiber_thread \<Rightarrow> nat \<Rightarrow> fiber result" where
  "fiber_at w f = (case fibers w f of None \<Rightarrow> Inl NullDeref | Some x \<Rightarrow> Inr x)"

definition set_state :: "nat \<Rightarrow> fiber_state \<Rightarrow> fiber_thread \<Rightarrow> fiber_thread" where
  "set_state f st w = w\<lparr>fibers := (fibers w)(f := map_option (m_state_update (\<lambda>_. st)) (fibers w f))\<rparr>"

definition SetThis :: "nat option \<Rightarrow> fiber_thread \<Rightarrow> fiber_thread" where
  "SetThis f w = w\<lparr>t_fiber := f\<rparr>"

text \<open>The private constructor: the main fiber of a thread, without a stack of its own.\<close>

definition main_Fiber :: "nat \<Rightarrow> fiber_thread \<Rightarrow> fiber_thread" where
  "main_Fiber f w =
     w\<lparr>t_fiber := Some f, FiberId := FiberId w + 1, FiberCount := FiberCount w + 1,
       fibers := (fibers w)(f \<mapsto> \<lparr>m_id = FiberId w + 1, m_stacksize = 0, m_state = EXEC,
         m_stack = False, m_cb = None, m_runInScheduler = False\<rparr>)\<rparr>"

definition new_Fiber ::
  "u32 \<Rightarrow> nat \<Rightarrow> nat option \<Rightarrow> u32 \<Rightarrow> bool \<Rightarrow> fiber_thread \<Rightarrow> fiber_thread" where
  "new_Fiber DefaultFiberStackSize f cb stacksize runInScheduler w =
     w\<lparr>FiberId := FiberId w + 1, FiberCount := FiberCount w + 1,
       fibers := (fibers w)(f \<mapsto> \<lparr>m_id = FiberId w + 1,
         m_stacksize = (if stacksize \<noteq> 0 then stacksize else DefaultFiberStackSize),
         m_state = READY, m_stack = True, m_cb = cb, m_runInScheduler = runInScheduler\<rparr>)\<rparr>"

definition delete_Fiber :: "nat \<Rightarrow> fiber_thread \<Rightarrow> fiber_thread result" where
  "delete_Fiber f w = bind_r (fiber_at w f) (\<lambda>x.
     let w1 = w\<lparr>FiberCount := FiberCount w - 1\<rparr> in
     if m_stack x then
       assert_r (m_state x = Term \<or> m_state x = EXCEPT \<or> m_state x = INIT) (
         Inr (w1\<lparr>fibers := (fibers w)(f := None)\<rparr>))
     else
       assert_r (m_cb x = None) (
       assert_r (m_state x = EXEC) (
         let w2 = (if t_fiber w1 = Some f then SetThis None w1 else w1) in
         Inr (w2\<lparr>fibers := (fibers w)(f := None)\<rparr>))))"

definition reset_Fiber :: "nat \<Rightarrow> nat option \<Rightarrow> fiber_thread \<Rightarrow> fiber_thread result" where
  "reset_Fiber f cb w = bind_r (fiber_at w f) (\<lambda>x.
     assert_r (m_stack x) (
     assert_r (m_state x = Term \<or> m_state x = EXCEPT \<or> m_state x = INIT) (
       Inr (w\<lparr>fibers := (fibers w)(f \<mapsto> x\<lparr>m_cb := cb, m_state := INIT\<rparr>)\<rparr>))))"

text \<open>\<open>swapcontext\<close>: execution continues in \<open>to\<close>; both contexts are dereferenced.\<close>

definition swapcontext :: "nat option \<Rightarrow> nat option \<Rightarrow> fiber_thread \<Rightarrow> fiber_thread result" where
  "swapcontext from to w = (case (from, to) of
       (Some a, Some b) \<Rightarrow> bind_r (fiber_at w a) (\<lambda>_. bind_r (fiber_at w b) (\<lambda>_.
         Inr (w\<lparr>running := Some b\<rparr>)))
     | _ \<Rightarrow> Inl NullDeref)"

definition home :: "fiber \<Rightarrow> fiber_thread \<Rightarrow> nat option" where
  "home x w = (if m_runInScheduler x then t_schedulerFiber w else t_threadFiber w)"

definition swapIn :: "nat \<Rightarrow> fiber_thread \<Rightarrow> fiber_thread result" where
  "swapIn f w = bind_r (fiber_at w f) (\<lambda>x.
     let w1 = SetThis (Some f) w in
     assert_r (m_state x \<noteq> EXEC) (
       swapcontext (home x w1) (Some f) (set_state f EXEC w1)))"

definition swapOut :: "nat \<Rightarrow> fiber_thread \<Rightarrow> fiber_thread result" where
  "swapOut f w = bind_r (fiber_at w f) (\<lambda>x.
     assert_r (m_state x = EXEC \<or> m_state x = Term) (
       let w1 = SetThis (t_schedulerFiber w) w;
           w2 = (if m_state x \<noteq> Term then set_state f READY w1 else w1) in
       swapcontext (Some f) (home x w2) w2))"

text \<open>\<open>f\<close> is the address a main fiber would get.\<close>

definition GetThis :: "nat \<Rightarrow> fiber_thread \<Rightarrow> (nat \<times> fiber_thread) result" where
  "GetThis f w = (case t_fiber w of Some g \<Rightarrow> bind_r (fiber_at w g) (\<lambda>_. Inr (g, w))
     | None \<Rightarrow> Inr (f, (main_Fiber f w)\<lparr>t_threadFiber := Some f\<rparr>))"

definition YieldToReady :: "nat \<Rightarrow> fiber_thread \<Rightarrow> fiber_thread result" where
  "YieldToReady a w = bind_r (GetThis a w) (\<lambda>(f, w1). bind_r (fiber_at w1 f) (\<lambda>x.
     assert_r (m_state x = EXEC) (swapOut f w1)))"

definition YieldToHold :: "nat \<Rightarrow> fiber_thread \<Rightarrow> fiber_thread result" where
  "YieldToHold a w = bind_r (GetThis a w) (\<lambda>(f, w1). bind_r (fiber_at w1 f) (\<lambda>x.
     assert_r (m_state x = EXEC) (swapOut f (set_state f HOLD w1))))"

definition TotalFibers :: "fiber_thread \<Rightarrow> u64" where
  "TotalFibers w = FiberCount w"

definition GetFiberId :: "fiber_thread \<Rightarrow> u64 result" where
  "GetFiberId w = (case t_fiber w of None \<Rightarrow> Inr 0
     | Some f \<Rightarrow> bind_r (fiber_at w f) (\<lambda>x. Inr (m_id x)))"

text \<open>\<open>MainFunc\<close> from the return of \<open>m_cb\<close> on: \<open>throws\<close> tells whether it left by an exception.\<close>

definition MainFunc_end :: "bool \<Rightarrow> nat \<Rightarrow> fiber_thread \<Rightarrow> fiber_thread result" where
  "MainFunc_end throws a w = bind_r (GetThis a w) (\<lambda>(f, w1). bind_r (fiber_at w1 f) (\<lambda>x.
     let w2 = (if throws then set_state f EXCEPT w1
               else w1\<lparr>fibers := (fibers w1)(f \<mapsto> x\<lparr>m_cb := None, m_state := Term\<rparr>)\<rparr>)
     in swapOut f w2))"

subsection \<open>The state machine\<close>

lemma fiber_at_Inr [simp]: "fiber_at w f = Inr x \<longleftrightarrow> fibers w f = Some x"
  by (simp add: fiber_at_def split: option.splits)

lemma fiber_at_Some: "fibers w f = Some x \<Longrightarrow> fiber_at w f = Inr x"
  by simp

lemma set_state_simps [simp]:
  "fibers (set_state f st w) = (fibers w)(f := map_option (m_state_update (\<lambda>_. st)) (fibers w f))"
  "t_fiber (set_state f st w) = t_fiber w"
  "t_threadFiber (set_state f st w) = t_threadFiber w"
  "t_schedulerFiber (set_state f st w) = t_schedulerFiber w"
  "FiberId (set_state f st w) = FiberId w" "FiberCount (set_state f st w) = FiberCount w"
  "running (set_state f st w) = running w"
  by (simp_all add: set_state_def)

lemma SetThis_simps [simp]:
  "fibers (SetThis g w) = fibers w" "t_fiber (SetThis g w) = g"
  "t_threadFiber (SetThis g w) = t_threadFiber w"
  "t_schedulerFiber (SetThis g w) = t_schedulerFiber w"
  "FiberId (SetThis g w) = FiberId w" "FiberCount (SetThis g w) = FiberCount w"
  "running (SetThis g w) = running w"
  by (simp_all add: SetThis_def)

lemma home_simps [simp]:
  "home x (set_state f st w) = home x w" "home x (SetThis g w) = home x w"
  "home (m_state_update u x) w = home x w" "home (m_cb_update v x) w = home x w"
  by (simp_all add: home_def)

lemma swapcontext_Inr:
  "swapcontext a b w = Inr w' \<longleftrightarrow> (\<exists>f g. a = Some f \<and> b = Some g \<and> f \<in> dom (fibers w)
     \<and> g \<in> dom (fibers w) \<and> w' = w\<lparr>running := Some g\<rparr>)"
  by (cases a; cases b) (auto simp: swapcontext_def bind_r_Inr_iff dom_def)

text \<open>The calls of one thread. An allocation returns an address that is not in use; \<open>attach\<close> is the
  assignment of \<open>t_schedulerFiber\<close> by the scheduler.\<close>

inductive fiber_step :: "fiber_thread \<Rightarrow> fiber_thread \<Rightarrow> bool" where
  new: "fibers w f = None \<Longrightarrow> fiber_step w (new_Fiber dflt f cb sz sched w)"
| delete: "delete_Fiber f w = Inr w' \<Longrightarrow> fiber_step w w'"
| reset: "reset_Fiber f cb w = Inr w' \<Longrightarrow> fiber_step w w'"
| swap_in: "swapIn f w = Inr w' \<Longrightarrow> fiber_step w w'"
| get_this: "fibers w a = None \<Longrightarrow> GetThis a w = Inr (f, w') \<Longrightarrow> fiber_step w w'"
| yield_ready: "fibers w a = None \<Longrightarrow> YieldToReady a w = Inr w' \<Longrightarrow> fiber_step w w'"
| yield_hold: "fibers w a = None \<Longrightarrow> YieldToHold a w = Inr w' \<Longrightarrow> fiber_step w w'"
| main_end: "fibers w a = None \<Longrightarrow> MainFunc_end throws a w = Inr w' \<Longrightarrow> fiber_step w w'"
| attach: "f \<in> dom (fibers w) \<Longrightarrow> fiber_step w (w\<lparr>t_schedulerFiber := Some f\<rparr>)"

definition new_thread :: fiber_thread where
  "new_thread = \<lparr>fibers = Map.empty, FiberId = 0, FiberCount = 0, t_fiber = None,
     t_threadFiber = None, t_schedulerFiber = None, running = None\<rparr>"

text \<open>A run of \<open>n\<close> calls.\<close>

inductive fiber_run :: "nat \<Rightarrow> fiber_thread \<Rightarrow> bool" where
  start: "fiber_run 0 new_thread"
| step: "fiber_run n w \<Longrightarrow> fiber_step w w' \<Longrightarrow> fiber_run (Suc n) w'"

lemma YieldToHold_fails: "YieldToHold a w \<noteq> Inr w'"
  by (auto simp: YieldToHold_def swapOut_def bind_r_Inr_iff assert_r_Inr_iff)

lemma MainFunc_throws_fails: "MainFunc_end True a w \<noteq> Inr w'"
  by (auto simp: MainFunc_end_def swapOut_def bind_r_Inr_iff assert_r_Inr_iff Let_def)

text \<open>What a call does to the table of fibers: \<open>keeps\<close> the same fibers and ids and moves some of them
  to a state of the life cycle, \<open>creates\<close> one, or \<open>removes\<close> one.\<close>

definition alive_states :: "fiber_state set" where
  "alive_states = {INIT, READY, EXEC, Term}"

definition keeps :: "fiber_thread \<Rightarrow> fiber_thread \<Rightarrow> bool" where
  "keeps w w' \<longleftrightarrow> FiberId w' = FiberId w \<and> FiberCount w' = FiberCount w
     \<and> dom (fibers w') = dom (fibers w)
     \<and> (\<forall>f x x'. fibers w f = Some x \<longrightarrow> fibers w' f = Some x' \<longrightarrow>
          m_id x' = m_id x \<and> (m_state x' = m_state x \<or> m_state x' \<in> alive_states))"

definition creates :: "fiber_thread \<Rightarrow> fiber_thread \<Rightarrow> bool" where
  "creates w w' \<longleftrightarrow> FiberId w' = FiberId w + 1 \<and> FiberCount w' = FiberCount w + 1
     \<and> (\<exists>f x. fibers w f = None \<and> fibers w' = (fibers w)(f \<mapsto> x)
          \<and> m_id x = FiberId w + 1 \<and> m_state x \<in> alive_states)"

definition removes :: "fiber_thread \<Rightarrow> fiber_thread \<Rightarrow> bool" where
  "removes w w' \<longleftrightarrow> FiberId w' = FiberId w \<and> FiberCount w' = FiberCount w - 1
     \<and> (\<exists>f. f \<in> dom (fibers w) \<and> fibers w' = (fibers w)(f := None))"

lemma createsI:
  "fibers w f = None \<Longrightarrow> fibers w' = (fibers w)(f \<mapsto> x) \<Longrightarrow> m_id x = FiberId w + 1 \<Longrightarrow>
   m_state x \<in> alive_states \<Longrightarrow> FiberId w' = FiberId w + 1 \<Longrightarrow> FiberCount w' = FiberCount w + 1 \<Longrightarrow>
   creates w w'"
  unfolding creates_def by blast

lemma keepsE:
  assumes "keeps w w'" and "fibers w' f = Some x'"
  obtains x where "fibers w f = Some x" and "m_id x' = m_id x"
    and "m_state x' = m_state x \<or> m_state x' \<in> alive_states"
proof -
  have "f \<in> dom (fibers w)" using assms by (metis domI keeps_def)
  then obtain x where x: "fibers w f = Some x" by auto
  with assms have "m_id x' = m_id x \<and> (m_state x' = m_state x \<or> m_state x' \<in> alive_states)"
    unfolding keeps_def by blast
  with x that show thesis by blast
qed

lemma keeps_refl: "keeps w w"
  by (simp add: keeps_def)

lemma keeps_trans:
  assumes "keeps u v" and "keeps v w"
  shows "keeps u w"
proof -
  have "m_id z = m_id x \<and> (m_state z = m_state x \<or> m_state z \<in> alive_states)"
    if fx: "fibers u f = Some x" and fz: "fibers w f = Some z" for f x z
  proof -
    obtain y where "fibers v f = Some y" "m_id z = m_id y"
      "m_state z = m_state y \<or> m_state z \<in> alive_states"
      using keepsE [OF assms(2) fz] by blast
    moreover obtain x' where "fibers u f = Some x'" "m_id y = m_id x'"
      "m_state y = m_state x' \<or> m_state y \<in> alive_states"
      using keepsE [OF assms(1) \<open>fibers v f = Some y\<close>] by blast
    ultimately show ?thesis using fx by auto
  qed
  moreover have "FiberId w = FiberId u" "FiberCount w = FiberCount u" "dom (fibers w) = dom (fibers u)"
    using assms by (simp_all only: keeps_def)
  ultimately show ?thesis unfolding keeps_def by blast
qed

lemma keeps_update:
  assumes "fibers w f = Some x" and "m_id x' = m_id x" and "m_state x' \<in> alive_states"
    and "fibers w' = (fibers w)(f \<mapsto> x')" and "FiberId w' = FiberId w" and "FiberCount w' = FiberCount w"
  shows "keeps w w'"
  using assms by (auto simp: keeps_def)

lemma keeps_set_state: "st \<in> alive_states \<Longrightarrow> keeps w (set_state f st w)"
  by (cases "fibers w f") (auto simp: keeps_def)

lemma keeps_SetThis: "keeps w (SetThis g w)"
  by (simp add: keeps_def)

lemma keeps_swapcontext: "swapcontext a b w = Inr w' \<Longrightarrow> keeps w w'"
  by (auto simp: swapcontext_Inr keeps_def)

lemma keeps_swapOut:
  assumes "swapOut f w = Inr w'"
  shows "keeps w w'"
proof -
  obtain w2 where "w2 = SetThis (t_schedulerFiber w) w
      \<or> w2 = set_state f READY (SetThis (t_schedulerFiber w) w)"
    and "keeps w2 w'"
    using assms keeps_swapcontext
    by (fastforce simp: swapOut_def bind_r_Inr_iff assert_r_Inr_iff Let_def split: if_splits)
  then show ?thesis
    using keeps_trans keeps_SetThis keeps_set_state [of READY] by (metis alive_states_def insertI1 insertI2)
qed

lemma GetThis_effect:
  assumes "GetThis a w = Inr (f, w')" and "fibers w a = None"
  shows "w' = w \<or> creates w w'"
proof (cases "t_fiber w")
  case None
  then have "w' = (main_Fiber a w)\<lparr>t_threadFiber := Some a\<rparr>" using assms(1) by (auto simp: GetThis_def)
  with assms(2) have "creates w w'"
    by (intro createsI [of w a w' "the (fibers w' a)"]) (simp_all add: main_Fiber_def alive_states_def)
  then show ?thesis ..
qed (use assms(1) in \<open>auto simp: GetThis_def bind_r_Inr_iff\<close>)

text \<open>Every call is one of these.\<close>

lemma fiber_step_effect:
  assumes "fiber_step w w'"
  shows "removes w w' \<or> (\<exists>w1. (w1 = w \<or> creates w w1) \<and> keeps w1 w')"
  using assms
proof (cases rule: fiber_step.cases)
  case (new f dflt cb sz sched)
  then have "creates w w'"
    by (intro createsI [of w f w' "the (fibers w' f)"]) (simp_all add: new_Fiber_def alive_states_def)
  then show ?thesis using keeps_refl by blast
next
  case (delete f)
  then have "removes w w'"
    by (auto simp: delete_Fiber_def removes_def bind_r_Inr_iff assert_r_Inr_iff Let_def split: if_splits)
  then show ?thesis ..
next
  case (reset f cb)
  then obtain x where "fibers w f = Some x"
    "w' = w\<lparr>fibers := (fibers w)(f \<mapsto> x\<lparr>m_cb := cb, m_state := INIT\<rparr>)\<rparr>"
    by (auto simp: reset_Fiber_def bind_r_Inr_iff assert_r_Inr_iff)
  then have "keeps w w'" by (intro keeps_update) (auto simp: alive_states_def)
  then show ?thesis by blast
next
  case (swap_in f)
  then have "keeps (set_state f EXEC (SetThis (Some f) w)) w'"
    by (auto simp: swapIn_def bind_r_Inr_iff assert_r_Inr_iff Let_def intro: keeps_swapcontext)
  moreover have "EXEC \<in> alive_states" by (simp add: alive_states_def)
  ultimately have "keeps w w'"
    using keeps_trans [OF keeps_trans [OF keeps_SetThis keeps_set_state]] by blast
  then show ?thesis by blast
next
  case (get_this a f)
  then show ?thesis using GetThis_effect keeps_refl by blast
next
  case (yield_ready a)
  then show ?thesis
    using GetThis_effect keeps_swapOut
    by (fastforce simp: YieldToReady_def bind_r_Inr_iff assert_r_Inr_iff)
next
  case (main_end a throws)
  then have "\<not> throws" using MainFunc_throws_fails by (cases throws) auto
  with main_end(2) obtain f w1 x where g: "GetThis a w = Inr (f, w1)" "fibers w1 f = Some x"
    "swapOut f (w1\<lparr>fibers := (fibers w1)(f \<mapsto> x\<lparr>m_cb := None, m_state := Term\<rparr>)\<rparr>) = Inr w'"
    by (auto simp: MainFunc_end_def bind_r_Inr_iff)
  have "keeps w1 (w1\<lparr>fibers := (fibers w1)(f \<mapsto> x\<lparr>m_cb := None, m_state := Term\<rparr>)\<rparr>)"
    using g(2) by (intro keeps_update) (auto simp: alive_states_def)
  with keeps_swapOut [OF g(3)] have "keeps w1 w'" by (rule keeps_trans [rotated])
  with GetThis_effect [OF g(1) main_end(1)] show ?thesis by blast
next
  case (attach f)
  then have "keeps w w'" by (simp add: keeps_def)
  then show ?thesis by blast
qed (simp add: YieldToHold_fails)

subsection \<open>Invariants\<close>

definition fiber_inv :: "nat \<Rightarrow> fiber_thread \<Rightarrow> bool" where
  "fiber_inv n w \<longleftrightarrow> finite (dom (fibers w)) \<and> FiberCount w = of_nat (card (dom (fibers w)))
     \<and> (\<forall>f x. fibers w f = Some x \<longrightarrow> m_state x \<in> alive_states)
     \<and> (n < 2 ^ 64 \<longrightarrow> unat (FiberId w) \<le> n
        \<and> (\<forall>f x. fibers w f = Some x \<longrightarrow> m_id x \<le> FiberId w)
        \<and> (\<forall>f g x y. fibers w f = Some x \<longrightarrow> fibers w g = Some y \<longrightarrow> m_id x = m_id y \<longrightarrow> f = g))"

lemma fiber_inv_keeps:
  assumes "keeps w w'" and "fiber_inv n w"
  shows "fiber_inv n w'"
proof -
  have old: "\<exists>x. fibers w f = Some x \<and> m_id x' = m_id x
      \<and> (m_state x' = m_state x \<or> m_state x' \<in> alive_states)" if "fibers w' f = Some x'" for f x'
    using keepsE [OF assms(1) that] by metis
  have "\<forall>f x. fibers w' f = Some x \<longrightarrow> m_state x \<in> alive_states"
    using old assms(2) by (metis fiber_inv_def)
  moreover have "\<forall>f x. fibers w' f = Some x \<longrightarrow> m_id x \<le> FiberId w'"
    "\<forall>f g x y. fibers w' f = Some x \<longrightarrow> fibers w' g = Some y \<longrightarrow> m_id x = m_id y \<longrightarrow> f = g"
    if "n < 2 ^ 64"
    using old assms that unfolding fiber_inv_def keeps_def by metis+
  ultimately show ?thesis using assms by (simp add: fiber_inv_def keeps_def)
qed

lemma fiber_inv_creates:
  assumes "creates w w'" and inv: "fiber_inv n w"
  shows "fiber_inv (Suc n) w'"
proof -
  obtain f x where c: "fibers w f = None" "fibers w' = (fibers w)(f \<mapsto> x)" "m_id x = FiberId w + 1"
    "m_state x \<in> alive_states" "FiberId w' = FiberId w + 1" "FiberCount w' = FiberCount w + 1"
    using assms(1) by (auto simp: creates_def)
  have "f \<notin> dom (fibers w)" using c(1) by auto
  then have "finite (dom (fibers w')) \<and> FiberCount w' = of_nat (card (dom (fibers w')))"
    using inv c by (simp add: fiber_inv_def)
  moreover have "unat (FiberId w') \<le> Suc n" "\<forall>g y. fibers w' g = Some y \<longrightarrow> m_id y \<le> FiberId w'"
    "\<forall>g k y z. fibers w' g = Some y \<longrightarrow> fibers w' k = Some z \<longrightarrow> m_id y = m_id z \<longrightarrow> g = k"
    if n: "Suc n < 2 ^ 64"
  proof -
    have i: "unat (FiberId w) \<le> n" using inv n by (simp add: fiber_inv_def)
    then have u: "unat (FiberId w') = Suc (unat (FiberId w))"
      using unat_add_lem [of "FiberId w" 1] c(5) n by simp
    then show "unat (FiberId w') \<le> Suc n" using i by simp
    have below: "unat (m_id y) < unat (m_id x)" if "fibers w g = Some y" for g y
    proof -
      have "m_id y \<le> FiberId w" using inv n that by (auto simp: fiber_inv_def)
      then show ?thesis using u c(3,5) by (simp add: word_le_nat_alt)
    qed
    show "\<forall>g y. fibers w' g = Some y \<longrightarrow> m_id y \<le> FiberId w'"
      using below c(2,3,5) by (auto simp: word_le_nat_alt less_imp_le split: if_splits)
    have "f = k" if "fibers w' k = Some z" "m_id z = m_id x" for k z
      using below [of k z] that c(2) by (cases "f = k") auto
    moreover have "g = k" if "fibers w g = Some y" "fibers w k = Some z" "m_id y = m_id z" for g k y z
      using inv n that by (auto simp: fiber_inv_def)
    ultimately show
      "\<forall>g k y z. fibers w' g = Some y \<longrightarrow> fibers w' k = Some z \<longrightarrow> m_id y = m_id z \<longrightarrow> g = k"
      unfolding c(2) by (metis fun_upd_apply option.inject)
  qed
  moreover have "\<forall>g y. fibers w' g = Some y \<longrightarrow> m_state y \<in> alive_states"
    using inv c(2,4) by (auto simp: fiber_inv_def)
  ultimately show ?thesis unfolding fiber_inv_def by blast
qed

lemma fiber_inv_removes:
  assumes "removes w w'" and inv: "fiber_inv n w"
  shows "fiber_inv n w'"
proof -
  obtain f where r: "f \<in> dom (fibers w)" "fibers w' = (fibers w)(f := None)"
    "FiberId w' = FiberId w" "FiberCount w' = FiberCount w - 1"
    using assms(1) by (auto simp: removes_def)
  have fin: "finite (dom (fibers w))" using inv by (simp add: fiber_inv_def)
  then have "card (dom (fibers w)) = Suc (card (dom (fibers w) - {f}))"
    using r(1) by (rule card.remove)
  then have "FiberCount w' = of_nat (card (dom (fibers w')))"
    using inv r by (simp add: fiber_inv_def)
  then show ?thesis
    using inv r fin by (auto simp: fiber_inv_def split: if_splits)
qed

lemma fiber_inv_mono: "fiber_inv n w \<Longrightarrow> fiber_inv (Suc n) w"
  by (auto simp: fiber_inv_def)

lemma fiber_run_inv: "fiber_run n w \<Longrightarrow> fiber_inv n w"
proof (induction rule: fiber_run.induct)
  case start
  then show ?case by (simp add: fiber_inv_def new_thread_def)
next
  case (step n w w')
  from fiber_step_effect [OF step.hyps(2)] show ?case
    using fiber_inv_removes fiber_inv_creates fiber_inv_keeps fiber_inv_mono step.IH by blast
qed

subsection \<open>Switching\<close>

text \<open>Entering a fiber: the thread runs it, it is the current fiber and is in state \<open>EXEC\<close>.\<close>

definition entered :: "nat \<Rightarrow> fiber \<Rightarrow> fiber_thread \<Rightarrow> fiber_thread" where
  "entered f x w = w\<lparr>fibers := (fibers w)(f \<mapsto> x\<lparr>m_state := EXEC\<rparr>), t_fiber := Some f,
     running := Some f\<rparr>"

lemma swapIn_correct:
  assumes "fibers w f = Some x" and "m_state x \<noteq> EXEC" and "home x w = Some h"
    and "h \<in> dom (fibers w)"
  shows "swapIn f w = Inr (entered f x w)"
  using assms
  by (auto simp: swapIn_def swapcontext_def entered_def SetThis_def set_state_def fiber_at_def
      home_def Let_def split: if_splits)

text \<open>Leaving it: the thread runs the fiber it was entered from, and the scheduler's fiber is current.\<close>

definition left_to :: "nat \<Rightarrow> fiber \<Rightarrow> nat \<Rightarrow> fiber_thread \<Rightarrow> fiber_thread" where
  "left_to f x h w = w\<lparr>fibers := (fibers w)(f \<mapsto> x), t_fiber := t_schedulerFiber w, running := Some h\<rparr>"

lemma YieldToReady_entered:
  assumes "fibers w f = Some x" and "home x w = Some h" and "h \<in> dom (fibers w)"
  shows "YieldToReady a (entered f x w) = Inr (left_to f (x\<lparr>m_state := READY\<rparr>) h w)"
  using assms
  by (auto simp: YieldToReady_def GetThis_def swapOut_def swapcontext_def entered_def left_to_def
      SetThis_def set_state_def fiber_at_def home_def Let_def split: if_splits)

lemma MainFunc_end_entered:
  assumes "fibers w f = Some x" and "home x w = Some h" and "h \<in> dom (fibers w)"
  shows "MainFunc_end False a (entered f x w)
    = Inr (left_to f (x\<lparr>m_cb := None, m_state := Term\<rparr>) h w)"
  using assms
  by (auto simp: MainFunc_end_def GetThis_def swapOut_def swapcontext_def entered_def left_to_def
      SetThis_def set_state_def fiber_at_def home_def Let_def split: if_splits)

subsection \<open>Properties\<close>

text \<open>
  C17: Through any sequence of fiber calls of a thread, the counter of live fibers is exact, every
  fiber is in one of the states \<open>INIT\<close>, \<open>READY\<close>, \<open>EXEC\<close>, \<open>TERM\<close> (a fiber in \<open>HOLD\<close> or
  \<open>EXCEPT\<close> never survives the call that made it so), and, for fewer than \<open>2 ^ 64\<close> calls, no two
  fibers have the same id.
\<close>

theorem fiber_run_invariant:
  assumes "fiber_run n w" and "n < 2 ^ 64"
  shows "TotalFibers w = of_nat (card (dom (fibers w)))
    \<and> (\<forall>f x. fibers w f = Some x \<longrightarrow> m_state x \<in> {INIT, READY, EXEC, Term})
    \<and> (\<forall>f g x y. fibers w f = Some x \<longrightarrow> fibers w g = Some y \<longrightarrow> m_id x = m_id y \<longrightarrow> f = g)"
  using fiber_run_inv [OF assms(1)] assms(2)
  by (simp add: fiber_inv_def TotalFibers_def alive_states_def)

theorem fiber_run_invariant_witness:
  "TotalFibers (new_Fiber 131072 7 (Some 1) 0 True new_thread) = 1"
proof -
  have "fibers new_thread 7 = None" by (simp add: new_thread_def)
  then have "fiber_run (Suc 0) (new_Fiber 131072 7 (Some 1) 0 True new_thread)"
    by (intro fiber_run.step [OF fiber_run.start] fiber_step.new)
  from fiber_run_invariant [OF this] show ?thesis
    by (simp add: new_Fiber_def new_thread_def)
qed


definition sample_thread :: fiber_thread where
  "sample_thread = (new_Fiber 131072 1 (Some 9) 0 True (main_Fiber 0 new_thread))
     \<lparr>t_threadFiber := Some 0, t_schedulerFiber := Some 0, running := Some 0\<rparr>"


text \<open>
  \<open>YieldToHold\<close> and a fiber body that leaves by an exception never return to the scheduler: both
  set a state (\<open>HOLD\<close>, \<open>EXCEPT\<close>) that the assertion at the start of \<open>swapOut\<close> does not admit, so
  on a running fiber the program aborts.
\<close>

theorem hold_and_except_abort:
  assumes "t_fiber w = Some f" and "fibers w f = Some x" and "m_state x = EXEC"
  shows "YieldToHold a w = Inl AssertFail \<and> MainFunc_end True a w = Inl AssertFail"
  using assms
  by (simp add: YieldToHold_def MainFunc_end_def GetThis_def swapOut_def fiber_at_def)

theorem hold_and_except_abort_witness:
  "YieldToHold 5 (main_Fiber 0 new_thread) = Inl AssertFail"
  using hold_and_except_abort [of "main_Fiber 0 new_thread" 0 _ 5] by (simp add: main_Fiber_def)

text \<open>
  A fiber that was created and never run cannot be destroyed: the constructor leaves \<open>m_state\<close> at
  its default \<open>READY\<close> and not at \<open>INIT\<close>, and the destructor asserts \<open>TERM\<close>, \<open>EXCEPT\<close> or
  \<open>INIT\<close>.
\<close>

theorem fresh_fiber_delete_aborts:
  "delete_Fiber f (new_Fiber dflt f cb stacksize runInScheduler w) = Inl AssertFail"
  by (simp add: delete_Fiber_def new_Fiber_def fiber_at_def)

end
