(* ===== verification/Scheduler.thy ===== *)
theory Scheduler
  imports Fiber "HOL-Library.Multiset"
begin

text \<open>
  The fiber scheduler (\<open>src/fiber/scheduler.cc\<close>, \<open>scheduler.h\<close>). The workers are the threads that
  execute \<open>run()\<close>; a step of the system is one critical section of one of them, or a call from
  outside, so every interleaving of the program is a sequence of steps. A task is a fiber or a
  callback, pinned to a thread or not (\<open>-1\<close>). The state of every fiber is kept by address; how the
  code inside a task ends (it yields or finishes) is a choice of the environment. The ghost fields
  \<open>scheduled\<close> and \<open>finished\<close> record what was queued and what has been executed.
\<close>

record schedule_task =
  task_fiber :: "nat option"
  task_cb :: "nat option"
  task_thread :: int

definition ScheduleTask_fiber :: "nat option \<Rightarrow> int \<Rightarrow> schedule_task" where
  "ScheduleTask_fiber f thr = \<lparr>task_fiber = f, task_cb = None, task_thread = thr\<rparr>"

definition ScheduleTask_cb :: "nat option \<Rightarrow> int \<Rightarrow> schedule_task" where
  "ScheduleTask_cb f thr = \<lparr>task_fiber = None, task_cb = f, task_thread = thr\<rparr>"

definition ScheduleTask_reset :: "schedule_task \<Rightarrow> schedule_task" where
  "ScheduleTask_reset t = t\<lparr>task_fiber := None, task_cb := None, task_thread := - 1\<rparr>"

text \<open>Where a worker is in the loop of \<open>run()\<close>; \<open>Picked\<close> is after the critical section.\<close>

datatype worker_pc =
    Looping
  | Picked "schedule_task option" bool
  | Executing schedule_task
  | Idling
  | Exited

record worker =
  w_pc :: worker_pc
  w_idle :: fiber_state

record scheduler =
  m_tasks :: "schedule_task list"
  m_threads :: "int list"
  m_threadCount :: nat
  m_activeThreadCount :: nat
  m_idleThreadCount :: nat
  m_useCaller :: bool
  m_rootThread :: int
  m_stopping :: bool
  workers :: "int \<Rightarrow> worker"
  fiber_states :: "nat \<Rightarrow> fiber_state"
  tickles :: nat
  scheduled :: "schedule_task list"
  finished :: "schedule_task list"

definition new_worker :: worker where
  "new_worker = \<lparr>w_pc = Looping, w_idle = READY\<rparr>"

text \<open>The constructor, on thread \<open>cur\<close>; the caller's thread is one of the workers when it is used.\<close>

definition new_Scheduler ::
  "int \<Rightarrow> (nat \<Rightarrow> fiber_state) \<Rightarrow> nat \<Rightarrow> bool \<Rightarrow> scheduler result" where
  "new_Scheduler cur fs threads useCaller =
     assert_r (0 < threads) (Inr
       \<lparr>m_tasks = [], m_threads = [],
        m_threadCount = (if useCaller then threads - 1 else threads),
        m_activeThreadCount = 0, m_idleThreadCount = 0, m_useCaller = useCaller,
        m_rootThread = (if useCaller then cur else - 1), m_stopping = False,
        workers = (\<lambda>_. new_worker), fiber_states = fs, tickles = 0,
        scheduled = [], finished = []\<rparr>)"

definition tickle :: "scheduler \<Rightarrow> scheduler" where
  "tickle s = s\<lparr>tickles := Suc (tickles s)\<rparr>"

definition stopping :: "scheduler \<Rightarrow> bool" where
  "stopping s \<longleftrightarrow> m_stopping s \<and> m_tasks s = [] \<and> m_activeThreadCount s = 0"

definition scheduleNoLock :: "schedule_task \<Rightarrow> scheduler \<Rightarrow> bool \<times> scheduler" where
  "scheduleNoLock t s =
     (m_tasks s = [],
      if task_fiber t \<noteq> None \<or> task_cb t \<noteq> None
      then s\<lparr>m_tasks := m_tasks s @ [t], scheduled := scheduled s @ [t]\<rparr> else s)"

definition schedule :: "schedule_task \<Rightarrow> scheduler \<Rightarrow> scheduler" where
  "schedule t s = (let (needTickle, s1) = scheduleNoLock t s in if needTickle then tickle s1 else s1)"

text \<open>\<open>start()\<close>: \<open>ids\<close> are the identifiers of the threads it creates.\<close>

definition start :: "int list \<Rightarrow> scheduler \<Rightarrow> scheduler result" where
  "start ids s =
     (if m_stopping s then Inr s
      else assert_r (m_threads s = []) (Inr (s\<lparr>m_threads := take (m_threadCount s) ids\<rparr>)))"

text \<open>The loop over \<open>m_tasks\<close> in \<open>run()\<close>: the task taken, the queue left, and \<open>tickleMe\<close>.\<close>

fun find_task ::
  "int \<Rightarrow> (nat \<Rightarrow> fiber_state) \<Rightarrow> bool \<Rightarrow> schedule_task list \<Rightarrow>
   (schedule_task option \<times> schedule_task list \<times> bool) result" where
  "find_task tid fs tickleMe [] = Inr (None, [], tickleMe)"
| "find_task tid fs tickleMe (t # ts) =
     (if task_thread t \<noteq> - 1 \<and> task_thread t \<noteq> tid then
        bind_r (find_task tid fs True ts) (\<lambda>(r, rest, k). Inr (r, t # rest, k))
      else assert_r (task_fiber t \<noteq> None \<or> task_cb t \<noteq> None)
        (assert_r (case task_fiber t of None \<Rightarrow> True | Some f \<Rightarrow> fs f = READY)
          (Inr (Some t, ts, tickleMe \<or> ts \<noteq> []))))"

definition set_pc :: "int \<Rightarrow> worker_pc \<Rightarrow> scheduler \<Rightarrow> scheduler" where
  "set_pc tid pc s = s\<lparr>workers := (workers s)(tid := (workers s tid)\<lparr>w_pc := pc\<rparr>)\<rparr>"

text \<open>The critical section of \<open>run()\<close>.\<close>

definition run_take :: "int \<Rightarrow> scheduler \<Rightarrow> scheduler result" where
  "run_take tid s = bind_r (find_task tid (fiber_states s) False (m_tasks s)) (\<lambda>(r, rest, k).
     Inr (set_pc tid (Picked r k)
       (s\<lparr>m_tasks := rest,
          m_activeThreadCount := m_activeThreadCount s + (if r = None then 0 else 1)\<rparr>)))"

text \<open>After it: tickle, then run the fiber, run the callback on a fiber of its own, or go idle.\<close>

definition run_dispatch :: "int \<Rightarrow> schedule_task option \<Rightarrow> bool \<Rightarrow> scheduler \<Rightarrow> scheduler result" where
  "run_dispatch tid r k s =
     (let s1 = (if k then tickle s else s) in
      case r of
        Some t \<Rightarrow> (case task_fiber t of
            Some f \<Rightarrow> assert_r (fiber_states s1 f \<noteq> EXEC)
              (Inr (set_pc tid (Executing t) (s1\<lparr>fiber_states := (fiber_states s1)(f := EXEC)\<rparr>)))
          | None \<Rightarrow> Inr (set_pc tid (Executing t) s1))
      | None \<Rightarrow>
          if w_idle (workers s1 tid) = Term then Inr (set_pc tid Exited s1)
          else Inr (set_pc tid Idling (s1\<lparr>m_idleThreadCount := Suc (m_idleThreadCount s1)\<rparr>)))"

text \<open>Control comes back from the task, whose fiber yielded or finished. The pointer to the fiber of a
  callback is dropped; where nobody else \<open>kept\<close> one (an event context or a timer that will resume it)
  the destructor runs, and asserts that the fiber is not left in the middle.\<close>

definition run_return :: "int \<Rightarrow> schedule_task \<Rightarrow> fiber_state \<Rightarrow> bool \<Rightarrow> scheduler \<Rightarrow> scheduler result" where
  "run_return tid t st kept s =
     (let s1 = s\<lparr>m_activeThreadCount := m_activeThreadCount s - 1, finished := finished s @ [t]\<rparr> in
      case task_fiber t of
        Some f \<Rightarrow> Inr (set_pc tid Looping (s1\<lparr>fiber_states := (fiber_states s1)(f := st)\<rparr>))
      | None \<Rightarrow> assert_r (st = Term \<or> kept) (Inr (set_pc tid Looping s1)))"

text \<open>One turn of \<open>idle()\<close>: it yields back, or ends once \<open>stopping()\<close> holds.\<close>

definition idle_turn :: "int \<Rightarrow> scheduler \<Rightarrow> scheduler" where
  "idle_turn tid s =
     (let s1 = (if stopping s
           then s\<lparr>workers := (workers s)(tid := (workers s tid)\<lparr>w_idle := Term\<rparr>)\<rparr> else s)
      in set_pc tid Looping (s1\<lparr>m_idleThreadCount := m_idleThreadCount s1 - 1\<rparr>))"

text \<open>\<open>stop()\<close> up to the waiting: the flag, the tickles, and the caller's thread entering \<open>run()\<close>. The
  rest of \<open>stop\<close> waits until the workers have left it. \<open>onThis\<close>: the caller's scheduler is this one.\<close>

definition stop :: "bool \<Rightarrow> scheduler \<Rightarrow> scheduler result" where
  "stop onThis s =
     (if stopping s then Inr s
      else assert_r (onThis \<longleftrightarrow> m_useCaller s) (Inr
        (s\<lparr>m_stopping := True,
           tickles := tickles s + m_threadCount s + (if m_useCaller s then 1 else 0),
           m_threads := m_threads s @ (if m_useCaller s then [m_rootThread s] else [])\<rparr>)))"

subsection \<open>The system\<close>

inductive sched_step :: "scheduler \<Rightarrow> scheduler \<Rightarrow> bool" where
  schedule: "sched_step s (schedule t s)"
| start: "start ids s = Inr s' \<Longrightarrow> distinct ids \<Longrightarrow> m_rootThread s \<notin> set ids \<Longrightarrow> sched_step s s'"
| stop: "\<not> m_stopping s \<Longrightarrow> stop onThis s = Inr s' \<Longrightarrow> sched_step s s'"
| take: "tid \<in> set (m_threads s) \<Longrightarrow> w_pc (workers s tid) = Looping \<Longrightarrow> run_take tid s = Inr s' \<Longrightarrow>
    sched_step s s'"
| dispatch: "tid \<in> set (m_threads s) \<Longrightarrow> w_pc (workers s tid) = Picked r k \<Longrightarrow>
    run_dispatch tid r k s = Inr s' \<Longrightarrow> sched_step s s'"
| return: "tid \<in> set (m_threads s) \<Longrightarrow> w_pc (workers s tid) = Executing t \<Longrightarrow> st \<in> {READY, Term} \<Longrightarrow>
    run_return tid t st kept s = Inr s' \<Longrightarrow> sched_step s s'"
| idle: "tid \<in> set (m_threads s) \<Longrightarrow> w_pc (workers s tid) = Idling \<Longrightarrow> sched_step s (idle_turn tid s)"

inductive sched_run :: "scheduler \<Rightarrow> scheduler \<Rightarrow> bool" where
  stay: "sched_run s s"
| step: "sched_run s s1 \<Longrightarrow> sched_step s1 s2 \<Longrightarrow> sched_run s s2"

subsection \<open>The queue\<close>

definition eligible :: "int \<Rightarrow> schedule_task \<Rightarrow> bool" where
  "eligible tid t \<longleftrightarrow> task_thread t = - 1 \<or> task_thread t = tid"

definition runnable :: "(nat \<Rightarrow> fiber_state) \<Rightarrow> schedule_task \<Rightarrow> bool" where
  "runnable fs t \<longleftrightarrow> (case task_fiber t of Some f \<Rightarrow> fs f = READY | None \<Rightarrow> task_cb t \<noteq> None)"

text \<open>The first task the thread may run is taken, whatever stands before it stays in order.\<close>

lemma find_task_split:
  assumes "\<forall>t \<in> set pre. \<not> eligible tid t"
  shows "find_task tid fs k (pre @ ts) = bind_r (find_task tid fs (k \<or> pre \<noteq> []) ts)
    (\<lambda>(r, rest, k'). Inr (r, pre @ rest, k'))"
  using assms
proof (induction pre arbitrary: k)
  case Nil
  then show ?case by (cases "find_task tid fs k ts") auto
next
  case (Cons t pre)
  then show ?case by (auto simp: eligible_def bind_r_assoc split_def)
qed

lemma find_task_none:
  "\<forall>t \<in> set ts. \<not> eligible tid t \<Longrightarrow> find_task tid fs False ts = Inr (None, ts, ts \<noteq> [])"
  using find_task_split [of ts tid fs False "[]"] by simp

lemma find_task_first:
  assumes "\<forall>t \<in> set pre. \<not> eligible tid t" and "eligible tid t"
  shows "find_task tid fs False (pre @ t # post) =
    (if runnable fs t then Inr (Some t, pre @ post, pre @ post \<noteq> []) else Inl AssertFail)"
  using find_task_split [OF assms(1), of fs False "t # post"] assms(2)
  by (auto simp: eligible_def runnable_def assert_r_def split: option.splits)

lemma find_task_cases:
  assumes "find_task tid fs False ts = Inr (r, rest, k)"
  shows "(case r of None \<Rightarrow> rest = ts \<and> (\<forall>t \<in> set ts. \<not> eligible tid t)
     | Some t \<Rightarrow> eligible tid t \<and> runnable fs t \<and> mset ts = add_mset t (mset rest)) \<and> (k \<longleftrightarrow> rest \<noteq> [])"
proof (cases "\<exists>t \<in> set ts. eligible tid t")
  case False
  then show ?thesis using assms find_task_none [of ts tid fs] by auto
next
  case True
  then obtain pre t post where "ts = pre @ t # post" "eligible tid t" "\<forall>t \<in> set pre. \<not> eligible tid t"
    using split_list_first_prop [of ts "eligible tid"] by blast
  with assms find_task_first [of pre tid t fs post] show ?thesis by (auto split: if_splits)
qed

subsection \<open>Accounting\<close>

definition held :: "worker_pc \<Rightarrow> schedule_task multiset" where
  "held pc = (case pc of Picked r k \<Rightarrow> (case r of None \<Rightarrow> {#} | Some t \<Rightarrow> {#t#})
     | Executing t \<Rightarrow> {#t#} | _ \<Rightarrow> {#})"

lemma held_simps [simp]:
  "held Looping = {#}" "held Idling = {#}" "held Exited = {#}" "held (Executing t) = {#t#}"
  "held (Picked None k) = {#}" "held (Picked (Some t) k) = {#t#}"
  by (simp_all add: held_def)

definition idles :: "worker_pc \<Rightarrow> nat" where
  "idles pc = (if pc = Idling then 1 else 0)"

lemma idles_simps [simp]:
  "idles Looping = 0" "idles Idling = 1" "idles Exited = 0" "idles (Executing t) = 0"
  "idles (Picked r k) = 0"
  by (simp_all add: idles_def)

definition total :: "(worker_pc \<Rightarrow> 'a::comm_monoid_add) \<Rightarrow> scheduler \<Rightarrow> 'a" where
  "total g s = (\<Sum>tid\<in>set (m_threads s). g (w_pc (workers s tid)))"

lemma total_upd:
  assumes "tid \<in> set (m_threads s)" and "m_threads s' = m_threads s"
    and "\<And>i. i \<noteq> tid \<Longrightarrow> w_pc (workers s' i) = w_pc (workers s i)"
  shows "total g s' + g (w_pc (workers s tid)) = total g s + g (w_pc (workers s' tid))"
proof -
  let ?rest = "\<Sum>i\<in>set (m_threads s) - {tid}. g (w_pc (workers s i))"
  have "total g s = g (w_pc (workers s tid)) + ?rest"
    using assms(1) unfolding total_def by (intro sum.remove) simp_all
  moreover have "total g s' = g (w_pc (workers s' tid))
      + (\<Sum>i\<in>set (m_threads s) - {tid}. g (w_pc (workers s' i)))"
    using assms(1,2) unfolding total_def by (simp add: sum.remove)
  moreover have "(\<Sum>i\<in>set (m_threads s) - {tid}. g (w_pc (workers s' i))) = ?rest"
    using assms(3) by (intro sum.cong) auto
  ultimately show ?thesis by (simp add: ac_simps)
qed

lemma total_extend:
  assumes "\<And>i. i \<notin> set (m_threads s) \<Longrightarrow> w_pc (workers s i) = Looping" and "g Looping = 0"
    and "set (m_threads s) \<subseteq> set (m_threads s')" and "workers s' = workers s"
  shows "total g s' = total g s"
  unfolding total_def assms(4) using assms(1-3) by (intro sum.mono_neutral_right) auto

definition sched_inv :: "scheduler \<Rightarrow> bool" where
  "sched_inv s \<longleftrightarrow>
     mset (scheduled s) = mset (m_tasks s) + total held s + mset (finished s)
   \<and> m_activeThreadCount s = size (total held s)
   \<and> m_idleThreadCount s = total idles s
   \<and> (\<forall>tid. tid \<notin> set (m_threads s) \<longrightarrow> w_pc (workers s tid) = Looping)
   \<and> (\<forall>tid t. t \<in># held (w_pc (workers s tid)) \<longrightarrow> eligible tid t)
   \<and> (\<forall>tid. w_idle (workers s tid) = Term \<longrightarrow> m_stopping s)
   \<and> (\<forall>tid. w_pc (workers s tid) = Exited \<longrightarrow> w_idle (workers s tid) = Term)"

lemma sched_inv_new:
  assumes "new_Scheduler cur fs n useCaller = Inr s"
  shows "sched_inv s"
  using assms
  by (auto simp: new_Scheduler_def sched_inv_def assert_r_Inr_iff total_def new_worker_def)

text \<open>One worker moving from one place in the loop to another.\<close>

lemma sched_inv_move:
  assumes inv: "sched_inv s" and tid: "tid \<in> set (m_threads s)"
    and same: "m_threads s' = m_threads s" "m_stopping s' = m_stopping s" "scheduled s' = scheduled s"
    and ws: "workers s' = (workers s)(tid := w)"
    and tasks: "mset (m_tasks s') + held (w_pc w) + mset (finished s')
      = mset (m_tasks s) + held (w_pc (workers s tid)) + mset (finished s)"
    and active: "m_activeThreadCount s' + size (held (w_pc (workers s tid)))
      = m_activeThreadCount s + size (held (w_pc w))"
    and idle: "m_idleThreadCount s' + idles (w_pc (workers s tid)) = m_idleThreadCount s + idles (w_pc w)"
    and el: "\<And>t. t \<in># held (w_pc w) \<Longrightarrow> eligible tid t"
    and idt: "w_idle w = Term \<Longrightarrow> m_stopping s" and ex: "w_pc w = Exited \<Longrightarrow> w_idle w = Term"
  shows "sched_inv s'"
proof -
  have other: "w_pc (workers s' i) = w_pc (workers s i)" if "i \<noteq> tid" for i using that ws by simp
  have w': "w_pc (workers s' tid) = w_pc w" using ws by simp
  note upd = total_upd [OF tid same(1) other, unfolded w']
  have "mset (scheduled s') + held (w_pc (workers s tid))
      = mset (m_tasks s') + total held s' + mset (finished s') + held (w_pc (workers s tid))"
    using inv upd [of held] tasks same(3)
    by (simp add: sched_inv_def ac_simps)
  then have "mset (scheduled s') = mset (m_tasks s') + total held s' + mset (finished s')" by simp
  moreover have "m_activeThreadCount s' = size (total held s')"
    using inv arg_cong [OF upd [of held], of size] active by (simp add: sched_inv_def)
  moreover have "m_idleThreadCount s' = total idles s'"
    using inv upd [of idles] idle by (simp add: sched_inv_def)
  moreover have "\<forall>i. i \<notin> set (m_threads s') \<longrightarrow> w_pc (workers s' i) = Looping"
    using inv same(1) tid ws by (auto simp: sched_inv_def)
  moreover have "\<forall>i t. t \<in># held (w_pc (workers s' i)) \<longrightarrow> eligible i t"
    using inv el ws by (simp add: sched_inv_def)
  moreover have "\<forall>i. w_idle (workers s' i) = Term \<longrightarrow> m_stopping s'"
    using inv idt ws same(2) by (auto simp: sched_inv_def)
  moreover have "\<forall>i. w_pc (workers s' i) = Exited \<longrightarrow> w_idle (workers s' i) = Term"
    using inv ex ws by (auto simp: sched_inv_def)
  ultimately show ?thesis unfolding sched_inv_def by blast
qed

lemma set_pc_simps [simp]:
  "m_tasks (set_pc i pc s) = m_tasks s" "m_threads (set_pc i pc s) = m_threads s"
  "m_activeThreadCount (set_pc i pc s) = m_activeThreadCount s"
  "m_idleThreadCount (set_pc i pc s) = m_idleThreadCount s"
  "m_stopping (set_pc i pc s) = m_stopping s" "scheduled (set_pc i pc s) = scheduled s"
  "finished (set_pc i pc s) = finished s" "fiber_states (set_pc i pc s) = fiber_states s"
  "workers (set_pc i pc s) = (workers s)(i := (workers s i)\<lparr>w_pc := pc\<rparr>)"
  by (simp_all add: set_pc_def)

lemma tickle_simps [simp]:
  "m_tasks (tickle s) = m_tasks s" "m_threads (tickle s) = m_threads s"
  "m_activeThreadCount (tickle s) = m_activeThreadCount s"
  "m_idleThreadCount (tickle s) = m_idleThreadCount s" "m_stopping (tickle s) = m_stopping s"
  "scheduled (tickle s) = scheduled s" "finished (tickle s) = finished s"
  "fiber_states (tickle s) = fiber_states s" "workers (tickle s) = workers s"
  "total g (tickle s) = total g s"
  by (simp_all add: tickle_def total_def)

lemma sched_inv_cong:
  assumes "sched_inv s" and "m_tasks s' = m_tasks s" "m_threads s' = m_threads s"
    "m_activeThreadCount s' = m_activeThreadCount s" "m_idleThreadCount s' = m_idleThreadCount s"
    "m_stopping s \<longrightarrow> m_stopping s'" "scheduled s' = scheduled s" "finished s' = finished s"
    "workers s' = workers s"
  shows "sched_inv s'"
  using assms by (auto simp: sched_inv_def total_def)

lemma sched_inv_schedule: "sched_inv s \<Longrightarrow> sched_inv (schedule t s)"
  by (auto simp: schedule_def scheduleNoLock_def sched_inv_def total_def Let_def split: if_splits)

lemma sched_inv_extend:
  assumes "sched_inv s" and "s' = s\<lparr>m_threads := ths, m_stopping := b, tickles := n\<rparr>"
    and "set (m_threads s) \<subseteq> set ths" and "m_stopping s \<longrightarrow> b"
  shows "sched_inv s'"
proof -
  have "total held s' = total held s" "total idles s' = total idles s"
    by (rule total_extend; use assms in \<open>auto simp: sched_inv_def\<close>)+
  then show ?thesis using assms unfolding sched_inv_def by auto
qed

lemma sched_inv_take:
  assumes inv: "sched_inv s" and tid: "tid \<in> set (m_threads s)" "w_pc (workers s tid) = Looping"
    and "run_take tid s = Inr s'"
  shows "sched_inv s'"
proof -
  obtain r rest k where f: "find_task tid (fiber_states s) False (m_tasks s) = Inr (r, rest, k)"
    and s': "s' = set_pc tid (Picked r k) (s\<lparr>m_tasks := rest,
      m_activeThreadCount := m_activeThreadCount s + (if r = None then 0 else 1)\<rparr>)"
    using assms(4) by (auto simp: run_take_def bind_r_Inr_iff)
  show ?thesis
    by (rule sched_inv_move [OF inv tid(1), of _ "(workers s tid)\<lparr>w_pc := Picked r k\<rparr>"])
      (use find_task_cases [OF f] inv tid(2) in
        \<open>auto simp: s' sched_inv_def split: option.splits\<close>)
qed

lemma sched_inv_dispatch:
  assumes inv: "sched_inv s" and tid: "tid \<in> set (m_threads s)" "w_pc (workers s tid) = Picked r k"
    and d: "run_dispatch tid r k s = Inr s'"
  shows "sched_inv s'"
proof -
  have el: "\<And>t. r = Some t \<Longrightarrow> eligible tid t"
    using inv tid(2) unfolding sched_inv_def by (metis held_simps(6) union_single_eq_member add_mset_add_single)
  have idt: "w_idle (workers s tid) = Term \<Longrightarrow> m_stopping s" using inv by (auto simp: sched_inv_def)
  define pc where "pc = w_pc (workers s' tid)"
  show ?thesis
    by (rule sched_inv_move [OF inv tid(1), of _ "workers s' tid"])
      (use d tid(2) el idt in \<open>auto simp: run_dispatch_def Let_def assert_r_Inr_iff
        split: option.splits if_splits\<close>)
qed

lemma sched_inv_return:
  assumes inv: "sched_inv s" and tid: "tid \<in> set (m_threads s)" "w_pc (workers s tid) = Executing t"
    and d: "run_return tid t st kept s = Inr s'"
  shows "sched_inv s'"
proof -
  have "total held s + {#} = total held (set_pc tid Looping s) + {#t#}"
    using total_upd [OF tid(1), of "set_pc tid Looping s" held] tid(2) by simp
  then have pos: "0 < m_activeThreadCount s" using inv by (simp add: sched_inv_def)
  have idt: "w_idle (workers s tid) = Term \<Longrightarrow> m_stopping s" using inv by (auto simp: sched_inv_def)
  show ?thesis
    by (rule sched_inv_move [OF inv tid(1), of _ "workers s' tid"])
      (use d tid(2) pos idt in \<open>auto simp: run_return_def Let_def assert_r_Inr_iff
        split: option.splits if_splits\<close>)
qed

lemma sched_inv_idle:
  assumes inv: "sched_inv s" and tid: "tid \<in> set (m_threads s)" "w_pc (workers s tid) = Idling"
  shows "sched_inv (idle_turn tid s)"
proof -
  have "total idles s = total idles (set_pc tid Looping s) + 1"
    using total_upd [OF tid(1), of "set_pc tid Looping s" idles] tid(2) by simp
  then have pos: "0 < m_idleThreadCount s" using inv by (simp add: sched_inv_def)
  have idt: "w_idle (workers s tid) = Term \<Longrightarrow> m_stopping s" using inv by (auto simp: sched_inv_def)
  show ?thesis
    by (rule sched_inv_move [OF inv tid(1), of _ "workers (idle_turn tid s) tid"])
      (use tid(2) pos idt in \<open>auto simp: idle_turn_def Let_def stopping_def split: if_splits\<close>)
qed

lemma sched_inv_step: "sched_step s s' \<Longrightarrow> sched_inv s \<Longrightarrow> sched_inv s'"
proof (induction rule: sched_step.induct)
  case (start ids s s')
  then show ?case
    by (auto simp: start_def assert_r_Inr_iff split: if_splits
        intro!: sched_inv_extend [where s = s and b = "m_stopping s" and n = "tickles s"
          and ths = "take (m_threadCount s) ids"])
next
  case (stop s onThis s')
  then have "s' = s\<lparr>m_threads := m_threads s @ (if m_useCaller s then [m_rootThread s] else []),
      m_stopping := True, tickles := tickles s + m_threadCount s + (if m_useCaller s then 1 else 0)\<rparr>"
    by (auto simp: stop_def assert_r_Inr_iff stopping_def split: if_splits)
  then show ?case by (intro sched_inv_extend [OF stop.prems]) auto
qed (auto intro: sched_inv_schedule sched_inv_take sched_inv_dispatch sched_inv_return sched_inv_idle)

lemma sched_inv_run: "sched_run s s' \<Longrightarrow> sched_inv s \<Longrightarrow> sched_inv s'"
  by (induction rule: sched_run.induct) (auto intro: sched_inv_step)

subsection \<open>Properties\<close>

text \<open>
  C20: The critical section of \<open>run()\<close>: with \<open>pre\<close> the tasks pinned to other threads at the front of
  the queue, the worker takes the first task it may run and leaves the others in their order, and it
  tickles exactly when tasks are left for others; if that task is a fiber that is not \<open>READY\<close>
  (queued twice, say) the assertion fails.
\<close>

theorem take_first_eligible:
  assumes "\<forall>t \<in> set pre. \<not> eligible tid t" and "eligible tid t" and "m_tasks s = pre @ t # post"
  shows "run_take tid s = (if runnable (fiber_states s) t
    then Inr (set_pc tid (Picked (Some t) (pre @ post \<noteq> []))
      (s\<lparr>m_tasks := pre @ post, m_activeThreadCount := m_activeThreadCount s + 1\<rparr>))
    else Inl AssertFail)"
  using find_task_first [OF assms(1,2)] assms(3) by (simp add: run_take_def)

definition sample_scheduler :: scheduler where
  "sample_scheduler = \<lparr>m_tasks = [ScheduleTask_cb (Some 1) 7, ScheduleTask_cb (Some 2) (- 1)],
     m_threads = [5], m_threadCount = 1, m_activeThreadCount = 0, m_idleThreadCount = 0,
     m_useCaller = False, m_rootThread = - 1, m_stopping = False, workers = (\<lambda>_. new_worker),
     fiber_states = (\<lambda>_. READY), tickles = 0,
     scheduled = [ScheduleTask_cb (Some 1) 7, ScheduleTask_cb (Some 2) (- 1)], finished = []\<rparr>"

theorem take_first_eligible_witness:
  "run_take 5 sample_scheduler = Inr (set_pc 5 (Picked (Some (ScheduleTask_cb (Some 2) (- 1))) True)
    (sample_scheduler\<lparr>m_tasks := [ScheduleTask_cb (Some 1) 7], m_activeThreadCount := 1\<rparr>))"
  using take_first_eligible [of "[ScheduleTask_cb (Some 1) 7]" 5 "ScheduleTask_cb (Some 2) (- 1)"
      sample_scheduler "[]"]
  by (simp add: eligible_def runnable_def ScheduleTask_cb_def sample_scheduler_def)

text \<open>
  C4: Under every interleaving of the workers, of calls of \<open>schedule\<close> and of \<open>stop\<close>, no task is lost
  or run twice: what was scheduled is, as a multiset, what is queued, what is being executed and what
  has been executed; \<open>m_activeThreadCount\<close> and \<open>m_idleThreadCount\<close> count the workers executing a
  task and in the idle fiber; and a pinned task is only ever executed by its thread.
\<close>

theorem no_task_lost:
  assumes "new_Scheduler cur fs n useCaller = Inr s0" and "sched_run s0 s"
  shows "mset (scheduled s) = mset (m_tasks s) + total held s + mset (finished s)
    \<and> m_activeThreadCount s = size (total held s) \<and> m_idleThreadCount s = total idles s
    \<and> (\<forall>tid t. w_pc (workers s tid) = Executing t \<longrightarrow> task_thread t = - 1 \<or> task_thread t = tid)"
proof -
  have inv: "sched_inv s" using sched_inv_run [OF assms(2) sched_inv_new [OF assms(1)]] .
  have "eligible tid t" if "w_pc (workers s tid) = Executing t" for tid t
    using inv that unfolding sched_inv_def by (metis held_simps(4) multi_member_last)
  with inv show ?thesis by (auto simp: sched_inv_def eligible_def)
qed

theorem no_task_lost_witness:
  "\<exists>s. new_Scheduler 1 (\<lambda>_. READY) 2 True = Inr s
    \<and> mset (scheduled s) = mset (m_tasks s) + total held s + mset (finished s)"
proof -
  obtain s where "new_Scheduler 1 (\<lambda>_. READY) 2 True = Inr s" by (simp add: new_Scheduler_def)
  with no_task_lost [OF this sched_run.stay] show ?thesis by blast
qed



text \<open>The queue and the set of workers across a step.\<close>

lemma schedule_effect:
  "m_tasks (schedule t s) = m_tasks s \<or> m_tasks (schedule t s) = m_tasks s @ [t]"
  "m_threads (schedule t s) = m_threads s" "m_rootThread (schedule t s) = m_rootThread s"
  by (auto simp: schedule_def scheduleNoLock_def tickle_def)

lemma start_effect:
  "start ids s = Inr s' \<Longrightarrow> m_tasks s' = m_tasks s \<and> m_rootThread s' = m_rootThread s
     \<and> (m_threads s \<noteq> [] \<longrightarrow> m_threads s' = m_threads s)"
  by (auto simp: start_def assert_r_Inr_iff split: if_splits)

lemma stop_effect:
  "stop onThis s = Inr s' \<Longrightarrow> m_tasks s' = m_tasks s \<and> m_rootThread s' = m_rootThread s
     \<and> set (m_threads s) \<subseteq> set (m_threads s') \<and> set (m_threads s') \<subseteq> insert (m_rootThread s) (set (m_threads s))"
  by (auto simp: stop_def assert_r_Inr_iff split: if_splits)

lemma take_effect:
  "run_take tid s = Inr s' \<Longrightarrow> m_threads s' = m_threads s \<and> m_rootThread s' = m_rootThread s"
  by (auto simp: run_take_def bind_r_Inr_iff set_pc_def)

lemma dispatch_effect:
  "run_dispatch tid r k s = Inr s' \<Longrightarrow>
   m_tasks s' = m_tasks s \<and> m_threads s' = m_threads s \<and> m_rootThread s' = m_rootThread s"
  by (auto simp: run_dispatch_def Let_def assert_r_Inr_iff set_pc_def tickle_def
      split: option.splits if_splits)

lemma return_effect:
  "run_return tid t st kept s = Inr s' \<Longrightarrow>
   m_tasks s' = m_tasks s \<and> m_threads s' = m_threads s \<and> m_rootThread s' = m_rootThread s"
  by (auto simp: run_return_def Let_def assert_r_Inr_iff set_pc_def split: option.splits)

lemma idle_effect:
  "m_tasks (idle_turn tid s) = m_tasks s" "m_threads (idle_turn tid s) = m_threads s"
  "m_rootThread (idle_turn tid s) = m_rootThread s"
  by (simp_all add: idle_turn_def Let_def set_pc_def)

lemma threads_step:
  assumes "sched_step s s'" and "m_threads s \<noteq> []"
  shows "m_threads s' \<noteq> [] \<and> set (m_threads s') \<subseteq> insert (m_rootThread s) (set (m_threads s))
    \<and> m_rootThread s' = m_rootThread s"
  using assms(1)
proof (cases rule: sched_step.cases)
  case (stop onThis)
  from stop_effect [OF stop(2)] assms(2) show ?thesis by (metis set_empty subset_empty)
qed (use assms(2) in \<open>auto simp: schedule_effect idle_effect dest: start_effect take_effect
    dispatch_effect return_effect\<close>)

text \<open>A task pinned to a thread that is no worker stays in the queue.\<close>

lemma pinned_stays:
  assumes "sched_step s s'" and "t \<in> set (m_tasks s)" and "task_thread t \<noteq> - 1"
    and "task_thread t \<notin> set (m_threads s)"
  shows "t \<in> set (m_tasks s')"
  using assms(1)
proof (cases rule: sched_step.cases)
  case (schedule u)
  then show ?thesis using schedule_effect(1) [of u s] assms(2) by auto
next
  case (take tid)
  then obtain r rest k where f: "find_task tid (fiber_states s) False (m_tasks s) = Inr (r, rest, k)"
    "m_tasks s' = rest"
    by (auto simp: run_take_def bind_r_Inr_iff)
  show ?thesis
  proof (cases r)
    case None
    with f find_task_cases [OF f(1)] assms(2) show ?thesis by simp
  next
    case (Some u)
    with find_task_cases [OF f(1)] have u: "eligible tid u" "mset (m_tasks s) = add_mset u (mset rest)"
      by auto
    then have "u \<noteq> t" using assms(3,4) take(1) by (auto simp: eligible_def)
    moreover have "t \<in># add_mset u (mset rest)" using u(2) assms(2) by (metis set_mset_mset)
    ultimately show ?thesis using f(2) by simp
  qed
qed (use assms(2) in \<open>auto simp: idle_effect dest: start_effect stop_effect dispatch_effect
    return_effect\<close>)

text \<open>
  A task pinned to a thread identifier that no worker has keeps the scheduler from ever stopping:
  once the workers are started, the task stays queued in every run and \<open>stopping()\<close> is false, so
  no idle fiber ends and \<open>stop()\<close> waits forever.
\<close>

theorem pinned_task_blocks_stop:
  assumes "sched_run s s'" and "t \<in> set (m_tasks s)" and "task_thread t \<noteq> - 1"
    and "m_threads s \<noteq> []" and "task_thread t \<notin> insert (m_rootThread s) (set (m_threads s))"
  shows "t \<in> set (m_tasks s') \<and> \<not> stopping s'"
proof -
  have "t \<in> set (m_tasks s') \<and> m_threads s' \<noteq> [] \<and> m_rootThread s' = m_rootThread s
      \<and> set (m_threads s') \<subseteq> insert (m_rootThread s) (set (m_threads s))"
    using assms(1,2,4,5)
  proof (induction rule: sched_run.induct)
    case (step s s1 s2)
    then have IH: "t \<in> set (m_tasks s1)" "m_threads s1 \<noteq> []" "m_rootThread s1 = m_rootThread s"
      "set (m_threads s1) \<subseteq> insert (m_rootThread s) (set (m_threads s))" by auto
    then have "task_thread t \<notin> set (m_threads s1)" using step.prems by auto
    from pinned_stays [OF step.hyps(2) IH(1) assms(3) this] threads_step [OF step.hyps(2) IH(2)] IH
    show ?case by auto
  qed auto
  then show ?thesis by (auto simp: stopping_def)
qed

theorem pinned_task_blocks_stop_witness: "\<not> stopping sample_scheduler"
  using pinned_task_blocks_stop [OF sched_run.stay, of "ScheduleTask_cb (Some 1) 7" sample_scheduler]
  by (simp add: sample_scheduler_def ScheduleTask_cb_def)

end
