(* ===== verification/CppSet.thy ===== *)
theory CppSet
  imports Prelude
begin

text \<open>
  The ordered containers of the standard library (\<open>std::set\<close>, and the keys of \<open>std::map\<close>) that the
  program uses: the sequence of elements in iteration order, with the operations the program calls.
  The comparator is the argument \<open>lt\<close>; two elements are equivalent when neither is less than the
  other. The locale \<open>cpp_order\<close> is the requirement of the standard on the comparator, and the facts a
  client of a container may rely on are proved from it once.
\<close>

subsection \<open>The operations\<close>

primrec set_insert :: "('a \<Rightarrow> 'a \<Rightarrow> bool) \<Rightarrow> 'a \<Rightarrow> 'a list \<Rightarrow> 'a list" where
  "set_insert lt x [] = [x]"
| "set_insert lt x (y # ys) =
     (if lt x y then x # y # ys else if lt y x then y # set_insert lt x ys else y # ys)"

text \<open>An iterator is an index; the length is \<open>end()\<close>.\<close>

primrec lower_bound :: "('a \<Rightarrow> 'a \<Rightarrow> bool) \<Rightarrow> 'a \<Rightarrow> 'a list \<Rightarrow> nat" where
  "lower_bound lt x [] = 0"
| "lower_bound lt x (y # ys) = (if lt y x then Suc (lower_bound lt x ys) else 0)"

definition set_find :: "('a \<Rightarrow> 'a \<Rightarrow> bool) \<Rightarrow> 'a \<Rightarrow> 'a list \<Rightarrow> nat" where
  "set_find lt x ys =
     (let i = lower_bound lt x ys in
      if i < length ys \<and> \<not> lt x (ys ! i) then i else length ys)"

text \<open>\<open>erase(it)\<close>; erasing \<open>end()\<close> is undefined.\<close>

definition set_erase :: "nat \<Rightarrow> 'a list \<Rightarrow> 'a list result" where
  "set_erase i ys = (if i < length ys then Inr (take i ys @ drop (Suc i) ys) else Inl BadIterator)"

lemma set_erase_ok: "i < length ys \<Longrightarrow> set_erase i ys = Inr (take i ys @ drop (Suc i) ys)"
  by (simp add: set_erase_def)

lemma sorted_wrt_agree:
  "(\<And>x y. x \<in> set xs \<Longrightarrow> y \<in> set xs \<Longrightarrow> P x y = Q x y) \<Longrightarrow> sorted_wrt P xs = sorted_wrt Q xs"
  by (induction xs) auto

subsection \<open>What a client relies on\<close>

locale cpp_order =
  fixes lt :: "'a \<Rightarrow> 'a \<Rightarrow> bool"
  assumes irrefl: "\<not> lt x x"
    and lt_trans: "lt x y \<Longrightarrow> lt y z \<Longrightarrow> lt x z"
    and total: "lt x y \<or> x = y \<or> lt y x"
begin

lemma asym: "lt x y \<Longrightarrow> \<not> lt y x"
  using irrefl lt_trans by blast

lemma set_set_insert [simp]: "set (set_insert lt x ys) = insert x (set ys)"
proof (induction ys)
  case (Cons y ys)
  then show ?case using total [of x y] by auto
qed simp

lemma sorted_set_insert:
  assumes "sorted_wrt lt ys"
  shows "sorted_wrt lt (set_insert lt x ys)"
  using assms
proof (induction ys)
  case (Cons y ys)
  then show ?case using lt_trans [of x y] by auto
qed simp

lemma sorted_distinct: "sorted_wrt lt ys \<Longrightarrow> distinct ys"
  by (induction ys) (auto simp: irrefl)

text \<open>\<open>lower_bound\<close> splits the sequence into the elements below \<open>x\<close> and the others.\<close>

lemma lower_bound_le: "lower_bound lt x ys \<le> length ys"
  by (induction ys) auto

lemma take_lower_bound:
  "sorted_wrt lt ys \<Longrightarrow> take (lower_bound lt x ys) ys = filter (\<lambda>y. lt y x) ys"
proof (induction ys)
  case (Cons y ys)
  have "\<not> lt y x \<Longrightarrow> filter (\<lambda>z. lt z x) ys = []"
    using Cons.prems lt_trans by (auto simp: filter_empty_conv)
  with Cons show ?case by simp
qed simp

lemma drop_lower_bound:
  "sorted_wrt lt ys \<Longrightarrow> drop (lower_bound lt x ys) ys = filter (\<lambda>y. \<not> lt y x) ys"
proof (induction ys)
  case (Cons y ys)
  have "\<not> lt y x \<Longrightarrow> filter (\<lambda>z. \<not> lt z x) ys = ys"
    using Cons.prems lt_trans by (auto simp: filter_id_conv)
  with Cons show ?case by simp
qed simp

lemma lower_bound_member:
  "sorted_wrt lt ys \<Longrightarrow> x \<in> set ys \<Longrightarrow> lower_bound lt x ys < length ys \<and> ys ! lower_bound lt x ys = x"
proof (induction ys)
  case (Cons y ys)
  then show ?case using irrefl [of x] asym by auto
qed simp

lemma set_find_member:
  "sorted_wrt lt ys \<Longrightarrow> x \<in> set ys \<Longrightarrow> set_find lt x ys < length ys \<and> ys ! set_find lt x ys = x"
  using lower_bound_member [of ys x] by (auto simp: set_find_def Let_def irrefl)

lemma set_find_end:
  assumes "sorted_wrt lt ys" and "x \<notin> set ys"
  shows "set_find lt x ys = length ys"
proof (rule ccontr)
  let ?i = "lower_bound lt x ys"
  assume "set_find lt x ys \<noteq> length ys"
  then have i: "?i < length ys" "\<not> lt x (ys ! ?i)"
    by (auto simp: set_find_def Let_def split: if_splits)
  then have "ys ! ?i \<in> set (drop ?i ys)"
    by (metis Cons_nth_drop_Suc list.set_intros(1))
  then have "\<not> lt (ys ! ?i) x" using drop_lower_bound [OF assms(1)] by simp
  with i total have "ys ! ?i = x" by blast
  with assms(2) i(1) show False by (auto dest: nth_mem)
qed

lemma erase_nth:
  assumes "sorted_wrt lt ys" and "i < length ys"
  shows "take i ys @ drop (Suc i) ys = remove1 (ys ! i) ys"
  using assms
proof (induction ys arbitrary: i)
  case (Cons y ys)
  show ?case
  proof (cases i)
    case (Suc j)
    with Cons.prems have "ys ! j \<in> set ys" "\<forall>z\<in>set ys. lt y z" by auto
    then have "y \<noteq> ys ! j" using irrefl by metis
    with Suc Cons show ?thesis by simp
  qed simp
qed simp

text \<open>\<open>erase(find(x))\<close> for an element that is there.\<close>

lemma erase_find:
  assumes "sorted_wrt lt ys" and "x \<in> set ys"
  shows "set_erase (set_find lt x ys) ys = Inr (remove1 x ys)"
  using set_find_member [OF assms] erase_nth [OF assms(1), of "set_find lt x ys"]
  by (simp add: set_erase_def)

lemma sorted_remove1: "sorted_wrt lt ys \<Longrightarrow> sorted_wrt lt (remove1 x ys)"
  by (induction ys) (auto dest: notin_set_remove1 [of _ _ x])

lemma set_remove1_sorted [simp]: "sorted_wrt lt ys \<Longrightarrow> set (remove1 x ys) = set ys - {x}"
  using sorted_distinct by (simp add: set_remove1_eq)

lemma takeWhile_filter:
  assumes "sorted_wrt lt ys" and "\<And>x y. x \<in> set ys \<Longrightarrow> y \<in> set ys \<Longrightarrow> lt x y \<Longrightarrow> P y \<Longrightarrow> P x"
  shows "takeWhile P ys = filter P ys"
  using assms
proof (induction ys)
  case (Cons y ys)
  have "takeWhile P ys = filter P ys" using Cons.prems by (intro Cons.IH) auto
  moreover have "\<not> P y \<Longrightarrow> filter P ys = []"
    using Cons.prems by (auto simp: filter_empty_conv)
  ultimately show ?case by simp
qed simp

text \<open>The iterator an insertion returns is \<open>begin()\<close> exactly when the element is the least.\<close>

lemma hd_set_insert:
  assumes "sorted_wrt lt ys"
  shows "hd (set_insert lt x ys) = x \<longleftrightarrow> (\<forall>y\<in>set ys. y \<noteq> x \<longrightarrow> lt x y)"
proof (cases ys)
  case (Cons y zs)
  have "\<forall>z\<in>set zs. lt y z" using assms Cons by simp
  then have below: "lt x y \<Longrightarrow> \<forall>z\<in>set zs. lt x z" using lt_trans by blast
  have "hd (set_insert lt x ys) = x \<longleftrightarrow> lt x y \<or> x = y"
    using Cons total [of x y] by auto
  moreover have "lt x y \<or> x = y \<longleftrightarrow> (\<forall>z\<in>set ys. z \<noteq> x \<longrightarrow> lt x z)"
    using Cons below \<open>\<forall>z\<in>set zs. lt y z\<close> by auto
  ultimately show ?thesis by simp
qed simp

end

end
