(* ===== verification/Timer.thy ===== *)
theory Timer
  imports CppSet
begin

text \<open>
  Timers (\<open>src/timer/timer.cc\<close>). A \<open>Timer::ptr\<close> is an address; the record of the manager holds the
  timers by address, the ordered set \<open>m_timers\<close> and the number of calls of the virtual
  \<open>onTimerInsertedAtFront\<close>. Milliseconds are \<open>uint64_t\<close> and wrap around. The clock
  (\<open>GetElapsedMS\<close>) and the address a \<open>new Timer\<close> returns are arguments. Every member runs under
  \<open>m_mutex\<close>, so a run of the program is a sequence of whole calls; \<open>listExpiredCb\<close> tests for an empty
  set once more before it takes the lock for the work, which can only return earlier.
\<close>

text \<open>A \<open>std::function\<close> by its identity, or the binding of \<open>OnTimer\<close> to a weak pointer.\<close>

datatype callback = Function nat | OnTimer nat callback

record timer =
  m_recurring :: bool
  m_ms :: u64
  m_next :: u64
  m_cb :: "callback option"

record timer_manager =
  tm_heap :: "nat \<rightharpoonup> timer"
  m_timers :: "nat list"
  m_tickled :: bool
  m_previouseTime :: u64
  front_calls :: nat

definition new_Timer :: "u64 \<Rightarrow> u64 \<Rightarrow> callback option \<Rightarrow> bool \<Rightarrow> timer" where
  "new_Timer now ms cb recurring =
     \<lparr>m_recurring = recurring, m_ms = ms, m_next = now + ms, m_cb = cb\<rparr>"

definition now_Timer :: "u64 \<Rightarrow> timer" where
  "now_Timer nxt = \<lparr>m_recurring = False, m_ms = 0, m_next = nxt, m_cb = None\<rparr>"

definition new_TimerManager :: "u64 \<Rightarrow> timer_manager" where
  "new_TimerManager now = \<lparr>tm_heap = Map.empty, m_timers = [], m_tickled = False,
     m_previouseTime = now, front_calls = 0\<rparr>"

text \<open>The deadline behind a pointer.\<close>

definition next_at :: "(nat \<rightharpoonup> timer) \<Rightarrow> nat \<Rightarrow> u64" where
  "next_at h a = (case h a of None \<Rightarrow> 0 | Some t \<Rightarrow> m_next t)"

fun Comparator :: "(nat \<rightharpoonup> timer) \<Rightarrow> nat option \<Rightarrow> nat option \<Rightarrow> bool" where
  "Comparator h None None = False"
| "Comparator h None (Some b) = True"
| "Comparator h (Some a) None = False"
| "Comparator h (Some a) (Some b) =
     (if next_at h a < next_at h b then True
      else if next_at h b < next_at h a then False
      else a < b)"

abbreviation timer_less :: "(nat \<rightharpoonup> timer) \<Rightarrow> nat \<Rightarrow> nat \<Rightarrow> bool" where
  "timer_less h a b \<equiv> Comparator h (Some a) (Some b)"

definition timer_at :: "timer_manager \<Rightarrow> nat \<Rightarrow> timer result" where
  "timer_at s a = (case tm_heap s a of None \<Rightarrow> Inl NullDeref | Some t \<Rightarrow> Inr t)"

definition find_timer :: "nat \<Rightarrow> timer_manager \<Rightarrow> nat" where
  "find_timer a s = set_find (timer_less (tm_heap s)) a (m_timers s)"

subsection \<open>The members of \<open>TimerManager\<close> and \<open>Timer\<close>\<close>

definition insertTimer :: "nat \<Rightarrow> timer_manager \<Rightarrow> timer_manager" where
  "insertTimer a s =
     (let ts = set_insert (timer_less (tm_heap s)) a (m_timers s);
          atFront = (hd ts = a \<and> \<not> m_tickled s)
      in s\<lparr>m_timers := ts,
           m_tickled := (if atFront then True else m_tickled s),
           front_calls := front_calls s + (if atFront then 1 else 0)\<rparr>)"

definition addTimer ::
  "u64 \<Rightarrow> nat \<Rightarrow> u64 \<Rightarrow> callback option \<Rightarrow> bool \<Rightarrow> timer_manager \<Rightarrow> timer_manager" where
  "addTimer now a ms cb recurring s =
     insertTimer a (s\<lparr>tm_heap := (tm_heap s)(a \<mapsto> new_Timer now ms cb recurring)\<rparr>)"

definition addConditionTimer ::
  "u64 \<Rightarrow> nat \<Rightarrow> u64 \<Rightarrow> callback \<Rightarrow> nat \<Rightarrow> bool \<Rightarrow> timer_manager \<Rightarrow> timer_manager" where
  "addConditionTimer now a ms cb weakCond recurring s =
     addTimer now a ms (Some (OnTimer weakCond cb)) recurring s"

text \<open>What calling a callback runs: \<open>OnTimer\<close> does nothing once the weak pointer has expired.\<close>

fun run_callback :: "(nat \<Rightarrow> bool) \<Rightarrow> callback \<Rightarrow> nat list" where
  "run_callback alive (Function f) = [f]"
| "run_callback alive (OnTimer w cb) = (if alive w then run_callback alive cb else [])"

definition cancel :: "nat \<Rightarrow> timer_manager \<Rightarrow> (bool \<times> timer_manager) result" where
  "cancel a s = bind_r (timer_at s a) (\<lambda>t.
     if m_cb t \<noteq> None then
       let s1 = s\<lparr>tm_heap := (tm_heap s)(a \<mapsto> t\<lparr>m_cb := None\<rparr>)\<rparr> in
       bind_r (set_erase (find_timer a s1) (m_timers s1)) (\<lambda>ts.
         Inr (True, s1\<lparr>m_timers := ts\<rparr>))
     else Inr (False, s))"

definition refresh :: "u64 \<Rightarrow> nat \<Rightarrow> timer_manager \<Rightarrow> (bool \<times> timer_manager) result" where
  "refresh now a s = bind_r (timer_at s a) (\<lambda>t.
     if m_cb t = None then Inr (False, s)
     else if find_timer a s = length (m_timers s) then Inr (False, s)
     else bind_r (set_erase (find_timer a s) (m_timers s)) (\<lambda>ts.
       let h = (tm_heap s)(a \<mapsto> t\<lparr>m_next := now + m_ms t\<rparr>) in
       Inr (True, s\<lparr>tm_heap := h, m_timers := set_insert (timer_less h) a ts\<rparr>)))"

definition reset ::
  "u64 \<Rightarrow> u64 \<Rightarrow> bool \<Rightarrow> nat \<Rightarrow> timer_manager \<Rightarrow> (bool \<times> timer_manager) result" where
  "reset now ms fromNow a s = bind_r (timer_at s a) (\<lambda>t.
     if ms = m_ms t \<and> \<not> fromNow then Inr (True, s)
     else if m_cb t = None then Inr (False, s)
     else if find_timer a s = length (m_timers s) then Inr (False, s)
     else bind_r (set_erase (find_timer a s) (m_timers s)) (\<lambda>ts.
       let start = (if fromNow then now else m_next t - m_ms t) in
       Inr (True, insertTimer a
         (s\<lparr>tm_heap := (tm_heap s)(a \<mapsto> t\<lparr>m_ms := ms, m_next := start + ms\<rparr>),
            m_timers := ts\<rparr>))))"

definition getNextTimer :: "u64 \<Rightarrow> timer_manager \<Rightarrow> (u64 \<times> timer_manager) result" where
  "getNextTimer now s =
     (let s1 = s\<lparr>m_tickled := False\<rparr> in
      case m_timers s1 of [] \<Rightarrow> Inr (- 1, s1)
      | a # _ \<Rightarrow> bind_r (timer_at s1 a) (\<lambda>t.
          Inr (if m_next t \<le> now then 0 else m_next t - now, s1)))"

definition detectClockRollover :: "u64 \<Rightarrow> timer_manager \<Rightarrow> bool \<times> timer_manager" where
  "detectClockRollover now s =
     (now < m_previouseTime s \<and> now < m_previouseTime s - 60 * 60 * 1000,
      s\<lparr>m_previouseTime := now\<rparr>)"

text \<open>The loop over the expired timers at the end of \<open>listExpiredCb\<close>.\<close>

fun fire :: "u64 \<Rightarrow> nat list \<Rightarrow> timer_manager \<Rightarrow> (callback option list \<times> timer_manager) result" where
  "fire now [] s = Inr ([], s)"
| "fire now (a # as) s = bind_r (timer_at s a) (\<lambda>t.
     let s1 = (if m_recurring t then
           let h = (tm_heap s)(a \<mapsto> t\<lparr>m_next := now + m_ms t\<rparr>) in
           s\<lparr>tm_heap := h, m_timers := set_insert (timer_less h) a (m_timers s)\<rparr>
         else s\<lparr>tm_heap := (tm_heap s)(a \<mapsto> t\<lparr>m_cb := None\<rparr>)\<rparr>)
     in bind_r (fire now as s1) (\<lambda>(cbs, s2). Inr (m_cb t # cbs, s2)))"

text \<open>The iterator behind the expired timers; \<open>b\<close> is the address of the temporary \<open>nowTimer\<close>.\<close>

definition expired_end :: "u64 \<Rightarrow> bool \<Rightarrow> nat \<Rightarrow> timer_manager \<Rightarrow> nat" where
  "expired_end now rollover b s =
     (let h = (tm_heap s)(b \<mapsto> now_Timer now);
          it = (if rollover then length (m_timers s)
                else lower_bound (timer_less h) b (m_timers s))
      in it + length (takeWhile (\<lambda>a. next_at h a = now) (drop it (m_timers s))))"

definition listExpiredCb ::
  "u64 \<Rightarrow> nat \<Rightarrow> timer_manager \<Rightarrow> (callback option list \<times> timer_manager) result" where
  "listExpiredCb now b s =
     (case m_timers s of [] \<Rightarrow> Inr ([], s)
      | a # _ \<Rightarrow>
        let (rollover, s1) = detectClockRollover now s in
        bind_r (timer_at s1 a) (\<lambda>t.
          if \<not> rollover \<and> now < m_next t then Inr ([], s1)
          else let it = expired_end now rollover b s1 in
            fire now (take it (m_timers s1)) (s1\<lparr>m_timers := drop it (m_timers s1)\<rparr>)))"

definition hasTimer :: "timer_manager \<Rightarrow> bool" where
  "hasTimer s \<longleftrightarrow> m_timers s \<noteq> []"

subsection \<open>The comparator is a strict linear order\<close>

interpretation timer_set: cpp_order "Comparator h" for h
proof
  fix x y z :: "nat option"
  show "\<not> Comparator h x x" by (cases x) simp_all
  show "Comparator h x y \<Longrightarrow> Comparator h y z \<Longrightarrow> Comparator h x z"
    by (cases x; cases y; cases z) (auto split: if_splits)
  show "Comparator h x y \<or> x = y \<or> Comparator h y x"
    by (cases x; cases y) auto
qed

interpretation timer_order: cpp_order "timer_less h" for h
proof
  fix x y z :: nat
  show "\<not> timer_less h x x" by (rule timer_set.irrefl)
  show "timer_less h x y \<Longrightarrow> timer_less h y z \<Longrightarrow> timer_less h x z" by (rule timer_set.lt_trans)
  show "timer_less h x y \<or> x = y \<or> timer_less h y x"
    using timer_set.total [of h "Some x" "Some y"] by simp
qed

lemma timer_less_iff:
  "timer_less h a b \<longleftrightarrow> next_at h a < next_at h b \<or> next_at h a = next_at h b \<and> a < b"
  by auto

declare Comparator.simps(4) [simp del]

text \<open>Changing a timer that is not in the set does not disturb the order of the set.\<close>

lemma next_at_other [simp]: "a \<noteq> b \<Longrightarrow> next_at (h(a \<mapsto> t)) b = next_at h b"
  by (simp add: next_at_def)

lemma next_at_same [simp]: "next_at (h(a \<mapsto> t)) a = m_next t"
  by (simp add: next_at_def)

lemma sorted_upd_other:
  "a \<notin> set ts \<Longrightarrow> sorted_wrt (timer_less (h(a \<mapsto> t))) ts = sorted_wrt (timer_less h) ts"
proof -
  assume a: "a \<notin> set ts"
  have "timer_less (h(a \<mapsto> t)) b c = timer_less h b c" if "b \<in> set ts" "c \<in> set ts" for b c
  proof -
    have "a \<noteq> b" "a \<noteq> c" using a that by auto
    then show ?thesis unfolding timer_less_iff by (simp only: next_at_other not_False_eq_True)
  qed
  then show ?thesis by (rule sorted_wrt_agree)
qed

lemma timer_less_same_next:
  "(\<And>c. next_at h' c = next_at h c) \<Longrightarrow> timer_less h' = timer_less h"
  by (intro ext) (simp add: timer_less_iff)

subsection \<open>The invariant\<close>

text \<open>
  The set is in strict order of deadline (then address), holds live timers only, and contains every
  timer whose callback is set. The last clause is what makes the unchecked \<open>erase(find(...))\<close> of
  \<open>cancel\<close> safe.
\<close>

definition armed :: "timer_manager \<Rightarrow> nat set" where
  "armed s = {a. \<exists>t. tm_heap s a = Some t \<and> m_cb t \<noteq> None}"

definition tm_inv :: "timer_manager \<Rightarrow> bool" where
  "tm_inv s \<longleftrightarrow> sorted_wrt (timer_less (tm_heap s)) (m_timers s)
     \<and> set (m_timers s) \<subseteq> dom (tm_heap s) \<and> armed s \<subseteq> set (m_timers s)"

lemma tm_invD:
  assumes "tm_inv s"
  shows "sorted_wrt (timer_less (tm_heap s)) (m_timers s)"
    and "set (m_timers s) \<subseteq> dom (tm_heap s)" and "armed s \<subseteq> set (m_timers s)"
  using assms by (simp_all add: tm_inv_def)

lemma new_TimerManager_simps [simp]:
  "tm_heap (new_TimerManager now) a = None" "m_timers (new_TimerManager now) = []"
  "m_previouseTime (new_TimerManager now) = now" "m_tickled (new_TimerManager now) = False"
  by (simp_all add: new_TimerManager_def)

lemma tm_inv_new [inv_intro]: "tm_inv (new_TimerManager now)"
  by (simp add: tm_inv_def new_TimerManager_def armed_def)

lemma timer_at_dom: "a \<in> dom (tm_heap s) \<Longrightarrow> timer_at s a = Inr (the (tm_heap s a))"
  by (auto simp: timer_at_def)

lemma timer_at_Inr [simp]: "timer_at s a = Inr t \<longleftrightarrow> tm_heap s a = Some t"
  by (simp add: timer_at_def split: option.splits)

text \<open>Inserting a live timer that was taken out, or is new, keeps the invariant.\<close>

lemma sorted_insert_upd:
  assumes "sorted_wrt (timer_less h) ts" and "a \<notin> set ts"
  shows "sorted_wrt (timer_less (h(a \<mapsto> t))) (set_insert (timer_less (h(a \<mapsto> t))) a ts)"
  using assms by (intro timer_order.sorted_set_insert) (simp add: sorted_upd_other)

lemma insertTimer_simps [simp]:
  "tm_heap (insertTimer a s) = tm_heap s"
  "m_timers (insertTimer a s) = set_insert (timer_less (tm_heap s)) a (m_timers s)"
  "m_previouseTime (insertTimer a s) = m_previouseTime s"
  by (simp_all add: insertTimer_def Let_def)

lemma tm_inv_insert:
  assumes "sorted_wrt (timer_less (tm_heap s)) (m_timers s)" and "a \<notin> set (m_timers s)"
    and "set (m_timers s) \<subseteq> dom (tm_heap s)" and "armed s - {a} \<subseteq> set (m_timers s)"
    and "s' = s\<lparr>tm_heap := (tm_heap s)(a \<mapsto> t),
      m_timers := set_insert (timer_less ((tm_heap s)(a \<mapsto> t))) a (m_timers s)\<rparr>"
  shows "tm_inv s'"
  using assms(3,4) sorted_insert_upd [OF assms(1,2), of t]
  by (auto simp: tm_inv_def armed_def assms(5))

lemma tm_inv_cong:
  "tm_heap s' = tm_heap s \<Longrightarrow> m_timers s' = m_timers s \<Longrightarrow> tm_inv s' = tm_inv s"
  by (simp add: tm_inv_def armed_def)

lemma find_erase:
  assumes "tm_inv s" and "a \<in> set (m_timers s)"
  shows "set_erase (find_timer a s) (m_timers s) = Inr (remove1 a (m_timers s))"
    and "find_timer a s \<noteq> length (m_timers s)"
  using timer_order.erase_find [OF tm_invD(1) [OF assms(1)] assms(2)]
    timer_order.set_find_member [OF tm_invD(1) [OF assms(1)] assms(2)]
  by (auto simp: find_timer_def)

lemma find_absent:
  assumes "tm_inv s" and "a \<notin> set (m_timers s)"
  shows "find_timer a s = length (m_timers s)"
  using timer_order.set_find_end [OF tm_invD(1) [OF assms(1)] assms(2)] by (simp add: find_timer_def)

lemma removed:
  assumes "tm_inv s"
  shows "sorted_wrt (timer_less (tm_heap s)) (remove1 a (m_timers s))"
    and "set (remove1 a (m_timers s)) = set (m_timers s) - {a}"
  using timer_order.sorted_remove1 [OF tm_invD(1) [OF assms]]
    timer_order.set_remove1_sorted [OF tm_invD(1) [OF assms]] by simp_all

lemma sorted_same_next:
  assumes "h a = Some t" and "m_next t' = m_next t"
  shows "timer_less (h(a \<mapsto> t')) = timer_less h"
  by (rule timer_less_same_next) (use assms in \<open>simp add: next_at_def\<close>)

subsection \<open>Each member keeps it\<close>

lemma tm_inv_addTimer [inv_intro]:
  assumes "tm_inv s" and "tm_heap s a = None"
  shows "tm_inv (addTimer now a ms cb recurring s)"
proof -
  have "a \<notin> set (m_timers s)" using tm_invD(2) [OF assms(1)] assms(2) by auto
  then have "tm_inv (s\<lparr>tm_heap := (tm_heap s)(a \<mapsto> new_Timer now ms cb recurring),
      m_timers := set_insert (timer_less ((tm_heap s)(a \<mapsto> new_Timer now ms cb recurring))) a
        (m_timers s)\<rparr>)"
    using tm_invD [OF assms(1)] by (intro tm_inv_insert [of s a]) auto
  then show ?thesis
    by (subst tm_inv_cong) (simp_all add: addTimer_def)
qed

text \<open>\<open>cancel\<close> never erases \<open>end()\<close>: it succeeds exactly on a timer that is still armed, and takes it
  out for good.\<close>

lemma cancel_correct:
  assumes inv: "tm_inv s" and t: "tm_heap s a = Some t"
  shows "cancel a s = Inr (if m_cb t = None then (False, s)
    else (True, s\<lparr>tm_heap := (tm_heap s)(a \<mapsto> t\<lparr>m_cb := None\<rparr>),
                  m_timers := remove1 a (m_timers s)\<rparr>))"
proof (cases "m_cb t = None")
  case True
  with t show ?thesis by (simp add: cancel_def timer_at_dom domI)
next
  case False
  let ?s1 = "s\<lparr>tm_heap := (tm_heap s)(a \<mapsto> t\<lparr>m_cb := None\<rparr>)\<rparr>"
  have a: "a \<in> set (m_timers s)" using tm_invD(3) [OF inv] False t by (auto simp: armed_def)
  have "find_timer a ?s1 = find_timer a s"
    using sorted_same_next [of "tm_heap s" a, OF t] by (simp add: find_timer_def)
  with False t find_erase [OF inv a] show ?thesis
    by (simp add: cancel_def timer_at_dom domI Let_def)
qed

lemma tm_inv_cancel:
  assumes inv: "tm_inv s" and c: "cancel a s = Inr (r, s')"
  shows "tm_inv s'"
proof -
  obtain t where t: "tm_heap s a = Some t"
    using c by (auto simp: cancel_def timer_at_def split: option.splits)
  have "sorted_wrt (timer_less ((tm_heap s)(a \<mapsto> t\<lparr>m_cb := None\<rparr>))) (remove1 a (m_timers s))"
    using removed(1) [OF inv] sorted_same_next [of "tm_heap s" a, OF t] by simp
  moreover have "armed (s\<lparr>tm_heap := (tm_heap s)(a \<mapsto> t\<lparr>m_cb := None\<rparr>),
      m_timers := remove1 a (m_timers s)\<rparr>) \<subseteq> armed s - {a}"
    by (auto simp: armed_def)
  then have "armed (s\<lparr>tm_heap := (tm_heap s)(a \<mapsto> t\<lparr>m_cb := None\<rparr>),
      m_timers := remove1 a (m_timers s)\<rparr>) \<subseteq> set (remove1 a (m_timers s))"
    using tm_invD(3) [OF inv] removed(2) [OF inv] by blast
  moreover have "set (remove1 a (m_timers s)) \<subseteq> dom ((tm_heap s)(a \<mapsto> t\<lparr>m_cb := None\<rparr>))"
    using tm_invD(2) [OF inv] removed(2) [OF inv] by auto
  ultimately have "tm_inv (s\<lparr>tm_heap := (tm_heap s)(a \<mapsto> t\<lparr>m_cb := None\<rparr>),
      m_timers := remove1 a (m_timers s)\<rparr>)"
    by (simp add: tm_inv_def)
  with inv c cancel_correct [OF inv t] show ?thesis by (simp split: if_splits)
qed

text \<open>Re-arming: \<open>refresh\<close> and \<open>reset\<close> take the timer out, change it and put it back.\<close>

lemma rearm_inv:
  assumes inv: "tm_inv s" and "m_timers s1 = remove1 a (m_timers s)" and "tm_heap s1 = tm_heap s"
    and "s' = s1\<lparr>tm_heap := (tm_heap s)(a \<mapsto> t),
      m_timers := set_insert (timer_less ((tm_heap s)(a \<mapsto> t))) a (m_timers s1)\<rparr>"
  shows "tm_inv s'"
proof (rule tm_inv_insert [of s1 a s' t])
  show "sorted_wrt (timer_less (tm_heap s1)) (m_timers s1)" "a \<notin> set (m_timers s1)"
    "set (m_timers s1) \<subseteq> dom (tm_heap s1)" "armed s1 - {a} \<subseteq> set (m_timers s1)"
    using removed [OF inv] tm_invD [OF inv] assms(2,3) by (auto simp: armed_def)
  show "s' = s1\<lparr>tm_heap := (tm_heap s1)(a \<mapsto> t),
      m_timers := set_insert (timer_less ((tm_heap s1)(a \<mapsto> t))) a (m_timers s1)\<rparr>"
    using assms(3,4) by simp
qed

lemma refresh_correct:
  assumes inv: "tm_inv s" and t: "tm_heap s a = Some t"
  shows "refresh now a s = Inr (if m_cb t = None then (False, s)
    else let h = (tm_heap s)(a \<mapsto> t\<lparr>m_next := now + m_ms t\<rparr>) in
      (True, s\<lparr>tm_heap := h, m_timers := set_insert (timer_less h) a (remove1 a (m_timers s))\<rparr>))"
proof (cases "m_cb t = None")
  case True
  with t show ?thesis by (simp add: refresh_def timer_at_dom domI)
next
  case False
  then have "a \<in> set (m_timers s)" using tm_invD(3) [OF inv] t by (auto simp: armed_def)
  with False t find_erase [OF inv] show ?thesis
    by (simp add: refresh_def timer_at_dom domI Let_def)
qed

lemma tm_inv_refresh:
  assumes inv: "tm_inv s" and c: "refresh now a s = Inr (r, s')"
  shows "tm_inv s'"
proof -
  obtain t where t: "tm_heap s a = Some t"
    using c by (auto simp: refresh_def timer_at_def split: option.splits)
  show ?thesis
    using inv c refresh_correct [OF inv t, of now]
      rearm_inv [OF inv, of "s\<lparr>m_timers := remove1 a (m_timers s)\<rparr>" a s']
    by (auto simp: Let_def split: if_splits)
qed

lemma reset_correct:
  assumes inv: "tm_inv s" and t: "tm_heap s a = Some t"
  shows "reset now ms fromNow a s = Inr
    (if ms = m_ms t \<and> \<not> fromNow then (True, s)
     else if m_cb t = None then (False, s)
     else (True, insertTimer a (s\<lparr>tm_heap := (tm_heap s)(a \<mapsto>
         t\<lparr>m_ms := ms, m_next := (if fromNow then now else m_next t - m_ms t) + ms\<rparr>),
       m_timers := remove1 a (m_timers s)\<rparr>)))"
proof (cases "m_cb t = None")
  case True
  with t show ?thesis by (auto simp: reset_def timer_at_dom domI)
next
  case False
  then have "a \<in> set (m_timers s)" using tm_invD(3) [OF inv] t by (auto simp: armed_def)
  with False t find_erase [OF inv] show ?thesis
    by (auto simp: reset_def timer_at_dom domI Let_def)
qed

lemma tm_inv_reset:
  assumes inv: "tm_inv s" and c: "reset now ms fromNow a s = Inr (r, s')"
  shows "tm_inv s'"
proof -
  obtain t where t: "tm_heap s a = Some t"
    using c by (auto simp: reset_def timer_at_def split: option.splits)
  define t' where "t' = t\<lparr>m_ms := ms, m_next := (if fromNow then now else m_next t - m_ms t) + ms\<rparr>"
  have "tm_inv (insertTimer a (s\<lparr>tm_heap := (tm_heap s)(a \<mapsto> t'), m_timers := remove1 a (m_timers s)\<rparr>))"
    using rearm_inv [OF inv, of "s\<lparr>m_timers := remove1 a (m_timers s)\<rparr>" a _ t']
    by (subst tm_inv_cong [where s = "s\<lparr>tm_heap := (tm_heap s)(a \<mapsto> t'),
      m_timers := set_insert (timer_less ((tm_heap s)(a \<mapsto> t'))) a (remove1 a (m_timers s))\<rparr>"])
      simp_all
  then show ?thesis
    using inv c reset_correct [OF inv t, of now ms fromNow]
    by (auto simp: t'_def split: if_splits)
qed

subsection \<open>Expiry\<close>

lemma take_lower_bound_append:
  assumes "sorted_wrt (timer_less h) ts" and "it = lower_bound (timer_less h) b ts"
  shows "take (it + length (takeWhile P (drop it ts))) ts
    = filter (\<lambda>a. timer_less h a b) ts @ takeWhile P (filter (\<lambda>a. \<not> timer_less h a b) ts)"
proof -
  have "take (it + n) ts = take it ts @ take n (drop it ts)" for n by (rule take_add)
  moreover have "take (length (takeWhile P xs)) xs = takeWhile P xs" for xs
    by (metis append_eq_conv_conj takeWhile_dropWhile_id)
  ultimately show ?thesis
    using timer_order.take_lower_bound [OF assms(1), of b]
      timer_order.drop_lower_bound [OF assms(1), of b] assms(2) by simp
qed

text \<open>The address of \<open>nowTimer\<close> plays no role: the iterator is behind the timers that are due.\<close>

lemma filter_split_sorted:
  assumes "sorted_wrt (timer_less h) ts"
  shows "filter (\<lambda>a. timer_less h a b) ts @ filter (\<lambda>a. \<not> timer_less h a b) ts = ts"
  using timer_order.take_lower_bound [OF assms, of b] timer_order.drop_lower_bound [OF assms, of b]
  by (metis append_take_drop_id)

lemma take_expired:
  assumes inv: "tm_inv s" and b: "tm_heap s b = None"
  shows "take (expired_end now rollover b s) (m_timers s)
    = (if rollover then m_timers s else filter (\<lambda>a. next_at (tm_heap s) a \<le> now) (m_timers s))"
proof (cases rollover)
  case True
  then show ?thesis by (simp add: expired_end_def Let_def)
next
  case False
  define h where "h = (tm_heap s)(b \<mapsto> now_Timer now)"
  let ?ts = "m_timers s" and ?P = "\<lambda>a. next_at h a = now"
  have "b \<notin> set ?ts" using tm_invD(2) [OF inv] b by auto
  then have srt: "sorted_wrt (timer_less h) ?ts"
    and same: "\<And>a. a \<in> set ?ts \<Longrightarrow> next_at (tm_heap s) a = next_at h a"
    using tm_invD(1) [OF inv] by (auto simp: h_def sorted_upd_other next_at_def)
  have hb: "next_at h b = now" by (simp add: h_def now_Timer_def)
  let ?lo = "filter (\<lambda>a. timer_less h a b) ?ts" and ?hi = "filter (\<lambda>a. \<not> timer_less h a b) ?ts"
  have "take (expired_end now rollover b s) ?ts = ?lo @ takeWhile ?P ?hi"
    using False take_lower_bound_append [OF srt refl, of b ?P]
    by (simp add: expired_end_def Let_def flip: h_def)
  also have "takeWhile ?P ?hi = filter ?P ?hi"
    using sorted_wrt_filter [OF srt]
    by (intro timer_order.takeWhile_filter [of h]) (auto simp: timer_less_iff hb)
  also have "filter ?P ?hi = filter (\<lambda>a. next_at h a \<le> now) ?hi"
    by (rule filter_cong) (auto simp: timer_less_iff hb)
  also have "?lo = filter (\<lambda>a. next_at h a \<le> now) ?lo"
    by (rule filter_True [symmetric]) (auto simp: timer_less_iff hb)
  finally have "take (expired_end now rollover b s) ?ts = filter (\<lambda>a. next_at h a \<le> now) (?lo @ ?hi)"
    by simp
  then show ?thesis
    using False filter_split_sorted [OF srt, of b] same by (auto intro!: filter_cong)
qed

text \<open>What firing does to one timer.\<close>

definition fired :: "u64 \<Rightarrow> timer \<Rightarrow> timer" where
  "fired now t = (if m_recurring t then t\<lparr>m_next := now + m_ms t\<rparr> else t\<lparr>m_cb := None\<rparr>)"

definition half_inv :: "nat set \<Rightarrow> timer_manager \<Rightarrow> bool" where
  "half_inv E s \<longleftrightarrow> sorted_wrt (timer_less (tm_heap s)) (m_timers s)
     \<and> set (m_timers s) \<union> E \<subseteq> dom (tm_heap s) \<and> set (m_timers s) \<inter> E = {}
     \<and> armed s \<subseteq> set (m_timers s) \<union> E"

lemma fire_step:
  assumes "half_inv (insert a E) s" and "a \<notin> E" and t: "tm_heap s a = Some t"
  shows "half_inv E (if m_recurring t then
       s\<lparr>tm_heap := (tm_heap s)(a \<mapsto> fired now t),
         m_timers := set_insert (timer_less ((tm_heap s)(a \<mapsto> fired now t))) a (m_timers s)\<rparr>
     else s\<lparr>tm_heap := (tm_heap s)(a \<mapsto> fired now t)\<rparr>)" (is "half_inv E ?s")
proof -
  have a: "a \<notin> set (m_timers s)" using assms(1) by (auto simp: half_inv_def)
  have "sorted_wrt (timer_less (tm_heap ?s)) (m_timers ?s)"
    using assms(1) a sorted_insert_upd [of "tm_heap s" "m_timers s" a]
    by (simp add: half_inv_def sorted_upd_other)
  moreover have "armed ?s \<subseteq> (if m_recurring t then armed s \<union> {a} else armed s - {a})"
    by (auto simp: armed_def fired_def split: if_splits)
  ultimately show ?thesis
    using assms(1,2) by (auto simp: half_inv_def split: if_splits)
qed

lemma fire_correct:
  assumes "half_inv (set as) s" and "distinct as"
  shows "\<exists>s'. fire now as s = Inr (map (\<lambda>a. m_cb (the (tm_heap s a))) as, s') \<and> half_inv {} s'
    \<and> set (m_timers s') = set (m_timers s) \<union> {a \<in> set as. m_recurring (the (tm_heap s a))}
    \<and> tm_heap s' = (\<lambda>a. if a \<in> set as then map_option (fired now) (tm_heap s a) else tm_heap s a)
    \<and> m_previouseTime s' = m_previouseTime s \<and> m_tickled s' = m_tickled s
    \<and> front_calls s' = front_calls s"
  using assms
proof (induction as arbitrary: s)
  case Nil
  then show ?case by simp
next
  case (Cons a as)
  obtain t where t: "tm_heap s a = Some t" using Cons.prems(1) by (auto simp: half_inv_def)
  define s1 where "s1 = (if m_recurring t then
       s\<lparr>tm_heap := (tm_heap s)(a \<mapsto> fired now t),
         m_timers := set_insert (timer_less ((tm_heap s)(a \<mapsto> fired now t))) a (m_timers s)\<rparr>
     else s\<lparr>tm_heap := (tm_heap s)(a \<mapsto> fired now t)\<rparr>)"
  have na: "a \<notin> set as" "distinct as" using Cons.prems(2) by simp_all
  have heap1: "tm_heap s1 = (tm_heap s)(a \<mapsto> fired now t)" by (simp add: s1_def)
  have "half_inv (set as) s1"
    using fire_step [of a "set as" s t now] Cons.prems na t by (simp add: s1_def)
  from Cons.IH [OF this na(2)] obtain s' where s':
    "fire now as s1 = Inr (map (\<lambda>a. m_cb (the (tm_heap s1 a))) as, s')" "half_inv {} s'"
    "set (m_timers s') = set (m_timers s1) \<union> {a \<in> set as. m_recurring (the (tm_heap s1 a))}"
    "tm_heap s' = (\<lambda>a. if a \<in> set as then map_option (fired now) (tm_heap s1 a) else tm_heap s1 a)"
    "m_previouseTime s' = m_previouseTime s1" "m_tickled s' = m_tickled s1"
    "front_calls s' = front_calls s1"
    by blast
  have same: "\<And>c. c \<in> set as \<Longrightarrow> tm_heap s1 c = tm_heap s c" using na(1) heap1 by auto
  have "fire now (a # as) s = bind_r (fire now as s1) (\<lambda>(cbs, s2). Inr (m_cb t # cbs, s2))"
    using t by (simp add: timer_at_def Let_def s1_def fired_def)
  then have "fire now (a # as) s = Inr (m_cb t # map (\<lambda>a. m_cb (the (tm_heap s1 a))) as, s')"
    using s'(1) by simp
  moreover have "map (\<lambda>a. m_cb (the (tm_heap s1 a))) as = map (\<lambda>a. m_cb (the (tm_heap s a))) as"
    using same by simp
  moreover have "set (m_timers s')
      = set (m_timers s) \<union> {c \<in> set (a # as). m_recurring (the (tm_heap s c))}"
  proof -
    have "{c \<in> set as. m_recurring (the (tm_heap s1 c))} = {c \<in> set as. m_recurring (the (tm_heap s c))}"
      using same by auto
    with s'(3) have "set (m_timers s')
        = set (m_timers s1) \<union> {c \<in> set as. m_recurring (the (tm_heap s c))}" by simp
    then show ?thesis using t by (auto simp: s1_def)
  qed
  moreover have "tm_heap s' = (\<lambda>c. if c \<in> set (a # as) then map_option (fired now) (tm_heap s c)
      else tm_heap s c)"
    using s'(4) heap1 na(1) t by (auto intro!: ext)
  ultimately show ?case using s'(2,5,6,7) t by (intro exI [of _ s']) (simp add: s1_def)
qed

text \<open>The timers a call of \<open>listExpiredCb\<close> takes, in order of deadline.\<close>

definition rolled_over :: "u64 \<Rightarrow> timer_manager \<Rightarrow> bool" where
  "rolled_over now s = fst (detectClockRollover now s)"

definition due :: "u64 \<Rightarrow> timer_manager \<Rightarrow> nat list" where
  "due now s = (if rolled_over now s then m_timers s
     else filter (\<lambda>a. next_at (tm_heap s) a \<le> now) (m_timers s))"

lemma tm_inv_half: "tm_inv s \<longleftrightarrow> half_inv {} s"
  by (auto simp: tm_inv_def half_inv_def)

lemma due_empty:
  assumes inv: "tm_inv s" and a: "m_timers s = a # as" and "tm_heap s a = Some t"
    and "\<not> rolled_over now s"
  shows "now < m_next t \<longleftrightarrow> due now s = []"
proof -
  have "m_next t \<le> next_at (tm_heap s) c" if "c \<in> set as" for c
    using tm_invD(1) [OF inv] a that assms(3) by (auto simp: timer_less_iff next_at_def)
  then have "now < m_next t \<Longrightarrow> c \<in> set as \<Longrightarrow> \<not> next_at (tm_heap s) c \<le> now" for c
    by (meson leD less_le_trans)
  moreover have "next_at (tm_heap s) a = m_next t" using assms(3) by (simp add: next_at_def)
  ultimately show ?thesis using assms(2,4) by (auto simp: due_def filter_empty_conv)
qed

lemma listExpiredCb_correct:
  assumes inv: "tm_inv s" and b: "tm_heap s b = None"
  obtains s' where "listExpiredCb now b s = Inr (map (\<lambda>a. m_cb (the (tm_heap s a))) (due now s), s')"
    and "tm_inv s'"
    and "set (m_timers s') = set (m_timers s)
      - {a \<in> set (due now s). \<not> m_recurring (the (tm_heap s a))}"
    and "tm_heap s' = (\<lambda>a. if a \<in> set (due now s) then map_option (fired now) (tm_heap s a)
      else tm_heap s a)"
proof (cases "m_timers s")
  case Nil
  then have "due now s = []" by (simp add: due_def)
  with Nil inv show thesis by (intro that [of s]) (simp_all add: listExpiredCb_def)
next
  case (Cons a as)
  let ?roll = "rolled_over now s" and ?s1 = "s\<lparr>m_previouseTime := now\<rparr>"
  obtain t where t: "tm_heap s a = Some t" using tm_invD(2) [OF inv] Cons by auto
  have roll: "detectClockRollover now s = (?roll, ?s1)"
    by (simp add: rolled_over_def detectClockRollover_def)
  have inv1: "tm_inv ?s1" using inv by (subst tm_inv_cong) simp_all
  have due1: "due now s = take (expired_end now ?roll b ?s1) (m_timers s)"
    using take_expired [OF inv1, of b now ?roll] b by (simp add: due_def)
  show thesis
  proof (cases "\<not> ?roll \<and> now < m_next t")
    case True
    then have "due now s = []" using due_empty [OF inv Cons t, of now] by simp
    then show thesis
      using True Cons t roll inv1
      by (intro that [of ?s1]) (simp_all add: listExpiredCb_def timer_at_def)
  next
    case False
    define it where "it = expired_end now ?roll b ?s1"
    define s2 where "s2 = ?s1\<lparr>m_timers := drop it (m_timers s)\<rparr>"
    have h2: "tm_heap s2 = tm_heap s" "m_timers s2 = drop it (m_timers s)" by (simp_all add: s2_def)
    have dist: "distinct (m_timers s)"
      using timer_order.sorted_distinct [OF tm_invD(1) [OF inv]] .
    have split: "m_timers s = due now s @ drop it (m_timers s)" by (simp add: due1 it_def)
    then have parts: "set (m_timers s) = set (due now s) \<union> set (drop it (m_timers s))"
      "set (due now s) \<inter> set (drop it (m_timers s)) = {}" "distinct (due now s)"
      using dist by (metis set_append, metis distinct_append, metis distinct_append)
    have "sorted_wrt (timer_less (tm_heap s)) (drop it (m_timers s))"
      using tm_invD(1) [OF inv] by (rule sorted_wrt_drop)
    then have "half_inv (set (due now s)) s2"
      using tm_invD(2,3) [OF inv] parts(1,2) h2 by (auto simp: half_inv_def armed_def)
    from fire_correct [OF this parts(3), of now] obtain s' where s':
      "fire now (due now s) s2 = Inr (map (\<lambda>a. m_cb (the (tm_heap s a))) (due now s), s')"
      "tm_inv s'" "set (m_timers s') = set (drop it (m_timers s))
        \<union> {a \<in> set (due now s). m_recurring (the (tm_heap s a))}"
      "tm_heap s' = (\<lambda>a. if a \<in> set (due now s) then map_option (fired now) (tm_heap s a)
        else tm_heap s a)"
      unfolding h2 tm_inv_half by blast
    moreover have "listExpiredCb now b s = fire now (due now s) s2"
      using False Cons t roll due1
      by (auto simp: listExpiredCb_def timer_at_def it_def Let_def s2_def)
    ultimately show thesis using parts by (intro that [of s']) auto
  qed
qed

lemma getNextTimer_correct:
  assumes inv: "tm_inv s"
  shows "getNextTimer now s = Inr
    (if m_timers s = [] then - 1
     else let d = next_at (tm_heap s) (hd (m_timers s)) in if d \<le> now then 0 else d - now,
     s\<lparr>m_tickled := False\<rparr>)"
proof (cases "m_timers s")
  case Nil
  then show ?thesis by (simp add: getNextTimer_def)
next
  case (Cons a as)
  then obtain t where "tm_heap s a = Some t" using tm_invD(2) [OF inv] by auto
  with Cons show ?thesis by (simp add: getNextTimer_def timer_at_def next_at_def Let_def)
qed

lemma hd_earliest:
  assumes "tm_inv s" and "a \<in> set (m_timers s)"
  shows "next_at (tm_heap s) (hd (m_timers s)) \<le> next_at (tm_heap s) a"
  using tm_invD(1) [OF assms(1)] assms(2)
  by (cases "m_timers s") (auto simp: timer_less_iff)

subsection \<open>Runs\<close>

datatype timer_call =
    AddTimer u64 nat u64 "callback option" bool
  | AddConditionTimer u64 nat u64 callback nat bool
  | Cancel nat
  | Refresh u64 nat
  | Reset u64 u64 bool nat
  | GetNextTimer u64
  | ListExpiredCb u64 nat

text \<open>A call of a public member. An allocation returns an address that is not in use.\<close>

inductive timer_step :: "timer_manager \<Rightarrow> timer_call \<Rightarrow> timer_manager \<Rightarrow> bool" where
  add: "tm_heap s a = None \<Longrightarrow>
    timer_step s (AddTimer now a ms cb recurring) (addTimer now a ms cb recurring s)"
| add_cond: "tm_heap s a = None \<Longrightarrow>
    timer_step s (AddConditionTimer now a ms cb w recurring) (addConditionTimer now a ms cb w recurring s)"
| cancel: "cancel a s = Inr (r, s') \<Longrightarrow> timer_step s (Cancel a) s'"
| refresh: "refresh now a s = Inr (r, s') \<Longrightarrow> timer_step s (Refresh now a) s'"
| reset: "reset now ms fromNow a s = Inr (r, s') \<Longrightarrow> timer_step s (Reset now ms fromNow a) s'"
| get_next: "getNextTimer now s = Inr (r, s') \<Longrightarrow> timer_step s (GetNextTimer now) s'"
| list_expired: "tm_heap s b = None \<Longrightarrow> listExpiredCb now b s = Inr (cbs, s') \<Longrightarrow>
    timer_step s (ListExpiredCb now b) s'"

inductive timer_run :: "timer_manager \<Rightarrow> timer_manager \<Rightarrow> bool" where
  stay: "timer_run s s"
| step: "timer_run s s1 \<Longrightarrow> timer_step s1 c s2 \<Longrightarrow> timer_run s s2"

lemma tm_inv_step:
  assumes "timer_step s c s'" and "tm_inv s"
  shows "tm_inv s'"
  using assms
proof (cases rule: timer_step.cases)
  case (get_next now r)
  then show ?thesis
    using getNextTimer_correct [OF assms(2), of now] assms(2) tm_inv_cong [of s' s] by auto
next
  case (list_expired b now cbs)
  then show ?thesis
    using listExpiredCb_correct [OF assms(2), of b now] by (metis prod.inject sum.inject(2))
qed (auto intro: inv_intro tm_inv_cancel tm_inv_refresh tm_inv_reset simp: addConditionTimer_def)

lemma tm_inv_run: "timer_run s s' \<Longrightarrow> tm_inv s \<Longrightarrow> tm_inv s'"
  by (induction rule: timer_run.induct) (auto intro: tm_inv_step)

text \<open>A timer without callback that is out of the set stays out: no member puts it back.\<close>

definition dead :: "nat \<Rightarrow> timer_manager \<Rightarrow> bool" where
  "dead a s \<longleftrightarrow> a \<notin> set (m_timers s) \<and> (\<exists>t. tm_heap s a = Some t \<and> m_cb t = None)"

lemma due_subset: "set (due now s) \<subseteq> set (m_timers s)"
  by (auto simp: due_def)

lemma dead_step:
  assumes "timer_step s c s'" and inv: "tm_inv s" and d: "dead a s"
  shows "dead a s'"
  using assms(1)
proof (cases rule: timer_step.cases)
  case (cancel c r)
  then obtain t where "tm_heap s c = Some t"
    by (auto simp: cancel_def timer_at_def split: option.splits)
  with cancel_correct [OF inv this] cancel d show ?thesis
    by (auto simp: dead_def dest: notin_set_remove1 split: if_splits)
next
  case (refresh now c r)
  then obtain t where "tm_heap s c = Some t"
    by (auto simp: refresh_def timer_at_def split: option.splits)
  with refresh_correct [OF inv this, of now] refresh d show ?thesis
    by (auto simp: dead_def Let_def dest: notin_set_remove1 split: if_splits)
next
  case (reset now ms fromNow c r)
  then obtain t where "tm_heap s c = Some t"
    by (auto simp: reset_def timer_at_def split: option.splits)
  with reset_correct [OF inv this, of now ms fromNow] reset d show ?thesis
    by (auto simp: dead_def Let_def dest: notin_set_remove1 split: if_splits)
next
  case (get_next now r)
  then show ?thesis using getNextTimer_correct [OF inv, of now] d by (auto simp: dead_def)
next
  case (list_expired b now cbs)
  obtain s2 where "listExpiredCb now b s = Inr (map (\<lambda>a. m_cb (the (tm_heap s a))) (due now s), s2)"
    "set (m_timers s2) = set (m_timers s)
      - {a \<in> set (due now s). \<not> m_recurring (the (tm_heap s a))}"
    "tm_heap s2 = (\<lambda>a. if a \<in> set (due now s) then map_option (fired now) (tm_heap s a)
      else tm_heap s a)"
    by (rule listExpiredCb_correct [OF inv list_expired(2)])
  with list_expired(3) d due_subset [of now s] show ?thesis by (auto simp: dead_def)
qed (use d in \<open>auto simp: dead_def addTimer_def addConditionTimer_def\<close>)

lemma dead_run: "timer_run s s' \<Longrightarrow> tm_inv s \<Longrightarrow> dead a s \<Longrightarrow> dead a s'"
  by (induction rule: timer_run.induct) (auto intro: dead_step tm_inv_run)

subsection \<open>Properties\<close>



text \<open>
  C3: \<open>listExpiredCb\<close> on a well-formed manager: the callbacks returned are exactly those of the timers
  whose deadline is not after the clock (all of them after a detected rollover), in order of
  deadline; one-shot timers leave the set and lose their callback, recurring ones stay with the
  deadline one period from now, and every other timer is untouched. The address of the temporary
  timer used for the search plays no role.
\<close>

theorem listExpiredCb_exact:
  assumes "tm_inv s" and "tm_heap s b = None"
  shows "\<exists>s'. listExpiredCb now b s = Inr (map (\<lambda>a. m_cb (the (tm_heap s a))) (due now s), s')
    \<and> tm_inv s'
    \<and> set (m_timers s') = set (m_timers s)
        - {a \<in> set (due now s). \<not> m_recurring (the (tm_heap s a))}
    \<and> tm_heap s' = (\<lambda>a. if a \<in> set (due now s) then map_option (fired now) (tm_heap s a)
        else tm_heap s a)"
  by (rule listExpiredCb_correct [OF assms, of now]) blast

theorem listExpiredCb_exact_witness:
  "\<exists>s'. listExpiredCb 20 9 (addTimer 5 0 10 (Some (Function 1)) False (new_TimerManager 5))
      = Inr ([Some (Function 1)], s')"
proof -
  let ?s = "addTimer 5 0 10 (Some (Function 1)) False (new_TimerManager 5)"
  have "tm_inv ?s" by (simp add: tm_inv_addTimer tm_inv_new)
  moreover have "tm_heap ?s 9 = None" by (simp add: addTimer_def)
  moreover have "map (\<lambda>a. m_cb (the (tm_heap ?s a))) (due 20 ?s) = [Some (Function 1)]"
    by (simp add: due_def rolled_over_def detectClockRollover_def addTimer_def
        new_Timer_def next_at_def)
  ultimately show ?thesis using listExpiredCb_exact [of ?s 9 20] by auto
qed

text \<open>
  C16: Once \<open>cancel\<close> has returned true for a timer, no later call of the manager, however interleaved
  with any other members, puts it back: its callback is never handed out again.
\<close>

theorem cancelled_never_fires:
  assumes "tm_inv s" and "cancel a s = Inr (True, s1)" and "timer_run s1 s2"
  shows "a \<notin> set (due now s2) \<and> dead a s2"
proof -
  obtain t where t: "tm_heap s a = Some t"
    using assms(2) by (auto simp: cancel_def timer_at_def split: option.splits)
  have "dead a s1"
  proof (cases "m_cb t = None")
    case False
    with assms(2) cancel_correct [OF assms(1) t] have
      "s1 = s\<lparr>tm_heap := (tm_heap s)(a \<mapsto> t\<lparr>m_cb := None\<rparr>), m_timers := remove1 a (m_timers s)\<rparr>"
      by simp
    with removed(2) [OF assms(1), of a] show ?thesis by (simp add: dead_def)
  qed (use assms(2) cancel_correct [OF assms(1) t] in simp)
  with dead_run [OF assms(3) tm_inv_cancel [OF assms(1,2)]] have "dead a s2" by simp
  then show ?thesis using due_subset [of now s2] by (auto simp: dead_def)
qed

theorem cancelled_never_fires_witness:
  "\<exists>s1. cancel 0 (addTimer 5 0 10 (Some (Function 1)) True (new_TimerManager 5)) = Inr (True, s1)
    \<and> 0 \<notin> set (due 100 s1) \<and> dead 0 s1"
proof -
  let ?s = "addTimer 5 0 10 (Some (Function 1)) True (new_TimerManager 5)"
  have inv: "tm_inv ?s" by (simp add: tm_inv_addTimer tm_inv_new)
  have "tm_heap ?s 0 = Some (new_Timer 5 10 (Some (Function 1)) True)" by (simp add: addTimer_def)
  from cancel_correct [OF inv this] obtain s1 where "cancel 0 ?s = Inr (True, s1)"
    by (auto simp: new_Timer_def)
  with cancelled_never_fires [OF inv this timer_run.stay, of 100] show ?thesis by blast
qed

text \<open>
  \<open>getNextTimer\<close> returns how long a poller may sleep: zero exactly when some timer is due, the
  largest value when there is none, and otherwise a time after which the earliest timer is due and
  before which none is.
\<close>

theorem getNextTimer_sleep:
  assumes "tm_inv s" and "m_timers s \<noteq> []"
  shows "\<exists>w. getNextTimer now s = Inr (w, s\<lparr>m_tickled := False\<rparr>)
    \<and> (w = 0 \<longleftrightarrow> (\<exists>a\<in>set (m_timers s). next_at (tm_heap s) a \<le> now))
    \<and> (w \<noteq> 0 \<longrightarrow> next_at (tm_heap s) (hd (m_timers s)) = now + w)
    \<and> (\<forall>a\<in>set (m_timers s). unat (next_at (tm_heap s) a) \<ge> (if w = 0 then 0 else unat now + unat w))"
proof -
  let ?d = "next_at (tm_heap s) (hd (m_timers s))"
  let ?w = "if ?d \<le> now then 0 else ?d - now"
  have hd: "hd (m_timers s) \<in> set (m_timers s)" using assms(2) by simp
  have le: "unat ?d \<le> unat (next_at (tm_heap s) a)" if "a \<in> set (m_timers s)" for a
    using hd_earliest [OF assms(1) that] by (simp add: word_le_nat_alt)
  have w: "\<not> ?d \<le> now \<Longrightarrow> unat now + unat (?d - now) = unat ?d"
    by (simp add: unat_sub word_le_nat_alt)
  have "\<not> ?d \<le> now \<Longrightarrow> ?d - now \<noteq> 0" by auto
  moreover have "(\<exists>a\<in>set (m_timers s). next_at (tm_heap s) a \<le> now) \<longleftrightarrow> ?d \<le> now"
    using hd hd_earliest [OF assms(1)] order_trans by blast
  ultimately show ?thesis
    using getNextTimer_correct [OF assms(1), of now] assms(2) w le
    by (intro exI [of _ ?w]) (auto simp: Let_def)
qed

theorem getNextTimer_sleep_witness:
  "\<exists>w. getNextTimer 7 (addTimer 5 0 10 None False (new_TimerManager 5))
      = Inr (w, (addTimer 5 0 10 None False (new_TimerManager 5))\<lparr>m_tickled := False\<rparr>) \<and> w \<noteq> 0"
proof -
  let ?s = "addTimer 5 0 10 None False (new_TimerManager 5)"
  have "tm_inv ?s" by (simp add: tm_inv_addTimer tm_inv_new)
  moreover have "m_timers ?s = [0]" by (simp add: addTimer_def)
  ultimately show ?thesis
    using getNextTimer_sleep [of ?s 7]
    by (auto simp: addTimer_def next_at_def new_Timer_def)
qed

text \<open>
  The rollover test subtracts an hour from an unsigned time: while the last time seen is below one
  hour, any step back of the clock, by one millisecond even, counts as a rollover, and then every
  timer is handed out, whatever its deadline.
\<close>

theorem rollover_underflow:
  assumes "now < m_previouseTime s" and "m_previouseTime s < 60 * 60 * 1000"
  shows "fst (detectClockRollover now s) \<and> due now s = m_timers s"
proof -
  have "unat (m_previouseTime s) < 3600000" using assms(2) by (simp add: word_less_nat_alt)
  moreover have "unat now < unat (m_previouseTime s)" using assms(1) by (simp add: word_less_nat_alt)
  ultimately have "now < m_previouseTime s - 60 * 60 * 1000"
    by (simp add: word_less_nat_alt unat_sub_if_size word_size)
  then show ?thesis using assms(1) by (simp add: due_def rolled_over_def detectClockRollover_def)
qed

theorem rollover_underflow_witness:
  "due 4 (addTimer 5 0 1000 (Some (Function 1)) False (new_TimerManager 5)) = [0]"
  using rollover_underflow [of 4 "addTimer 5 0 1000 (Some (Function 1)) False (new_TimerManager 5)"]
  by (simp add: addTimer_def)

end
