(* ===== verification/IOManager.thy ===== *)
theory IOManager
  imports Scheduler Timer
begin

text \<open>
  The I/O manager (\<open>src/fiber/iomannager.cc\<close>, \<open>iomanager.h\<close>): descriptors waiting for readiness. A
  \<open>FdContext*\<close> is an index into \<open>fd_contexts\<close>, which only grows; \<open>m_fdContexts\<close> is the vector of
  pointers. \<open>Scheduler::schedule\<close> calls are recorded in \<open>io_tasks\<close> with the scheduler they go to.
  \<open>interest\<close> is what the kernel has been told through \<open>epoll_ctl\<close>; whether such a call succeeds is an
  argument. Flag words are 32-bit integers with the values of the headers.
\<close>

unbundle bit_operations_syntax

type_synonym event = u32

definition NONE :: event where "NONE = 0x0"
definition READ :: event where "READ = 0x1"
definition WRITE :: event where "WRITE = 0x4"

definition EPOLLIN :: u32 where "EPOLLIN = 0x1"
definition EPOLLOUT :: u32 where "EPOLLOUT = 0x4"
definition EPOLLERR :: u32 where "EPOLLERR = 0x8"
definition EPOLLHUP :: u32 where "EPOLLHUP = 0x10"
definition EPOLLET :: u32 where "EPOLLET = 0x80000000"

record event_context =
  ec_scheduler :: "nat option"
  ec_fiber :: "nat option"
  ec_cb :: "nat option"

record fd_context =
  fc_read :: event_context
  fc_write :: event_context
  fc_fd :: nat
  fc_events :: event

record io_manager =
  fd_contexts :: "fd_context list"
  m_fdContexts :: "nat list"
  m_pendingEventCount :: u64
  interest :: "nat \<rightharpoonup> u32"
  io_tasks :: "(nat \<times> schedule_task) list"

definition EventContext :: event_context where
  "EventContext = \<lparr>ec_scheduler = None, ec_fiber = None, ec_cb = None\<rparr>"

definition FdContext :: "nat \<Rightarrow> fd_context" where
  "FdContext i = \<lparr>fc_read = EventContext, fc_write = EventContext, fc_fd = i, fc_events = NONE\<rparr>"

definition getEventContext :: "event \<Rightarrow> fd_context \<Rightarrow> event_context result" where
  "getEventContext ev c =
     (if ev = READ then Inr (fc_read c)
      else if ev = WRITE then Inr (fc_write c)
      else Inl AssertFail)"

definition setEventContext :: "event \<Rightarrow> event_context \<Rightarrow> fd_context \<Rightarrow> fd_context" where
  "setEventContext ev x c = (if ev = READ then c\<lparr>fc_read := x\<rparr> else c\<lparr>fc_write := x\<rparr>)"

definition resetEventContext :: "event_context \<Rightarrow> event_context" where
  "resetEventContext x = x\<lparr>ec_scheduler := None, ec_fiber := None, ec_cb := None\<rparr>"

definition schedule_on :: "nat option \<Rightarrow> schedule_task \<Rightarrow> io_manager \<Rightarrow> io_manager result" where
  "schedule_on sch t io = (case sch of None \<Rightarrow> Inl NullDeref
     | Some i \<Rightarrow> Inr (io\<lparr>io_tasks := io_tasks io @ [(i, t)]\<rparr>))"

definition put_ctx :: "nat \<Rightarrow> fd_context \<Rightarrow> io_manager \<Rightarrow> io_manager" where
  "put_ctx p c io = io\<lparr>fd_contexts := (fd_contexts io)[p := c]\<rparr>"

definition get_ctx :: "nat \<Rightarrow> io_manager \<Rightarrow> fd_context result" where
  "get_ctx p io = (if p < length (fd_contexts io) then Inr (fd_contexts io ! p) else Inl NullDeref)"

definition triggerEvent :: "event \<Rightarrow> nat \<Rightarrow> io_manager \<Rightarrow> io_manager result" where
  "triggerEvent ev p io = bind_r (get_ctx p io) (\<lambda>c.
     assert_r (fc_events c AND ev \<noteq> 0)
       (let c1 = c\<lparr>fc_events := fc_events c AND NOT ev\<rparr> in
        bind_r (getEventContext ev c1) (\<lambda>x.
        bind_r (schedule_on (ec_scheduler x)
            (if ec_cb x \<noteq> None then ScheduleTask_cb (ec_cb x) (- 1)
             else ScheduleTask_fiber (ec_fiber x) (- 1)) io) (\<lambda>io1.
          Inr (put_ctx p (setEventContext ev (resetEventContext x) c1) io1)))))"

subsection \<open>The table of contexts\<close>

definition contextResize :: "nat \<Rightarrow> io_manager \<Rightarrow> io_manager" where
  "contextResize sz io =
     (let old = take sz (m_fdContexts io);
          fresh = [length old..<sz];
          base = length (fd_contexts io)
      in io\<lparr>m_fdContexts := old @ map (\<lambda>i. base + (i - length old)) fresh,
            fd_contexts := fd_contexts io @ map FdContext fresh\<rparr>)"

definition new_IOManager :: io_manager where
  "new_IOManager = contextResize 32
     \<lparr>fd_contexts = [], m_fdContexts = [], m_pendingEventCount = 0, interest = Map.empty,
      io_tasks = []\<rparr>"

subsection \<open>Registering and removing events\<close>

definition epoll_ctl_set :: "nat \<Rightarrow> u32 \<Rightarrow> io_manager \<Rightarrow> io_manager" where
  "epoll_ctl_set fd ev io = io\<lparr>interest := (interest io)(fd \<mapsto> ev)\<rparr>"

definition epoll_ctl_del :: "nat \<Rightarrow> io_manager \<Rightarrow> io_manager" where
  "epoll_ctl_del fd io = io\<lparr>interest := (interest io)(fd := None)\<rparr>"

text \<open>The second half of \<open>addEvent\<close>, with the context known. \<open>sch\<close> is \<open>Scheduler::GetThis()\<close>, \<open>fib\<close>
  the current fiber and its state.\<close>

definition addEvent_at ::
  "bool \<Rightarrow> nat option \<Rightarrow> nat \<times> fiber_state \<Rightarrow> nat \<Rightarrow> nat \<Rightarrow> event \<Rightarrow> nat option \<Rightarrow> io_manager \<Rightarrow>
   (int \<times> io_manager) result" where
  "addEvent_at ctl_ok sch fib p fd ev cb io = bind_r (get_ctx p io) (\<lambda>c.
     assert_r (fc_events c AND ev = 0)
      (if \<not> ctl_ok then Inr (- 1, io)
       else let io1 = epoll_ctl_set fd (EPOLLET OR fc_events c OR ev) io;
                io2 = io1\<lparr>m_pendingEventCount := m_pendingEventCount io1 + 1\<rparr>;
                c1 = c\<lparr>fc_events := fc_events c OR ev\<rparr> in
        bind_r (getEventContext ev c1) (\<lambda>x.
        assert_r (ec_scheduler x = None \<and> ec_fiber x = None \<and> ec_cb x = None)
         (let x1 = x\<lparr>ec_scheduler := sch\<rparr> in
          if cb \<noteq> None then Inr (0, put_ctx p (setEventContext ev (x1\<lparr>ec_cb := cb\<rparr>) c1) io2)
          else assert_r (snd fib = EXEC)
            (Inr (0, put_ctx p (setEventContext ev (x1\<lparr>ec_fiber := Some (fst fib)\<rparr>) c1) io2))))))"

text \<open>The first half: the lookup under the lock, and the growth under a second lock.\<close>

definition addEvent_lookup :: "nat \<Rightarrow> io_manager \<Rightarrow> nat option" where
  "addEvent_lookup fd io = (if fd < length (m_fdContexts io) then Some (m_fdContexts io ! fd) else None)"

definition addEvent_grow :: "nat \<Rightarrow> io_manager \<Rightarrow> (nat \<times> io_manager) result" where
  "addEvent_grow fd io =
     (let io1 = contextResize (fd * 3 div 2) io in
      if fd < length (m_fdContexts io1) then Inr (m_fdContexts io1 ! fd, io1) else Inl OutOfRange)"

definition addEvent ::
  "bool \<Rightarrow> nat option \<Rightarrow> nat \<times> fiber_state \<Rightarrow> nat \<Rightarrow> event \<Rightarrow> nat option \<Rightarrow> io_manager \<Rightarrow>
   (int \<times> io_manager) result" where
  "addEvent ctl_ok sch fib fd ev cb io =
     bind_r (case addEvent_lookup fd io of Some p \<Rightarrow> Inr (p, io) | None \<Rightarrow> addEvent_grow fd io)
       (\<lambda>(p, io1). addEvent_at ctl_ok sch fib p fd ev cb io1)"

definition ctl_update :: "nat \<Rightarrow> event \<Rightarrow> io_manager \<Rightarrow> io_manager" where
  "ctl_update fd leftEvents io =
     (if leftEvents \<noteq> 0 then epoll_ctl_set fd (EPOLLET OR leftEvents) io else epoll_ctl_del fd io)"

definition pending_dec :: "io_manager \<Rightarrow> io_manager" where
  "pending_dec io = io\<lparr>m_pendingEventCount := m_pendingEventCount io - 1\<rparr>"

definition delEvent :: "bool \<Rightarrow> nat \<Rightarrow> event \<Rightarrow> io_manager \<Rightarrow> (bool \<times> io_manager) result" where
  "delEvent ctl_ok fd ev io =
     (case addEvent_lookup fd io of None \<Rightarrow> Inr (False, io)
      | Some p \<Rightarrow> bind_r (get_ctx p io) (\<lambda>c.
          if fc_events c AND ev = 0 then Inr (False, io)
          else if \<not> ctl_ok then Inr (False, io)
          else let newEvents = fc_events c AND NOT ev;
                   io1 = pending_dec (ctl_update fd newEvents io);
                   c1 = c\<lparr>fc_events := newEvents\<rparr> in
            bind_r (getEventContext ev c1) (\<lambda>x.
              Inr (True, put_ctx p (setEventContext ev (resetEventContext x) c1) io1))))"

definition cancelEvent :: "bool \<Rightarrow> nat \<Rightarrow> event \<Rightarrow> io_manager \<Rightarrow> (bool \<times> io_manager) result" where
  "cancelEvent ctl_ok fd ev io =
     (case addEvent_lookup fd io of None \<Rightarrow> Inr (False, io)
      | Some p \<Rightarrow> bind_r (get_ctx p io) (\<lambda>c.
          if fc_events c AND ev = 0 then Inr (False, io)
          else if \<not> ctl_ok then Inr (False, io)
          else bind_r (triggerEvent ev p (ctl_update fd (fc_events c AND NOT ev) io)) (\<lambda>io1.
            Inr (True, pending_dec io1))))"

text \<open>\<open>if (flags & ev) { triggerEvent(ev); --m_pendingEventCount; }\<close>\<close>

definition trigger_if :: "u32 \<Rightarrow> event \<Rightarrow> nat \<Rightarrow> io_manager \<Rightarrow> io_manager result" where
  "trigger_if flags ev p io =
     (if flags AND ev \<noteq> 0 then bind_r (triggerEvent ev p io) (\<lambda>io1. Inr (pending_dec io1)) else Inr io)"

definition cancelAll :: "bool \<Rightarrow> nat \<Rightarrow> io_manager \<Rightarrow> (bool \<times> io_manager) result" where
  "cancelAll ctl_ok fd io =
     (case addEvent_lookup fd io of None \<Rightarrow> Inr (False, io)
      | Some p \<Rightarrow> bind_r (get_ctx p io) (\<lambda>c.
          if fc_events c = 0 then Inr (False, io)
          else if \<not> ctl_ok then Inr (False, io)
          else bind_r (trigger_if (fc_events c) READ p (epoll_ctl_del fd io)) (\<lambda>io1.
            bind_r (get_ctx p io1) (\<lambda>c1.
            bind_r (trigger_if (fc_events c1) WRITE p io1) (\<lambda>io2.
            bind_r (get_ctx p io2) (\<lambda>c2.
              assert_r (fc_events c2 = 0) (Inr (True, io2))))))))"

subsection \<open>The idle fiber\<close>

text \<open>The argument of \<open>epoll_wait\<close>: \<open>std::min((int)nextTimeout, MAX_TIMEOUT)\<close>, with the conversion to
  a 32-bit \<open>int\<close>.\<close>

definition wait_timeout :: "u64 \<Rightarrow> int" where
  "wait_timeout nextTimeout =
     (if nextTimeout \<noteq> - 1 then min (sint (ucast nextTimeout :: u32)) 5000 else 5000)"

text \<open>One event reported by \<open>epoll_wait\<close> for the context \<open>p\<close>.\<close>

definition idle_event :: "bool \<Rightarrow> u32 \<Rightarrow> nat \<Rightarrow> io_manager \<Rightarrow> io_manager result" where
  "idle_event ctl_ok ep p io = bind_r (get_ctx p io) (\<lambda>c.
     let ep1 = (if ep AND (EPOLLERR OR EPOLLHUP) \<noteq> 0
                then ep OR ((EPOLLIN OR EPOLLOUT) AND fc_events c) else ep);
         realEvents = (if ep1 AND EPOLLIN \<noteq> 0 then READ else NONE)
           OR (if ep1 AND EPOLLOUT \<noteq> 0 then WRITE else NONE)
     in if fc_events c AND realEvents = NONE then Inr io
        else if \<not> ctl_ok then Inr io
        else bind_r (trigger_if realEvents READ p
            (ctl_update (fc_fd c) (fc_events c AND NOT realEvents) io))
          (trigger_if realEvents WRITE p))"

text \<open>\<open>tickle\<close> writes to the pipe only when a worker is idle; the two forms of \<open>stopping\<close>.\<close>

definition io_tickle :: "scheduler \<Rightarrow> nat \<Rightarrow> nat" where
  "io_tickle s written = (if 0 < m_idleThreadCount s then Suc written else written)"

definition io_stopping :: "scheduler \<Rightarrow> io_manager \<Rightarrow> bool" where
  "io_stopping s io \<longleftrightarrow> m_pendingEventCount io = 0 \<and> stopping s"

definition io_stopping_timeout ::
  "u64 \<Rightarrow> scheduler \<Rightarrow> timer_manager \<Rightarrow> io_manager \<Rightarrow> (bool \<times> u64 \<times> timer_manager) result" where
  "io_stopping_timeout now s tm io = bind_r (getNextTimer now tm) (\<lambda>(timeout, tm1).
     Inr (timeout = - 1 \<and> m_pendingEventCount io = 0 \<and> stopping s, timeout, tm1))"

subsection \<open>The invariant\<close>

text \<open>A waiter is registered for an event exactly when its flag is set.\<close>

definition waiting :: "event_context \<Rightarrow> bool" where
  "waiting x \<longleftrightarrow> ec_scheduler x \<noteq> None \<and> (ec_cb x \<noteq> None \<or> ec_fiber x \<noteq> None)"

definition event_mask :: "event \<Rightarrow> bool" where
  "event_mask e \<longleftrightarrow> e \<in> {0, READ, WRITE, READ OR WRITE}"

definition ctx_ok :: "fd_context \<Rightarrow> bool" where
  "ctx_ok c \<longleftrightarrow> event_mask (fc_events c)
     \<and> (if fc_events c AND READ = 0 then fc_read c = EventContext else waiting (fc_read c))
     \<and> (if fc_events c AND WRITE = 0 then fc_write c = EventContext else waiting (fc_write c))"

definition pend :: "event \<Rightarrow> nat" where
  "pend e = (if e AND READ = 0 then 0 else 1) + (if e AND WRITE = 0 then 0 else 1)"

definition known :: "event \<Rightarrow> u32 option" where
  "known e = (if e = 0 then None else Some (EPOLLET OR e))"

definition io_inv :: "io_manager \<Rightarrow> bool" where
  "io_inv io \<longleftrightarrow> list_all ctx_ok (fd_contexts io)
     \<and> m_pendingEventCount io = of_nat (\<Sum>c\<leftarrow>fd_contexts io. pend (fc_events c))
     \<and> (\<forall>fd < length (m_fdContexts io).
          m_fdContexts io ! fd < length (fd_contexts io)
        \<and> fc_fd (fd_contexts io ! (m_fdContexts io ! fd)) = fd
        \<and> interest io fd = known (fc_events (fd_contexts io ! (m_fdContexts io ! fd))))
     \<and> (\<forall>fd \<ge> length (m_fdContexts io). interest io fd = None)"

lemma pend_0 [simp]: "pend 0 = 0"
  by (simp add: pend_def)

lemmas event_defs = READ_def WRITE_def NONE_def

lemma event_algebra:
  assumes "event_mask e" and "ev \<in> {READ, WRITE}"
  shows "e AND ev = 0 \<Longrightarrow> event_mask (e OR ev) \<and> pend (e OR ev) = pend e + 1
      \<and> (e OR ev) AND ev \<noteq> 0 \<and> e OR ev \<noteq> 0"
    and "e AND ev \<noteq> 0 \<Longrightarrow> event_mask (e AND NOT ev) \<and> pend e = pend (e AND NOT ev) + 1"
    and "(e AND NOT ev) AND ev = 0"
    and "ev' \<in> {READ, WRITE} \<Longrightarrow> ev' \<noteq> ev \<Longrightarrow> (e AND NOT ev) AND ev' = e AND ev' \<and> (e OR ev) AND ev' = e AND ev'"
  using assms by (auto simp: event_defs pend_def event_mask_def)

lemma io_inv_ctx:
  assumes "io_inv io" and "fd < length (m_fdContexts io)" and "p = m_fdContexts io ! fd"
  shows "p < length (fd_contexts io)" and "fc_fd (fd_contexts io ! p) = fd"
    and "ctx_ok (fd_contexts io ! p)" and "interest io fd = known (fc_events (fd_contexts io ! p))"
    and "get_ctx p io = Inr (fd_contexts io ! p)"
  using assms by (auto simp: io_inv_def list_all_length get_ctx_def)

text \<open>Changing one context keeps the invariant when the counter and the kernel follow.\<close>

lemma io_inv_update:
  assumes inv: "io_inv io" and fd: "fd < length (m_fdContexts io)" and p: "p = m_fdContexts io ! fd"
    and c': "ctx_ok c'" "fc_fd c' = fd"
    and io': "fd_contexts io' = (fd_contexts io)[p := c']" "m_fdContexts io' = m_fdContexts io"
      "interest io' = (interest io)(fd := known (fc_events c'))"
      "m_pendingEventCount io' + of_nat (pend (fc_events (fd_contexts io ! p)))
        = m_pendingEventCount io + of_nat (pend (fc_events c'))"
  shows "io_inv io'"
proof -
  note ctx = io_inv_ctx [OF inv fd p]
  let ?S = "\<Sum>c\<leftarrow>fd_contexts io. pend (fc_events c)" and ?old = "pend (fc_events (fd_contexts io ! p))"
  have mem: "?old \<le> ?S" using ctx(1) by (intro member_le_sum_list) (simp_all add: nth_mem)
  have S': "(\<Sum>c\<leftarrow>fd_contexts io'. pend (fc_events c)) = ?S + pend (fc_events c') - ?old"
    using ctx(1) by (simp add: io'(1) map_update sum_list_update)
  have "m_pendingEventCount io' + of_nat ?old = of_nat ?S + of_nat (pend (fc_events c'))"
    using io'(4) inv by (simp add: io_inv_def)
  then have "m_pendingEventCount io' = of_nat ?S + of_nat (pend (fc_events c')) - of_nat ?old"
    by (simp add: eq_diff_eq)
  then have "m_pendingEventCount io' = of_nat (\<Sum>c\<leftarrow>fd_contexts io'. pend (fc_events c))"
    unfolding S' using mem by (simp add: of_nat_diff)
  moreover have "list_all ctx_ok (fd_contexts io')"
    using inv c'(1) ctx(1) by (auto simp: io'(1) io_inv_def list_all_length nth_list_update)
  moreover have dif: "m_fdContexts io ! i \<noteq> p" if "i < length (m_fdContexts io)" "i \<noteq> fd" for i
    using inv that ctx(2) by (auto simp: io_inv_def)
  have "m_fdContexts io' ! i < length (fd_contexts io')
      \<and> fc_fd (fd_contexts io' ! (m_fdContexts io' ! i)) = i
      \<and> interest io' i = known (fc_events (fd_contexts io' ! (m_fdContexts io' ! i)))"
    if "i < length (m_fdContexts io')" for i
    using that inv c'(2) ctx(1) p dif [of i] by (cases "i = fd") (auto simp: io' io_inv_def)
  moreover have "\<forall>i \<ge> length (m_fdContexts io'). interest io' i = None"
    using inv fd by (auto simp: io' io_inv_def)
  ultimately show ?thesis unfolding io_inv_def by blast
qed

text \<open>Growing the table.\<close>

lemma contextResize_grow:
  assumes inv: "io_inv io" and sz: "length (m_fdContexts io) \<le> sz"
  shows "io_inv (contextResize sz io)" and "length (m_fdContexts (contextResize sz io)) = sz"
    and "take (length (m_fdContexts io)) (m_fdContexts (contextResize sz io)) = m_fdContexts io"
proof -
  let ?n = "length (m_fdContexts io)" and ?b = "length (fd_contexts io)"
  let ?io = "contextResize sz io"
  have vec: "m_fdContexts ?io = m_fdContexts io @ map (\<lambda>i. ?b + (i - ?n)) [?n..<sz]"
    and ctxs: "fd_contexts ?io = fd_contexts io @ map FdContext [?n..<sz]"
    and rest: "interest ?io = interest io" "m_pendingEventCount ?io = m_pendingEventCount io"
    using sz by (simp_all add: contextResize_def Let_def)
  show len: "length (m_fdContexts ?io) = sz" using sz by (simp add: vec)
  show "take ?n (m_fdContexts ?io) = m_fdContexts io" by (simp add: vec)
  have fresh: "ctx_ok (FdContext i)" "pend (fc_events (FdContext i)) = 0" "fc_events (FdContext i) = 0"
    for i by (simp_all add: ctx_ok_def FdContext_def NONE_def pend_def event_mask_def)
  have "list_all ctx_ok (fd_contexts ?io)" using inv fresh(1) by (auto simp: ctxs io_inv_def list_all_iff)
  moreover have "sum_list (map ((\<lambda>c. pend (fc_events c)) \<circ> FdContext) is) = 0" for "is"
    by (induction "is") (simp_all add: fresh(3))
  then have "m_pendingEventCount ?io = of_nat (\<Sum>c\<leftarrow>fd_contexts ?io. pend (fc_events c))"
    using inv by (simp add: ctxs rest io_inv_def del: sum_list_eq_0_iff)
  moreover have "m_fdContexts ?io ! i < length (fd_contexts ?io)
      \<and> fc_fd (fd_contexts ?io ! (m_fdContexts ?io ! i)) = i
      \<and> interest ?io i = known (fc_events (fd_contexts ?io ! (m_fdContexts ?io ! i)))"
    if i: "i < sz" for i
  proof (cases "i < ?n")
    case True
    then show ?thesis using inv by (simp add: vec ctxs rest io_inv_def nth_append trans_less_add1)
  next
    case False
    then have "[?n..<sz] ! (i - ?n) = i" using i by (subst nth_upt) auto
    then have "m_fdContexts ?io ! i = ?b + (i - ?n)" using i False by (simp add: vec nth_append)
    moreover have "fd_contexts ?io ! (?b + (i - ?n)) = FdContext i"
      using i False by (simp add: ctxs nth_append)
    moreover have "interest io i = None" using inv False by (simp add: io_inv_def)
    ultimately show ?thesis
      using i False by (auto simp: ctxs rest known_def FdContext_def NONE_def)
  qed
  moreover have "\<forall>i \<ge> sz. interest ?io i = None" using inv sz by (simp add: rest io_inv_def)
  ultimately show "io_inv ?io" unfolding io_inv_def len by blast
qed

lemma io_inv_new [inv_intro]: "io_inv new_IOManager"
proof -
  have "io_inv \<lparr>fd_contexts = [], m_fdContexts = [], m_pendingEventCount = 0, interest = Map.empty,
      io_tasks = []\<rparr>" (is "io_inv ?io") by (simp add: io_inv_def)
  from contextResize_grow(1) [OF this, of 32] show ?thesis by (simp add: new_IOManager_def)
qed

subsection \<open>Waking waiters\<close>

definition task_of :: "event_context \<Rightarrow> schedule_task" where
  "task_of x = (if ec_cb x \<noteq> None then ScheduleTask_cb (ec_cb x) (- 1)
     else ScheduleTask_fiber (ec_fiber x) (- 1))"

definition waiter :: "event \<Rightarrow> fd_context \<Rightarrow> event_context" where
  "waiter ev c = (if ev = READ then fc_read c else fc_write c)"

definition cleared :: "event \<Rightarrow> fd_context \<Rightarrow> fd_context" where
  "cleared ev c = setEventContext ev EventContext (c\<lparr>fc_events := fc_events c AND NOT ev\<rparr>)"

definition wake :: "event \<Rightarrow> fd_context \<Rightarrow> nat \<times> schedule_task" where
  "wake ev c = (the (ec_scheduler (waiter ev c)), task_of (waiter ev c))"

lemma resetEventContext_eq: "resetEventContext x = EventContext"
  by (simp add: resetEventContext_def EventContext_def)

lemma cleared_simps [simp]:
  "fc_events (cleared ev c) = fc_events c AND NOT ev" "fc_fd (cleared ev c) = fc_fd c"
  by (simp_all add: cleared_def setEventContext_def)

lemma READ_WRITE [simp]: "READ \<noteq> WRITE" "WRITE \<noteq> READ" "READ \<noteq> 0" "WRITE \<noteq> 0"
  by (simp_all add: event_defs)

lemma ctx_ok_cleared:
  assumes "ctx_ok c" and "ev \<in> {READ, WRITE}"
  shows "ctx_ok (cleared ev c)"
proof -
  have e: "event_mask (fc_events c)" using assms(1) by (simp add: ctx_ok_def)
  have "event_mask (fc_events c AND NOT ev)"
    using e assms(2) by (auto simp: event_defs event_mask_def)
  moreover note event_algebra(3) [OF e assms(2)] event_algebra(4) [OF e assms(2), of READ]
    event_algebra(4) [OF e assms(2), of WRITE]
  ultimately show ?thesis
    using assms by (auto simp: ctx_ok_def cleared_def setEventContext_def)
qed

lemma waiting_waiter:
  "ctx_ok c \<Longrightarrow> ev \<in> {READ, WRITE} \<Longrightarrow> fc_events c AND ev \<noteq> 0 \<Longrightarrow> waiting (waiter ev c)"
  by (auto simp: ctx_ok_def waiter_def)

lemma triggerEvent_correct:
  assumes "p < length (fd_contexts io)" and "c = fd_contexts io ! p" and "ctx_ok c"
    and ev: "ev \<in> {READ, WRITE}" and "fc_events c AND ev \<noteq> 0"
  shows "triggerEvent ev p io = Inr (io\<lparr>fd_contexts := (fd_contexts io)[p := cleared ev c],
    io_tasks := io_tasks io @ [wake ev c]\<rparr>)"
proof -
  obtain i where i: "ec_scheduler (waiter ev c) = Some i"
    using waiting_waiter [OF assms(3,4,5)] by (auto simp: waiting_def)
  then show ?thesis
    using assms
    by (auto simp: triggerEvent_def get_ctx_def getEventContext_def schedule_on_def put_ctx_def
        cleared_def waiter_def wake_def task_of_def resetEventContext_eq Let_def)
qed

text \<open>Waking the waiters of all the events in \<open>flags\<close>, read first.\<close>

definition after :: "u32 \<Rightarrow> fd_context \<Rightarrow> fd_context" where
  "after flags c = (let c1 = (if flags AND READ \<noteq> 0 then cleared READ c else c) in
     if flags AND WRITE \<noteq> 0 then cleared WRITE c1 else c1)"

definition woken :: "u32 \<Rightarrow> fd_context \<Rightarrow> (nat \<times> schedule_task) list" where
  "woken flags c = (if flags AND READ \<noteq> 0 then [wake READ c] else [])
     @ (if flags AND WRITE \<noteq> 0 then [wake WRITE c] else [])"

lemma trigger_both:
  assumes p: "p < length (fd_contexts io)" and c: "c = fd_contexts io ! p" and ok: "ctx_ok c"
    and sub: "\<And>ev. ev \<in> {READ, WRITE} \<Longrightarrow> flags AND ev \<noteq> 0 \<Longrightarrow> fc_events c AND ev \<noteq> 0"
  shows "bind_r (trigger_if flags READ p io) (trigger_if flags WRITE p)
    = Inr (io\<lparr>fd_contexts := (fd_contexts io)[p := after flags c],
        m_pendingEventCount := m_pendingEventCount io - of_nat (pend flags),
        io_tasks := io_tasks io @ woken flags c\<rparr>)"
proof -
  let ?c1 = "if flags AND READ \<noteq> 0 then cleared READ c else c"
  let ?io1 = "io\<lparr>fd_contexts := (fd_contexts io)[p := ?c1],
      m_pendingEventCount := m_pendingEventCount io - (if flags AND READ \<noteq> 0 then 1 else 0),
      io_tasks := io_tasks io @ (if flags AND READ \<noteq> 0 then [wake READ c] else [])\<rparr>"
  have e: "event_mask (fc_events c)" using ok by (simp add: ctx_ok_def)
  have r: "trigger_if flags READ p io = Inr ?io1"
    using triggerEvent_correct [OF p c ok, of READ] sub [of READ] c
    by (simp add: trigger_if_def pending_dec_def)
  have ok1: "ctx_ok ?c1" using ok ctx_ok_cleared [OF ok, of READ] by simp
  have ev1: "fc_events ?c1 AND WRITE = fc_events c AND WRITE"
    using event_algebra(4) [OF e, of READ WRITE] by simp
  have wk: "wake WRITE ?c1 = wake WRITE c"
    by (simp add: wake_def waiter_def cleared_def setEventContext_def)
  have "trigger_if flags WRITE p ?io1 = Inr (io\<lparr>fd_contexts := (fd_contexts io)[p := after flags c],
      m_pendingEventCount := m_pendingEventCount io - of_nat (pend flags),
      io_tasks := io_tasks io @ woken flags c\<rparr>)"
    using triggerEvent_correct [of p ?io1 ?c1 WRITE] p ok1 ev1 sub [of WRITE] wk
    by (auto simp: trigger_if_def pending_dec_def after_def woken_def pend_def)
  with r show ?thesis by simp
qed

lemma after_facts:
  assumes ok: "ctx_ok c" and fl: "event_mask flags"
    and sub: "\<And>ev. ev \<in> {READ, WRITE} \<Longrightarrow> flags AND ev \<noteq> 0 \<Longrightarrow> fc_events c AND ev \<noteq> 0"
  shows "ctx_ok (after flags c)" and "fc_fd (after flags c) = fc_fd c"
    and "fc_events (after flags c) = fc_events c AND NOT flags"
    and "pend (fc_events c) = pend (fc_events c AND NOT flags) + pend flags"
proof -
  show "ctx_ok (after flags c)" using ok ctx_ok_cleared by (auto simp: after_def Let_def)
  show "fc_fd (after flags c) = fc_fd c" by (simp add: after_def Let_def)
  have e: "event_mask (fc_events c)" using ok by (simp add: ctx_ok_def)
  with fl show "fc_events (after flags c) = fc_events c AND NOT flags"
    by (auto simp: after_def Let_def event_defs event_mask_def)
  from e fl sub [of READ] sub [of WRITE]
  show "pend (fc_events c) = pend (fc_events c AND NOT flags) + pend flags"
    by (auto simp: pend_def event_defs event_mask_def)
qed

subsection \<open>The members\<close>

definition registered :: "event \<Rightarrow> nat \<Rightarrow> nat \<times> fiber_state \<Rightarrow> nat option \<Rightarrow> fd_context \<Rightarrow> fd_context" where
  "registered ev s fib cb c = setEventContext ev
     \<lparr>ec_scheduler = Some s, ec_fiber = (if cb = None then Some (fst fib) else None), ec_cb = cb\<rparr>
     (c\<lparr>fc_events := fc_events c OR ev\<rparr>)"

lemma addEvent_at_correct:
  assumes inv: "io_inv io" and fd: "fd < length (m_fdContexts io)" and p: "p = m_fdContexts io ! fd"
    and ev: "ev \<in> {READ, WRITE}" and cb: "cb \<noteq> None \<or> snd fib = EXEC"
    and free: "fc_events (fd_contexts io ! p) AND ev = 0"
  shows "\<exists>io'. addEvent_at True (Some s) fib p fd ev cb io = Inr (0, io') \<and> io_inv io'
    \<and> fc_events (fd_contexts io' ! p) = fc_events (fd_contexts io ! p) OR ev
    \<and> io_tasks io' = io_tasks io \<and> m_fdContexts io' = m_fdContexts io
    \<and> fd_contexts io' = (fd_contexts io)[p := registered ev s fib cb (fd_contexts io ! p)]"
proof -
  note ctx = io_inv_ctx [OF inv fd p]
  let ?c = "fd_contexts io ! p"
  let ?x = "\<lparr>ec_scheduler = Some s, ec_fiber = (if cb = None then Some (fst fib) else None), ec_cb = cb\<rparr>"
  define c1 where "c1 = setEventContext ev ?x (?c\<lparr>fc_events := fc_events ?c OR ev\<rparr>)"
  define io' where "io' = put_ctx p c1 (io\<lparr>interest := (interest io)(fd \<mapsto> EPOLLET OR fc_events ?c OR ev),
      m_pendingEventCount := m_pendingEventCount io + 1\<rparr>)"
  have e: "event_mask (fc_events ?c)" using ctx(3) by (simp add: ctx_ok_def)
  note alg = event_algebra(1) [OF e ev free] event_algebra(4) [OF e ev]
  have "getEventContext ev (?c\<lparr>fc_events := fc_events ?c OR ev\<rparr>) = Inr EventContext"
    using ctx(3) ev free by (auto simp: getEventContext_def ctx_ok_def)
  then have run: "addEvent_at True (Some s) fib p fd ev cb io = Inr (0, io')"
    using cb unfolding addEvent_at_def ctx(5) bind_r_simps io'_def c1_def
    by (cases cb) (simp_all add: free epoll_ctl_set_def EventContext_def Let_def)
  have c1e: "fc_events c1 = fc_events ?c OR ev" "fc_fd c1 = fd"
    using ctx(2) by (simp_all add: c1_def setEventContext_def)
  have "waiting ?x" by (auto simp: waiting_def)
  then have ok1: "ctx_ok c1"
  proof (cases "ev = READ")
    case True
    with \<open>waiting ?x\<close> show ?thesis
      using ctx(3) alg(1) alg(2) [of WRITE] by (simp add: c1_def ctx_ok_def setEventContext_def)
  next
    case False
    with \<open>waiting ?x\<close> show ?thesis
      using ev ctx(3) alg(1) alg(2) [of READ] by (simp add: c1_def ctx_ok_def setEventContext_def)
  qed
  have "io_inv io'"
    by (rule io_inv_update [OF inv fd p ok1 c1e(2)])
      (use alg(1) c1e in \<open>auto simp: io'_def put_ctx_def known_def or.assoc\<close>)
  with run show ?thesis using ctx(1) c1e by (auto simp: io'_def put_ctx_def c1_def registered_def)
qed

lemma addEvent_at_Inr:
  assumes inv: "io_inv io" and fd: "fd < length (m_fdContexts io)" and p: "p = m_fdContexts io ! fd"
    and ev: "ev \<in> {READ, WRITE}" and run: "addEvent_at ok (Some s) fib p fd ev cb io = Inr (r, io')"
  shows "io_inv io'"
proof (cases ok)
  case False
  then show ?thesis using run inv by (auto simp: addEvent_at_def bind_r_Inr_iff assert_r_Inr_iff)
next
  case True
  then have "fc_events (fd_contexts io ! p) AND ev = 0" "cb \<noteq> None \<or> snd fib = EXEC"
    using run io_inv_ctx(5) [OF inv fd p]
    by (auto simp: addEvent_at_def bind_r_Inr_iff assert_r_Inr_iff Let_def split: if_splits)
  with True run show ?thesis using addEvent_at_correct [OF inv fd p ev, of cb fib s] by auto
qed

lemma addEvent_grow_correct:
  assumes inv: "io_inv io" and fd: "length (m_fdContexts io) \<le> fd" "2 \<le> fd"
  shows "\<exists>io'. addEvent_grow fd io = Inr (m_fdContexts io' ! fd, io') \<and> io_inv io'
    \<and> fd < length (m_fdContexts io') \<and> length (m_fdContexts io) \<le> length (m_fdContexts io')"
proof -
  have "length (m_fdContexts io) \<le> fd * 3 div 2" "fd < fd * 3 div 2" using fd by linarith+
  then show ?thesis using contextResize_grow [OF inv, of "fd * 3 div 2"] by (auto simp: addEvent_grow_def Let_def)
qed

lemma io_inv_addEvent:
  assumes inv: "io_inv io" and "2 \<le> length (m_fdContexts io)" and ev: "ev \<in> {READ, WRITE}"
    and run: "addEvent ok (Some s) fib fd ev cb io = Inr (r, io')"
  shows "io_inv io'"
proof (cases "fd < length (m_fdContexts io)")
  case True
  then show ?thesis
    using run addEvent_at_Inr [OF inv True refl ev] by (simp add: addEvent_def addEvent_lookup_def)
next
  case False
  then obtain io1 where g: "addEvent_grow fd io = Inr (m_fdContexts io1 ! fd, io1)" "io_inv io1"
    "fd < length (m_fdContexts io1)"
    using addEvent_grow_correct [OF inv, of fd] assms(2) by auto
  then show ?thesis
    using run False addEvent_at_Inr [OF g(2,3) refl ev] by (simp add: addEvent_def addEvent_lookup_def)
qed

lemma ctl_update_simps [simp]:
  "fd_contexts (ctl_update fd l io) = fd_contexts io" "m_fdContexts (ctl_update fd l io) = m_fdContexts io"
  "m_pendingEventCount (ctl_update fd l io) = m_pendingEventCount io"
  "io_tasks (ctl_update fd l io) = io_tasks io"
  "interest (ctl_update fd l io) = (interest io)(fd := known l)"
  by (simp_all add: ctl_update_def epoll_ctl_set_def epoll_ctl_del_def known_def)

lemma pend_single: "ev \<in> {READ, WRITE} \<Longrightarrow> pend ev = 1"
  by (auto simp: pend_def event_defs)

lemma delEvent_correct:
  assumes inv: "io_inv io" and fd: "fd < length (m_fdContexts io)" and p: "p = m_fdContexts io ! fd"
    and ev: "ev \<in> {READ, WRITE}" and set: "fc_events (fd_contexts io ! p) AND ev \<noteq> 0"
  shows "\<exists>io'. delEvent True fd ev io = Inr (True, io') \<and> io_inv io' \<and> io_tasks io' = io_tasks io
    \<and> fd_contexts io' = (fd_contexts io)[p := cleared ev (fd_contexts io ! p)]
    \<and> m_fdContexts io' = m_fdContexts io"
proof -
  note ctx = io_inv_ctx [OF inv fd p]
  let ?c = "fd_contexts io ! p"
  have e: "event_mask (fc_events ?c)" using ctx(3) by (simp add: ctx_ok_def)
  define io' where "io' = put_ctx p (cleared ev ?c) (pending_dec (ctl_update fd (fc_events ?c AND NOT ev) io))"
  have run: "delEvent True fd ev io = Inr (True, io')"
    using fd p ctx(5) ev set
    by (auto simp: delEvent_def addEvent_lookup_def getEventContext_def cleared_def
        resetEventContext_eq Let_def io'_def)
  have "io_inv io'"
    by (rule io_inv_update [OF inv fd p ctx_ok_cleared [OF ctx(3) ev]])
      (use ctx(2) event_algebra(2) [OF e ev set] in \<open>auto simp: io'_def put_ctx_def pending_dec_def\<close>)
  with run show ?thesis by (auto simp: io'_def put_ctx_def pending_dec_def)
qed

lemma cancelEvent_correct:
  assumes inv: "io_inv io" and fd: "fd < length (m_fdContexts io)" and p: "p = m_fdContexts io ! fd"
    and ev: "ev \<in> {READ, WRITE}" and set: "fc_events (fd_contexts io ! p) AND ev \<noteq> 0"
  shows "\<exists>io'. cancelEvent True fd ev io = Inr (True, io') \<and> io_inv io'
    \<and> io_tasks io' = io_tasks io @ [wake ev (fd_contexts io ! p)]
    \<and> fd_contexts io' = (fd_contexts io)[p := cleared ev (fd_contexts io ! p)]
    \<and> m_fdContexts io' = m_fdContexts io"
proof -
  note ctx = io_inv_ctx [OF inv fd p]
  let ?c = "fd_contexts io ! p"
  have e: "event_mask (fc_events ?c)" using ctx(3) by (simp add: ctx_ok_def)
  let ?io1 = "ctl_update fd (fc_events ?c AND NOT ev) io"
  define io' where "io' = pending_dec (?io1\<lparr>fd_contexts := (fd_contexts io)[p := cleared ev ?c],
      io_tasks := io_tasks io @ [wake ev ?c]\<rparr>)"
  have "triggerEvent ev p ?io1 = Inr (?io1\<lparr>fd_contexts := (fd_contexts io)[p := cleared ev ?c],
      io_tasks := io_tasks io @ [wake ev ?c]\<rparr>)"
    using triggerEvent_correct [of p ?io1 ?c ev] ctx(1,3) ev set by simp
  then have run: "cancelEvent True fd ev io = Inr (True, io')"
    using fd p ctx(5) set by (simp add: cancelEvent_def addEvent_lookup_def io'_def)
  have "io_inv io'"
    by (rule io_inv_update [OF inv fd p ctx_ok_cleared [OF ctx(3) ev]])
      (use ctx(2) event_algebra(2) [OF e ev set] in \<open>auto simp: io'_def pending_dec_def\<close>)
  with run show ?thesis by (auto simp: io'_def pending_dec_def)
qed

lemma cancelAll_correct:
  assumes inv: "io_inv io" and fd: "fd < length (m_fdContexts io)" and p: "p = m_fdContexts io ! fd"
    and set: "fc_events (fd_contexts io ! p) \<noteq> 0"
  shows "\<exists>io'. cancelAll True fd io = Inr (True, io') \<and> io_inv io'
    \<and> io_tasks io' = io_tasks io @ woken (fc_events (fd_contexts io ! p)) (fd_contexts io ! p)
    \<and> fc_events (fd_contexts io' ! p) = 0 \<and> interest io' fd = None
    \<and> m_fdContexts io' = m_fdContexts io
    \<and> fd_contexts io' = (fd_contexts io)[p := after (fc_events (fd_contexts io ! p)) (fd_contexts io ! p)]"
proof -
  note ctx = io_inv_ctx [OF inv fd p]
  let ?c = "fd_contexts io ! p" and ?io1 = "epoll_ctl_del fd io"
  let ?e = "fc_events ?c"
  have e: "event_mask ?e" using ctx(3) by (simp add: ctx_ok_def)
  have io1: "fd_contexts ?io1 = fd_contexts io" by (simp add: epoll_ctl_del_def)
  define io' where "io' = ?io1\<lparr>fd_contexts := (fd_contexts io)[p := after ?e ?c],
      m_pendingEventCount := m_pendingEventCount ?io1 - of_nat (pend ?e),
      io_tasks := io_tasks ?io1 @ woken ?e ?c\<rparr>"
  have both: "bind_r (trigger_if ?e READ p ?io1) (trigger_if ?e WRITE p) = Inr io'"
    using trigger_both [of p ?io1 ?c ?e] ctx(1,3) by (simp add: io1 io'_def)
  note aft = after_facts [OF ctx(3) e]
  have clr: "fc_events (after ?e ?c) = 0" using aft(3) by (simp add: bit_eq_iff bit_simps)
  obtain io2 where r: "trigger_if ?e READ p ?io1 = Inr io2" and w: "trigger_if ?e WRITE p io2 = Inr io'"
    using both by (auto simp: bind_r_Inr_iff)
  have "fd_contexts io2 ! p = (if ?e AND READ \<noteq> 0 then cleared READ ?c else ?c)"
    and len2: "length (fd_contexts io2) = length (fd_contexts io)"
    using r triggerEvent_correct [of p ?io1 ?c READ] ctx(1,3)
    by (auto simp: trigger_if_def pending_dec_def io1 split: if_splits)
  then have "fc_events (fd_contexts io2 ! p) AND WRITE = ?e AND WRITE"
    using event_algebra(4) [OF e, of READ WRITE] by simp
  then have w': "trigger_if (fc_events (fd_contexts io2 ! p)) WRITE p io2 = Inr io'"
    using w by (simp add: trigger_if_def)
  have run: "cancelAll True fd io = Inr (True, io')"
    using fd p ctx(1,5) set r w' len2 clr
    by (simp add: cancelAll_def addEvent_lookup_def get_ctx_def io'_def)
  have "io_inv io'"
    by (rule io_inv_update [OF inv fd p aft(1)])
      (use ctx(2) aft clr in \<open>auto simp: io'_def epoll_ctl_del_def known_def\<close>)
  with run show ?thesis using ctx(1) clr by (auto simp: io'_def epoll_ctl_del_def)
qed

text \<open>The events an \<open>epoll_wait\<close> report stands for.\<close>

definition real_events :: "u32 \<Rightarrow> event \<Rightarrow> event" where
  "real_events ep e =
     (let ep1 = (if ep AND (EPOLLERR OR EPOLLHUP) \<noteq> 0 then ep OR ((EPOLLIN OR EPOLLOUT) AND e) else ep)
      in (if ep1 AND EPOLLIN \<noteq> 0 then READ else NONE) OR (if ep1 AND EPOLLOUT \<noteq> 0 then WRITE else NONE))"

lemma real_events_mask: "event_mask (real_events ep e)"
  by (simp add: real_events_def event_mask_def event_defs Let_def)

lemma idle_event_real:
  assumes "get_ctx p io = Inr c"
  shows "idle_event ok ep p io =
    (if fc_events c AND real_events ep (fc_events c) = 0 \<or> \<not> ok then Inr io
     else bind_r (trigger_if (real_events ep (fc_events c)) READ p
         (ctl_update (fc_fd c) (fc_events c AND NOT (real_events ep (fc_events c))) io))
       (trigger_if (real_events ep (fc_events c)) WRITE p))"
  using assms by (simp add: idle_event_def real_events_def Let_def NONE_def)

lemma idle_event_correct:
  assumes inv: "io_inv io" and fd: "fd < length (m_fdContexts io)" and p: "p = m_fdContexts io ! fd"
    and c: "c = fd_contexts io ! p" and fl: "flags = real_events ep (fc_events c)"
    and some: "fc_events c AND flags \<noteq> 0"
    and sub: "\<And>ev. ev \<in> {READ, WRITE} \<Longrightarrow> flags AND ev \<noteq> 0 \<Longrightarrow> fc_events c AND ev \<noteq> 0"
  shows "\<exists>io'. idle_event True ep p io = Inr io' \<and> io_inv io'
    \<and> io_tasks io' = io_tasks io @ woken flags c
    \<and> fc_events (fd_contexts io' ! p) = fc_events c AND NOT flags
    \<and> fd_contexts io' = (fd_contexts io)[p := after flags c] \<and> m_fdContexts io' = m_fdContexts io"
proof -
  note ctx = io_inv_ctx [OF inv fd p]
  let ?io1 = "ctl_update fd (fc_events c AND NOT flags) io"
  define io' where "io' = ?io1\<lparr>fd_contexts := (fd_contexts io)[p := after flags c],
      m_pendingEventCount := m_pendingEventCount io - of_nat (pend flags),
      io_tasks := io_tasks io @ woken flags c\<rparr>"
  have ok: "ctx_ok c" using ctx(3) c by simp
  note aft = after_facts [OF ok _ sub, of flags]
  have m: "event_mask flags" by (simp add: fl real_events_mask)
  have "idle_event True ep p io = Inr io'"
    using trigger_both [of p ?io1 c flags] idle_event_real [of p io c True ep] ctx(1,2,5) c ok sub some fl
    by (simp add: io'_def)
  moreover have "io_inv io'"
    by (rule io_inv_update [OF inv fd p aft(1) [OF m]])
      (use ctx(2) aft(2-4) [OF m] c in \<open>auto simp: io'_def\<close>)
  ultimately show ?thesis using ctx(1) aft(3) [OF m] by (auto simp: io'_def)
qed

text \<open>A report for an event that is no longer registered, beside one that is, hits the assertion of
  \<open>triggerEvent\<close>.\<close>

lemma triggerEvent_unset:
  "get_ctx p io = Inr c \<Longrightarrow> fc_events c AND ev = 0 \<Longrightarrow> triggerEvent ev p io = Inl AssertFail"
  by (simp add: triggerEvent_def)

lemma idle_event_stale:
  assumes inv: "io_inv io" and fd: "fd < length (m_fdContexts io)" and p: "p = m_fdContexts io ! fd"
    and c: "c = fd_contexts io ! p" and fl: "flags = real_events ep (fc_events c)"
    and some: "fc_events c AND flags \<noteq> 0"
    and bad: "ev \<in> {READ, WRITE}" "flags AND ev \<noteq> 0" "fc_events c AND ev = 0"
  shows "idle_event True ep p io = Inl AssertFail"
proof -
  note ctx = io_inv_ctx [OF inv fd p]
  let ?io1 = "ctl_update fd (fc_events c AND NOT flags) io"
  have c1: "get_ctx p ?io1 = Inr c" using ctx(1) c by (simp add: get_ctx_def)
  have run: "idle_event True ep p io = bind_r (trigger_if flags READ p ?io1) (trigger_if flags WRITE p)"
    using idle_event_real [of p io c True ep] ctx(2,5) c some fl by simp
  show ?thesis
  proof (cases "flags AND READ \<noteq> 0 \<and> fc_events c AND READ = 0")
    case True
    then show ?thesis using run triggerEvent_unset [OF c1] by (simp add: trigger_if_def)
  next
    case False
    with bad have w: "ev = WRITE" by auto
    have ok: "ctx_ok c" and e: "event_mask (fc_events c)" using ctx(3) c by (simp_all add: ctx_ok_def)
    have "\<exists>io2. trigger_if flags READ p ?io1 = Inr io2
        \<and> get_ctx p io2 = Inr (if flags AND READ \<noteq> 0 then cleared READ c else c)"
    proof (cases "flags AND READ = 0")
      case True
      then show ?thesis using c1 by (simp add: trigger_if_def)
    next
      case r: False
      with False have "fc_events c AND READ \<noteq> 0" by simp
      with r show ?thesis
        using triggerEvent_correct [of p ?io1 c READ] ctx(1) c ok
        by (simp add: trigger_if_def pending_dec_def get_ctx_def)
    qed
    then obtain io2 where io2: "trigger_if flags READ p ?io1 = Inr io2"
      and c2: "get_ctx p io2 = Inr (if flags AND READ \<noteq> 0 then cleared READ c else c)"
      by blast
    have "fc_events (if flags AND READ \<noteq> 0 then cleared READ c else c) AND WRITE = 0"
      using bad(3) w event_algebra(4) [OF e, of READ WRITE] by simp
    then show ?thesis
      using run io2 bad(2) w triggerEvent_unset [OF c2, of WRITE] by (simp add: trigger_if_def)
  qed
qed

subsection \<open>Runs\<close>

text \<open>Calls from threads of a scheduler; every call takes effect at once (the window inside
  \<open>addEvent\<close> between its two locks is treated apart). An \<open>epoll_wait\<close> report names a context of the
  table.\<close>

inductive io_step :: "io_manager \<Rightarrow> io_manager \<Rightarrow> bool" where
  add: "ev \<in> {READ, WRITE} \<Longrightarrow> addEvent ok (Some s) fib fd ev cb io = Inr (r, io') \<Longrightarrow> io_step io io'"
| del: "ev \<in> {READ, WRITE} \<Longrightarrow> delEvent ok fd ev io = Inr (r, io') \<Longrightarrow> io_step io io'"
| cancel: "ev \<in> {READ, WRITE} \<Longrightarrow> cancelEvent ok fd ev io = Inr (r, io') \<Longrightarrow> io_step io io'"
| cancel_all: "cancelAll ok fd io = Inr (r, io') \<Longrightarrow> io_step io io'"
| idle: "fd < length (m_fdContexts io) \<Longrightarrow> idle_event ok ep (m_fdContexts io ! fd) io = Inr io' \<Longrightarrow>
    io_step io io'"

inductive io_reach :: "io_manager \<Rightarrow> bool" where
  new: "io_reach new_IOManager"
| step: "io_reach io \<Longrightarrow> io_step io io' \<Longrightarrow> io_reach io'"

lemma addEvent_table:
  assumes inv: "io_inv io" and big: "2 \<le> length (m_fdContexts io)"
    and run: "addEvent ok (Some s) fib fd ev cb io = Inr (r, io')"
  shows "length (m_fdContexts io) \<le> length (m_fdContexts io')"
proof -
  have at: "m_fdContexts io' = m_fdContexts io1"
    if "addEvent_at ok (Some s) fib p fd ev cb io1 = Inr (r, io')" for p io1
    using that by (auto simp: addEvent_at_def put_ctx_def epoll_ctl_set_def Let_def bind_r_Inr_iff
        assert_r_Inr_iff split: if_splits)
  show ?thesis
  proof (cases "fd < length (m_fdContexts io)")
    case True
    then show ?thesis using run at by (auto simp: addEvent_def addEvent_lookup_def)
  next
    case False
    then obtain io1 where "addEvent_grow fd io = Inr (m_fdContexts io1 ! fd, io1)"
      "length (m_fdContexts io) \<le> length (m_fdContexts io1)"
      using addEvent_grow_correct [OF inv, of fd] big by auto
    with False run show ?thesis using at by (auto simp: addEvent_def addEvent_lookup_def)
  qed
qed

text \<open>What the other members can do to a manager: nothing, or one of the cases above.\<close>

lemma io_step_other:
  assumes "io_step io io'" and inv: "io_inv io"
  shows "(\<exists>ok s fib fd ev cb r. ev \<in> {READ, WRITE} \<and> addEvent ok (Some s) fib fd ev cb io = Inr (r, io'))
    \<or> io_inv io' \<and> m_fdContexts io' = m_fdContexts io"
  using assms(1)
proof (cases rule: io_step.cases)
  case (del ev ok fd r)
  then have "io' = io \<or> fd < length (m_fdContexts io) \<and> ok
      \<and> fc_events (fd_contexts io ! (m_fdContexts io ! fd)) AND ev \<noteq> 0"
    using io_inv_ctx(5) [OF inv, of fd]
    by (auto simp: delEvent_def addEvent_lookup_def split: if_splits)
  then show ?thesis
    using delEvent_correct [OF inv _ HOL.refl del(1), of fd] del(2) inv by auto
next
  case (cancel ev ok fd r)
  then have "io' = io \<or> fd < length (m_fdContexts io) \<and> ok
      \<and> fc_events (fd_contexts io ! (m_fdContexts io ! fd)) AND ev \<noteq> 0"
    using io_inv_ctx(5) [OF inv, of fd]
    by (auto simp: cancelEvent_def addEvent_lookup_def split: if_splits)
  then show ?thesis
    using cancelEvent_correct [OF inv _ HOL.refl cancel(1), of fd] cancel(2) inv by auto
next
  case (cancel_all ok fd r)
  then have "io' = io \<or> fd < length (m_fdContexts io) \<and> ok
      \<and> fc_events (fd_contexts io ! (m_fdContexts io ! fd)) \<noteq> 0"
    using io_inv_ctx(5) [OF inv, of fd]
    by (auto simp: cancelAll_def addEvent_lookup_def split: if_splits)
  then show ?thesis
    using cancelAll_correct [OF inv _ HOL.refl, of fd] cancel_all inv by auto
next
  case (idle fd ok ep)
  let ?c = "fd_contexts io ! (m_fdContexts io ! fd)"
  let ?fl = "real_events ep (fc_events ?c)"
  show ?thesis
  proof (cases "fc_events ?c AND ?fl = 0 \<or> \<not> ok")
    case True
    then have "io' = io" using idle idle_event_real [OF io_inv_ctx(5) [OF inv idle(1) HOL.refl]] by auto
    then show ?thesis using inv by simp
  next
    case False
    then have some: "fc_events ?c AND ?fl \<noteq> 0" and run: "idle_event True ep (m_fdContexts io ! fd) io = Inr io'"
      using idle(2) by auto
    have "fc_events ?c AND ev \<noteq> 0" if "ev \<in> {READ, WRITE}" "?fl AND ev \<noteq> 0" for ev
      using idle_event_stale [OF inv idle(1) HOL.refl HOL.refl HOL.refl some that] run by auto
    from idle_event_correct [OF inv idle(1) HOL.refl HOL.refl HOL.refl some this] run
    show ?thesis by auto
  qed
qed blast

lemma io_reach_inv: "io_reach io \<Longrightarrow> io_inv io \<and> 32 \<le> length (m_fdContexts io)"
proof (induction rule: io_reach.induct)
  case new
  have "length (m_fdContexts new_IOManager) = 32" by (simp add: new_IOManager_def contextResize_def Let_def)
  then show ?case using io_inv_new by simp
next
  case (step io io')
  then have inv: "io_inv io" and big: "2 \<le> length (m_fdContexts io)" by auto
  from io_step_other [OF step.hyps(2) inv] show ?case
    using step.IH io_inv_addEvent [OF inv big] addEvent_table [OF inv big] by fastforce
qed

subsection \<open>Properties\<close>



text \<open>
  \<open>cancelAll\<close> on a descriptor with waiters, once the kernel accepts the removal, schedules each of
  them exactly once (reader before writer) on the scheduler it registered from, clears the context and
  keeps the counter and the kernel consistent.
\<close>

theorem cancelAll_wakes_waiters:
  assumes "io_inv io" and "fd < length (m_fdContexts io)" and "c = fd_contexts io ! (m_fdContexts io ! fd)"
    and "fc_events c \<noteq> 0"
  shows "\<exists>io'. cancelAll True fd io = Inr (True, io') \<and> io_inv io'
    \<and> io_tasks io' = io_tasks io @ woken (fc_events c) c
    \<and> fc_events (fd_contexts io' ! (m_fdContexts io ! fd)) = 0 \<and> interest io' fd = None"
  using cancelAll_correct [OF assms(1,2) HOL.refl] assms(3,4) by auto

definition sample_io :: io_manager where
  "sample_io = \<lparr>fd_contexts = [\<lparr>fc_read = \<lparr>ec_scheduler = Some 1, ec_fiber = Some 7, ec_cb = None\<rparr>,
       fc_write = EventContext, fc_fd = 0, fc_events = READ\<rparr>],
     m_fdContexts = [0], m_pendingEventCount = 1, interest = [0 \<mapsto> EPOLLET OR READ], io_tasks = []\<rparr>"

lemma io_inv_sample: "io_inv sample_io"
  by (simp add: io_inv_def sample_io_def ctx_ok_def event_mask_def waiting_def pend_def known_def event_defs)

theorem cancelAll_wakes_waiters_witness:
  "\<exists>io'. cancelAll True 0 sample_io = Inr (True, io')
    \<and> io_tasks io' = [(1, ScheduleTask_fiber (Some 7) (- 1))]"
proof -
  have "woken READ (fd_contexts sample_io ! 0) = [(1, ScheduleTask_fiber (Some 7) (- 1))]"
    by (simp add: woken_def wake_def waiter_def task_of_def sample_io_def event_defs)
  moreover have "0 < length (m_fdContexts sample_io)" "fc_events (fd_contexts sample_io ! (m_fdContexts sample_io ! 0)) \<noteq> 0"
    "fc_events (fd_contexts sample_io ! 0) = READ" "m_fdContexts sample_io ! 0 = 0" "io_tasks sample_io = []"
    by (simp_all add: sample_io_def)
  ultimately show ?thesis
    using cancelAll_wakes_waiters [OF io_inv_sample _ HOL.refl, of 0] by auto
qed

text \<open>
  C24: The idle fiber on a report of readiness: if the events reported are registered, exactly their
  waiters are scheduled, they are removed from the registration and the rest stays. If a report
  contains an event that was removed in the meantime, beside one that is still registered, the
  assertion in \<open>triggerEvent\<close> fails: the code tests the intersection and then triggers all of the
  reported events.
\<close>

theorem idle_event_delivery:
  assumes "io_inv io" and "fd < length (m_fdContexts io)" and "p = m_fdContexts io ! fd"
    and "c = fd_contexts io ! p" and "flags = real_events ep (fc_events c)" and "fc_events c AND flags \<noteq> 0"
  shows "if \<forall>ev \<in> {READ, WRITE}. flags AND ev \<noteq> 0 \<longrightarrow> fc_events c AND ev \<noteq> 0
    then \<exists>io'. idle_event True ep p io = Inr io' \<and> io_inv io'
      \<and> io_tasks io' = io_tasks io @ woken flags c
      \<and> fc_events (fd_contexts io' ! p) = fc_events c AND NOT flags
    else idle_event True ep p io = Inl AssertFail"
proof (cases "\<forall>ev \<in> {READ, WRITE}. flags AND ev \<noteq> 0 \<longrightarrow> fc_events c AND ev \<noteq> 0")
  case True
  then have "\<And>ev. ev \<in> {READ, WRITE} \<Longrightarrow> flags AND ev \<noteq> 0 \<Longrightarrow> fc_events c AND ev \<noteq> 0" by blast
  from idle_event_correct [OF assms this] True show ?thesis by auto
next
  case False
  then obtain ev where "ev \<in> {READ, WRITE}" "flags AND ev \<noteq> 0" "fc_events c AND ev = 0" by blast
  from idle_event_stale [OF assms this] False show ?thesis by (simp only: if_False)
qed

theorem idle_event_delivery_witness:
  "idle_event True (EPOLLIN OR EPOLLOUT) 0 sample_io = Inl AssertFail"
proof -
  let ?c = "fd_contexts sample_io ! 0"
  have "fc_events ?c = 1" by (simp add: sample_io_def event_defs)
  moreover have "real_events (EPOLLIN OR EPOLLOUT) (fc_events ?c) = 5"
    by (simp add: real_events_def EPOLLIN_def EPOLLOUT_def EPOLLERR_def EPOLLHUP_def event_defs Let_def)
  moreover have "0 < length (m_fdContexts sample_io)" "m_fdContexts sample_io ! 0 = 0"
    by (simp_all add: sample_io_def)
  ultimately show ?thesis
    using idle_event_delivery [OF io_inv_sample, of 0 0 ?c "5" "EPOLLIN OR EPOLLOUT"]
    by (simp add: event_defs)
qed

text \<open>
  \<open>addEvent\<close> releases the lock between looking up the table and growing it, and grows it to a size
  computed from its own descriptor only. Whatever another thread did in between, the table then has
  exactly \<open>fd * 1.5\<close> entries: every larger descriptor is out of the table, and cancelling its events
  returns false although its waiters are registered.
\<close>

theorem grow_race_drops_contexts:
  assumes "addEvent_grow fd io = Inr (p, io')" and "fd * 3 div 2 \<le> other"
  shows "length (m_fdContexts io') = fd * 3 div 2
    \<and> cancelAll True other io' = Inr (False, io') \<and> delEvent True other ev io' = Inr (False, io')"
proof -
  have "io' = contextResize (fd * 3 div 2) io"
    using assms(1) by (simp add: addEvent_grow_def Let_def split: if_splits)
  moreover have "length (m_fdContexts (contextResize sz io)) = sz" for sz
    by (simp add: contextResize_def Let_def)
  ultimately show ?thesis
    using assms(2) by (simp add: cancelAll_def delEvent_def addEvent_lookup_def)
qed

theorem grow_race_drops_contexts_witness:
  "cancelAll True 100 (contextResize 60 (contextResize 150 new_IOManager))
    = Inr (False, contextResize 60 (contextResize 150 new_IOManager))"
proof -
  have "length (m_fdContexts (contextResize 60 (contextResize 150 new_IOManager))) = 60"
    by (simp add: contextResize_def Let_def)
  then have "addEvent_grow 40 (contextResize 150 new_IOManager)
      = Inr (m_fdContexts (contextResize 60 (contextResize 150 new_IOManager)) ! 40,
          contextResize 60 (contextResize 150 new_IOManager))"
    by (simp add: addEvent_grow_def Let_def)
  from grow_race_drops_contexts [OF this, of 100] show ?thesis by simp
qed

text \<open>
  The timeout passed to \<open>epoll_wait\<close>: below \<open>2 ^ 31\<close> milliseconds it is the time to the next
  timer, capped at five seconds. From there to \<open>2 ^ 32\<close> the conversion to \<open>int\<close> makes it negative,
  which \<open>epoll_wait\<close> takes as no timeout at all.
\<close>

theorem wait_timeout_bounds:
  "(unat t < 2 ^ 31 \<longrightarrow> wait_timeout t = int (min (unat t) 5000))
   \<and> (2 ^ 31 \<le> unat t \<and> unat t < 2 ^ 32 \<longrightarrow> wait_timeout t < 0)
   \<and> wait_timeout (- 1) = 5000"
proof (intro conjI impI)
  {
    assume t: "unat t < 2 ^ 31"
    then have "t \<noteq> - 1" by (auto simp: unsigned_minus_1_eq_mask mask_eq_exp_minus_1)
    then show "wait_timeout t = int (min (unat t) 5000)"
      using sint_ucast32 [of t] t by (simp add: wait_timeout_def of_nat_min)
  }
  {
    assume t: "2 ^ 31 \<le> unat t \<and> unat t < 2 ^ 32"
    then have "unat t div 2 ^ 31 = 1" by (intro div_nat_eqI) auto
    moreover have "t \<noteq> - 1" using t by (auto simp: unsigned_minus_1_eq_mask mask_eq_exp_minus_1)
    moreover have "int (unat t) < 2 ^ 32" using t by (metis of_nat_less_iff of_nat_numeral of_nat_power)
    ultimately show "wait_timeout t < 0"
      using sint_ucast32 [of t] t by (simp add: wait_timeout_def min_less_iff_disj)
  }
  show "wait_timeout (- 1) = 5000" by (simp add: wait_timeout_def)
qed

theorem wait_timeout_bounds_witness: "wait_timeout 3000000000 < 0"
  using wait_timeout_bounds [of 3000000000] by simp

end
