(* ===== verification/StringUtil.thy ===== *)
theory StringUtil
  imports Prelude
begin

text \<open>
  \<open>StringUtil\<close> and \<open>FSUtil\<close> of \<open>src/utils/utils.cc\<close>. A \<open>std::string\<close> is its list of bytes. URL encoding
  and decoding are written in the source with a result string that is only allocated at the first
  byte that changes; the model keeps that string (\<open>ss\<close>) and the prefix already seen. The file system
  of \<open>Mkdir\<close> is the set of existing paths and a predicate telling where a directory can be created.
\<close>

unbundle bit_operations_syntax

subsection \<open>URL encoding\<close>

text \<open>The table \<open>uri_chars\<close>: \<open>- . 0..9 = A..Z _ a..z ~\<close>.\<close>

definition uri_chars :: "u8 \<Rightarrow> bool" where
  "uri_chars c \<longleftrightarrow> (let n = unat c in
     n = 45 \<or> n = 46 \<or> 48 \<le> n \<and> n \<le> 57 \<or> n = 61 \<or> 65 \<le> n \<and> n \<le> 90 \<or> n = 95
     \<or> 97 \<le> n \<and> n \<le> 122 \<or> n = 126)"

definition hexdigits :: "u8 \<Rightarrow> u8" where
  "hexdigits d = (if unat d < 10 then d + 48 else d + 55)"

definition isxdigit :: "u8 \<Rightarrow> bool" where
  "isxdigit c \<longleftrightarrow> (let n = unat c in
     48 \<le> n \<and> n \<le> 57 \<or> 65 \<le> n \<and> n \<le> 70 \<or> 97 \<le> n \<and> n \<le> 102)"

text \<open>The table \<open>xdigit_chars\<close>; zero where no digit stands.\<close>

definition xdigit_chars :: "u8 \<Rightarrow> u8" where
  "xdigit_chars c = (let n = unat c in
     if 48 \<le> n \<and> n \<le> 57 then c - 48
     else if 65 \<le> n \<and> n \<le> 70 then c - 55
     else if 97 \<le> n \<and> n \<le> 102 then c - 87 else 0)"

definition url_escape :: "bool \<Rightarrow> u8 \<Rightarrow> u8 list" where
  "url_escape space_as_plus c =
     (if c = 32 \<and> space_as_plus then [43]
      else [37, hexdigits (drop_bit 4 c), hexdigits (c AND 0xF)])"

fun encode_loop :: "bool \<Rightarrow> u8 list \<Rightarrow> u8 list option \<Rightarrow> u8 list \<Rightarrow> u8 list" where
  "encode_loop sp prev ss [] = (case ss of None \<Rightarrow> prev | Some t \<Rightarrow> t)"
| "encode_loop sp prev ss (c # cs) =
     (if \<not> uri_chars c then
        let t = (case ss of None \<Rightarrow> prev | Some t \<Rightarrow> t) in
        encode_loop sp (prev @ [c]) (Some (t @ url_escape sp c)) cs
      else encode_loop sp (prev @ [c]) (map_option (\<lambda>t. t @ [c]) ss) cs)"

definition UrlEncode :: "u8 list \<Rightarrow> bool \<Rightarrow> u8 list" where
  "UrlEncode str space_as_plus = encode_loop space_as_plus [] None str"

fun decode_loop :: "bool \<Rightarrow> u8 list \<Rightarrow> u8 list option \<Rightarrow> u8 list \<Rightarrow> u8 list" where
  "decode_loop sp prev ss [] = (case ss of None \<Rightarrow> prev | Some t \<Rightarrow> t)"
| "decode_loop sp prev ss (c # cs) =
     (if c = 43 \<and> sp then
        let t = (case ss of None \<Rightarrow> prev | Some t \<Rightarrow> t) in
        decode_loop sp (prev @ [c]) (Some (t @ [32])) cs
      else case cs of
        c1 # c2 # rest \<Rightarrow>
          if c = 37 \<and> isxdigit c1 \<and> isxdigit c2 then
            let t = (case ss of None \<Rightarrow> prev | Some t \<Rightarrow> t) in
            decode_loop sp (prev @ [c, c1, c2])
              (Some (t @ [push_bit 4 (xdigit_chars c1) OR xdigit_chars c2])) rest
          else decode_loop sp (prev @ [c]) (map_option (\<lambda>t. t @ [c]) ss) cs
      | _ \<Rightarrow> decode_loop sp (prev @ [c]) (map_option (\<lambda>t. t @ [c]) ss) cs)"

definition UrlDecode :: "u8 list \<Rightarrow> bool \<Rightarrow> u8 list" where
  "UrlDecode str space_as_plus = decode_loop space_as_plus [] None str"

subsection \<open>Trimming\<close>

definition npos_first :: "(u8 \<Rightarrow> bool) \<Rightarrow> u8 list \<Rightarrow> nat option" where
  "npos_first P str = (let n = length (takeWhile (\<lambda>c. \<not> P c) str) in if n < length str then Some n else None)"

definition find_first_not_of :: "u8 list \<Rightarrow> u8 list \<Rightarrow> nat option" where
  "find_first_not_of str delimit = npos_first (\<lambda>c. c \<notin> set delimit) str"

definition find_last_not_of :: "u8 list \<Rightarrow> u8 list \<Rightarrow> nat option" where
  "find_last_not_of str delimit =
     map_option (\<lambda>n. length str - 1 - n) (npos_first (\<lambda>c. c \<notin> set delimit) (rev str))"

definition substr :: "u8 list \<Rightarrow> nat \<Rightarrow> nat \<Rightarrow> u8 list" where
  "substr str pos n = take n (drop pos str)"

definition Trim :: "u8 list \<Rightarrow> u8 list \<Rightarrow> u8 list" where
  "Trim str delimit = (case find_first_not_of str delimit of None \<Rightarrow> []
     | Some b \<Rightarrow> (case find_last_not_of str delimit of None \<Rightarrow> drop b str
        | Some e \<Rightarrow> substr str b (e - b + 1)))"

definition TrimLeft :: "u8 list \<Rightarrow> u8 list \<Rightarrow> u8 list" where
  "TrimLeft str delimit = (case find_first_not_of str delimit of None \<Rightarrow> [] | Some b \<Rightarrow> drop b str)"

definition TrimRight :: "u8 list \<Rightarrow> u8 list \<Rightarrow> u8 list" where
  "TrimRight str delimit = (case find_last_not_of str delimit of None \<Rightarrow> [] | Some e \<Rightarrow> substr str 0 e)"

subsection \<open>Paths\<close>

definition slash :: u8 where "slash = 47"
definition dot :: u8 where "dot = 46"

definition rfind :: "u8 list \<Rightarrow> u8 \<Rightarrow> nat option" where
  "rfind str ch = map_option (\<lambda>n. length str - 1 - n) (npos_first (\<lambda>c. c = ch) (rev str))"

definition Dirname :: "u8 list \<Rightarrow> u8 list" where
  "Dirname filename =
     (if filename = [] then [dot]
      else case rfind filename slash of
        Some 0 \<Rightarrow> [slash] | None \<Rightarrow> [dot] | Some pos \<Rightarrow> substr filename 0 pos)"

type_synonym path_set = "u8 list set"

definition mkdir1 :: "(u8 list \<Rightarrow> bool) \<Rightarrow> u8 list \<Rightarrow> path_set \<Rightarrow> bool \<times> path_set" where
  "mkdir1 can dirname fs =
     (if dirname \<in> fs then (True, fs) else if can dirname then (True, insert dirname fs) else (False, fs))"

text \<open>The loop of \<open>Mkdir\<close>: the prefix in front of each \<open>/\<close> after the first byte.\<close>

fun mkdir_loop :: "(u8 list \<Rightarrow> bool) \<Rightarrow> u8 list \<Rightarrow> u8 list \<Rightarrow> path_set \<Rightarrow> bool \<times> path_set" where
  "mkdir_loop can pre [] fs = mkdir1 can pre fs"
| "mkdir_loop can pre (c # cs) fs =
     (if c = slash then
        (let (ok, fs1) = mkdir1 can pre fs in
         if \<not> ok then (False, fs1) else mkdir_loop can (pre @ [c]) cs fs1)
      else mkdir_loop can (pre @ [c]) cs fs)"

text \<open>\<open>strchr(path + 1, ...)\<close> reads past the terminator of an empty path.\<close>

definition Mkdir :: "(u8 list \<Rightarrow> bool) \<Rightarrow> u8 list \<Rightarrow> path_set \<Rightarrow> (bool \<times> path_set) result" where
  "Mkdir can dirname fs =
     (if dirname \<in> fs then Inr (True, fs)
      else case dirname of [] \<Rightarrow> Inl BufferOverflow
      | c # cs \<Rightarrow> Inr (mkdir_loop can [c] cs fs))"

text \<open>\<open>OpenForWrite\<close>: \<open>opens\<close> tells whether the file opens in a given file system.\<close>

definition OpenForWrite ::
  "(path_set \<Rightarrow> bool) \<Rightarrow> (u8 list \<Rightarrow> bool) \<Rightarrow> u8 list \<Rightarrow> path_set \<Rightarrow> (bool \<times> path_set) result" where
  "OpenForWrite opens can filename fs =
     (if opens fs then Inr (True, fs)
      else bind_r (Mkdir can (Dirname filename) fs) (\<lambda>(_, fs1). Inr (opens fs1, fs1)))"

definition Unlink :: "u8 list \<Rightarrow> bool \<Rightarrow> (u8 list \<Rightarrow> bool) \<Rightarrow> path_set \<Rightarrow> bool \<times> path_set" where
  "Unlink filename exist can fs =
     (if \<not> exist \<and> filename \<notin> fs then (True, fs)
      else if filename \<in> fs \<and> can filename then (True, fs - {filename}) else (False, fs))"

subsection \<open>The reference functions\<close>

definition enc_ref :: "bool \<Rightarrow> u8 list \<Rightarrow> u8 list" where
  "enc_ref sp str = concat (map (\<lambda>c. if uri_chars c then [c] else url_escape sp c) str)"

lemma encode_loop_ref:
  "encode_loop sp prev ss cs = (case ss of None \<Rightarrow> prev | Some t \<Rightarrow> t) @ enc_ref sp cs"
proof (induction cs arbitrary: prev ss)
  case (Cons c cs)
  then show ?case by (cases ss) (simp_all add: enc_ref_def)
qed (simp add: enc_ref_def)

fun dec_ref :: "bool \<Rightarrow> u8 list \<Rightarrow> u8 list" where
  "dec_ref sp [] = []"
| "dec_ref sp (c # cs) =
     (if c = 43 \<and> sp then 32 # dec_ref sp cs
      else case cs of
        c1 # c2 # rest \<Rightarrow>
          if c = 37 \<and> isxdigit c1 \<and> isxdigit c2
          then (push_bit 4 (xdigit_chars c1) OR xdigit_chars c2) # dec_ref sp rest
          else c # dec_ref sp cs
      | _ \<Rightarrow> c # dec_ref sp cs)"

lemma decode_loop_ref:
  "decode_loop sp prev ss cs = (case ss of None \<Rightarrow> prev | Some t \<Rightarrow> t) @ dec_ref sp cs"
proof (induction sp cs arbitrary: prev ss rule: dec_ref.induct)
  case (2 sp c cs)
  show ?case
  proof (cases "c = 43 \<and> sp")
    case True
    then show ?thesis using "2.IH"(1) by (cases ss) simp_all
  next
    case F: False
    show ?thesis
    proof (cases "\<exists>c1 c2 rest. cs = c1 # c2 # rest \<and> c = 37 \<and> isxdigit c1 \<and> isxdigit c2")
      case True
      then obtain c1 c2 rest where cs: "cs = c1 # c2 # rest" and x: "c = 37 \<and> isxdigit c1 \<and> isxdigit c2"
        by blast
      then show ?thesis using F "2.IH"(4) [OF F cs HOL.refl x] by (cases ss) simp_all
    next
      case False
      have keep: "decode_loop sp prev ss (c # cs) = decode_loop sp (prev @ [c]) (map_option (\<lambda>t. t @ [c]) ss) cs"
        "dec_ref sp (c # cs) = c # dec_ref sp cs"
        using F False unfolding decode_loop.simps(2) dec_ref.simps(2)
        by (auto simp del: decode_loop.simps dec_ref.simps split: list.split)
      have "decode_loop sp p u cs = (case u of None \<Rightarrow> p | Some t \<Rightarrow> t) @ dec_ref sp cs" for p u
      proof (cases cs)
        case Nil
        then show ?thesis by (rule "2.IH"(2) [OF F])
      next
        case c1: (Cons c1 cs')
        show ?thesis
        proof (cases cs')
          case Nil
          then show ?thesis by (rule "2.IH"(3) [OF F c1])
        next
          case c2: (Cons c2 rest)
          then have "\<not> (c = 37 \<and> isxdigit c1 \<and> isxdigit c2)" using False c1 by blast
          then show ?thesis by (rule "2.IH"(5) [OF F c1 c2])
        qed
      qed
      then show ?thesis unfolding keep by (cases ss) simp_all
    qed
  qed
qed simp

lemma UrlEncode_ref: "UrlEncode str sp = enc_ref sp str"
  by (simp add: UrlEncode_def encode_loop_ref)

lemma UrlDecode_ref: "UrlDecode str sp = dec_ref sp str"
  by (simp add: UrlDecode_def decode_loop_ref)

subsection \<open>Encoding and decoding are inverse\<close>

lemma hexdigits_xdigit:
  assumes "unat d < 16"
  shows "isxdigit (hexdigits d)" and "xdigit_chars (hexdigits d) = d"
proof -
  have "unat (hexdigits d) = (if unat d < 10 then unat d + 48 else unat d + 55)"
    using assms by (simp add: hexdigits_def unat_word_ariths)
  then show "isxdigit (hexdigits d)" and "xdigit_chars (hexdigits d) = d"
    using assms by (simp_all add: isxdigit_def xdigit_chars_def Let_def hexdigits_def split: if_splits)
qed

lemma hexdigits_uri:
  assumes "unat d < 16"
  shows "uri_chars (hexdigits d)"
proof -
  have "unat (hexdigits d) = (if unat d < 10 then unat d + 48 else unat d + 55)"
    using assms by (simp add: hexdigits_def unat_word_ariths)
  then show ?thesis using assms by (simp add: uri_chars_def Let_def split: if_splits)
qed

lemma nibbles:
  fixes c :: u8
  shows "unat (drop_bit 4 c) < 16" and "unat (c AND 0xF) < 16"
    and "push_bit 4 (drop_bit 4 c) OR (c AND 0xF) = c"
proof -
  have "unat c < 256" using unat_bound [of c] by simp
  then show "unat (drop_bit 4 c) < 16" by (simp only: unat_drop_bit_eq) (simp add: drop_bit_eq_div less_mult_imp_div_less)
  have "unat (c AND mask 4) < 2 ^ 4" by (simp only: and_mask_less' unat_mono take_bit_eq_mask [symmetric] unsigned_take_bit_eq take_bit_nat_less_exp)
  then show "unat (c AND 0xF) < 16" by (simp add: mask_eq_exp_minus_1)
  show "push_bit 4 (drop_bit 4 c) OR (c AND 0xF) = c"
    using word_and_mask_or_shift [of 0 c 4] by (simp add: mask_eq_exp_minus_1 or.commute)
qed

lemma url_escape_decode:
  assumes "\<not> (c = 32 \<and> sp)"
  shows "dec_ref sp (url_escape sp c @ cs) = c # dec_ref sp cs"
  using assms nibbles [of c] by (simp add: url_escape_def hexdigits_xdigit)

lemma dec_ref_unreserved:
  assumes "uri_chars c"
  shows "dec_ref sp (c # cs) = c # dec_ref sp cs"
proof -
  have "c \<noteq> 43" and "c \<noteq> 37" using assms by (auto simp: uri_chars_def)
  then show ?thesis by (simp split: list.split)
qed

lemma dec_enc_ref: "dec_ref sp (enc_ref sp str) = str"
proof (induction str)
  case (Cons c str)
  show ?case
  proof (cases "uri_chars c")
    case True
    then show ?thesis using Cons.IH by (simp add: enc_ref_def dec_ref_unreserved del: dec_ref.simps)
  next
    case False
    show ?thesis
    proof (cases "c = 32 \<and> sp")
      case True
      then show ?thesis using False Cons.IH by (simp add: enc_ref_def url_escape_def)
    next
      case F: False
      have "enc_ref sp (c # str) = url_escape sp c @ enc_ref sp str" using False by (simp add: enc_ref_def)
      then show ?thesis using Cons.IH by (simp only: url_escape_decode [OF F])
    qed
  qed
qed (simp add: enc_ref_def)

lemma enc_ref_chars:
  assumes "c \<in> set (enc_ref sp str)"
  shows "uri_chars c \<or> c = 37 \<or> (sp \<and> c = 43)"
proof -
  have "uri_chars c \<or> c = 37 \<or> (sp \<and> c = 43)" if "c \<in> set (url_escape sp d)" for c d
    using that nibbles(1,2) [of d]
    by (auto simp: url_escape_def hexdigits_uri split: if_splits)
  then show ?thesis using assms by (auto simp: enc_ref_def split: if_splits)
qed



text \<open>The table leaves \<open>=\<close> unescaped although the comment above \<open>UrlEncode\<close> does not list it.\<close>

lemma equals_sign_kept: "UrlEncode [61] sp = [61]"
  by (simp add: UrlEncode_ref enc_ref_def uri_chars_def)

subsection \<open>Trimming and directories\<close>

lemma length_takeWhile_lt:
  assumes "\<exists>c \<in> set str. \<not> P c"
  shows "length (takeWhile P str) < length str"
proof -
  have "dropWhile P str \<noteq> []" using assms by (auto simp: dropWhile_eq_Nil_conv)
  then show ?thesis by (simp add: dropWhile_eq_drop)
qed

lemma npos_first_eq:
  "npos_first P str = (if \<exists>c \<in> set str. P c then Some (length (takeWhile (\<lambda>c. \<not> P c) str)) else None)"
proof (cases "\<exists>c \<in> set str. P c")
  case True
  then have "length (takeWhile (\<lambda>c. \<not> P c) str) < length str" by (simp add: length_takeWhile_lt)
  with True show ?thesis by (simp add: npos_first_def Let_def)
next
  case False
  then have "length (takeWhile (\<lambda>c. \<not> P c) str) = length str"
    by (intro arg_cong [of _ _ length]) (simp add: takeWhile_eq_all_conv)
  with False show ?thesis by (simp add: npos_first_def Let_def)
qed

lemma TrimLeft_eq: "TrimLeft str delimit = dropWhile (\<lambda>c. c \<in> set delimit) str"
proof (cases "\<exists>c \<in> set str. c \<notin> set delimit")
  case True
  then show ?thesis
    by (simp add: TrimLeft_def find_first_not_of_def npos_first_eq dropWhile_eq_drop)
next
  case False
  then show ?thesis
    by (auto simp: TrimLeft_def find_first_not_of_def npos_first_eq dropWhile_eq_Nil_conv[THEN iffD2])
qed

definition strip_end :: "(u8 \<Rightarrow> bool) \<Rightarrow> u8 list \<Rightarrow> u8 list" where
  "strip_end P str = rev (dropWhile P (rev str))"

lemma find_last_eq:
  "find_last_not_of str delimit =
     (if \<exists>c \<in> set str. c \<notin> set delimit then Some (length (strip_end (\<lambda>c. c \<in> set delimit) str) - 1) else None)"
  by (simp add: find_last_not_of_def npos_first_eq strip_end_def dropWhile_eq_drop)

lemma strip_end_prefix: "strip_end P str = take (length (strip_end P str)) str"
  by (simp add: strip_end_def dropWhile_eq_drop rev_drop)

lemma strip_end_ne: "\<exists>c \<in> set str. \<not> P c \<Longrightarrow> strip_end P str \<noteq> [] \<and> \<not> P (last (strip_end P str))"
  using hd_dropWhile [of P "rev str"] by (auto simp: strip_end_def last_rev dropWhile_eq_Nil_conv)

lemma strip_end_split: "\<exists>r. str = strip_end P str @ r \<and> (\<forall>c \<in> set r. P c)"
proof (intro exI conjI ballI)
  show "str = strip_end P str @ rev (takeWhile P (rev str))"
    by (simp add: strip_end_def flip: rev_append)
  show "P c" if "c \<in> set (rev (takeWhile P (rev str)))" for c
    using that by (auto dest: set_takeWhileD)
qed

lemma TrimRight_eq:
  assumes "\<exists>c \<in> set str. c \<notin> set delimit"
  shows "TrimRight str delimit = butlast (strip_end (\<lambda>c. c \<in> set delimit) str)"
proof -
  let ?t = "strip_end (\<lambda>c. c \<in> set delimit) str"
  have "TrimRight str delimit = take (length ?t - 1) str"
    using assms by (simp add: TrimRight_def find_last_eq substr_def)
  also have "\<dots> = take (length ?t - 1) (take (length ?t) str)" by simp
  also have "\<dots> = butlast ?t" by (simp only: strip_end_prefix [symmetric] butlast_conv_take)
  finally show ?thesis .
qed

lemma Trim_eq:
  assumes "\<exists>c \<in> set str. c \<notin> set delimit"
  shows "Trim str delimit = dropWhile (\<lambda>c. c \<in> set delimit) (strip_end (\<lambda>c. c \<in> set delimit) str)"
proof -
  let ?P = "\<lambda>c. c \<in> set delimit" and ?t = "strip_end (\<lambda>c. c \<in> set delimit) str"
  obtain r where r: "str = ?t @ r" "\<forall>c \<in> set r. ?P c" using strip_end_split by blast
  have t: "?t \<noteq> []" "\<exists>c \<in> set ?t. \<not> ?P c" using strip_end_ne [OF assms] by (auto intro: last_in_set)
  have b: "takeWhile ?P str = takeWhile ?P ?t"
    using t(2) by (subst r(1)) (auto simp: takeWhile_append1)
  have lt: "length (takeWhile ?P ?t) < length ?t"
    using t(2) by (simp add: length_takeWhile_lt)
  have "Trim str delimit = take (length ?t - 1 - length (takeWhile ?P ?t) + 1) (drop (length (takeWhile ?P ?t)) str)"
    using assms by (simp add: Trim_def find_first_not_of_def npos_first_eq find_last_eq substr_def b)
  also have "\<dots> = take (length ?t - length (takeWhile ?P ?t)) (drop (length (takeWhile ?P ?t)) str)"
    using lt by (intro arg_cong2 [of _ _ _ _ take] HOL.refl) linarith
  also have "\<dots> = drop (length (takeWhile ?P ?t)) (take (length ?t) str)" by (simp add: drop_take)
  also have "\<dots> = dropWhile ?P ?t" by (simp only: strip_end_prefix [symmetric] dropWhile_eq_drop)
  finally show ?thesis .
qed

text \<open>Trimming. \<open>Trim\<close> removes exactly the delimiters at both ends: the rest of the string is
  delimiters, and the result starts and ends with another character. \<open>TrimLeft\<close> drops exactly the
  leading delimiters. \<open>TrimRight\<close> also removes the last character that is no delimiter
  (\<open>substr(0, end)\<close> stops one short).\<close>

theorem Trim_correct:
  assumes "\<exists>c. c \<in> set str \<and> c \<notin> set delimit"
  shows "\<exists>l r t. str = l @ t @ r \<and> set l \<subseteq> set delimit \<and> set r \<subseteq> set delimit
           \<and> t \<noteq> [] \<and> hd t \<notin> set delimit \<and> last t \<notin> set delimit
           \<and> Trim str delimit = t \<and> TrimLeft str delimit = t @ r \<and> TrimRight str delimit = l @ butlast t"
proof -
  let ?P = "\<lambda>c. c \<in> set delimit"
  have ex: "\<exists>c \<in> set str. \<not> ?P c" using assms by blast
  define u where "u = strip_end ?P str"
  obtain r where r: "str = u @ r" "\<forall>c \<in> set r. ?P c" using strip_end_split [of str ?P] by (auto simp: u_def)
  have u: "u \<noteq> []" "\<not> ?P (last u)" using strip_end_ne [OF ex] by (simp_all add: u_def)
  define l t where "l = takeWhile ?P u" and "t = dropWhile ?P u"
  have lt: "u = l @ t" by (simp add: l_def t_def)
  have t: "t \<noteq> []" using u by (auto simp: t_def dropWhile_eq_Nil_conv dest: last_in_set)
  have "hd t \<notin> set delimit" using t hd_dropWhile [of ?P u] by (simp add: t_def)
  moreover have "last t \<notin> set delimit" using u(2) t by (simp add: lt)
  moreover have "TrimLeft str delimit = t @ r"
    using dropWhile_append1 [OF last_in_set [OF u(1)], of ?P r] u(2) by (simp add: TrimLeft_eq r(1) t_def)
  moreover have "TrimRight str delimit = l @ butlast t"
    using TrimRight_eq [OF ex] t by (simp add: u_def [symmetric] lt butlast_append)
  moreover have "Trim str delimit = t" using Trim_eq [OF ex] by (simp add: u_def [symmetric] t_def)
  moreover have "set l \<subseteq> set delimit" by (auto simp: l_def dest: set_takeWhileD)
  moreover have "set r \<subseteq> set delimit" using r(2) by blast
  moreover have "str = l @ t @ r" using r(1) lt by simp
  ultimately show ?thesis using t by blast
qed

theorem Trim_correct_witness:
  "\<exists>t. Trim [32, 97, 98, 32] [32] = t \<and> t \<noteq> [] \<and> hd t \<noteq> 32 \<and> last t \<noteq> 32
     \<and> TrimRight [32, 97, 98, 32] [32] = [32, 97]"
proof -
  have "TrimRight [32, 97, 98, 32] [32] = [32, 97]"
    by (simp add: TrimRight_def find_last_not_of_def npos_first_def substr_def Let_def)
  then show ?thesis using Trim_correct [of "[32, 97, 98, 32]" "[32]"] by fastforce
qed

text \<open>The directories \<open>Mkdir\<close> has to see: the path in front of each separator, then the path.\<close>

definition dir_prefixes :: "u8 list \<Rightarrow> u8 list \<Rightarrow> u8 list set" where
  "dir_prefixes pre cs = insert (pre @ cs) {pre @ take k cs | k. k < length cs \<and> cs ! k = slash}"

lemma dir_prefixes_Nil: "dir_prefixes pre [] = {pre}"
  by (simp add: dir_prefixes_def)

lemma dir_prefixes_Cons:
  "dir_prefixes pre (c # cs) = (if c = slash then {pre} else {}) \<union> dir_prefixes (pre @ [c]) cs"
proof -
  have "{pre @ take k (c # cs) | k. k < length (c # cs) \<and> (c # cs) ! k = slash}
    = (if c = slash then {pre} else {}) \<union> {(pre @ [c]) @ take k cs | k. k < length cs \<and> cs ! k = slash}"
    (is "?L = ?R")
  proof (intro equalityI subsetI)
    fix x assume "x \<in> ?L"
    then obtain k where "k < length (c # cs)" "(c # cs) ! k = slash" "x = pre @ take k (c # cs)" by blast
    then show "x \<in> ?R" by (cases k) auto
  next
    fix x assume "x \<in> ?R"
    then consider "c = slash" "x = pre"
      | k where "k < length cs" "cs ! k = slash" "x = (pre @ [c]) @ take k cs" by (auto split: if_splits)
    then show "x \<in> ?L"
    proof cases
      case 1
      then show ?thesis by (intro CollectI exI [of _ 0]) simp
    next
      case (2 k)
      then show ?thesis by (intro CollectI exI [of _ "Suc k"]) simp
    qed
  qed
  then show ?thesis by (auto simp: dir_prefixes_def)
qed

lemma mkdir_loop_eq:
  "mkdir_loop can pre cs fs = (ok, fs1) \<Longrightarrow>
     ok = (\<forall>p \<in> dir_prefixes pre cs. p \<in> fs \<or> can p)
     \<and> fs \<subseteq> fs1 \<and> fs1 \<subseteq> fs \<union> dir_prefixes pre cs
     \<and> (ok \<longrightarrow> fs1 = fs \<union> dir_prefixes pre cs)"
proof (induction can pre cs fs arbitrary: ok fs1 rule: mkdir_loop.induct)
  case (1 can pre fs)
  then show ?case by (auto simp: mkdir1_def dir_prefixes_Nil split: if_splits)
next
  case (2 can pre c cs fs)
  show ?case
  proof (cases "c = slash")
    case False
    then show ?thesis using 2(2) [OF False, of ok fs1] 2(3) by (simp add: dir_prefixes_Cons)
  next
    case True
    obtain o1 f1 where m: "mkdir1 can pre fs = (o1, f1)" by (cases "mkdir1 can pre fs")
    have one: "o1 = (pre \<in> fs \<or> can pre)" "o1 \<longrightarrow> f1 = insert pre fs" "\<not> o1 \<longrightarrow> f1 = fs"
      using m by (auto simp: mkdir1_def split: if_splits)
    show ?thesis
    proof (cases o1)
      case False
      then show ?thesis using 2(3) True m one by (auto simp: dir_prefixes_Cons)
    next
      case o1: True
      have "mkdir_loop can (pre @ [c]) cs f1 = (ok, fs1)" using 2(3) True m o1 by simp
      then have "ok = (\<forall>p \<in> dir_prefixes (pre @ [c]) cs. p \<in> f1 \<or> can p)
          \<and> f1 \<subseteq> fs1 \<and> fs1 \<subseteq> f1 \<union> dir_prefixes (pre @ [c]) cs
          \<and> (ok \<longrightarrow> fs1 = f1 \<union> dir_prefixes (pre @ [c]) cs)"
        using 2(1) [OF True m [symmetric] HOL.refl] o1 by simp
      moreover have "pre \<notin> dir_prefixes (pre @ [c]) cs" by (auto simp: dir_prefixes_def)
      ultimately show ?thesis using one o1 True by (auto simp: dir_prefixes_Cons)
    qed
  qed
qed

text \<open>Creating directories. For a path that is not empty and does not exist yet, \<open>Mkdir\<close> succeeds
  exactly when each directory on the way (the path in front of every \<open>/\<close> after the first
  character, and the path itself) exists or can be created; then precisely these are added. When it
  fails, nothing is removed and nothing else is added. The empty path makes \<open>strchr\<close> start after the
  terminator of the copied string.\<close>

theorem Mkdir_correct:
  assumes "d = c # cs" and "d \<notin> fs"
  shows "\<exists>ok fs1. Mkdir can d fs = Inr (ok, fs1)
     \<and> ok = (\<forall>p. p = d \<or> (\<exists>k. 0 < k \<and> k < length d \<and> d ! k = slash \<and> p = take k d) \<longrightarrow> p \<in> fs \<or> can p)
     \<and> fs \<subseteq> fs1
     \<and> (\<forall>p. p \<in> fs1 \<and> p \<notin> fs \<longrightarrow> p = d \<or> (\<exists>k. 0 < k \<and> k < length d \<and> d ! k = slash \<and> p = take k d))
     \<and> (ok \<longrightarrow> (\<forall>k. 0 < k \<and> k < length d \<and> d ! k = slash \<longrightarrow> take k d \<in> fs1) \<and> d \<in> fs1)
     \<and> Mkdir can [] {} = Inl BufferOverflow"
proof -
  obtain ok fs1 where m: "mkdir_loop can [c] cs fs = (ok, fs1)" by (cases "mkdir_loop can [c] cs fs")
  have pre: "p \<in> dir_prefixes [c] cs \<longleftrightarrow>
      p = d \<or> (\<exists>k. 0 < k \<and> k < length d \<and> d ! k = slash \<and> p = take k d)" for p
  proof -
    have "(\<exists>k. 0 < k \<and> k < length d \<and> d ! k = slash \<and> p = take k d)
      \<longleftrightarrow> (\<exists>j. Suc j < length d \<and> d ! Suc j = slash \<and> p = take (Suc j) d)"
      by (metis gr0_implies_Suc zero_less_Suc)
    then show ?thesis by (auto simp: dir_prefixes_def assms(1))
  qed
  have "Mkdir can d fs = Inr (ok, fs1)" using assms m by (simp add: Mkdir_def)
  moreover note mkdir_loop_eq [OF m, unfolded Ball_def pre subset_iff Un_iff]
  ultimately show ?thesis by (intro exI [of _ ok] exI [of _ fs1]) (auto simp: pre Mkdir_def subset_iff)
qed

theorem Mkdir_correct_witness:
  "\<exists>fs1. Mkdir (\<lambda>_. True) [47, 97, 47, 98] {} = Inr (True, fs1) \<and> [47, 97] \<in> fs1 \<and> [47, 97, 47, 98] \<in> fs1"
proof -
  from Mkdir_correct [of "[47, 97, 47, 98]" 47 "[97, 47, 98]" "{}" "\<lambda>_. True"]
  obtain fs1 where m: "Mkdir (\<lambda>_. True) [47, 97, 47, 98] {} = Inr (True, fs1)"
    and p: "\<forall>k. 0 < k \<and> k < 4 \<and> [47, 97, 47, 98 :: u8] ! k = slash \<longrightarrow> take k [47, 97, 47, 98] \<in> fs1"
    and d: "[47, 97, 47, 98] \<in> fs1" by auto
  have "[47, 97] \<in> fs1" using p [THEN spec, of 2] by (simp add: slash_def)
  with m d show ?thesis by blast
qed

text \<open>\<open>OpenForWrite\<close> always returns, since \<open>Dirname\<close> never yields the empty path.\<close>

lemma Dirname_nonempty: "Dirname filename \<noteq> []"
proof (cases "rfind filename slash")
  case (Some pos)
  moreover have "pos < length filename"
    using Some by (auto simp: rfind_def npos_first_def Let_def split: if_splits)
  ultimately show ?thesis by (cases pos) (auto simp: Dirname_def substr_def)
qed (simp add: Dirname_def)

lemma OpenForWrite_returns: "\<exists>b fs1. OpenForWrite opens can filename fs = Inr (b, fs1) \<and> b = opens fs1"
proof (cases "opens fs")
  case False
  obtain c cs where d: "Dirname filename = c # cs" using Dirname_nonempty by (cases "Dirname filename") auto
  have "Mkdir can (Dirname filename) fs = Inr (if c # cs \<in> fs then (True, fs) else mkdir_loop can [c] cs fs)"
    by (simp add: Mkdir_def d)
  then obtain r where "Mkdir can (Dirname filename) fs = Inr r" by blast
  then show ?thesis using False by (cases r) (simp add: OpenForWrite_def)
qed (auto simp: OpenForWrite_def)

end
