(* ===== verification/CppMap.thy ===== *)
theory CppMap
  imports CppSet
begin

text \<open>
  \<open>std::map\<close> with a user-supplied comparator: the sequence of entries in iteration order. Unlike the
  order of \<open>CppSet\<close>, the comparator may identify different keys (the HTTP headers compare without
  case), so the locale \<open>cpp_weak_order\<close> asks for a strict weak order, as the standard does; every
  \<open>cpp_order\<close> is one.
\<close>

subsection \<open>The operations\<close>

definition equiv_by :: "('k \<Rightarrow> 'k \<Rightarrow> bool) \<Rightarrow> 'k \<Rightarrow> 'k \<Rightarrow> bool" where
  "equiv_by lt a b \<longleftrightarrow> \<not> lt a b \<and> \<not> lt b a"

text \<open>\<open>find\<close>: the value of the entry with an equivalent key.\<close>

primrec map_find :: "('k \<Rightarrow> 'k \<Rightarrow> bool) \<Rightarrow> 'k \<Rightarrow> ('k \<times> 'v) list \<Rightarrow> 'v option" where
  "map_find lt k [] = None"
| "map_find lt k (e # m) =
     (if lt (fst e) k then map_find lt k m else if lt k (fst e) then None else Some (snd e))"

text \<open>\<open>insert\<close> keeps an equivalent entry; \<open>m[k] = v\<close> keeps its key and replaces its value.\<close>

primrec map_insert :: "('k \<Rightarrow> 'k \<Rightarrow> bool) \<Rightarrow> 'k \<Rightarrow> 'v \<Rightarrow> ('k \<times> 'v) list \<Rightarrow> ('k \<times> 'v) list" where
  "map_insert lt k v [] = [(k, v)]"
| "map_insert lt k v (e # m) =
     (if lt (fst e) k then e # map_insert lt k v m else if lt k (fst e) then (k, v) # e # m else e # m)"

primrec map_assign :: "('k \<Rightarrow> 'k \<Rightarrow> bool) \<Rightarrow> 'k \<Rightarrow> 'v \<Rightarrow> ('k \<times> 'v) list \<Rightarrow> ('k \<times> 'v) list" where
  "map_assign lt k v [] = [(k, v)]"
| "map_assign lt k v (e # m) =
     (if lt (fst e) k then e # map_assign lt k v m
      else if lt k (fst e) then (k, v) # e # m else (fst e, v) # m)"

text \<open>\<open>erase(key)\<close>.\<close>

primrec map_erase :: "('k \<Rightarrow> 'k \<Rightarrow> bool) \<Rightarrow> 'k \<Rightarrow> ('k \<times> 'v) list \<Rightarrow> ('k \<times> 'v) list" where
  "map_erase lt k [] = []"
| "map_erase lt k (e # m) =
     (if lt (fst e) k then e # map_erase lt k m else if lt k (fst e) then e # m else m)"

definition map_sorted :: "('k \<Rightarrow> 'k \<Rightarrow> bool) \<Rightarrow> ('k \<times> 'v) list \<Rightarrow> bool" where
  "map_sorted lt m = sorted_wrt (\<lambda>a b. lt (fst a) (fst b)) m"

lemma map_sorted_Nil [simp]: "map_sorted lt []"
  by (simp add: map_sorted_def)

lemma map_sorted_Cons [simp]:
  "map_sorted lt (e # m) \<longleftrightarrow> (\<forall>d \<in> set m. lt (fst e) (fst d)) \<and> map_sorted lt m"
  by (simp add: map_sorted_def)

subsection \<open>What a client relies on\<close>

locale cpp_weak_order =
  fixes lt :: "'k \<Rightarrow> 'k \<Rightarrow> bool"
  assumes weak_irrefl: "\<not> lt x x"
    and weak_trans: "lt x y \<Longrightarrow> lt y z \<Longrightarrow> lt x z"
    and equiv_trans: "equiv_by lt x y \<Longrightarrow> equiv_by lt y z \<Longrightarrow> equiv_by lt x z"
begin

lemma equiv_refl [simp]: "equiv_by lt x x"
  by (simp add: equiv_by_def weak_irrefl)

lemma equiv_sym: "equiv_by lt x y \<Longrightarrow> equiv_by lt y x"
  by (simp add: equiv_by_def)

lemma lt_equiv: "lt x y \<Longrightarrow> equiv_by lt y z \<Longrightarrow> lt x z"
  by (metis equiv_by_def equiv_trans equiv_sym weak_trans)

lemma equiv_lt: "equiv_by lt x y \<Longrightarrow> lt y z \<Longrightarrow> lt x z"
  by (metis equiv_by_def equiv_trans equiv_sym weak_trans)

lemma set_assign_subset: "d \<in> set (map_assign lt k v m) \<Longrightarrow> d \<in> set m \<or> equiv_by lt (fst d) k"
  by (induction m) (auto simp: equiv_by_def weak_irrefl split: if_splits)

lemma set_insert_subset: "d \<in> set (map_insert lt k v m) \<Longrightarrow> d \<in> set m \<or> d = (k, v)"
  by (induction m) (auto split: if_splits)

lemma set_erase_subset: "d \<in> set (map_erase lt k m) \<Longrightarrow> d \<in> set m"
  by (induction m) (auto split: if_splits)

lemma sorted_assign:
  assumes "map_sorted lt m"
  shows "map_sorted lt (map_assign lt k v m)"
  using assms
proof (induction m)
  case (Cons e m)
  consider "lt (fst e) k" | "\<not> lt (fst e) k" "lt k (fst e)" | "equiv_by lt (fst e) k"
    by (auto simp: equiv_by_def)
  then show ?case
  proof cases
    case 1
    then show ?thesis
      using Cons by (auto dest!: set_assign_subset intro: lt_equiv equiv_sym)
  next
    case 2
    then show ?thesis using Cons.prems weak_trans [of k "fst e"] by auto
  next
    case 3
    then show ?thesis using Cons.prems by (auto simp: equiv_by_def)
  qed
qed simp

lemma sorted_insert:
  assumes "map_sorted lt m"
  shows "map_sorted lt (map_insert lt k v m)"
  using assms
proof (induction m)
  case (Cons e m)
  have "lt (fst e) k \<Longrightarrow> \<forall>d \<in> set (map_insert lt k v m). lt (fst e) (fst d)"
    using Cons.prems by (auto dest!: set_insert_subset)
  moreover have "lt k (fst e) \<Longrightarrow> \<forall>d \<in> set m. lt k (fst d)"
    using Cons.prems weak_trans [of k "fst e"] by auto
  ultimately show ?case using Cons by simp
qed simp

lemma sorted_erase: "map_sorted lt m \<Longrightarrow> map_sorted lt (map_erase lt k m)"
  by (induction m) (auto dest: set_erase_subset)

text \<open>Lookup is by equivalence of keys.\<close>

lemma find_equiv: "equiv_by lt j k \<Longrightarrow> map_find lt j m = map_find lt k m"
proof (induction m)
  case (Cons e m)
  have "lt (fst e) j = lt (fst e) k" "lt j (fst e) = lt k (fst e)"
    using Cons.prems lt_equiv equiv_lt equiv_sym by blast+
  then show ?case using Cons by simp
qed simp

lemma find_above: "\<forall>d \<in> set m. lt k (fst d) \<Longrightarrow> map_find lt k m = None"
  using weak_trans [of k _ k] by (cases m) (auto simp: weak_irrefl)

lemma find_assign:
  assumes "map_sorted lt m"
  shows "map_find lt j (map_assign lt k v m) = (if equiv_by lt j k then Some v else map_find lt j m)"
  using assms
proof (induction m)
  case Nil
  then show ?case by (simp add: equiv_by_def)
next
  case (Cons e m)
  consider "lt (fst e) k" | "\<not> lt (fst e) k" "lt k (fst e)" | "equiv_by lt (fst e) k"
    by (auto simp: equiv_by_def)
  then show ?case
  proof cases
    case 1
    then have "equiv_by lt j k \<Longrightarrow> lt (fst e) j" using lt_equiv equiv_sym by blast
    then show ?thesis using 1 Cons by auto
  next
    case 2
    have "lt j k \<Longrightarrow> lt j (fst e)" using 2 weak_trans by blast
    moreover have "lt j k \<Longrightarrow> \<not> lt (fst e) j" using 2 weak_trans weak_irrefl by blast
    ultimately show ?thesis using 2 by (auto simp: equiv_by_def)
  next
    case 3
    then have e: "lt (fst e) j = lt k j" "lt j (fst e) = lt j k"
      using lt_equiv equiv_lt equiv_sym by blast+
    show ?thesis using 3 e by (simp add: equiv_by_def)
  qed
qed

lemma find_insert:
  assumes "map_sorted lt m"
  shows "map_find lt j (map_insert lt k v m)
    = (if equiv_by lt j k \<and> map_find lt k m = None then Some v else map_find lt j m)"
  using assms
proof (induction m)
  case Nil
  then show ?case by (simp add: equiv_by_def)
next
  case (Cons e m)
  consider "lt (fst e) k" | "\<not> lt (fst e) k" "lt k (fst e)" | "equiv_by lt (fst e) k"
    by (auto simp: equiv_by_def)
  then show ?case
  proof cases
    case 1
    then have "equiv_by lt j k \<Longrightarrow> lt (fst e) j" using lt_equiv equiv_sym by blast
    then show ?thesis using 1 Cons by auto
  next
    case 2
    have "lt j k \<Longrightarrow> lt j (fst e)" using 2 weak_trans by blast
    moreover have "lt j k \<Longrightarrow> \<not> lt (fst e) j" using 2 weak_trans weak_irrefl by blast
    ultimately show ?thesis using 2 by (auto simp: equiv_by_def)
  next
    case 3
    then show ?thesis by (simp add: equiv_by_def)
  qed
qed

lemma lookup_erase:
  assumes "map_sorted lt m"
  shows "map_find lt j (map_erase lt k m) = (if equiv_by lt j k then None else map_find lt j m)"
  using assms
proof (induction m)
  case (Cons e m)
  consider "lt (fst e) k" | "\<not> lt (fst e) k" "lt k (fst e)" | "equiv_by lt (fst e) k"
    by (auto simp: equiv_by_def)
  then show ?case
  proof cases
    case 1
    then have "equiv_by lt j k \<Longrightarrow> lt (fst e) j" using lt_equiv equiv_sym by blast
    then show ?thesis using 1 Cons by auto
  next
    case 2
    then have "equiv_by lt j k \<Longrightarrow> lt j (fst e) \<and> \<not> lt (fst e) j"
      using equiv_lt weak_trans weak_irrefl by blast
    then show ?thesis using 2 by auto
  next
    case 3
    then have e: "lt (fst e) j = lt k j" "lt j (fst e) = lt j k"
      using lt_equiv equiv_lt equiv_sym by blast+
    have "lt j (fst e) \<Longrightarrow> map_find lt j m = None"
      using Cons.prems weak_trans [of j "fst e"] by (intro find_above) simp
    moreover have "equiv_by lt j k \<Longrightarrow> map_find lt j m = None"
      using Cons.prems equiv_lt [of j "fst e"] equiv_trans [OF _ equiv_sym [OF 3], of j] by (intro find_above) simp
    ultimately show ?thesis using 3 e by (auto simp: equiv_by_def)
  qed
qed simp

lemma insert_last: "\<forall>d \<in> set m. lt (fst d) k \<Longrightarrow> map_insert lt k v m = m @ [(k, v)]"
  by (induction m) auto

text \<open>Inserting the entries of a map one after the other rebuilds it.\<close>

lemma foldl_insert_sorted:
  "map_sorted lt (acc @ m) \<Longrightarrow> foldl (\<lambda>acc e. map_insert lt (fst e) (snd e) acc) acc m = acc @ m"
proof (induction m arbitrary: acc)
  case (Cons e m)
  have "\<forall>d \<in> set acc. lt (fst d) (fst e)"
    using Cons.prems by (simp add: map_sorted_def sorted_wrt_append)
  then have "map_insert lt (fst e) (snd e) acc = acc @ [e]" by (simp add: insert_last)
  then show ?case using Cons.IH [of "acc @ [e]"] Cons.prems by simp
qed simp

text \<open>Assigning to a key that is not there adds one entry.\<close>

lemma assign_new: "map_find lt k m = None \<Longrightarrow> set (map_assign lt k v m) = insert (k, v) (set m)"
  by (induction m) (auto split: if_splits)

lemma assign_new_distinct:
  "map_find lt k m = None \<Longrightarrow> v \<notin> snd ` set m \<Longrightarrow> distinct (map snd m) \<Longrightarrow> distinct (map snd (map_assign lt k v m))"
proof (induction m)
  case (Cons e m)
  then show ?case by (auto simp: assign_new split: if_splits)
qed simp

lemma find_mem: "map_sorted lt m \<Longrightarrow> (k, v) \<in> set m \<Longrightarrow> map_find lt k m = Some v"
proof (induction m)
  case (Cons e m)
  then show ?case using weak_irrefl weak_trans by (cases "e = (k, v)") auto
qed simp

lemma find_Some_mem: "map_find lt k m = Some v \<Longrightarrow> \<exists>j. (j, v) \<in> set m \<and> equiv_by lt j k"
  by (induction m) (auto simp: equiv_by_def split: if_splits)

end

text \<open>A total order identifies equal keys only.\<close>

sublocale cpp_order \<subseteq> weak: cpp_weak_order lt
proof
  show "equiv_by lt x z" if "equiv_by lt x y" and "equiv_by lt y z" for x y z
    using that total by (metis equiv_by_def)
qed (use irrefl lt_trans in blast)+

end
