(* ===== verification/CString.thy ===== *)
theory CString
  imports StringUtil CppMap
begin

text \<open>
  C strings as byte lists (\<open>bytes\<close> writes a literal) and the functions of the C library the program
  calls on them, the decimal and hexadecimal output of \<open>std::ostream\<close>, and the order of
  \<open>std::string\<close>, which keys the ordinary \<open>std::map\<close> and \<open>std::multimap\<close> containers.
\<close>

subsection \<open>C strings\<close>

definition bytes :: "string \<Rightarrow> u8 list" where
  "bytes s = map of_char s"

definition c_str :: "u8 list \<Rightarrow> u8 list" where
  "c_str s = takeWhile (\<lambda>c. c \<noteq> 0) s"

lemma c_str_Nil: "c_str [] = []"
  by (simp add: c_str_def)

definition tolower :: "u8 \<Rightarrow> u8" where
  "tolower c = (if 65 \<le> unat c \<and> unat c \<le> 90 then c + 32 else c)"

text \<open>\<open>strcasecmp\<close>: the end of a list is its terminator.\<close>

fun strcasecmp :: "u8 list \<Rightarrow> u8 list \<Rightarrow> int" where
  "strcasecmp [] [] = 0"
| "strcasecmp [] (y # ys) = - uint (tolower y)"
| "strcasecmp (x # xs) [] = uint (tolower x)"
| "strcasecmp (x # xs) (y # ys) =
     (if tolower x \<noteq> tolower y then uint (tolower x) - uint (tolower y)
      else if x = 0 then 0 else strcasecmp xs ys)"

definition strcasestr :: "u8 list \<Rightarrow> u8 list \<Rightarrow> bool" where
  "strcasestr s needle = list_ex
     (\<lambda>i. map tolower (take (length needle) (drop i (c_str s))) = map tolower needle) [0..<Suc (length (c_str s))]"

text \<open>Decimal output of an unsigned number.\<close>

fun decimal :: "nat \<Rightarrow> u8 list" where
  "decimal n = (if n < 10 then [of_nat (48 + n)] else decimal (n div 10) @ [of_nat (48 + n mod 10)])"

declare decimal.simps [simp del]

text \<open>Decimal output of a signed number.\<close>

definition decimal_int :: "int \<Rightarrow> u8 list" where
  "decimal_int k = (if k < 0 then bytes ''-'' @ decimal (nat (- k)) else decimal (nat k))"

definition hexchar :: "nat \<Rightarrow> u8" where
  "hexchar n = of_nat (if n < 10 then 48 + n else 87 + n)"

fun hexadecimal :: "nat \<Rightarrow> u8 list" where
  "hexadecimal n = (if n < 16 then [hexchar n] else hexadecimal (n div 16) @ [hexchar (n mod 16)])"

declare hexadecimal.simps [simp del]

subsection \<open>Searching\<close>

text \<open>\<open>str.find(ch, pos)\<close>.\<close>

definition find_from :: "u8 \<Rightarrow> u8 list \<Rightarrow> nat \<Rightarrow> nat option" where
  "find_from ch str pos = map_option (\<lambda>n. pos + n) (npos_first (\<lambda>c. c = ch) (drop pos str))"

lemma find_from_Some: "find_from ch str pos = Some p \<Longrightarrow> pos \<le> p \<and> p < length str \<and> str ! p = ch"
proof -
  assume "find_from ch str pos = Some p"
  then obtain n where n: "p = pos + n" "n = length (takeWhile (\<lambda>c. c \<noteq> ch) (drop pos str))" "n < length (drop pos str)"
    by (auto simp: find_from_def npos_first_def Let_def split: if_splits)
  then have "drop pos str ! n = ch" using nth_length_takeWhile [of "\<lambda>c. c \<noteq> ch" "drop pos str"] by simp
  then show ?thesis using n by simp
qed

lemma takeWhile_stop: "ch \<notin> set a \<Longrightarrow> takeWhile (\<lambda>c. c \<noteq> ch) (a @ ch # b) = a"
  by (induction a) auto

lemma find_from_hit: "ch \<notin> set a \<Longrightarrow> find_from ch (pre @ a @ ch # b) (length pre) = Some (length pre + length a)"
  by (simp add: find_from_def npos_first_def takeWhile_stop)

lemma find_from_miss: "ch \<notin> set a \<Longrightarrow> find_from ch (pre @ a) (length pre) = None"
  by (auto simp: find_from_def npos_first_eq)

subsection \<open>The order of strings\<close>

fun str_less :: "u8 list \<Rightarrow> u8 list \<Rightarrow> bool" where
  "str_less xs [] = False"
| "str_less [] (y # ys) = True"
| "str_less (x # xs) (y # ys) = (if x = y then str_less xs ys else unat x < unat y)"

interpretation str: cpp_order str_less
proof
  show "\<not> str_less x x" for x by (induction x) auto
  show "str_less x z" if "str_less x y" and "str_less y z" for x y z
    using that
  proof (induction x z arbitrary: y rule: str_less.induct)
    case (1 xs)
    then show ?case by (cases y) auto
  next
    case (2 b bs)
    then show ?case by simp
  next
    case (3 a as b bs)
    then show ?case by (cases y) (auto split: if_splits)
  qed
  show "str_less x y \<or> x = y \<or> str_less y x" for x y
  proof (induction x y rule: str_less.induct)
    case (1 xs)
    then show ?case by (cases xs) simp_all
  next
    case (3 x xs y ys)
    then show ?case by (cases "x = y") (auto simp: word_unat_eq_iff)
  qed simp
qed

text \<open>\<open>std::multimap\<close>: an entry is inserted behind those with an equivalent key.\<close>

primrec multi_insert :: "('k \<Rightarrow> 'k \<Rightarrow> bool) \<Rightarrow> 'k \<Rightarrow> 'v \<Rightarrow> ('k \<times> 'v) list \<Rightarrow> ('k \<times> 'v) list" where
  "multi_insert lt k v [] = [(k, v)]"
| "multi_insert lt k v (e # m) = (if lt k (fst e) then (k, v) # e # m else e # multi_insert lt k v m)"

definition equal_range :: "('k \<Rightarrow> 'k \<Rightarrow> bool) \<Rightarrow> 'k \<Rightarrow> ('k \<times> 'v) list \<Rightarrow> 'v list" where
  "equal_range lt k m = map snd (filter (\<lambda>e. \<not> lt (fst e) k \<and> \<not> lt k (fst e)) m)"

definition multi_sorted :: "('k \<Rightarrow> 'k \<Rightarrow> bool) \<Rightarrow> ('k \<times> 'v) list \<Rightarrow> bool" where
  "multi_sorted lt m = sorted_wrt (\<lambda>a b. \<not> lt (fst b) (fst a)) m"

lemma set_multi_insert [simp]: "set (multi_insert lt k v m) = insert (k, v) (set m)"
  by (induction m) auto

lemma multi_insert_sorted:
  "multi_sorted str_less m \<Longrightarrow> multi_sorted str_less (multi_insert str_less k v m)"
proof (induction m)
  case (Cons e m)
  have up: "\<not> str_less (fst d) k" if "str_less k (fst e)" "d \<in> set (e # m)" for d
  proof
    assume "str_less (fst d) k"
    then have "str_less (fst d) (fst e)" using that(1) str.lt_trans by blast
    then show False using Cons.prems that(2) str.irrefl by (auto simp: multi_sorted_def)
  qed
  show ?case
  proof (cases "str_less k (fst e)")
    case True
    then show ?thesis using up Cons.prems by (auto simp: multi_sorted_def)
  next
    case False
    then show ?thesis using Cons by (auto simp: multi_sorted_def)
  qed
qed (simp add: multi_sorted_def)

lemma equal_range_Cons:
  "equal_range lt k (e # m) = (if lt (fst e) k \<or> lt k (fst e) then [] else [snd e]) @ equal_range lt k m"
  by (simp add: equal_range_def)

lemma equal_range_insert:
  assumes "multi_sorted str_less m"
  shows "equal_range str_less j (multi_insert str_less k v m) = equal_range str_less j m @ (if j = k then [v] else [])"
  using assms
proof (induction m)
  case Nil
  then show ?case using str.total [of j k] by (auto simp: equal_range_def str.irrefl)
next
  case (Cons e m)
  have m: "multi_sorted str_less m" using Cons.prems by (simp add: multi_sorted_def)
  show ?case
  proof (cases "str_less k (fst e)")
    case True
    have "filter (\<lambda>d. \<not> str_less (fst d) k \<and> \<not> str_less k (fst d)) (e # m) = []"
    proof -
      have "str_less k (fst d)" if "d \<in> set (e # m)" for d
      proof -
        have "\<not> str_less (fst d) (fst e)" using that Cons.prems str.irrefl by (auto simp: multi_sorted_def)
        then show ?thesis using True str.total [of "fst d" "fst e"] str.lt_trans by metis
      qed
      then show ?thesis by (auto simp: filter_empty_conv)
    qed
    then show ?thesis using True str.total [of j k] by (auto simp: equal_range_def str.irrefl)
  next
    case False
    then show ?thesis using Cons.IH [OF m] by (simp add: equal_range_Cons)
  qed
qed

end
