(* ===== verification/EventLoop.thy ===== *)
theory EventLoop
  imports IOManager CString
begin

text \<open>
  The idle fiber of the I/O manager (\<open>IOManager::idle\<close> in \<open>src/fiber/iomannager.cc\<close>): where the
  scheduler, the timers and the descriptors meet. The state is the three parts of an \<open>IOManager\<close>
  object and the bytes in its wake-up pipe. A round of the loop is a function of the outcomes of
  \<open>epoll_wait\<close> and of the clock. Further the functions that print \<open>epoll\<close> constants, and the
  destructor.
\<close>

subsection \<open>Printing\<close>

definition EpollCtlOp_print :: "int \<Rightarrow> u8 list" where
  "EpollCtlOp_print op = (if op = 1 then bytes ''EPOLL_CTL_ADD'' else if op = 3 then bytes ''EPOLL_CTL_MOD''
     else if op = 2 then bytes ''EPOLL_CTL_DEL'' else decimal_int op)"

definition EPOLL_EVENTS_names :: "(u32 \<times> string) list" where
  "EPOLL_EVENTS_names =
     [(EPOLLIN, ''EPOLLIN''), (0x2, ''EPOLLPRI''), (EPOLLOUT, ''EPOLLOUT''), (0x40, ''EPOLLRDNORM''),
      (0x80, ''EPOLLRDBAND''), (0x100, ''EPOLLWRNORM''), (0x200, ''EPOLLWRBAND''), (0x400, ''EPOLLMSG''),
      (EPOLLERR, ''EPOLLERR''), (EPOLLHUP, ''EPOLLHUP''), (0x2000, ''EPOLLRDHUP''),
      (0x40000000, ''EPOLLONESHOT''), (EPOLLET, ''EPOLLET'')]"

fun print_flags :: "u32 \<Rightarrow> bool \<Rightarrow> (u32 \<times> string) list \<Rightarrow> u8 list" where
  "print_flags events isFirst [] = []"
| "print_flags events isFirst ((e, name) # es) =
     (if events AND e \<noteq> 0 then (if isFirst then [] else bytes ''|'') @ bytes name @ print_flags events False es
      else print_flags events isFirst es)"

definition EPOLL_EVENTS_print :: "u32 \<Rightarrow> u8 list" where
  "EPOLL_EVENTS_print events =
     (if events = 0 then bytes ''0'' else print_flags events True EPOLL_EVENTS_names)"

subsection \<open>The manager as a whole\<close>

record event_loop =
  el_sched :: scheduler
  el_timers :: timer_manager
  el_io :: io_manager
  el_pipe :: nat

text \<open>\<open>tickle\<close>, which \<open>onTimerInsertedAtFront\<close> also calls.\<close>

definition el_tickle :: "event_loop \<Rightarrow> event_loop" where
  "el_tickle st = st\<lparr>el_pipe := io_tickle (el_sched st) (el_pipe st)\<rparr>"

definition onTimerInsertedAtFront :: "event_loop \<Rightarrow> event_loop" where
  "onTimerInsertedAtFront st = el_tickle st"

text \<open>\<open>addTimer\<close> with the call of \<open>onTimerInsertedAtFront\<close> it makes.\<close>

definition el_addTimer :: "u64 \<Rightarrow> nat \<Rightarrow> u64 \<Rightarrow> callback option \<Rightarrow> bool \<Rightarrow> event_loop \<Rightarrow> event_loop" where
  "el_addTimer now a ms cb recurring st =
     (let tm = addTimer now a ms cb recurring (el_timers st);
          st1 = st\<lparr>el_timers := tm\<rparr>
      in if front_calls tm = front_calls (el_timers st) then st1 else onTimerInsertedAtFront st1)"

text \<open>\<open>Scheduler::schedule\<close>, whose \<open>tickle\<close> is the one of the I/O manager.\<close>

definition el_schedule :: "schedule_task \<Rightarrow> event_loop \<Rightarrow> event_loop" where
  "el_schedule t st =
     (let st1 = st\<lparr>el_sched := schedule t (el_sched st)\<rparr> in
      if m_tasks (el_sched st) = [] then el_tickle st1 else st1)"

text \<open>
  \<open>triggerEvent\<close> calls \<open>schedule\<close> on the scheduler that registered the event. The tasks for this one,
  \<open>self\<close>, enter its queue; those for others stay in \<open>io_tasks\<close>.
\<close>

definition el_deliver :: "nat \<Rightarrow> event_loop \<Rightarrow> event_loop" where
  "el_deliver self st =
     fold (\<lambda>(i, t). if i = self then el_schedule t else id) (io_tasks (el_io st))
       (st\<lparr>el_io := (el_io st)\<lparr>io_tasks := filter (\<lambda>(i, t). i \<noteq> self) (io_tasks (el_io st))\<rparr>\<rparr>)"

subsection \<open>Waiting\<close>

text \<open>
  An entry of the array that \<open>epoll_wait\<close> fills: the wake-up pipe, or flags for a context, with the
  result of the \<open>epoll_ctl\<close> that follows.
\<close>

datatype epoll_report = PipeReady | Ready u32 nat bool

datatype wait_outcome = Interrupted | WaitFailed | Events "epoll_report list"

text \<open>
  The inner loop: the timeouts passed to \<open>epoll_wait\<close>, and what it reports at last. \<open>None\<close>: no outcome
  is left, the call has not returned. \<open>nextTimeout\<close> is assigned the \<open>int\<close> that was passed, so a retry
  starts from that.
\<close>

fun wait_loop :: "u64 \<Rightarrow> wait_outcome list \<Rightarrow> int list \<times> epoll_report list option" where
  "wait_loop nextTimeout [] = ([wait_timeout nextTimeout], None)"
| "wait_loop nextTimeout (out # outs) =
     (let t = wait_timeout nextTimeout in case out of
        Interrupted \<Rightarrow> apfst (Cons t) (wait_loop (word_of_int t) outs)
      | WaitFailed \<Rightarrow> ([t], Some [])
      | Events rs \<Rightarrow> ([t], Some rs))"

subsection \<open>A round of the loop\<close>

text \<open>The callbacks of expired timers are scheduled; \<open>fn\<close> names the function object.\<close>

definition schedule_expired ::
  "u64 \<Rightarrow> nat \<Rightarrow> (callback option \<Rightarrow> nat option) \<Rightarrow> event_loop \<Rightarrow> event_loop result" where
  "schedule_expired now b fn st = bind_r (listExpiredCb now b (el_timers st)) (\<lambda>(cbs, tm).
     Inr (fold (\<lambda>cb. el_schedule (ScheduleTask_cb (fn cb) (- 1))) cbs (st\<lparr>el_timers := tm\<rparr>)))"

definition handle_report :: "nat \<Rightarrow> epoll_report \<Rightarrow> event_loop \<Rightarrow> event_loop result" where
  "handle_report self r st = (case r of
       PipeReady \<Rightarrow> Inr (st\<lparr>el_pipe := 0\<rparr>)
     | Ready ep p ok \<Rightarrow> bind_r (idle_event ok ep p (el_io st)) (\<lambda>io.
         Inr (el_deliver self (st\<lparr>el_io := io\<rparr>))))"

fun handle_reports :: "nat \<Rightarrow> epoll_report list \<Rightarrow> event_loop \<Rightarrow> event_loop result" where
  "handle_reports self [] st = Inr st"
| "handle_reports self (r # rs) st = bind_r (handle_report self r st) (handle_reports self rs)"

datatype idle_result = IdleExit | IdleBlocked | IdleYield

text \<open>
  One iteration of \<open>while (true)\<close>: it leaves the loop, is still in \<open>epoll_wait\<close>, or yields. \<open>now\<close> and
  \<open>now2\<close> are the clock before and after the wait, \<open>b\<close> the address of the temporary timer.
\<close>

definition idle_round ::
  "nat \<Rightarrow> u64 \<Rightarrow> wait_outcome list \<Rightarrow> u64 \<Rightarrow> nat \<Rightarrow> (callback option \<Rightarrow> nat option) \<Rightarrow> event_loop \<Rightarrow>
   (idle_result \<times> int list \<times> event_loop) result" where
  "idle_round self now outs now2 b fn st =
     bind_r (io_stopping_timeout now (el_sched st) (el_timers st) (el_io st)) (\<lambda>(stop, nextTimeout, tm).
       let st1 = st\<lparr>el_timers := tm\<rparr> in
       if stop then Inr (IdleExit, [], st1)
       else case wait_loop nextTimeout outs of
         (ts, None) \<Rightarrow> Inr (IdleBlocked, ts, st1)
       | (ts, Some rs) \<Rightarrow>
           bind_r (schedule_expired now2 b fn st1) (\<lambda>st2.
           bind_r (handle_reports self rs st2) (\<lambda>st3. Inr (IdleYield, ts, st3))))"

subsection \<open>The destructor\<close>

text \<open>
  \<open>~IOManager\<close> after \<open>stop\<close>: the descriptors it closes, and the contexts it frees in order.
\<close>

definition delete_IOManager :: "int \<Rightarrow> int \<Rightarrow> int \<Rightarrow> io_manager \<Rightarrow> int list \<times> nat list" where
  "delete_IOManager epfd rfd wfd io = ([epfd, rfd, wfd], m_fdContexts io)"

lemma table_distinct:
  assumes "io_inv io"
  shows "distinct (m_fdContexts io)"
  unfolding distinct_conv_nth
proof (intro allI impI)
  fix i j assume ij: "i < length (m_fdContexts io)" "j < length (m_fdContexts io)" "i \<noteq> j"
  show "m_fdContexts io ! i \<noteq> m_fdContexts io ! j"
    using io_inv_ctx(2) [OF assms ij(1) HOL.refl] io_inv_ctx(2) [OF assms ij(2) HOL.refl] ij(3) by auto
qed

text \<open>No context is freed twice; those that a shrinking \<open>contextResize\<close> dropped from the table are not freed at all.\<close>

lemma delete_frees_once:
  assumes "io_inv io"
  shows "distinct (snd (delete_IOManager epfd rfd wfd io))"
    and "set (snd (delete_IOManager epfd rfd wfd (contextResize sz io))) \<inter> set (drop sz (m_fdContexts io)) = {}"
proof -
  have d: "distinct (m_fdContexts io)" using assms by (rule table_distinct)
  then show "distinct (snd (delete_IOManager epfd rfd wfd io))" by (simp add: delete_IOManager_def)
  have "set (take sz (m_fdContexts io)) \<inter> set (drop sz (m_fdContexts io)) = {}"
    using d distinct_append [of "take sz (m_fdContexts io)" "drop sz (m_fdContexts io)"] by simp
  moreover have "set (drop sz (m_fdContexts io)) \<subseteq> {..<length (fd_contexts io)}"
    using io_inv_ctx(1) [OF assms _ HOL.refl] set_drop_subset [of sz "m_fdContexts io"]
    by (auto simp: in_set_conv_nth)
  ultimately show "set (snd (delete_IOManager epfd rfd wfd (contextResize sz io))) \<inter> set (drop sz (m_fdContexts io)) = {}"
    by (auto simp: delete_IOManager_def contextResize_def Let_def)
qed

subsection \<open>What scheduling does to the parts\<close>

lemma el_tickle_parts [simp]:
  "el_sched (el_tickle st) = el_sched st" "el_timers (el_tickle st) = el_timers st" "el_io (el_tickle st) = el_io st"
  by (simp_all add: el_tickle_def)

lemma el_schedule_parts [simp]:
  "el_sched (el_schedule t st) = schedule t (el_sched st)" "el_timers (el_schedule t st) = el_timers st"
  "el_io (el_schedule t st) = el_io st"
  by (simp_all add: el_schedule_def Let_def)

definition some_task :: "schedule_task \<Rightarrow> bool" where
  "some_task t \<longleftrightarrow> task_fiber t \<noteq> None \<or> task_cb t \<noteq> None"

lemma fold_schedule:
  "el_timers (fold el_schedule ts st) = el_timers st" "el_io (fold el_schedule ts st) = el_io st"
  "el_sched (fold el_schedule ts st) = fold schedule ts (el_sched st)"
  by (induction ts arbitrary: st) simp_all

lemma schedule_tasks: "m_tasks (schedule t s) = m_tasks s @ filter some_task [t]"
  by (simp add: schedule_def scheduleNoLock_def some_task_def tickle_def)

lemma fold_schedule_tasks: "m_tasks (fold schedule ts s) = m_tasks s @ filter some_task ts"
  by (induction ts arbitrary: s) (simp_all add: schedule_tasks)

lemma fold_schedule_if:
  "fold (\<lambda>(i, t). if i = self then el_schedule t else id) its st
    = fold el_schedule (map snd (filter (\<lambda>(i, t). i = self) its)) st"
  by (induction its arbitrary: st) auto

text \<open>The tasks for this scheduler among those a trigger queued.\<close>

definition mine :: "nat \<Rightarrow> (nat \<times> schedule_task) list \<Rightarrow> schedule_task list" where
  "mine self its = map snd (filter (\<lambda>(i, t). i = self) its)"

lemma mine_append [simp]: "mine self (xs @ ys) = mine self xs @ mine self ys" "mine self [] = []"
  by (simp_all add: mine_def)

lemma el_deliver_parts:
  "el_timers (el_deliver self st) = el_timers st"
  "el_sched (el_deliver self st) = fold schedule (mine self (io_tasks (el_io st))) (el_sched st)"
  "el_io (el_deliver self st) = (el_io st)\<lparr>io_tasks := filter (\<lambda>(i, t). i \<noteq> self) (io_tasks (el_io st))\<rparr>"
  by (simp_all add: el_deliver_def fold_schedule_if fold_schedule mine_def)

lemma io_inv_tasks [simp]: "io_inv (io\<lparr>io_tasks := ts\<rparr>) = io_inv io"
  by (simp add: io_inv_def)

subsection \<open>Reports\<close>

text \<open>
  A report is \<open>fresh\<close> for the table if it names one of its contexts and, where anything of it is still
  registered, all of it is.
\<close>

definition report_flags :: "io_manager \<Rightarrow> u32 \<Rightarrow> nat \<Rightarrow> event" where
  "report_flags io ep p = real_events ep (fc_events (fd_contexts io ! p))"

fun fresh :: "io_manager \<Rightarrow> epoll_report \<Rightarrow> bool" where
  "fresh io PipeReady = True"
| "fresh io (Ready ep p ok) \<longleftrightarrow> p \<in> set (m_fdContexts io)
     \<and> (fc_events (fd_contexts io ! p) AND report_flags io ep p = 0
        \<or> (\<forall>ev\<in>{READ, WRITE}. report_flags io ep p AND ev \<noteq> 0 \<longrightarrow> fc_events (fd_contexts io ! p) AND ev \<noteq> 0))"

fun wakes :: "io_manager \<Rightarrow> epoll_report \<Rightarrow> (nat \<times> schedule_task) list" where
  "wakes io PipeReady = []"
| "wakes io (Ready ep p ok) = (if ok \<and> fc_events (fd_contexts io ! p) AND report_flags io ep p \<noteq> 0
     then woken (report_flags io ep p) (fd_contexts io ! p) else [])"

fun report_ctx :: "epoll_report \<Rightarrow> nat option" where
  "report_ctx PipeReady = None"
| "report_ctx (Ready ep p ok) = Some p"

text \<open>\<open>epoll_wait\<close> reports every descriptor at most once.\<close>

definition each_once :: "epoll_report list \<Rightarrow> bool" where
  "each_once rs \<longleftrightarrow> distinct (filter (\<lambda>p. p \<noteq> None) (map report_ctx rs))"

lemma fresh_cong:
  assumes "m_fdContexts io' = m_fdContexts io" "\<And>p. report_ctx r = Some p \<Longrightarrow> fd_contexts io' ! p = fd_contexts io ! p"
  shows "fresh io' r = fresh io r" "wakes io' r = wakes io r"
  using assms by (cases r; simp add: report_flags_def)+

lemma woken_tasks:
  assumes "ctx_ok c" "\<And>ev. ev \<in> {READ, WRITE} \<Longrightarrow> flags AND ev \<noteq> 0 \<Longrightarrow> fc_events c AND ev \<noteq> 0"
  shows "filter some_task (mine self (woken flags c)) = mine self (woken flags c)"
proof -
  have "some_task (task_of x)" if "waiting x" for x
    using that by (auto simp: waiting_def task_of_def some_task_def ScheduleTask_cb_def ScheduleTask_fiber_def)
  then have w: "some_task (snd (wake ev c))" if "ev \<in> {READ, WRITE}" "flags AND ev \<noteq> 0" for ev
    using waiting_waiter [OF assms(1) that(1) assms(2) [OF that]] by (simp add: wake_def)
  have "set (mine self (woken flags c)) \<subseteq> snd ` set (woken flags c)" by (auto simp: mine_def)
  also have "\<dots> \<subseteq> {snd (wake ev c) | ev. ev \<in> {READ, WRITE} \<and> flags AND ev \<noteq> 0}"
    by (simp add: woken_def) blast
  finally show ?thesis using w by (intro filter_True) blast
qed

lemma mine_kept [simp]: "mine self (filter (\<lambda>(i, t). i \<noteq> self) its) = []"
  by (auto simp: mine_def filter_empty_conv)

lemma handle_report_correct:
  assumes inv: "io_inv (el_io st)" and mt: "mine self (io_tasks (el_io st)) = []" and fr: "fresh (el_io st) r"
  obtains st' where "handle_report self r st = Inr st'" and "io_inv (el_io st')" and "mine self (io_tasks (el_io st')) = []"
    and "el_timers st' = el_timers st" and "m_fdContexts (el_io st') = m_fdContexts (el_io st)"
    and "\<And>p. report_ctx r \<noteq> Some p \<Longrightarrow> fd_contexts (el_io st') ! p = fd_contexts (el_io st) ! p"
    and "m_tasks (el_sched st') = m_tasks (el_sched st) @ mine self (wakes (el_io st) r)"
proof (cases r)
  case PipeReady
  then show thesis using inv mt by (intro that [of "st\<lparr>el_pipe := 0\<rparr>"]) (auto simp: handle_report_def)
next
  case (Ready ep p ok)
  let ?io = "el_io st" and ?c = "fd_contexts (el_io st) ! p" and ?fl = "report_flags (el_io st) ep p"
  obtain fd where fd: "fd < length (m_fdContexts ?io)" "p = m_fdContexts ?io ! fd"
    using fr Ready by (auto simp: in_set_conv_nth)
  note ctx = io_inv_ctx [OF inv fd]
  show thesis
  proof (cases "ok \<and> fc_events ?c AND ?fl \<noteq> 0")
    case False
    then have "idle_event ok ep p ?io = Inr ?io"
      using idle_event_real [OF ctx(5), of ok ep] by (auto simp: report_flags_def)
    then show thesis
      using Ready False inv mt
      by (intro that [of "el_deliver self st"]) (auto simp: handle_report_def el_deliver_parts)
  next
    case True
    then have sub: "fc_events ?c AND ev \<noteq> 0" if "ev \<in> {READ, WRITE}" "?fl AND ev \<noteq> 0" for ev
      using fr Ready that by auto
    have fe: "?fl = real_events ep (fc_events ?c)" and some: "fc_events ?c AND ?fl \<noteq> 0"
      using True by (simp_all add: report_flags_def)
    from idle_event_correct [OF inv fd HOL.refl fe some sub]
    obtain io' where io': "idle_event True ep p ?io = Inr io'" "io_inv io'"
      "io_tasks io' = io_tasks ?io @ woken ?fl ?c" "fd_contexts io' = (fd_contexts ?io)[p := after ?fl ?c]"
      "m_fdContexts io' = m_fdContexts ?io" by blast
    let ?st = "el_deliver self (st\<lparr>el_io := io'\<rparr>)"
    have w: "wakes ?io r = woken ?fl ?c" using Ready True by simp
    show thesis
    proof (rule that)
      show "handle_report self r st = Inr ?st" using Ready True io'(1) by (simp add: handle_report_def)
      show "m_tasks (el_sched ?st) = m_tasks (el_sched st) @ mine self (wakes ?io r)"
        using woken_tasks [OF ctx(3) sub, of ?fl self] mt
        by (simp add: el_deliver_parts fold_schedule_tasks w io'(3))
    qed (use Ready io' in \<open>simp_all add: el_deliver_parts\<close>)
  qed
qed

lemma handle_reports_correct:
  assumes "io_inv (el_io st)" and "mine self (io_tasks (el_io st)) = []"
    and "\<forall>r\<in>set rs. fresh (el_io st) r" and "each_once rs"
  shows "\<exists>st'. handle_reports self rs st = Inr st' \<and> io_inv (el_io st') \<and> mine self (io_tasks (el_io st')) = []
    \<and> el_timers st' = el_timers st
    \<and> m_tasks (el_sched st') = m_tasks (el_sched st) @ mine self (concat (map (wakes (el_io st)) rs))"
  using assms
proof (induction rs arbitrary: st)
  case Nil
  then show ?case by simp
next
  case (Cons r rs)
  then have f: "fresh (el_io st) r" by simp
  from handle_report_correct [OF Cons.prems(1,2) f] obtain st1 where st1:
    "handle_report self r st = Inr st1" "io_inv (el_io st1)" "mine self (io_tasks (el_io st1)) = []"
    "el_timers st1 = el_timers st" "m_fdContexts (el_io st1) = m_fdContexts (el_io st)"
    "\<And>p. report_ctx r \<noteq> Some p \<Longrightarrow> fd_contexts (el_io st1) ! p = fd_contexts (el_io st) ! p"
    "m_tasks (el_sched st1) = m_tasks (el_sched st) @ mine self (wakes (el_io st) r)" by metis
  have other: "report_ctx r \<noteq> Some p" if "q \<in> set rs" "report_ctx q = Some p" for p q
    using Cons.prems(4) that by (force simp: each_once_def)
  have same: "fresh (el_io st1) q = fresh (el_io st) q" "wakes (el_io st1) q = wakes (el_io st) q"
    if "q \<in> set rs" for q
    using fresh_cong [OF st1(5), of q] st1(6) other [OF that] by blast+
  have m: "map (wakes (el_io st1)) rs = map (wakes (el_io st)) rs" using same(2) by simp
  have "\<forall>q\<in>set rs. fresh (el_io st1) q" "each_once rs"
    using Cons.prems(3,4) same(1) by (auto simp: each_once_def split: if_splits)
  from Cons.IH [OF st1(2,3) this] show ?case using st1(1,4,7) m by auto
qed

subsection \<open>Waiting\<close>

text \<open>However often the wait is interrupted, each call is given the same time, at most five seconds.\<close>

lemma wait_timeout_small: "unat t < 2 ^ 31 \<Longrightarrow> wait_timeout t = int (min (unat t) 5000)"
  using wait_timeout_bounds [of t] by blast

lemma wait_loop_timeouts:
  assumes "unat t < 2 ^ 31 \<or> t = - 1"
  shows "set (fst (wait_loop t outs)) = {wait_timeout t} \<and> 0 \<le> wait_timeout t \<and> wait_timeout t \<le> 5000"
proof -
  have small: "\<exists>n. wait_timeout t = int n \<and> n \<le> 5000" if "unat t < 2 ^ 31 \<or> t = - 1" for t
    using that wait_timeout_small [of t] by (auto simp: wait_timeout_def)
  have idem: "wait_timeout (word_of_int (wait_timeout t)) = wait_timeout t"
    and next_small: "unat (word_of_int (wait_timeout t) :: u64) < 2 ^ 31" if t: "unat t < 2 ^ 31 \<or> t = - 1" for t
  proof -
    obtain n where n: "wait_timeout t = int n" "n \<le> 5000" using small [OF t] by blast
    then have u: "unat (word_of_int (wait_timeout t) :: u64) = n" by (simp add: unat_of_nat)
    then show "unat (word_of_int (wait_timeout t) :: u64) < 2 ^ 31" using n by simp
    then show "wait_timeout (word_of_int (wait_timeout t)) = wait_timeout t"
      using wait_timeout_small u n by simp
  qed
  have "set (fst (wait_loop t outs)) = {wait_timeout t}" using assms
  proof (induction t outs rule: wait_loop.induct)
    case (2 t out outs)
    then show ?case using idem [of t] next_small [of t] by (cases out) (auto simp: Let_def)
  qed simp
  with small [OF assms] show ?thesis by auto
qed

subsection \<open>Properties\<close>

text \<open>The callbacks of the timers that are due, as tasks.\<close>

definition due_tasks :: "(callback option \<Rightarrow> nat option) \<Rightarrow> u64 \<Rightarrow> timer_manager \<Rightarrow> schedule_task list" where
  "due_tasks fn now tm = filter some_task
     (map (\<lambda>a. ScheduleTask_cb (fn (m_cb (the (tm_heap tm a)))) (- 1)) (due now tm))"

lemma schedule_expired_correct:
  assumes "tm_inv (el_timers st)" and "tm_heap (el_timers st) b = None"
  obtains st' where "schedule_expired now b fn st = Inr st'" and "tm_inv (el_timers st')" and "el_io st' = el_io st"
    and "m_tasks (el_sched st') = m_tasks (el_sched st) @ due_tasks fn now (el_timers st)"
proof -
  from listExpiredCb_correct [OF assms, of now] obtain tm where tm:
    "listExpiredCb now b (el_timers st) = Inr (map (\<lambda>a. m_cb (the (tm_heap (el_timers st) a))) (due now (el_timers st)), tm)"
    "tm_inv tm" by metis
  let ?ts = "map (\<lambda>a. ScheduleTask_cb (fn (m_cb (the (tm_heap (el_timers st) a)))) (- 1)) (due now (el_timers st))"
  have f: "fold (\<lambda>cb. el_schedule (ScheduleTask_cb (fn cb) (- 1))) cbs s
      = fold el_schedule (map (\<lambda>cb. ScheduleTask_cb (fn cb) (- 1)) cbs) s" for cbs s
    by (induction cbs arbitrary: s) simp_all
  have "schedule_expired now b fn st = Inr (fold el_schedule ?ts (st\<lparr>el_timers := tm\<rparr>))"
    by (simp add: schedule_expired_def tm(1) f comp_def)
  then show thesis
    by (rule that) (use tm(2) in \<open>simp_all add: fold_schedule fold_schedule_tasks due_tasks_def\<close>)
qed

lemma due_tickled [simp]: "due_tasks fn now (tm\<lparr>m_tickled := v\<rparr>) = due_tasks fn now tm"
  by (simp add: due_tasks_def due_def rolled_over_def detectClockRollover_def)

lemma wait_loop_reports:
  "snd (wait_loop t outs) = snd (wait_loop t' outs)"
  "snd (wait_loop t outs) = Some rs \<Longrightarrow> rs = [] \<or> Events rs \<in> set outs"
proof -
  show "snd (wait_loop t outs) = snd (wait_loop t' outs)"
  proof (induction outs arbitrary: t t')
    case (Cons out outs)
    then show ?case by (cases out) (auto simp: Let_def)
  qed simp
  show "rs = [] \<or> Events rs \<in> set outs" if "snd (wait_loop t outs) = Some rs"
    using that by (induction t outs rule: wait_loop.induct) (auto simp: Let_def split: wait_outcome.splits)
qed

text \<open>The time to the earliest timer, when none is too far away.\<close>

definition timers_near :: "u64 \<Rightarrow> timer_manager \<Rightarrow> bool" where
  "timers_near now tm \<longleftrightarrow> (\<forall>a \<in> set (m_timers tm). now < next_at (tm_heap tm) a \<longrightarrow>
     unat (next_at (tm_heap tm) a - now) < 2 ^ 31)"

lemma stopping_timeout:
  assumes inv: "tm_inv tm" and near: "timers_near now tm"
  obtains w where "io_stopping_timeout now s tm io
      = Inr (m_timers tm = [] \<and> m_pendingEventCount io = 0 \<and> stopping s, w, tm\<lparr>m_tickled := False\<rparr>)"
    and "unat w < 2 ^ 31 \<or> w = - 1"
    and "\<And>a. a \<in> set (m_timers tm) \<Longrightarrow> now < next_at (tm_heap tm) a \<Longrightarrow>
      wait_timeout w \<le> uint (next_at (tm_heap tm) a - now)"
proof (cases "m_timers tm = []")
  case True
  then show thesis
    by (intro that [of "- 1"]) (simp_all add: io_stopping_timeout_def getNextTimer_correct [OF inv])
next
  case False
  define d where "d = next_at (tm_heap tm) (hd (m_timers tm))"
  define w where "w = (if d \<le> now then 0 else d - now)"
  have hd: "hd (m_timers tm) \<in> set (m_timers tm)" using False by simp
  have small: "unat w < 2 ^ 31" using near hd by (auto simp: timers_near_def w_def d_def not_le)
  then have "w \<noteq> - 1" by (auto simp: unsigned_minus_1_eq_mask mask_eq_exp_minus_1)
  then have run: "io_stopping_timeout now s tm io
      = Inr (m_timers tm = [] \<and> m_pendingEventCount io = 0 \<and> stopping s, w, tm\<lparr>m_tickled := False\<rparr>)"
    using False by (simp add: io_stopping_timeout_def getNextTimer_correct [OF inv] w_def d_def [symmetric] Let_def)
  show thesis
  proof (rule that [OF run])
    fix a assume a: "a \<in> set (m_timers tm)" "now < next_at (tm_heap tm) a"
    have "d \<le> next_at (tm_heap tm) a" using hd_earliest [OF inv a(1)] by (simp add: d_def)
    then have "unat w \<le> unat (next_at (tm_heap tm) a - now)"
      using a(2) by (auto simp: w_def unat_sub word_le_nat_alt word_less_nat_alt not_le)
    then show "wait_timeout w \<le> uint (next_at (tm_heap tm) a - now)"
      using wait_timeout_small [OF small] by (simp add: of_nat_min min.coboundedI1 word_le_nat_alt [symmetric] word_le_def)
  qed (use small in simp)
qed

text \<open>
  C22: A round of the idle fiber. On a consistent manager the loop is left exactly when there is no timer,
  no pending event, and the scheduler is stopping and drained. Otherwise every \<open>epoll_wait\<close> is given at
  most the time to the earliest timer and at most five seconds, and when it returns, the queue has grown
  first by the callbacks of the timers that are due by then and then by the waiters of the reported
  events, each exactly once and in the order of the report; timers and contexts are consistent again.
  (Reports that mix a registered with a removed event are excluded, and the next timer is at
  most \<open>2 ^ 31\<close> milliseconds away.)
\<close>

theorem idle_round_effect:
  assumes "tm_inv (el_timers st)" and "io_inv (el_io st)" and "mine self (io_tasks (el_io st)) = []"
    and "tm_heap (el_timers st) b = None"
    and "timers_near now (el_timers st)"
    and "\<forall>out \<in> set outs. \<forall>rs. out = Events rs \<longrightarrow> each_once rs \<and> (\<forall>r\<in>set rs. fresh (el_io st) r)"
  shows "\<exists>res ts st'. idle_round self now outs now2 b fn st = Inr (res, ts, st')
    \<and> tm_inv (el_timers st') \<and> io_inv (el_io st')
    \<and> (res = IdleExit \<longleftrightarrow> m_timers (el_timers st) = [] \<and> m_pendingEventCount (el_io st) = 0 \<and> stopping (el_sched st))
    \<and> (res = IdleBlocked \<longleftrightarrow> res \<noteq> IdleExit \<and> snd (wait_loop (- 1) outs) = None)
    \<and> (\<forall>t\<in>set ts. 0 \<le> t \<and> t \<le> 5000 \<and> (\<forall>a\<in>set (m_timers (el_timers st)).
         now < next_at (tm_heap (el_timers st)) a \<longrightarrow> t \<le> uint (next_at (tm_heap (el_timers st)) a - now)))
    \<and> (if res = IdleYield then \<exists>rs. snd (wait_loop (- 1) outs) = Some rs
           \<and> m_tasks (el_sched st') = m_tasks (el_sched st) @ due_tasks fn now2 (el_timers st)
               @ mine self (concat (map (wakes (el_io st)) rs))
       else el_sched st' = el_sched st \<and> el_io st' = el_io st)"
    (is "\<exists>res ts st'. _ = Inr (res, ts, st') \<and> ?P res ts st'")
proof -
  obtain w where w: "io_stopping_timeout now (el_sched st) (el_timers st) (el_io st)
      = Inr (m_timers (el_timers st) = [] \<and> m_pendingEventCount (el_io st) = 0 \<and> stopping (el_sched st), w,
          (el_timers st)\<lparr>m_tickled := False\<rparr>)" "unat w < 2 ^ 31 \<or> w = - 1"
    "\<And>a. a \<in> set (m_timers (el_timers st)) \<Longrightarrow> now < next_at (tm_heap (el_timers st)) a \<Longrightarrow>
       wait_timeout w \<le> uint (next_at (tm_heap (el_timers st)) a - now)"
    using stopping_timeout [OF assms(1,5), of "el_sched st" "el_io st"] by metis
  let ?st1 = "st\<lparr>el_timers := (el_timers st)\<lparr>m_tickled := False\<rparr>\<rparr>"
  have inv1: "tm_inv (el_timers ?st1)" using assms(1) by (subst tm_inv_cong) simp_all
  have ts: "\<forall>t\<in>set (fst (wait_loop w outs)). 0 \<le> t \<and> t \<le> 5000 \<and> (\<forall>a\<in>set (m_timers (el_timers st)).
      now < next_at (tm_heap (el_timers st)) a \<longrightarrow> t \<le> uint (next_at (tm_heap (el_timers st)) a - now))"
    using wait_loop_timeouts [OF w(2), of outs] w(3) by auto
  consider (stop) "m_timers (el_timers st) = [] \<and> m_pendingEventCount (el_io st) = 0 \<and> stopping (el_sched st)"
    | (blocked) ts where "\<not> (m_timers (el_timers st) = [] \<and> m_pendingEventCount (el_io st) = 0 \<and> stopping (el_sched st))"
        "wait_loop w outs = (ts, None)"
    | (yield) ts rs where "\<not> (m_timers (el_timers st) = [] \<and> m_pendingEventCount (el_io st) = 0 \<and> stopping (el_sched st))"
        "wait_loop w outs = (ts, Some rs)"
    by (metis not_Some_eq surj_pair)
  then show ?thesis
  proof cases
    case (yield ts rs)
    have b: "tm_heap (el_timers ?st1) b = None" using assms(4) by simp
    obtain st2 where st2: "schedule_expired now2 b fn ?st1 = Inr st2" "tm_inv (el_timers st2)" "el_io st2 = el_io st"
      "m_tasks (el_sched st2) = m_tasks (el_sched st) @ due_tasks fn now2 (el_timers st)"
      using schedule_expired_correct [OF inv1 b, of now2 fn] by auto
    have "snd (wait_loop w outs) = Some rs" using yield by simp
    then have rs: "snd (wait_loop (- 1) outs) = Some rs" "\<forall>r\<in>set rs. fresh (el_io st2) r" "each_once rs"
      using wait_loop_reports(1) [of w outs "- 1"] wait_loop_reports(2) [of w outs rs] assms(6) st2(3)
      by (auto simp: each_once_def)
    obtain st3 where "handle_reports self rs st2 = Inr st3" "io_inv (el_io st3)" "el_timers st3 = el_timers st2"
      "m_tasks (el_sched st3) = m_tasks (el_sched st2) @ mine self (concat (map (wakes (el_io st)) rs))"
      using handle_reports_correct [of st2 self rs] assms(2,3) rs(2,3) st2(3) by auto
    with yield st2 rs(1) ts w(1)
    have "idle_round self now outs now2 b fn st = Inr (IdleYield, ts, st3)" "?P IdleYield ts st3"
      by (auto simp: idle_round_def Let_def)
    then show ?thesis by blast
  next
    case stop
    then have "idle_round self now outs now2 b fn st = Inr (IdleExit, [], ?st1)" "?P IdleExit [] ?st1"
      using w(1) inv1 assms(2) by (auto simp: idle_round_def Let_def)
    then show ?thesis by blast
  next
    case (blocked ts)
    then have "idle_round self now outs now2 b fn st = Inr (IdleBlocked, ts, ?st1)" "?P IdleBlocked ts ?st1"
      using w(1) inv1 assms(2) ts wait_loop_reports(1) [of w outs "- 1"] by (auto simp: idle_round_def Let_def)
    then show ?thesis by blast
  qed
qed

definition sample_loop :: event_loop where
  "sample_loop = \<lparr>el_sched = sample_scheduler,
     el_timers = addTimer 5 0 10 (Some (Function 3)) False (new_TimerManager 5), el_io = sample_io, el_pipe = 0\<rparr>"

theorem idle_round_effect_witness:
  "\<exists>ts st'. idle_round 1 6 [Interrupted, Events [Ready EPOLLIN 0 True]] 20 9 (\<lambda>cb. Some 4) sample_loop = Inr (IdleYield, ts, st')
     \<and> m_tasks (el_sched st') = m_tasks sample_scheduler
         @ [ScheduleTask_cb (Some 4) (- 1), ScheduleTask_fiber (Some 7) (- 1)]"
proof -
  let ?outs = "[Interrupted, Events [Ready EPOLLIN 0 True]]" and ?tm = "el_timers sample_loop"
  have tinv: "tm_inv ?tm" by (simp add: sample_loop_def tm_inv_addTimer tm_inv_new)
  have tm: "tm_heap ?tm 9 = None" "m_timers ?tm = [0]" "next_at (tm_heap ?tm) 0 = 15"
    by (simp_all add: sample_loop_def addTimer_def new_Timer_def next_at_def set_insert_def lower_bound_def)
  have near: "timers_near 6 ?tm" using tm(2,3) by (simp add: timers_near_def)
  have io: "el_io sample_loop = sample_io" "el_sched sample_loop = sample_scheduler" by (simp_all add: sample_loop_def)
  have due: "due_tasks (\<lambda>cb. Some 4) 20 ?tm = [ScheduleTask_cb (Some 4) (- 1)]"
    using tm(2,3) by (simp add: due_tasks_def due_def sample_loop_def rolled_over_def detectClockRollover_def some_task_def
      ScheduleTask_cb_def addTimer_def new_TimerManager_def)
  have fl: "report_flags sample_io EPOLLIN 0 = 1"
    by (simp add: report_flags_def real_events_def EPOLLIN_def EPOLLOUT_def EPOLLERR_def EPOLLHUP_def event_defs Let_def)
  have c: "fc_events (fd_contexts sample_io ! 0) = 1" "0 \<in> set (m_fdContexts sample_io)"
    by (simp_all add: sample_io_def event_defs)
  have fresh: "fresh sample_io (Ready EPOLLIN 0 True)" using fl c by (simp add: event_defs)
  have wk: "mine 1 (wakes sample_io (Ready EPOLLIN 0 True)) = [ScheduleTask_fiber (Some 7) (- 1)]"
    using fl c by (simp add: mine_def woken_def wake_def waiter_def task_of_def sample_io_def event_defs)
  have n: "mine 1 (io_tasks sample_io) = []" by (simp add: sample_io_def)
  have outs: "\<forall>out\<in>set ?outs. \<forall>rs. out = Events rs \<longrightarrow> each_once rs \<and> (\<forall>r\<in>set rs. fresh (el_io sample_loop) r)"
    using fresh io by (simp add: each_once_def)
  have io2: "io_inv (el_io sample_loop)" "mine 1 (io_tasks (el_io sample_loop)) = []" using io io_inv_sample n by simp_all
  from idle_round_effect [OF tinv io2 tm(1) near outs, of 20 "\<lambda>cb. Some 4"]
  obtain res ts st' where run: "idle_round 1 6 ?outs 20 9 (\<lambda>cb. Some 4) sample_loop = Inr (res, ts, st')"
    and ex: "res = IdleExit \<longleftrightarrow> m_timers ?tm = [] \<and> m_pendingEventCount (el_io sample_loop) = 0 \<and> stopping (el_sched sample_loop)"
    and bl: "res = IdleBlocked \<longleftrightarrow> res \<noteq> IdleExit \<and> snd (wait_loop (- 1) ?outs) = None"
    and q: "if res = IdleYield then \<exists>rs. snd (wait_loop (- 1) ?outs) = Some rs \<and> m_tasks (el_sched st') = m_tasks (el_sched sample_loop)
       @ due_tasks (\<lambda>cb. Some 4) 20 ?tm @ mine 1 (concat (map (wakes (el_io sample_loop)) rs))
       else el_sched st' = el_sched sample_loop \<and> el_io st' = el_io sample_loop" by blast
  have "snd (wait_loop (- 1) ?outs) = Some [Ready EPOLLIN 0 True]" by (simp add: Let_def)
  then show ?thesis using run ex bl q io due wk tm(2) by (cases res) auto
qed

end
