(* ===== verification/Hook.thy ===== *)
theory Hook
  imports IOManager "HOL-Library.Signed_Division"
begin

text \<open>
  The descriptor table (\<open>src/hook/FdManager.cc\<close>) and the hooked system calls (\<open>src/hook/hook.cc\<close>). The
  original system calls are the environment: what a call returns, and the \<open>errno\<close> it leaves, are
  taken from a script of outcomes, so that a run of a hooked call is a function of the script. The
  effects of a call on the I/O manager and the scheduler are the list of \<open>hook_action\<close>s it performs,
  in order.
\<close>

definition EINTR :: int where "EINTR = 4"
definition EBADF :: int where "EBADF = 9"
definition EAGAIN :: int where "EAGAIN = 11"
definition ETIMEDOUT :: int where "ETIMEDOUT = 110"
definition EINPROGRESS :: int where "EINPROGRESS = 115"
definition O_NONBLOCK :: u32 where "O_NONBLOCK = 0x800"

lemma bit_0x800: "bit (0x800 :: int) n \<longleftrightarrow> n = 11"
proof -
  have "(0x800 :: int) = 2 ^ 11" by simp
  then show ?thesis by (simp only: bit_exp_iff) auto
qed

lemma O_NONBLOCK_bits:
  "(x OR O_NONBLOCK) AND O_NONBLOCK = O_NONBLOCK" "(x AND NOT O_NONBLOCK) AND O_NONBLOCK = 0"
  by (auto simp: bit_eq_iff bit_simps)

lemma O_NONBLOCK_single: "x AND O_NONBLOCK = 0 \<or> x AND O_NONBLOCK = O_NONBLOCK"
proof -
  have b: "bit O_NONBLOCK n \<longleftrightarrow> n = 11" for n
    by (simp add: O_NONBLOCK_def bit_simps bit_0x800) auto
  show ?thesis
  proof (cases "bit x 11")
    case True
    then have "x AND O_NONBLOCK = O_NONBLOCK" by (intro bit_word_eqI) (auto simp: bit_and_iff b)
    then show ?thesis ..
  next
    case False
    then have "x AND O_NONBLOCK = 0" by (intro bit_word_eqI) (auto simp: bit_and_iff b)
    then show ?thesis ..
  qed
qed

subsection \<open>\<open>FdCtx\<close> and \<open>FdManager\<close>\<close>

record fd_ctx =
  m_isInit :: bool
  m_isSocket :: bool
  m_sysNonblock :: bool
  m_userNonblock :: bool
  m_isClosed :: bool
  m_fd :: nat
  m_recvTimeout :: u64
  m_sendTimeout :: u64

text \<open>\<open>FdCtx::init\<close>: \<open>st\<close> is what \<open>fstat\<close> says (\<open>None\<close> on failure, else whether it is a socket) and
  \<open>flags\<close> the current file flags; the second result is the flags the kernel is left with.\<close>

definition init_FdCtx :: "bool option \<Rightarrow> u32 \<Rightarrow> fd_ctx \<Rightarrow> bool \<times> fd_ctx \<times> u32" where
  "init_FdCtx st flags c =
     (if m_isInit c then (True, c, flags)
      else let sock = (case st of None \<Rightarrow> False | Some b \<Rightarrow> b);
               c1 = c\<lparr>m_recvTimeout := - 1, m_sendTimeout := - 1,
                      m_isInit := (st \<noteq> None), m_isSocket := sock, m_sysNonblock := sock,
                      m_userNonblock := False, m_isClosed := False\<rparr>
           in (m_isInit c1, c1, if sock \<and> flags AND O_NONBLOCK = 0 then flags OR O_NONBLOCK else flags))"

definition new_FdCtx :: "bool option \<Rightarrow> u32 \<Rightarrow> nat \<Rightarrow> fd_ctx \<times> u32" where
  "new_FdCtx st flags fd =
     snd (init_FdCtx st flags \<lparr>m_isInit = False, m_isSocket = False, m_sysNonblock = False,
       m_userNonblock = False, m_isClosed = False, m_fd = fd, m_recvTimeout = - 1, m_sendTimeout = - 1\<rparr>)"

datatype timeout_opt = SO_RCVTIMEO | SO_SNDTIMEO

definition setTimeout :: "timeout_opt \<Rightarrow> u64 \<Rightarrow> fd_ctx \<Rightarrow> fd_ctx" where
  "setTimeout ty v c = (if ty = SO_RCVTIMEO then c\<lparr>m_recvTimeout := v\<rparr> else c\<lparr>m_sendTimeout := v\<rparr>)"

definition getTimeout :: "timeout_opt \<Rightarrow> fd_ctx \<Rightarrow> u64" where
  "getTimeout ty c = (if ty = SO_RCVTIMEO then m_recvTimeout c else m_sendTimeout c)"

type_synonym fd_manager = "fd_ctx option list"

definition new_FdManager :: fd_manager where
  "new_FdManager = replicate 64 None"

text \<open>\<open>resize(n)\<close> on a vector of pointers.\<close>

definition resize :: "nat \<Rightarrow> fd_manager \<Rightarrow> fd_manager" where
  "resize n m = take n m @ replicate (n - length m) None"

text \<open>\<open>get\<close>: \<open>created\<close> is the context a \<open>new FdCtx(fd)\<close> gives. A descriptor \<open>-1\<close> is \<open>None\<close>.\<close>

definition get_fd :: "fd_ctx \<Rightarrow> nat option \<Rightarrow> bool \<Rightarrow> fd_manager \<Rightarrow> (fd_ctx option \<times> fd_manager) result" where
  "get_fd created fd autoCreate m = (case fd of None \<Rightarrow> Inr (None, m)
     | Some i \<Rightarrow>
       if length m \<le> i \<and> \<not> autoCreate then Inr (None, m)
       else if i < length m \<and> (m ! i \<noteq> None \<or> \<not> autoCreate) then Inr (m ! i, m)
       else let m1 = (if length m \<le> i then resize (i * 3 div 2) m else m) in
         if i < length m1 then Inr (Some created, m1[i := Some created]) else Inl OutOfRange)"

definition del_fd :: "nat \<Rightarrow> fd_manager \<Rightarrow> fd_manager" where
  "del_fd fd m = (if length m \<le> fd then m else m[fd := None])"

lemma get_fd_created:
  assumes "2 \<le> length m" and "length m \<le> i \<or> m ! i = None"
  obtains m' where "get_fd c (Some i) True m = Inr (Some c, m')" and "i < length m'" and "m' ! i = Some c"
    and "\<And>j. j < length m \<Longrightarrow> j \<noteq> i \<Longrightarrow> m' ! j = m ! j" and "length m \<le> length m'"
proof -
  let ?m1 = "if length m \<le> i then resize (i * 3 div 2) m else m"
  have len: "i < length ?m1 \<and> length m \<le> length ?m1"
    using assms(1) by (auto simp: resize_def)
  have same: "?m1 ! j = m ! j" if "j < length m" for j
    using that by (auto simp: resize_def nth_append)
  have "get_fd c (Some i) True m = Inr (Some c, ?m1[i := Some c])"
    using len assms(2) by (auto simp: get_fd_def Let_def)
  then show thesis by (rule that) (use len same in auto)
qed

lemma get_fd_found:
  "i < length m \<Longrightarrow> m ! i = Some c \<Longrightarrow> get_fd d (Some i) auto m = Inr (Some c, m)"
  by (simp add: get_fd_def)

subsection \<open>\<open>do_io\<close>\<close>

text \<open>The script of the environment: \<open>Ret n e\<close> is a return of the original call with \<open>errno\<close> \<open>e\<close>;
  \<open>Wait rt e c\<close> is what \<open>addEvent\<close> returns (with \<open>errno\<close> \<open>e\<close>) and, if it succeeds, the value of
  \<open>TimerInfo::cancelled\<close> when the fiber is resumed.\<close>

datatype sys_outcome = Ret int int | Wait int int int

datatype hook_action =
    CallOrigin
  | ConditionTimer u64 event
  | RegisterEvent event
  | YieldFiber
  | CancelTimer
  | SleepTimer u64 nat
  | CancelAllEvents
  | DropFdCtx
  | CreateFdCtx

definition arm :: "u64 \<Rightarrow> event \<Rightarrow> hook_action list" where
  "arm to ev = (if to \<noteq> - 1 then [ConditionTimer to ev] else [])"

definition disarm :: "u64 \<Rightarrow> hook_action list" where
  "disarm to = (if to \<noteq> - 1 then [CancelTimer] else [])"

fun do_io_retry ::
  "u64 \<Rightarrow> event \<Rightarrow> sys_outcome list \<Rightarrow> hook_action list \<times> (int \<times> int) option" where
  "do_io_retry to ev (Ret n e # rest) =
     (if n = - 1 \<and> e = EINTR then apfst (\<lambda>acts. CallOrigin # acts) (do_io_retry to ev rest)
      else if n = - 1 \<and> e = EAGAIN then
        (case rest of
           Wait rt e2 cancelled # rest2 \<Rightarrow>
             if rt \<noteq> 0 then (CallOrigin # arm to ev @ [RegisterEvent ev] @ disarm to, Some (- 1, e2))
             else if cancelled \<noteq> 0 then
               (CallOrigin # arm to ev @ [RegisterEvent ev, YieldFiber] @ disarm to, Some (- 1, cancelled))
             else apfst (\<lambda>acts. CallOrigin # arm to ev @ [RegisterEvent ev, YieldFiber] @ disarm to @ acts)
               (do_io_retry to ev rest2)
         | _ \<Rightarrow> (CallOrigin # arm to ev @ [RegisterEvent ev, YieldFiber], None))
      else ([CallOrigin], Some (n, e)))"
| "do_io_retry to ev script = ([], None)"

definition do_io ::
  "bool \<Rightarrow> fd_ctx option \<Rightarrow> event \<Rightarrow> timeout_opt \<Rightarrow> sys_outcome list \<Rightarrow>
   hook_action list \<times> (int \<times> int) option" where
  "do_io t_hookEnable ctx ev timeoutSo script =
     (let plain = ([CallOrigin], case script of Ret n e # _ \<Rightarrow> Some (n, e) | _ \<Rightarrow> None) in
      if \<not> t_hookEnable then plain
      else case ctx of None \<Rightarrow> plain
      | Some c \<Rightarrow>
          if m_isClosed c then ([], Some (- 1, EBADF))
          else if \<not> m_isSocket c \<or> m_userNonblock c then plain
          else do_io_retry (getTimeout timeoutSo c) ev script)"

subsection \<open>The hooked calls\<close>

text \<open>\<open>sleep\<close>, \<open>usleep\<close>, \<open>nanosleep\<close>: a timer that schedules the fiber again, then a yield. The
  argument of \<open>addTimer\<close> is computed in the type of the source: \<open>unsigned int\<close> for \<open>seconds * 1000\<close>
  and \<open>usec / 1000\<close>, and \<open>int\<close> (converted to \<open>uint64_t\<close>) for \<open>nanosleep\<close>.\<close>

definition sleep_ms :: "u32 \<Rightarrow> u64" where
  "sleep_ms seconds = ucast (seconds * 1000)"

definition usleep_ms :: "u32 \<Rightarrow> u64" where
  "usleep_ms usec = ucast (usec div 1000)"

definition nanosleep_ms :: "int \<Rightarrow> int \<Rightarrow> u64" where
  "nanosleep_ms tv_sec tv_nsec = scast (word_of_int (tv_sec * 1000 + tv_nsec sdiv 1000 sdiv 1000) :: u32)"

definition sleep_hook :: "bool \<Rightarrow> u64 \<Rightarrow> nat \<Rightarrow> hook_action list" where
  "sleep_hook t_hookEnable ms fiber =
     (if \<not> t_hookEnable then [CallOrigin] else [SleepTimer ms fiber, YieldFiber])"

definition socket_hook :: "bool \<Rightarrow> int \<Rightarrow> hook_action list \<times> int" where
  "socket_hook t_hookEnable fd =
     (if \<not> t_hookEnable then ([CallOrigin], fd)
      else if fd = - 1 then ([CallOrigin], fd)
      else ([CallOrigin, CreateFdCtx], fd))"

text \<open>\<open>connect_with_timeout\<close>: \<open>n\<close>, \<open>e\<close> from the original call; \<open>rt\<close> and \<open>cancelled\<close> from the wait;
  \<open>so\<close> is the result of reading \<open>SO_ERROR\<close> (\<open>None\<close> when \<open>getsockopt\<close> fails), \<open>e2\<close> the \<open>errno\<close> then.\<close>

definition connect_with_timeout ::
  "bool \<Rightarrow> fd_ctx option \<Rightarrow> u64 \<Rightarrow> int \<Rightarrow> int \<Rightarrow> int \<Rightarrow> int \<Rightarrow> int option \<Rightarrow> int \<Rightarrow>
   hook_action list \<times> int \<times> int" where
  "connect_with_timeout t_hookEnable ctx timeoutMs n e rt cancelled so e2 =
     (if \<not> t_hookEnable then ([CallOrigin], n, e)
      else case ctx of None \<Rightarrow> ([], - 1, EBADF)
      | Some c \<Rightarrow>
        if m_isClosed c then ([], - 1, EBADF)
        else if \<not> m_isSocket c then ([CallOrigin], n, e)
        else if m_userNonblock c then ([CallOrigin], n, e)
        else if n = 0 then ([CallOrigin], 0, e)
        else if n \<noteq> - 1 \<or> e \<noteq> EINPROGRESS then ([CallOrigin], n, e)
        else let acts = CallOrigin # arm timeoutMs WRITE @ [RegisterEvent WRITE]
                   @ (if rt = 0 then [YieldFiber] else []) @ disarm timeoutMs in
          if rt = 0 \<and> cancelled \<noteq> 0 then (acts, - 1, cancelled)
          else case so of None \<Rightarrow> (acts, - 1, e2)
          | Some err \<Rightarrow> if err = 0 then (acts, 0, e2) else (acts, - 1, err))"

definition accept_hook ::
  "bool \<Rightarrow> fd_ctx option \<Rightarrow> sys_outcome list \<Rightarrow> hook_action list \<times> (int \<times> int) option" where
  "accept_hook t_hookEnable ctx script =
     (let (acts, r) = do_io t_hookEnable ctx READ SO_RCVTIMEO script in
      case r of Some (fd, e) \<Rightarrow> (if fd \<ge> 0 then acts @ [CreateFdCtx] else acts, r)
      | None \<Rightarrow> (acts, r))"

text \<open>\<open>hasIom\<close>: the thread belongs to an I/O manager.\<close>

definition close_hook :: "bool \<Rightarrow> fd_ctx option \<Rightarrow> bool \<Rightarrow> hook_action list" where
  "close_hook t_hookEnable ctx hasIom =
     (if \<not> t_hookEnable then [CallOrigin]
      else (if ctx \<noteq> None then (if hasIom then [CancelAllEvents] else []) @ [DropFdCtx] else [])
        @ [CallOrigin])"

text \<open>\<open>fcntl\<close> for the two commands that concern the blocking mode. \<open>kset old arg\<close> is what the kernel
  stores for \<open>F_SETFL\<close>; the state is the context and the kernel's flags.\<close>

definition fcntl_SETFL ::
  "(u32 \<Rightarrow> u32 \<Rightarrow> u32) \<Rightarrow> u32 \<Rightarrow> fd_ctx option \<times> u32 \<Rightarrow> fd_ctx option \<times> u32" where
  "fcntl_SETFL kset arg = (\<lambda>(ctx, flags). case ctx of
       None \<Rightarrow> (ctx, kset flags arg)
     | Some c \<Rightarrow>
         if m_isClosed c \<or> \<not> m_isSocket c then (ctx, kset flags arg)
         else let c1 = c\<lparr>m_userNonblock := (arg AND O_NONBLOCK \<noteq> 0)\<rparr>;
                  arg1 = (if m_sysNonblock c1 then arg OR O_NONBLOCK else arg AND NOT O_NONBLOCK)
              in (Some c1, kset flags arg1))"

definition fcntl_GETFL :: "fd_ctx option \<times> u32 \<Rightarrow> u32" where
  "fcntl_GETFL = (\<lambda>(ctx, flags). case ctx of None \<Rightarrow> flags
     | Some c \<Rightarrow> if m_isClosed c \<or> \<not> m_isSocket c then flags
         else if m_userNonblock c then flags OR O_NONBLOCK else flags AND NOT O_NONBLOCK)"

text \<open>\<open>ioctl(FIONBIO)\<close> passes the request on to the kernel in every case.\<close>

definition ioctl_FIONBIO :: "bool \<Rightarrow> fd_ctx option \<times> u32 \<Rightarrow> fd_ctx option \<times> u32" where
  "ioctl_FIONBIO on = (\<lambda>(ctx, flags).
     let flags1 = (if on then flags OR O_NONBLOCK else flags AND NOT O_NONBLOCK) in
     case ctx of None \<Rightarrow> (ctx, flags1)
     | Some c \<Rightarrow> if m_isClosed c \<or> \<not> m_isSocket c then (ctx, flags1)
         else (Some (c\<lparr>m_userNonblock := on\<rparr>), flags1))"

definition setsockopt_timeout :: "bool \<Rightarrow> timeout_opt \<Rightarrow> int \<Rightarrow> int \<Rightarrow> fd_ctx option \<Rightarrow> fd_ctx option" where
  "setsockopt_timeout t_hookEnable opt tv_sec tv_usec ctx =
     (if \<not> t_hookEnable then ctx
      else map_option (setTimeout opt (word_of_int (tv_sec * 1000 + tv_usec sdiv 1000))) ctx)"

subsection \<open>Blocking is hidden\<close>

text \<open>A script of the hooked path: a wait follows each \<open>EAGAIN\<close>, and the timer callback is the only
  thing that sets \<open>cancelled\<close>.\<close>

fun waits_ok :: "u64 \<Rightarrow> sys_outcome list \<Rightarrow> bool" where
  "waits_ok to [] = True"
| "waits_ok to (Ret n e # s) = waits_ok to s"
| "waits_ok to (Wait rt e c # s) \<longleftrightarrow> (c = 0 \<or> c = ETIMEDOUT \<and> to \<noteq> - 1) \<and> waits_ok to s"

fun waits_accepted :: "sys_outcome list \<Rightarrow> bool" where
  "waits_accepted [] = True"
| "waits_accepted (Ret n e # s) = waits_accepted s"
| "waits_accepted (Wait rt e c # s) \<longleftrightarrow> rt = 0 \<and> waits_accepted s"

lemma do_io_retry_result:
  assumes "do_io_retry to ev script = (acts, Some (n, e))" and "waits_ok to script" and "waits_accepted script"
  shows "Ret n e \<in> set script \<and> \<not> (n = - 1 \<and> e \<in> {EINTR, EAGAIN})
    \<or> n = - 1 \<and> e = ETIMEDOUT \<and> to \<noteq> - 1"
  using assms
proof (induction to ev script arbitrary: acts rule: do_io_retry.induct)
  case (1 to ev m err rest)
  show ?case
  proof (cases "m = - 1 \<and> err = EINTR")
    case True
    then show ?thesis using "1.IH"(1) [OF True] "1.prems" by (auto simp: apfst_def map_prod_def split: prod.splits)
  next
    case F: False
    show ?thesis
    proof (cases "m = - 1 \<and> err = EAGAIN")
      case True
      then obtain rt e2 c rest2 where rest: "rest = Wait rt e2 c # rest2"
        using F "1.prems"(1) by (auto split: list.splits sys_outcome.splits)
      show ?thesis
        using True F rest "1.prems" "1.IH"(2) [OF F True rest HOL.refl]
        by (cases "c = 0") (auto simp: apfst_def map_prod_def split: prod.splits)
    qed (use F "1.prems" in auto)
  qed
qed auto

lemma do_io_retry_timers:
  "do_io_retry to ev script = (acts, Some r) \<Longrightarrow>
   count_list acts (ConditionTimer to ev) = count_list acts CancelTimer"
proof (induction to ev script arbitrary: acts r rule: do_io_retry.induct)
  case (1 to ev m err rest)
  show ?case
  proof (cases "m = - 1 \<and> err = EINTR")
    case True
    then show ?thesis using "1.IH"(1) [OF True] "1.prems" by (auto simp: apfst_def map_prod_def split: prod.splits)
  next
    case F: False
    show ?thesis
    proof (cases "m = - 1 \<and> err = EAGAIN")
      case True
      then obtain rt e2 c rest2 where rest: "rest = Wait rt e2 c # rest2"
        using F "1.prems" by (auto split: list.splits sys_outcome.splits)
      show ?thesis
        using True F rest "1.prems" "1.IH"(2) [OF F True rest HOL.refl]
        by (cases "rt = 0"; cases "c = 0")
          (auto simp: apfst_def map_prod_def arm_def disarm_def split: prod.splits)
    qed (use F "1.prems" in auto)
  qed
qed auto

subsection \<open>Properties\<close>


definition sample_ctx :: fd_ctx where
  "sample_ctx = \<lparr>m_isInit = True, m_isSocket = True, m_sysNonblock = True, m_userNonblock = False,
     m_isClosed = False, m_fd = 5, m_recvTimeout = 100, m_sendTimeout = - 1\<rparr>"


text \<open>
  \<open>fcntl\<close> gives the program its own view of the blocking mode of a hooked socket: after
  \<open>F_SETFL\<close> with any argument, \<open>F_GETFL\<close> reports the \<open>O_NONBLOCK\<close> bit of that argument, while the
  descriptor stays non-blocking for the kernel. The kernel is assumed to store the \<open>O_NONBLOCK\<close> bit it
  is given.
\<close>

theorem fcntl_blocking_view:
  assumes "m_isSocket c" and "\<not> m_isClosed c" and "m_sysNonblock c"
    and "\<And>old arg. kset old arg AND O_NONBLOCK = arg AND O_NONBLOCK"
  shows "fcntl_GETFL (fcntl_SETFL kset arg (Some c, flags)) AND O_NONBLOCK = arg AND O_NONBLOCK
    \<and> snd (fcntl_SETFL kset arg (Some c, flags)) AND O_NONBLOCK = O_NONBLOCK"
  using assms(1-3) assms(4) [of flags "arg OR O_NONBLOCK"] O_NONBLOCK_single [of arg] O_NONBLOCK_bits
  by (auto simp: fcntl_GETFL_def fcntl_SETFL_def Let_def)

theorem fcntl_blocking_view_witness:
  "fcntl_GETFL (fcntl_SETFL (\<lambda>old arg. arg) 2 (Some sample_ctx, 2)) AND O_NONBLOCK = 2 AND O_NONBLOCK"
  using fcntl_blocking_view [of sample_ctx "\<lambda>old arg. arg" 2 2] by (simp add: sample_ctx_def)

text \<open>\<open>ioctl(FIONBIO, 0)\<close> is passed on as it is: the socket becomes blocking for the kernel, although the
  hooks rely on it being non-blocking. And the millisecond count of \<open>sleep\<close> is computed in 32 bits.\<close>

lemma ioctl_unblocks_kernel:
  assumes "m_isSocket c" and "\<not> m_isClosed c" and "m_sysNonblock c"
  shows "\<exists>c'. ioctl_FIONBIO False (Some c, flags) = (Some c', flags AND NOT O_NONBLOCK)
    \<and> m_sysNonblock c' \<and> (flags AND NOT O_NONBLOCK) AND O_NONBLOCK = 0"
  using assms O_NONBLOCK_bits(2) by (simp add: ioctl_FIONBIO_def Let_def)

lemma sleep_wraps: "sleep_ms 4294968 = 704"
  by (simp add: sleep_ms_def)

end
