(* ===== verification/Config.thy ===== *)
theory Config
  imports CString
begin

text \<open>
  \<open>src/config/include/Config.hpp\<close> and \<open>ConfigVar.hpp\<close>: configuration variables with listeners, the
  registry \<open>Config\<close>, loading it from a YAML document, and the conversions of containers from and to
  YAML text. A document is a tree; reading (\<open>yload\<close>) and writing (\<open>yemit\<close>) its text is done by
  yaml-cpp and \<open>boost::lexical_cast\<close> converts single values: these are arguments. A thrown
  exception of a conversion is \<open>None\<close>.
\<close>

datatype yaml = YNull | YScalar "u8 list" | YSequence "yaml list" | YMap "(yaml \<times> yaml) list"

text \<open>\<open>node.Scalar()\<close> is empty for a node that is no scalar.\<close>

definition Scalar :: "yaml \<Rightarrow> u8 list" where
  "Scalar n = (case n of YScalar s \<Rightarrow> s | _ \<Rightarrow> [])"

definition IsScalar :: "yaml \<Rightarrow> bool" where
  "IsScalar n = (case n of YScalar s \<Rightarrow> True | _ \<Rightarrow> False)"

subsection \<open>Conversion of containers\<close>

fun opt_map :: "('a \<Rightarrow> 'b option) \<Rightarrow> 'a list \<Rightarrow> 'b list option" where
  "opt_map f [] = Some []"
| "opt_map f (x # xs) = (case f x of None \<Rightarrow> None
     | Some y \<Rightarrow> (case opt_map f xs of None \<Rightarrow> None | Some ys \<Rightarrow> Some (y # ys)))"

text \<open>\<open>for (i = 0; i < node.size(); ++i) \<dots> node[i]\<close> over a sequence; a scalar has size 0.\<close>

definition seq_items :: "yaml \<Rightarrow> yaml list" where
  "seq_items n = (case n of YSequence ns \<Rightarrow> ns | _ \<Rightarrow> [])"

definition map_items :: "yaml \<Rightarrow> (yaml \<times> yaml) list" where
  "map_items n = (case n of YMap es \<Rightarrow> es | _ \<Rightarrow> [])"

type_synonym loader = "u8 list \<Rightarrow> yaml option"
type_synonym emitter = "yaml \<Rightarrow> u8 list"

definition string_to_vector :: "loader \<Rightarrow> emitter \<Rightarrow> (u8 list \<Rightarrow> 'a option) \<Rightarrow> u8 list \<Rightarrow> 'a list option" where
  "string_to_vector yload yemit cast v = (case yload v of None \<Rightarrow> None
     | Some nodes \<Rightarrow> opt_map (\<lambda>n. cast (yemit n)) (seq_items nodes))"

definition vector_to_string :: "loader \<Rightarrow> emitter \<Rightarrow> ('a \<Rightarrow> u8 list option) \<Rightarrow> 'a list \<Rightarrow> u8 list option" where
  "vector_to_string yload yemit show v =
     map_option (\<lambda>ns. yemit (YSequence ns)) (opt_map (\<lambda>i. Option.bind (show i) yload) v)"

text \<open>\<open>std::set\<close>: the elements are inserted one after the other.\<close>

definition string_to_set ::
  "loader \<Rightarrow> emitter \<Rightarrow> ('a \<Rightarrow> 'a \<Rightarrow> bool) \<Rightarrow> (u8 list \<Rightarrow> 'a option) \<Rightarrow> u8 list \<Rightarrow> 'a list option" where
  "string_to_set yload yemit lt cast v = (case yload v of None \<Rightarrow> None
     | Some nodes \<Rightarrow> map_option (foldl (\<lambda>s x. set_insert lt x s) []) (opt_map (\<lambda>n. cast (yemit n)) (seq_items nodes)))"

text \<open>\<open>std::map<std::string, T>\<close>.\<close>

definition string_to_map ::
  "loader \<Rightarrow> emitter \<Rightarrow> (u8 list \<Rightarrow> 'a option) \<Rightarrow> u8 list \<Rightarrow> (u8 list \<times> 'a) list option" where
  "string_to_map yload yemit cast v = (case yload v of None \<Rightarrow> None
     | Some node \<Rightarrow> map_option (foldl (\<lambda>m e. map_insert str_less (fst e) (snd e) m) [])
         (opt_map (\<lambda>e. map_option (\<lambda>x. (Scalar (fst e), x)) (cast (yemit (snd e)))) (map_items node)))"

definition map_to_string ::
  "loader \<Rightarrow> emitter \<Rightarrow> ('a \<Rightarrow> u8 list option) \<Rightarrow> (u8 list \<times> 'a) list \<Rightarrow> u8 list option" where
  "map_to_string yload yemit show v = map_option (\<lambda>es. yemit (YMap es))
     (opt_map (\<lambda>i. map_option (\<lambda>n. (YScalar (fst i), n)) (Option.bind (show (snd i)) yload)) v)"

subsection \<open>Configuration variables\<close>

text \<open>\<open>ConfigVar<T>\<close>: the type is a tag, the listeners are known by their ids.\<close>

record 'v config_var =
  cv_name :: "u8 list"
  cv_description :: "u8 list"
  cv_type :: nat
  m_val :: 'v
  m_onChangeMap :: "nat list"

definition new_ConfigVar :: "u8 list \<Rightarrow> u8 list \<Rightarrow> nat \<Rightarrow> 'v \<Rightarrow> 'v config_var" where
  "new_ConfigVar name description ty def =
     \<lparr>cv_name = map tolower name, cv_description = description, cv_type = ty, m_val = def, m_onChangeMap = []\<rparr>"

text \<open>A call of a listener: its id, the old and the new value.\<close>

type_synonym 'v notification = "nat \<times> 'v \<times> 'v"

definition setValue :: "'v \<Rightarrow> 'v config_var \<Rightarrow> 'v notification list \<times> 'v config_var" where
  "setValue val c = (if val = m_val c then ([], c)
     else (map (\<lambda>i. (i, m_val c, val)) (m_onChangeMap c), c\<lparr>m_val := val\<rparr>))"

text \<open>\<open>toString\<close> and \<open>fromString\<close> catch what the conversion throws; \<open>fromString\<close> returns true always.\<close>

definition cv_toString :: "('v \<Rightarrow> u8 list option) \<Rightarrow> 'v config_var \<Rightarrow> u8 list" where
  "cv_toString to_str c = (case to_str (m_val c) of Some s \<Rightarrow> s | None \<Rightarrow> [])"

definition fromString :: "(u8 list \<Rightarrow> 'v option) \<Rightarrow> u8 list \<Rightarrow> 'v config_var \<Rightarrow> bool \<times> 'v notification list \<times> 'v config_var" where
  "fromString from_str val c = (case from_str val of
     Some v \<Rightarrow> (let (ns, c1) = setValue v c in (True, ns, c1))
   | None \<Rightarrow> (True, [], c))"

text \<open>\<open>addListener\<close>: the static counter \<open>funcId\<close> is shared by all variables of the type.\<close>

definition addListener :: "nat \<Rightarrow> 'v config_var \<Rightarrow> nat \<times> nat \<times> 'v config_var" where
  "addListener funcId c = (let funcId = funcId + 1 in
     (funcId, funcId, c\<lparr>m_onChangeMap := funcId # filter (\<lambda>i. i \<noteq> funcId) (m_onChangeMap c)\<rparr>))"

definition deleteListener :: "nat \<Rightarrow> 'v config_var \<Rightarrow> 'v config_var" where
  "deleteListener funcId c = c\<lparr>m_onChangeMap := filter (\<lambda>i. i \<noteq> funcId) (m_onChangeMap c)\<rparr>"

subsection \<open>The registry\<close>

type_synonym 'v config_map = "u8 list \<rightharpoonup> 'v config_var"

definition legalChar :: "u8 list" where
  "legalChar = bytes ''abcdefghikjlmnopqrstuvwxyz._012345678''"

definition verifyName :: "u8 list \<Rightarrow> unit result" where
  "verifyName name = (if find_first_not_of name legalChar \<noteq> None then Inl InvalidArgument else Inr ())"

definition config_lookup ::
  "u8 list \<Rightarrow> nat \<Rightarrow> 'v \<Rightarrow> u8 list \<Rightarrow> 'v config_map \<Rightarrow> ('v config_var option \<times> 'v config_map) result" where
  "config_lookup name ty def description datas = (case datas name of
     Some c \<Rightarrow> Inr (if cv_type c = ty then Some c else None, datas)
   | None \<Rightarrow> bind_r (verifyName name) (\<lambda>_.
       let v = new_ConfigVar name description ty def in Inr (Some v, datas(name \<mapsto> v))))"

text \<open>\<open>lookup(name)\<close> follows the iterator without a test.\<close>

definition config_find :: "u8 list \<Rightarrow> nat \<Rightarrow> 'v config_map \<Rightarrow> 'v config_var option result" where
  "config_find name ty datas = (case datas name of None \<Rightarrow> Inl BadIterator
     | Some c \<Rightarrow> Inr (if cv_type c = ty then Some c else None))"

definition LookupBase :: "u8 list \<Rightarrow> 'v config_map \<Rightarrow> 'v config_var option" where
  "LookupBase name datas = datas name"

subsection \<open>Loading\<close>

type_synonym member_list = "(u8 list \<times> yaml) list"

fun listAllMember :: "u8 list \<Rightarrow> yaml \<Rightarrow> member_list \<Rightarrow> member_list result"
  and list_entries :: "u8 list \<Rightarrow> (yaml \<times> yaml) list \<Rightarrow> member_list \<Rightarrow> member_list result" where
  "listAllMember prefix node output = bind_r (verifyName prefix) (\<lambda>_.
     let output = output @ [(prefix, node)] in
     (case node of YMap es \<Rightarrow> list_entries prefix es output | _ \<Rightarrow> Inr output))"
| "list_entries prefix [] output = Inr output"
| "list_entries prefix ((k, v) # es) output =
     bind_r (listAllMember (if prefix = [] then Scalar k else prefix @ 46 # Scalar k) v output)
       (list_entries prefix es)"

definition node_text :: "emitter \<Rightarrow> yaml \<Rightarrow> u8 list" where
  "node_text yemit n = (if IsScalar n then Scalar n else yemit n)"

text \<open>One round of the loop of \<open>LoadFromYaml\<close>; \<open>from_str\<close> is the conversion of the variable's type.\<close>

definition load_node ::
  "emitter \<Rightarrow> (nat \<Rightarrow> u8 list \<Rightarrow> 'v option) \<Rightarrow> u8 list \<times> yaml \<Rightarrow> 'v config_map \<Rightarrow> 'v notification list \<times> 'v config_map" where
  "load_node yemit from_str node datas =
     (if fst node = [] then ([], datas)
      else let key = map tolower (fst node) in
      (case LookupBase key datas of None \<Rightarrow> ([], datas)
       | Some var \<Rightarrow>
           let (_, ns, var1) = fromString (from_str (cv_type var)) (node_text yemit (snd node)) var in
           (ns, datas(key \<mapsto> var1))))"

fun load_loop_yaml ::
  "emitter \<Rightarrow> (nat \<Rightarrow> u8 list \<Rightarrow> 'v option) \<Rightarrow> member_list \<Rightarrow> 'v config_map \<Rightarrow> 'v notification list \<times> 'v config_map" where
  "load_loop_yaml yemit from_str [] datas = ([], datas)"
| "load_loop_yaml yemit from_str (n # ns) datas =
     (let (out, datas) = load_node yemit from_str n datas;
          (outs, datas) = load_loop_yaml yemit from_str ns datas in (out @ outs, datas))"

definition LoadFromYaml ::
  "emitter \<Rightarrow> (nat \<Rightarrow> u8 list \<Rightarrow> 'v option) \<Rightarrow> yaml \<Rightarrow> 'v config_map \<Rightarrow> ('v notification list \<times> 'v config_map) result" where
  "LoadFromYaml yemit from_str root datas =
     bind_r (listAllMember (Scalar root) root []) (\<lambda>nodes. Inr (load_loop_yaml yemit from_str nodes datas))"

text \<open>\<open>LoadFromConf\<close> logs any exception; \<open>None\<close> is a file that does not load.\<close>

definition LoadFromConf ::
  "emitter \<Rightarrow> (nat \<Rightarrow> u8 list \<Rightarrow> 'v option) \<Rightarrow> yaml option \<Rightarrow> 'v config_map \<Rightarrow> 'v notification list \<times> 'v config_map" where
  "LoadFromConf yemit from_str loaded datas = (case loaded of None \<Rightarrow> ([], datas)
     | Some root \<Rightarrow> (case LoadFromYaml yemit from_str root datas of Inl _ \<Rightarrow> ([], datas) | Inr r \<Rightarrow> r))"

subsection \<open>What loading does\<close>

definition legal :: "u8 list \<Rightarrow> bool" where
  "legal name \<longleftrightarrow> set name \<subseteq> set legalChar"

lemma verifyName_legal: "verifyName name = (if legal name then Inr () else Inl InvalidArgument)"
  by (auto simp: verifyName_def legal_def find_first_not_of_def npos_first_eq)

lemma legal_tolower: "legal name \<Longrightarrow> map tolower name = name"
proof -
  assume l: "legal name"
  have "list_all (\<lambda>c. tolower c = c) legalChar"
    by (simp add: legalChar_def bytes_def tolower_def)
  then have "\<forall>c \<in> set name. tolower c = c" using l by (auto simp: legal_def list_all_iff)
  then show ?thesis by (simp add: map_idI)
qed

text \<open>The paths of a document, in document order.\<close>

definition sub_path :: "u8 list \<Rightarrow> yaml \<Rightarrow> u8 list" where
  "sub_path prefix k = (if prefix = [] then Scalar k else prefix @ 46 # Scalar k)"

fun members :: "u8 list \<Rightarrow> yaml \<Rightarrow> member_list" where
  "members prefix (YMap es) = (prefix, YMap es) # concat (map (\<lambda>(k, v). members (sub_path prefix k) v) es)"
| "members prefix node = [(prefix, node)]"

definition all_legal :: "member_list \<Rightarrow> bool" where
  "all_legal ms = list_all (\<lambda>e. legal (fst e)) ms"

lemma listAllMember_eq:
  "listAllMember prefix node output
     = (if all_legal (members prefix node) then Inr (output @ members prefix node) else Inl InvalidArgument)"
  "list_entries prefix es output
     = (let ms = concat (map (\<lambda>(k, v). members (sub_path prefix k) v) es) in
        if all_legal ms then Inr (output @ ms) else Inl InvalidArgument)"
proof (induction prefix node "output" and prefix es "output" rule: listAllMember_list_entries.induct)
  case (1 prefix node out)
  then show ?case
    by (cases node) (auto simp: verifyName_legal all_legal_def Let_def)
next
  case (2 prefix out)
  then show ?case by (simp add: all_legal_def)
next
  case (3 prefix k v es out)
  then show ?case
    by (auto simp: sub_path_def all_legal_def Let_def simp del: listAllMember.simps)
qed

text \<open>The values the nodes of a document give to the variable \<open>name\<close>, in document order.\<close>

definition given ::
  "emitter \<Rightarrow> (nat \<Rightarrow> u8 list \<Rightarrow> 'v option) \<Rightarrow> member_list \<Rightarrow> u8 list \<Rightarrow> 'v config_var \<Rightarrow> 'v list" where
  "given yemit from_str ms name c = List.map_filter (\<lambda>e.
     if fst e \<noteq> [] \<and> fst e = name then from_str (cv_type c) (node_text yemit (snd e)) else None) ms"

lemma given_simps [simp]:
  "given yemit from_str [] name c = []"
  "given yemit from_str (e # ms) name c =
     (if fst e \<noteq> [] \<and> fst e = name
      then (case from_str (cv_type c) (node_text yemit (snd e)) of None \<Rightarrow> [] | Some v \<Rightarrow> [v]) else [])
     @ given yemit from_str ms name c"
  by (simp_all add: given_def List.map_filter_simps split: option.split)

lemma given_cong [simp]: "given yemit from_str ms name (c\<lparr>m_val := v\<rparr>) = given yemit from_str ms name c"
  by (simp add: given_def cong: if_cong)

lemma load_node_effect:
  assumes "legal (fst e)" and "load_node yemit from_str e datas = (out, datas1)"
  shows "datas1 name = map_option (\<lambda>c. c\<lparr>m_val := last (m_val c # given yemit from_str [e] name c)\<rparr>) (datas name)"
    and "\<forall>n \<in> set out. fst (snd n) \<noteq> snd (snd n)
           \<and> (\<exists>c. datas (fst e) = Some c \<and> fst n \<in> set (m_onChangeMap c) \<and> m_val c = fst (snd n))"
proof -
  note defs = load_node_def LookupBase_def fromString_def setValue_def legal_tolower [OF assms(1)] Let_def
  show "datas1 name = map_option (\<lambda>c. c\<lparr>m_val := last (m_val c # given yemit from_str [e] name c)\<rparr>) (datas name)"
  proof (cases "fst e = name \<and> name \<noteq> []")
    case False
    then have "datas1 name = datas name"
      using assms(2) by (auto simp: defs split: if_splits option.splits)
    moreover have "given yemit from_str [e] name c = []" for c using False by auto
    ultimately show ?thesis by (cases "datas name") (simp_all del: given_simps)
  next
    case True
    then show ?thesis using assms(2)
      by (cases "datas name") (auto simp: defs split: if_splits option.splits)
  qed
  show "\<forall>n \<in> set out. fst (snd n) \<noteq> snd (snd n)
     \<and> (\<exists>c. datas (fst e) = Some c \<and> fst n \<in> set (m_onChangeMap c) \<and> m_val c = fst (snd n))"
    using assms(2) by (auto simp: defs split: if_splits option.splits)
qed

lemma load_loop_effect:
  "all_legal ms \<Longrightarrow> load_loop_yaml yemit from_str ms datas = (out, datas1) \<Longrightarrow>
     datas1 name = map_option (\<lambda>c. c\<lparr>m_val := last (m_val c # given yemit from_str ms name c)\<rparr>) (datas name)
     \<and> (\<forall>n \<in> set out. fst (snd n) \<noteq> snd (snd n)
         \<and> (\<exists>p c. p \<in> fst ` set ms \<and> datas p = Some c \<and> fst n \<in> set (m_onChangeMap c)))"
proof (induction ms arbitrary: datas out datas1)
  case Nil
  then show ?case by (cases "datas name") auto
next
  case (Cons e ms)
  obtain o1 d1 where one: "load_node yemit from_str e datas = (o1, d1)" by (cases "load_node yemit from_str e datas")
  obtain o2 where two: "load_loop_yaml yemit from_str ms d1 = (o2, datas1)" and out: "out = o1 @ o2"
    using Cons.prems(2) one by (auto simp: Let_def split: prod.splits)
  have legal: "legal (fst e)" "all_legal ms" using Cons.prems(1) by (simp_all add: all_legal_def)
  note eff = load_node_effect [OF legal(1) one]
  note IH = Cons.IH [OF legal(2) two]
  have val: "datas1 name = map_option (\<lambda>c. c\<lparr>m_val := last (m_val c # given yemit from_str (e # ms) name c)\<rparr>) (datas name)"
  proof -
    have "given yemit from_str (e # ms) name c = given yemit from_str [e] name c @ given yemit from_str ms name c" for c
      by simp
    moreover have "last (last (x # xs) # ys) = last (x # xs @ ys)" for x :: 'a and xs ys by simp
    ultimately show ?thesis
      using conjunct1 [OF IH] unfolding eff(1) [of name]
      by (cases "datas name") (simp_all del: given_simps last.simps)
  qed
  have later: "\<exists>p c. p \<in> fst ` set (e # ms) \<and> datas p = Some c \<and> fst n \<in> set (m_onChangeMap c)"
    if n: "n \<in> set o2" for n
  proof -
    obtain p c where pc: "p \<in> fst ` set ms" "d1 p = Some c" "fst n \<in> set (m_onChangeMap c)" using IH n by blast
    obtain c0 where c0: "datas p = Some c0" "m_onChangeMap c = m_onChangeMap c0"
      using eff(1) [of p] pc(2) by (cases "datas p") (auto simp del: given_simps)
    show ?thesis using pc(1,3) c0 by (intro exI [of _ p] exI [of _ c0]) simp
  qed
  have first: "\<exists>p c. p \<in> fst ` set (e # ms) \<and> datas p = Some c \<and> fst n \<in> set (m_onChangeMap c)"
    if n: "n \<in> set o1" for n
    using eff(2) n by (intro exI [of _ "fst e"]) auto
  have "fst (snd n) \<noteq> snd (snd n)" if "n \<in> set out" for n
    using that eff(2) IH by (auto simp: out)
  moreover have "\<exists>p c. p \<in> fst ` set (e # ms) \<and> datas p = Some c \<and> fst n \<in> set (m_onChangeMap c)"
    if "n \<in> set out" for n
    using that first [of n] later [of n] by (simp only: out set_append Un_iff) blast
  ultimately show ?case using val by blast
qed

text \<open>C35: Loading a document. \<open>LoadFromYaml\<close> throws \<open>invalid_argument\<close> exactly when some path of the document
  has a character outside the legal set, and then no variable has changed. Otherwise each registered
  variable takes the last value the document gives it that converts to its type and keeps its value when
  there is none, no variable is added or removed, and only listeners of registered variables are called,
  with differing old and new values.\<close>

theorem LoadFromYaml_effect:
  "(if all_legal (members (Scalar root) root)
    then \<exists>out datas1. LoadFromYaml yemit from_str root datas = Inr (out, datas1)
      \<and> (\<forall>name. datas1 name = map_option (\<lambda>c. c\<lparr>m_val :=
            last (m_val c # given yemit from_str (members (Scalar root) root) name c)\<rparr>) (datas name))
      \<and> (\<forall>n \<in> set out. fst (snd n) \<noteq> snd (snd n) \<and> (\<exists>p c. datas p = Some c \<and> fst n \<in> set (m_onChangeMap c)))
    else LoadFromYaml yemit from_str root datas = Inl InvalidArgument
      \<and> LoadFromConf yemit from_str (Some root) datas = ([], datas))"
proof (cases "all_legal (members (Scalar root) root)")
  case True
  obtain out datas1 where l: "load_loop_yaml yemit from_str (members (Scalar root) root) datas = (out, datas1)"
    by (cases "load_loop_yaml yemit from_str (members (Scalar root) root) datas")
  have "LoadFromYaml yemit from_str root datas = Inr (out, datas1)"
    using True l by (simp add: LoadFromYaml_def listAllMember_eq del: listAllMember.simps)
  moreover have "\<forall>name. datas1 name = map_option (\<lambda>c. c\<lparr>m_val :=
      last (m_val c # given yemit from_str (members (Scalar root) root) name c)\<rparr>) (datas name)"
    using load_loop_effect [OF True l] by (intro allI) (rule conjunct1)
  moreover have "\<forall>n \<in> set out. fst (snd n) \<noteq> snd (snd n) \<and> (\<exists>p c. datas p = Some c \<and> fst n \<in> set (m_onChangeMap c))"
    using conjunct2 [OF load_loop_effect [OF True l]] by blast
  ultimately show ?thesis unfolding if_P [OF True] by (intro exI conjI)
qed (simp add: LoadFromYaml_def LoadFromConf_def listAllMember_eq del: listAllMember.simps)

theorem LoadFromYaml_effect_witness:
  "all_legal (members [] (YMap [(YScalar (bytes ''a''), YScalar (bytes ''1''))]))
   \<and> (\<exists>out datas1. LoadFromYaml (\<lambda>_. []) (\<lambda>_ s. Some s) (YMap [(YScalar (bytes ''a''), YScalar (bytes ''1''))])
        [bytes ''a'' \<mapsto> new_ConfigVar (bytes ''a'') [] 0 (bytes ''0'')] = Inr (out, datas1)
      \<and> map_option m_val (datas1 (bytes ''a'')) = Some (bytes ''1''))"
proof -
  let ?root = "YMap [(YScalar (bytes ''a''), YScalar (bytes ''1''))]"
  let ?d = "[bytes ''a'' \<mapsto> new_ConfigVar (bytes ''a'') [] 0 (bytes ''0'')]"
  have l: "all_legal (members [] ?root)"
    by (simp add: all_legal_def legal_def legalChar_def bytes_def sub_path_def Scalar_def)
  have g: "given (\<lambda>_. []) (\<lambda>_ s. Some s) (members [] ?root) (bytes ''a'') c = [bytes ''1'']" for c :: "u8 list config_var"
    by (simp add: sub_path_def Scalar_def node_text_def IsScalar_def bytes_def)
  obtain out datas1 where "LoadFromYaml (\<lambda>_. []) (\<lambda>_ s. Some s) ?root ?d = Inr (out, datas1)"
    "\<forall>name. datas1 name = map_option (\<lambda>c. c\<lparr>m_val :=
        last (m_val c # given (\<lambda>_. []) (\<lambda>_ s. Some s) (members [] ?root) name c)\<rparr>) (?d name)"
    using LoadFromYaml_effect [of ?root "\<lambda>_. []" "\<lambda>_ s. Some s" ?d] l by (auto simp: Scalar_def simp del: members.simps)
  then show ?thesis using l g by (auto simp: new_ConfigVar_def simp del: members.simps)
qed

text \<open>A digit nine or a capital letter anywhere in the document makes the whole load fail.\<close>

lemma illegal_names: "\<not> legal (bytes ''port9'')" "\<not> legal (bytes ''Port'')"
  by (simp_all add: legal_def legalChar_def bytes_def)

text \<open>Registration. The first \<open>lookup\<close> of a legal name stores a variable with the default value; each later
  \<open>lookup\<close> of the name returns that variable whatever its default, and null with another type, without
  changing the registry; an illegal name throws. The one-argument \<open>lookup\<close> of an unknown name follows the
  end iterator.\<close>

theorem config_lookup_laws:
  assumes "datas name = None"
  shows "(if legal name then
      \<exists>c datas1. config_lookup name ty def desc datas = Inr (Some c, datas1)
        \<and> m_val c = def \<and> cv_name c = name \<and> datas1 = datas(name \<mapsto> c)
        \<and> config_lookup name ty def2 desc2 datas1 = Inr (Some c, datas1)
        \<and> (\<forall>ty2. ty2 \<noteq> ty \<longrightarrow> config_lookup name ty2 def2 desc2 datas1 = Inr (None, datas1))
        \<and> config_find name ty datas1 = Inr (Some c)
      else config_lookup name ty def desc datas = Inl InvalidArgument)
    \<and> config_find name ty datas = Inl BadIterator"
  using assms legal_tolower [of name]
  by (auto simp: config_lookup_def config_find_def verifyName_legal new_ConfigVar_def Let_def)

theorem config_lookup_laws_witness:
  "\<exists>c datas1. config_lookup (bytes ''tcp.timeout'') 0 (5 :: nat) [] Map.empty = Inr (Some c, datas1) \<and> m_val c = 5"
proof -
  have "legal (bytes ''tcp.timeout'')" by (simp add: legal_def legalChar_def bytes_def)
  then show ?thesis using config_lookup_laws [of Map.empty "bytes ''tcp.timeout''" 0 "5 :: nat" "[]" 5 "[]"] by auto
qed

subsection \<open>Containers\<close>

lemma opt_map_Some: "(\<And>x. x \<in> set xs \<Longrightarrow> f x = Some (g x)) \<Longrightarrow> opt_map f xs = Some (map g xs)"
  by (induction xs) auto

lemma opt_map_back: "\<forall>x \<in> set xs. f (g x) = Some x \<Longrightarrow> opt_map f (map g xs) = Some xs"
  by (induction xs) auto

text \<open>Containers as YAML text. Let the loader of the YAML library read back the sequence and the map it
  emitted, and let each element print as a text that loads to a node from whose text the element is read
  back. Then vectors (and lists) and string maps are read back from their YAML text.\<close>

theorem container_roundtrip:
  assumes yseq: "yload (yemit (YSequence (map node v))) = Some (YSequence (map node v))"
    and ymap: "yload (yemit (YMap (map (\<lambda>i. (YScalar (fst i), node (snd i))) m)))
      = Some (YMap (map (\<lambda>i. (YScalar (fst i), node (snd i))) m))"
    and elem: "\<forall>x \<in> set v \<union> snd ` set m.
      show x = Some (tx x) \<and> yload (tx x) = Some (node x) \<and> cast (yemit (node x)) = Some x"
    and sorted: "map_sorted str_less m"
  shows "Option.bind (vector_to_string yload yemit show v) (string_to_vector yload yemit cast) = Some v
    \<and> Option.bind (map_to_string yload yemit show m) (string_to_map yload yemit cast) = Some m"
proof
  have "opt_map (\<lambda>i. Option.bind (show i) yload) v = Some (map node v)"
    using elem by (intro opt_map_Some) simp
  moreover have "opt_map (\<lambda>n. cast (yemit n)) (map node v) = Some v"
    using elem by (intro opt_map_back) simp
  ultimately show "Option.bind (vector_to_string yload yemit show v) (string_to_vector yload yemit cast) = Some v"
    using yseq by (simp add: vector_to_string_def string_to_vector_def seq_items_def)
next
  have "opt_map (\<lambda>i. map_option (\<lambda>n. (YScalar (fst i), n)) (Option.bind (show (snd i)) yload)) m
      = Some (map (\<lambda>i. (YScalar (fst i), node (snd i))) m)"
    using elem by (intro opt_map_Some) simp
  moreover have "opt_map (\<lambda>e. map_option (\<lambda>x. (Scalar (fst e), x)) (cast (yemit (snd e))))
      (map (\<lambda>i. (YScalar (fst i), node (snd i))) m) = Some m"
    using elem by (intro opt_map_back) (auto simp: Scalar_def)
  moreover have "foldl (\<lambda>acc e. map_insert str_less (fst e) (snd e) acc) [] m = m"
    using str.weak.foldl_insert_sorted [of "[]" m] sorted by simp
  ultimately show "Option.bind (map_to_string yload yemit show m) (string_to_map yload yemit cast) = Some m"
    using ymap by (simp add: map_to_string_def string_to_map_def map_items_def)
qed

definition sample_emit :: emitter where
  "sample_emit n = (case n of YScalar s \<Rightarrow> s | YSequence _ \<Rightarrow> [91] | YMap _ \<Rightarrow> [123] | YNull \<Rightarrow> [])"

definition sample_load :: loader where
  "sample_load s = (if s = [91] then Some (YSequence [YScalar [55]])
     else if s = [123] then Some (YMap [(YScalar [107], YScalar [55])]) else Some (YScalar s))"

theorem container_roundtrip_witness:
  "Option.bind (vector_to_string sample_load sample_emit (\<lambda>_. Some [55]) [()])
     (string_to_vector sample_load sample_emit (\<lambda>_. Some ())) = Some [()]
   \<and> Option.bind (map_to_string sample_load sample_emit (\<lambda>_. Some [55]) [([107], ())])
     (string_to_map sample_load sample_emit (\<lambda>_. Some ())) = Some [([107], ())]"
  by (rule container_roundtrip [where node = "\<lambda>_. YScalar [55]" and tx = "\<lambda>_. [55]"])
    (simp_all add: sample_load_def sample_emit_def)

end
