(* ===== verification/HookCalls.thy ===== *)
theory HookCalls
  imports Hook Config
begin

text \<open>
  The rest of \<open>src/hook/hook.cc\<close>: the lookup of the original functions, the per-thread switch, the
  connect timeout that follows the configuration, the calls that are \<open>do_io\<close> with their event and
  timeout, and the dispatch of \<open>fcntl\<close>, \<open>ioctl\<close>, \<open>getsockopt\<close> and \<open>setsockopt\<close>.
\<close>

subsection \<open>Initialisation\<close>

definition HOOK_FUN :: "string list" where
  "HOOK_FUN = [''sleep'', ''usleep'', ''nanosleep'', ''socket'', ''connect'', ''accept'', ''read'', ''readv'', ''recv'',
     ''recvfrom'', ''recvmsg'', ''write'', ''writev'', ''send'', ''sendto'', ''sendmsg'', ''close'', ''fcntl'', ''ioctl'',
     ''getsockopt'', ''setsockopt'']"

text \<open>
  The static state: \<open>isInited\<close>, the pointers \<open>name_f\<close>, the timeout and the id of its listener;
  \<open>t_hookEnable\<close> is per thread.
\<close>

record hook_state =
  isInited :: bool
  origin_f :: "string \<Rightarrow> nat option"
  ConnectTimeout :: u64
  hk_var :: "int config_var"
  hk_listener :: nat
  t_hookEnable :: "nat \<Rightarrow> bool"

definition hookInit :: "(string \<Rightarrow> nat option) \<Rightarrow> hook_state \<Rightarrow> hook_state" where
  "hookInit dlsym hk = (if isInited hk then hk
     else hk\<lparr>origin_f := fold (\<lambda>f m. m(f := dlsym f)) HOOK_FUN (origin_f hk)\<rparr>)"

text \<open>The value of the variable, an \<open>int\<close>, is converted to \<open>uint64_t\<close>.\<close>

definition to_timeout :: "int \<Rightarrow> u64" where
  "to_timeout v = word_of_int v"

definition HookIniter :: "(string \<Rightarrow> nat option) \<Rightarrow> nat \<Rightarrow> hook_state \<Rightarrow> hook_state" where
  "HookIniter dlsym funcId hk =
     (let hk1 = hookInit dlsym hk;
          (_, i, var) = addListener funcId (hk_var hk1)
      in hk1\<lparr>ConnectTimeout := to_timeout (m_val (hk_var hk1)), hk_var := var, hk_listener := i\<rparr>)"

definition static_hook_state :: "int config_var \<Rightarrow> hook_state" where
  "static_hook_state var = \<lparr>isInited = False, origin_f = (\<lambda>_. None), ConnectTimeout = - 1, hk_var = var,
     hk_listener = 0, t_hookEnable = (\<lambda>_. False)\<rparr>"

definition timeout_notify :: "int notification \<Rightarrow> hook_state \<Rightarrow> hook_state" where
  "timeout_notify ntf hk = (case ntf of (i, ov, nv) \<Rightarrow>
     if i = hk_listener hk then hk\<lparr>ConnectTimeout := to_timeout nv\<rparr> else hk)"

definition set_connect_timeout :: "int \<Rightarrow> hook_state \<Rightarrow> hook_state" where
  "set_connect_timeout v hk = (let (ntfs, var) = setValue v (hk_var hk) in
     fold timeout_notify ntfs (hk\<lparr>hk_var := var\<rparr>))"

definition isHookEnable :: "nat \<Rightarrow> hook_state \<Rightarrow> bool" where
  "isHookEnable thr hk = t_hookEnable hk thr"

definition setHookEnable :: "nat \<Rightarrow> bool \<Rightarrow> hook_state \<Rightarrow> hook_state" where
  "setHookEnable thr flag hk = hk\<lparr>t_hookEnable := (t_hookEnable hk)(thr := flag)\<rparr>"

subsection \<open>Reading and writing\<close>

text \<open>Each of these is \<open>do_io\<close> with the original function of its name; \<open>en\<close> is \<open>t_hookEnable\<close>.\<close>

type_synonym io_hook = "bool \<Rightarrow> fd_ctx option \<Rightarrow> sys_outcome list \<Rightarrow> hook_action list \<times> (int \<times> int) option"

definition read_hook :: io_hook where "read_hook en ctx = do_io en ctx READ SO_RCVTIMEO"
definition readv_hook :: io_hook where "readv_hook en ctx = do_io en ctx READ SO_RCVTIMEO"
definition recv_hook :: io_hook where "recv_hook en ctx = do_io en ctx READ SO_RCVTIMEO"
definition recvfrom_hook :: io_hook where "recvfrom_hook en ctx = do_io en ctx READ SO_RCVTIMEO"
definition recvmsg_hook :: io_hook where "recvmsg_hook en ctx = do_io en ctx READ SO_RCVTIMEO"
definition write_hook :: io_hook where "write_hook en ctx = do_io en ctx WRITE SO_SNDTIMEO"
definition writev_hook :: io_hook where "writev_hook en ctx = do_io en ctx WRITE SO_SNDTIMEO"
definition send_hook :: io_hook where "send_hook en ctx = do_io en ctx WRITE SO_SNDTIMEO"
definition sendto_hook :: io_hook where "sendto_hook en ctx = do_io en ctx WRITE SO_SNDTIMEO"
definition sendmsg_hook :: io_hook where "sendmsg_hook en ctx = do_io en ctx WRITE SO_SNDTIMEO"

definition connect_hook ::
  "nat \<Rightarrow> hook_state \<Rightarrow> fd_ctx option \<Rightarrow> int \<Rightarrow> int \<Rightarrow> int \<Rightarrow> int \<Rightarrow> int option \<Rightarrow> int \<Rightarrow> hook_action list \<times> int \<times> int" where
  "connect_hook thr hk ctx n e rt cancelled so e2 =
     connect_with_timeout (t_hookEnable hk thr) ctx (ConnectTimeout hk) n e rt cancelled so e2"

subsection \<open>Options\<close>

text \<open>What the original \<open>fcntl\<close> is called with.\<close>

datatype fcntl_arg = NoArg | IntArg u32 | PtrArg nat

definition F_GETFL :: int where "F_GETFL = 3"
definition F_SETFL :: int where "F_SETFL = 4"

text \<open>\<open>F_DUPFD\<close>, \<open>F_DUPFD_CLOEXEC\<close>, \<open>F_SETFD\<close>, \<open>F_SETOWN\<close>, \<open>F_SETSIG\<close>, \<open>F_SETLEASE\<close>, \<open>F_NOTIFY\<close>,
  \<open>F_SETPIPE_SZ\<close>; then \<open>F_SETLK\<close>, \<open>F_SETLKW\<close>, \<open>F_GETLK\<close>, \<open>F_GETOWN_EX\<close>, \<open>F_SETOWN_EX\<close>.\<close>

definition fcntl_int_cmds :: "int list" where "fcntl_int_cmds = [0, 1030, 2, 8, 10, 1024, 1026, 1031]"
definition fcntl_ptr_cmds :: "int list" where "fcntl_ptr_cmds = [6, 7, 5, 16, 15]"

text \<open>
  \<open>va_arg\<close> reads the argument as an \<open>int\<close> or a pointer. The result is the call of \<open>fcntl_f\<close>, the
  context after it and, for \<open>F_GETFL\<close>, how its result \<open>r\<close> is changed.
\<close>

definition fcntl_hook :: "int \<Rightarrow> u32 \<Rightarrow> nat \<Rightarrow> fd_ctx option \<Rightarrow> fcntl_arg \<times> fd_ctx option \<times> (u32 \<Rightarrow> u32)" where
  "fcntl_hook cmd arg ptr ctx =
     (if cmd = F_SETFL then
        (case ctx of None \<Rightarrow> (IntArg arg, ctx, id)
         | Some c \<Rightarrow> if m_isClosed c \<or> \<not> m_isSocket c then (IntArg arg, ctx, id)
             else let c1 = c\<lparr>m_userNonblock := (arg AND O_NONBLOCK \<noteq> 0)\<rparr> in
               (IntArg (if m_sysNonblock c1 then arg OR O_NONBLOCK else arg AND NOT O_NONBLOCK), Some c1, id))
      else if cmd = F_GETFL then
        (NoArg, ctx, case ctx of None \<Rightarrow> id
         | Some c \<Rightarrow> if m_isClosed c \<or> \<not> m_isSocket c then id
             else if m_userNonblock c then (\<lambda>r. r OR O_NONBLOCK) else (\<lambda>r. r AND NOT O_NONBLOCK))
      else if cmd \<in> set fcntl_int_cmds then (IntArg arg, ctx, id)
      else if cmd \<in> set fcntl_ptr_cmds then (PtrArg ptr, ctx, id)
      else (NoArg, ctx, id))"

definition FIONBIO :: u64 where "FIONBIO = 0x5421"

text \<open>\<open>v\<close> is the integer the argument points to.\<close>

definition ioctl_hook :: "u64 \<Rightarrow> int \<Rightarrow> fd_ctx option \<Rightarrow> hook_action list \<times> fd_ctx option" where
  "ioctl_hook request v ctx =
     (if request = FIONBIO then
        (case ctx of None \<Rightarrow> ([CallOrigin], ctx)
         | Some c \<Rightarrow> if m_isClosed c \<or> \<not> m_isSocket c then ([CallOrigin], ctx)
             else ([CallOrigin], Some (c\<lparr>m_userNonblock := (v \<noteq> 0)\<rparr>)))
      else ([CallOrigin], ctx))"

definition getsockopt_hook :: "hook_action list" where
  "getsockopt_hook = [CallOrigin]"

definition SOL_SOCKET :: int where "SOL_SOCKET = 1"

definition timeout_of_opt :: "int \<Rightarrow> timeout_opt option" where
  "timeout_of_opt optname = (if optname = 20 then Some SO_RCVTIMEO else if optname = 21 then Some SO_SNDTIMEO else None)"

definition setsockopt_hook :: "bool \<Rightarrow> int \<Rightarrow> int \<Rightarrow> int \<Rightarrow> int \<Rightarrow> fd_ctx option \<Rightarrow> hook_action list \<times> fd_ctx option" where
  "setsockopt_hook en level optname tv_sec tv_usec ctx =
     ([CallOrigin],
      if \<not> en then ctx
      else if level = SOL_SOCKET then
        (case timeout_of_opt optname of Some opt \<Rightarrow> setsockopt_timeout en opt tv_sec tv_usec ctx | None \<Rightarrow> ctx)
      else ctx)"

subsection \<open>Properties\<close>

text \<open>\<open>fcntl_SETFL\<close>, \<open>fcntl_GETFL\<close> and \<open>ioctl_FIONBIO\<close> are what these calls do together with the kernel.\<close>

lemma fcntl_hook_SETFL:
  "fcntl_SETFL kset arg (ctx, flags) =
    (case fcntl_hook F_SETFL arg ptr ctx of (a, ctx', f) \<Rightarrow> (ctx', kset flags (case a of IntArg v \<Rightarrow> v | _ \<Rightarrow> 0)))"
  by (auto simp: fcntl_hook_def fcntl_SETFL_def Let_def split: option.splits)

lemma fcntl_hook_GETFL:
  "fcntl_GETFL (ctx, flags) = (case fcntl_hook F_GETFL arg ptr ctx of (a, ctx', f) \<Rightarrow> f flags)"
  by (auto simp: fcntl_hook_def fcntl_GETFL_def F_GETFL_def F_SETFL_def split: option.splits)

lemma ioctl_hook_FIONBIO: "fst (ioctl_FIONBIO on (ctx, flags)) = snd (ioctl_hook FIONBIO (if on then 1 else 0) ctx)"
  by (auto simp: ioctl_hook_def ioctl_FIONBIO_def Let_def split: option.splits)

text \<open>A command that the switch does not know loses its argument, here \<open>F_ADD_SEALS\<close>.\<close>

lemma unknown_cmd_drops_argument: "fst (fcntl_hook 1033 arg ptr ctx) = NoArg"
  by (simp add: fcntl_hook_def F_GETFL_def F_SETFL_def fcntl_int_cmds_def fcntl_ptr_cmds_def)

text \<open>
  A descriptor made by \<open>F_DUPFD\<close> has no context, while the file behind it is non-blocking: an
  \<open>EAGAIN\<close> reaches the program.
\<close>

lemma duplicate_not_hidden:
  "fcntl_hook 0 arg ptr ctx = (IntArg arg, ctx, id) \<and>
   read_hook True None (Ret (- 1) EAGAIN # s) = ([CallOrigin], Some (- 1, EAGAIN))"
  by (simp add: fcntl_hook_def F_GETFL_def F_SETFL_def fcntl_int_cmds_def read_hook_def do_io_def)

text \<open>\<open>isInited\<close> is never set, so each call of \<open>hookInit\<close> looks all functions up again.\<close>

lemma hookInit_effect:
  assumes "\<not> isInited hk"
  shows "\<not> isInited (hookInit dlsym hk)"
    and "f \<in> set HOOK_FUN \<Longrightarrow> origin_f (hookInit dlsym hk) f = dlsym f"
proof -
  show "\<not> isInited (hookInit dlsym hk)" using assms by (simp add: hookInit_def)
  have "fold (\<lambda>f m. m(f := dlsym f)) fs m f = (if f \<in> set fs then dlsym f else m f)" for fs m
    by (induction fs arbitrary: m) auto
  then show "f \<in> set HOOK_FUN \<Longrightarrow> origin_f (hookInit dlsym hk) f = dlsym f" using assms by (simp add: hookInit_def)
qed

lemma timeout_notify_fold:
  assumes "\<forall>n\<in>set ntfs. snd (snd n) = v"
  shows "fold timeout_notify ntfs hk
    = (if hk_listener hk \<in> set (map fst ntfs) then hk\<lparr>ConnectTimeout := to_timeout v\<rparr> else hk)"
  using assms by (induction ntfs arbitrary: hk) (auto simp: timeout_notify_def simp del: set_map)

definition timeout_ok :: "hook_state \<Rightarrow> bool" where
  "timeout_ok hk \<longleftrightarrow> ConnectTimeout hk = to_timeout (m_val (hk_var hk)) \<and> hk_listener hk \<in> set (m_onChangeMap (hk_var hk))"

lemma timeout_ok_init: "timeout_ok (HookIniter dlsym funcId hk)"
  by (simp add: timeout_ok_def HookIniter_def hookInit_def addListener_def Let_def)

lemma timeout_ok_set:
  assumes "timeout_ok hk"
  shows "timeout_ok (set_connect_timeout v hk)" "m_val (hk_var (set_connect_timeout v hk)) = v"
proof -
  let ?ntfs = "fst (setValue v (hk_var hk))"
  have n: "\<forall>n\<in>set ?ntfs. snd (snd n) = v" by (auto simp: setValue_def Let_def)
  show "timeout_ok (set_connect_timeout v hk)" "m_val (hk_var (set_connect_timeout v hk)) = v"
    using assms timeout_notify_fold [OF n]
    by (auto simp: timeout_ok_def set_connect_timeout_def setValue_def Let_def image_image)
qed

text \<open>
  The timeout of \<open>connect\<close> follows the variable \<open>tcp.connect.timeout\<close> through every change of it; a value of
  \<open>-1\<close> means no timeout.
\<close>

lemma connect_timeout_follows:
  "connect_hook thr (fold set_connect_timeout (vs @ [v]) (HookIniter dlsym funcId hk)) ctx n e rt c so e2
    = connect_with_timeout (t_hookEnable (fold set_connect_timeout (vs @ [v]) (HookIniter dlsym funcId hk)) thr) ctx
        (if v = - 1 then - 1 else to_timeout v) n e rt c so e2"
proof -
  have "timeout_ok (fold set_connect_timeout us (HookIniter dlsym funcId hk))" for us
    by (induction us rule: rev_induct) (simp_all add: timeout_ok_init timeout_ok_set)
  note ok = this [of vs]
  have "ConnectTimeout (set_connect_timeout v (fold set_connect_timeout vs (HookIniter dlsym funcId hk))) = to_timeout v"
    using timeout_ok_set [OF ok, of v] by (simp add: timeout_ok_def)
  then show ?thesis by (simp add: connect_hook_def to_timeout_def)
qed

end
