(* ===== verification/IOWaiters.thy ===== *)
theory IOWaiters
  imports IOManager
begin

text \<open>
  Accounting for the waiters of the I/O manager (\<open>src/fiber/iomannager.cc\<close>): whoever registers for an
  event is either still registered or has been scheduled, once. \<open>delEvent\<close>, which withdraws a
  registration without waking anybody and which no part of the program calls, is left out of the runs.
\<close>

definition ctx_waiters :: "fd_context \<Rightarrow> (nat \<times> schedule_task) multiset" where
  "ctx_waiters c = (if fc_events c AND READ \<noteq> 0 then {#wake READ c#} else {#})
     + (if fc_events c AND WRITE \<noteq> 0 then {#wake WRITE c#} else {#})"

definition waiters :: "io_manager \<Rightarrow> (nat \<times> schedule_task) multiset" where
  "waiters io = (\<Sum>c\<leftarrow>fd_contexts io. ctx_waiters c)"

text \<open>The task that \<open>addEvent\<close> registers.\<close>

definition registers :: "nat \<Rightarrow> nat \<times> fiber_state \<Rightarrow> nat option \<Rightarrow> nat \<times> schedule_task" where
  "registers s fib cb = (s, case cb of Some f \<Rightarrow> ScheduleTask_cb (Some f) (- 1) | None \<Rightarrow> ScheduleTask_fiber (Some (fst fib)) (- 1))"

subsection \<open>One context\<close>

lemma sum_list_upd:
  fixes f :: "'a \<Rightarrow> 'b :: cancel_comm_monoid_add"
  shows "i < length xs \<Longrightarrow> (\<Sum>x\<leftarrow>xs[i := y]. f x) + f (xs ! i) = (\<Sum>x\<leftarrow>xs. f x) + f y"
  by (induction xs arbitrary: i) (auto simp: ac_simps split: nat.split)

lemma waiters_update:
  assumes "p < length (fd_contexts io)" and "fd_contexts io' = (fd_contexts io)[p := c']"
    and "ctx_waiters c' + x = ctx_waiters (fd_contexts io ! p) + y"
  shows "waiters io' + x = waiters io + y"
proof -
  have "waiters io' + ctx_waiters (fd_contexts io ! p) = waiters io + ctx_waiters c'"
    using sum_list_upd [OF assms(1), of ctx_waiters c'] assms(2) by (simp add: waiters_def)
  then have "waiters io' + x + ctx_waiters (fd_contexts io ! p) = waiters io + (ctx_waiters c' + x)" by (simp add: ac_simps)
  then show ?thesis unfolding assms(3) by (simp add: ac_simps)
qed

lemma wake_cleared: "ev' \<noteq> ev \<Longrightarrow> {ev, ev'} \<subseteq> {READ, WRITE} \<Longrightarrow> wake ev' (cleared ev c) = wake ev' c"
  by (auto simp: wake_def waiter_def cleared_def setEventContext_def)

lemma ctx_waiters_cleared:
  assumes "ctx_ok c" and ev: "ev \<in> {READ, WRITE}" and "fc_events c AND ev \<noteq> 0"
  shows "ctx_waiters (cleared ev c) + {#wake ev c#} = ctx_waiters c"
proof -
  have e: "event_mask (fc_events c)" using assms(1) by (simp add: ctx_ok_def)
  note alg = event_algebra(3) [OF e ev] event_algebra(4) [OF e ev]
  show ?thesis
  proof (cases "ev = READ")
    case True
    then show ?thesis using alg(1) alg(2) [of WRITE] assms(3) wake_cleared [of WRITE READ c] by (simp add: ctx_waiters_def)
  next
    case False
    then have "ev = WRITE" using ev by simp
    then show ?thesis using alg(1) alg(2) [of READ] assms(3) wake_cleared [of READ WRITE c] by (simp add: ctx_waiters_def)
  qed
qed

lemma ctx_waiters_after:
  assumes "ctx_ok c" and "\<And>ev. ev \<in> {READ, WRITE} \<Longrightarrow> flags AND ev \<noteq> 0 \<Longrightarrow> fc_events c AND ev \<noteq> 0"
  shows "ctx_waiters (after flags c) + mset (woken flags c) = ctx_waiters c"
proof -
  define R W where "R = (if flags AND READ \<noteq> 0 then {#wake READ c#} else {#})"
    and "W = (if flags AND WRITE \<noteq> 0 then {#wake WRITE c#} else {#})"
  define c1 where "c1 = (if flags AND READ \<noteq> 0 then cleared READ c else c)"
  have e: "event_mask (fc_events c)" using assms(1) by (simp add: ctx_ok_def)
  have r: "ctx_waiters c1 + R = ctx_waiters c"
    using ctx_waiters_cleared [OF assms(1), of READ] assms(2) [of READ] by (simp add: R_def c1_def)
  have ok1: "ctx_ok c1" using assms(1) ctx_ok_cleared [OF assms(1), of READ] by (simp add: c1_def)
  have "fc_events c1 AND WRITE = fc_events c AND WRITE" "wake WRITE c1 = wake WRITE c"
    using event_algebra(4) [OF e, of READ WRITE] wake_cleared [of WRITE READ c] by (simp_all add: c1_def)
  moreover have "after flags c = (if flags AND WRITE \<noteq> 0 then cleared WRITE c1 else c1)"
    by (simp add: after_def c1_def Let_def)
  ultimately have "ctx_waiters (after flags c) + W = ctx_waiters c1"
    using ctx_waiters_cleared [OF ok1, of WRITE] assms(2) [of WRITE] by (simp add: W_def)
  moreover have "mset (woken flags c) = R + W" by (simp add: woken_def R_def W_def)
  moreover have "ctx_waiters (after flags c) + (R + W) = ctx_waiters (after flags c) + W + R" by (simp only: ac_simps)
  ultimately show ?thesis using r by simp
qed

lemma ctx_waiters_registered:
  assumes "ctx_ok c" and ev: "ev \<in> {READ, WRITE}" and "fc_events c AND ev = 0"
  shows "ctx_waiters (registered ev s fib cb c) = ctx_waiters c + {#registers s fib cb#}"
proof -
  have e: "event_mask (fc_events c)" using assms(1) by (simp add: ctx_ok_def)
  note alg = event_algebra(1) [OF e ev assms(3)] event_algebra(4) [OF e ev]
  have new: "wake ev (registered ev s fib cb c) = registers s fib cb"
    using ev by (auto simp: wake_def waiter_def registered_def setEventContext_def registers_def task_of_def split: option.splits)
  have old: "wake ev' (registered ev s fib cb c) = wake ev' c" if "ev' \<in> {READ, WRITE}" "ev' \<noteq> ev" for ev'
    using ev that by (auto simp: wake_def waiter_def registered_def setEventContext_def)
  have f: "fc_events (registered ev s fib cb c) = fc_events c OR ev" by (simp add: registered_def setEventContext_def)
  show ?thesis
  proof (cases "ev = READ")
    case True
    then show ?thesis using alg(1) alg(2) [of WRITE] assms(3) f new old [of WRITE] by (simp add: ctx_waiters_def)
  next
    case False
    then have "ev = WRITE" using ev by simp
    then show ?thesis using alg(1) alg(2) [of READ] assms(3) f new old [of READ] by (simp add: ctx_waiters_def)
  qed
qed

subsection \<open>The members\<close>

definition accounted :: "(nat \<times> schedule_task) list \<Rightarrow> io_manager \<Rightarrow> bool" where
  "accounted regs io \<longleftrightarrow> mset regs = waiters io + mset (io_tasks io)"

lemma waiters_resize: "length (m_fdContexts io) \<le> sz \<Longrightarrow> waiters (contextResize sz io) = waiters io"
proof -
  have "(\<Sum>i\<leftarrow>is. ctx_waiters (FdContext i)) = {#}" for "is"
    by (induction "is") (simp_all add: ctx_waiters_def FdContext_def NONE_def)
  then show ?thesis by (simp add: waiters_def contextResize_def Let_def comp_def)
qed

lemma addEvent_at_accounted:
  assumes inv: "io_inv io" and fd: "fd < length (m_fdContexts io)" and p: "p = m_fdContexts io ! fd" and ev: "ev \<in> {READ, WRITE}"
    and run: "addEvent_at ok (Some s) fib p fd ev cb io = Inr (r, io')" and acc: "accounted regs io"
  shows "accounted (regs @ (if ok then [registers s fib cb] else [])) io'"
proof (cases ok)
  case False
  then show ?thesis using run acc by (auto simp: addEvent_at_def bind_r_Inr_iff assert_r_Inr_iff)
next
  case True
  note ctx = io_inv_ctx [OF inv fd p]
  have free: "fc_events (fd_contexts io ! p) AND ev = 0" "cb \<noteq> None \<or> snd fib = EXEC"
    using run ctx(5) True
    by (auto simp: addEvent_at_def bind_r_Inr_iff assert_r_Inr_iff Let_def split: if_splits)
  have "io_tasks io' = io_tasks io" "fd_contexts io' = (fd_contexts io)[p := registered ev s fib cb (fd_contexts io ! p)]"
    using addEvent_at_correct [OF inv fd p ev free(2,1), of s] run True by auto
  moreover have "waiters io' + {#} = waiters io + {#registers s fib cb#}"
    using waiters_update [OF ctx(1) calculation(2)] ctx_waiters_registered [OF ctx(3) ev free(1)] by simp
  ultimately show ?thesis using acc True by (simp add: accounted_def)
qed

lemma addEvent_accounted:
  assumes inv: "io_inv io" and big: "2 \<le> length (m_fdContexts io)" and ev: "ev \<in> {READ, WRITE}"
    and run: "addEvent ok (Some s) fib fd ev cb io = Inr (r, io')" and acc: "accounted regs io"
  shows "accounted (regs @ (if ok then [registers s fib cb] else [])) io'"
proof (cases "fd < length (m_fdContexts io)")
  case True
  then show ?thesis
    using run addEvent_at_accounted [OF inv True HOL.refl ev _ acc] by (simp add: addEvent_def addEvent_lookup_def)
next
  case False
  then have le: "length (m_fdContexts io) \<le> fd * 3 div 2" using big by linarith
  obtain io1 where g: "addEvent_grow fd io = Inr (m_fdContexts io1 ! fd, io1)" "io_inv io1" "fd < length (m_fdContexts io1)"
    using addEvent_grow_correct [OF inv, of fd] big False by auto
  then have "io1 = contextResize (fd * 3 div 2) io" by (simp add: addEvent_grow_def Let_def split: if_splits)
  then have "accounted regs io1" using acc waiters_resize [OF le] by (simp add: accounted_def contextResize_def Let_def)
  then show ?thesis
    using run False g addEvent_at_accounted [OF g(2,3) HOL.refl ev] by (simp add: addEvent_def addEvent_lookup_def)
qed

lemma woken_accounted:
  assumes "p < length (fd_contexts io)" and "ctx_waiters c' + mset ts = ctx_waiters (fd_contexts io ! p)"
    and "fd_contexts io' = (fd_contexts io)[p := c']" "io_tasks io' = io_tasks io @ ts" and "accounted regs io"
  shows "accounted regs io'"
  using waiters_update [OF assms(1,3), of "mset ts" "{#}"] assms(2,4,5) by (simp add: accounted_def ac_simps)

subsection \<open>Runs\<close>

inductive io_trace :: "(nat \<times> schedule_task) list \<Rightarrow> io_manager \<Rightarrow> bool" where
  new: "io_trace [] new_IOManager"
| add: "io_trace regs io \<Longrightarrow> ev \<in> {READ, WRITE} \<Longrightarrow> addEvent ok (Some s) fib fd ev cb io = Inr (r, io') \<Longrightarrow>
    io_trace (regs @ (if ok then [registers s fib cb] else [])) io'"
| cancel: "io_trace regs io \<Longrightarrow> ev \<in> {READ, WRITE} \<Longrightarrow> cancelEvent ok fd ev io = Inr (r, io') \<Longrightarrow> io_trace regs io'"
| cancel_all: "io_trace regs io \<Longrightarrow> cancelAll ok fd io = Inr (r, io') \<Longrightarrow> io_trace regs io'"
| idle: "io_trace regs io \<Longrightarrow> fd < length (m_fdContexts io) \<Longrightarrow>
    idle_event ok ep (m_fdContexts io ! fd) io = Inr io' \<Longrightarrow> io_trace regs io'"

lemma io_trace_reach: "io_trace regs io \<Longrightarrow> io_reach io"
proof (induction rule: io_trace.induct)
  case (add regs io ev ok s fib fd cb r io')
  then show ?case by (meson io_step.add io_reach.step)
qed (auto intro: io_reach.intros io_step.intros)

lemma idle_event_accounted:
  assumes inv: "io_inv io" and fd: "fd < length (m_fdContexts io)" and p: "p = m_fdContexts io ! fd"
    and run: "idle_event ok ep p io = Inr io'" and acc: "accounted regs io"
  shows "accounted regs io'"
proof (cases "fc_events (fd_contexts io ! p) AND real_events ep (fc_events (fd_contexts io ! p)) = 0 \<or> \<not> ok")
  case True
  then have "io' = io" using run idle_event_real [OF io_inv_ctx(5) [OF inv fd p]] by auto
  then show ?thesis using acc by simp
next
  case False
  let ?c = "fd_contexts io ! p"
  let ?fl = "real_events ep (fc_events ?c)"
  note ctx = io_inv_ctx [OF inv fd p]
  have some: "fc_events ?c AND ?fl \<noteq> 0" and t: "idle_event True ep p io = Inr io'" using False run by auto
  have sub: "fc_events ?c AND ev \<noteq> 0" if "ev \<in> {READ, WRITE}" "?fl AND ev \<noteq> 0" for ev
    using idle_event_stale [OF inv fd p HOL.refl HOL.refl some that] t by auto
  from idle_event_correct [OF inv fd p HOL.refl HOL.refl some sub] t
  have "fd_contexts io' = (fd_contexts io)[p := after ?fl ?c]" "io_tasks io' = io_tasks io @ woken ?fl ?c" by auto
  from woken_accounted [OF ctx(1) ctx_waiters_after [OF ctx(3) sub] this acc] show ?thesis .
qed

lemma cancelEvent_accounted:
  assumes inv: "io_inv io" and ev: "ev \<in> {READ, WRITE}" and run: "cancelEvent ok fd ev io = Inr (r, io')"
    and acc: "accounted regs io"
  shows "accounted regs io'"
proof (cases "fd < length (m_fdContexts io) \<and> ok \<and> fc_events (fd_contexts io ! (m_fdContexts io ! fd)) AND ev \<noteq> 0")
  case False
  then have "io' = io"
    using run io_inv_ctx(5) [OF inv, of fd] by (auto simp: cancelEvent_def addEvent_lookup_def split: if_splits)
  then show ?thesis using acc by simp
next
  case True
  note ctx = io_inv_ctx [OF inv conjunct1 [OF True] HOL.refl]
  from True cancelEvent_correct [OF inv _ HOL.refl ev, of fd] run
  have "fd_contexts io' = (fd_contexts io)[m_fdContexts io ! fd := cleared ev (fd_contexts io ! (m_fdContexts io ! fd))]"
    "io_tasks io' = io_tasks io @ [wake ev (fd_contexts io ! (m_fdContexts io ! fd))]" by auto
  from woken_accounted [OF ctx(1) _ this acc] ctx_waiters_cleared [OF ctx(3) ev] True show ?thesis by simp
qed

lemma cancelAll_accounted:
  assumes inv: "io_inv io" and run: "cancelAll ok fd io = Inr (r, io')" and acc: "accounted regs io"
  shows "accounted regs io'"
proof (cases "fd < length (m_fdContexts io) \<and> ok \<and> fc_events (fd_contexts io ! (m_fdContexts io ! fd)) \<noteq> 0")
  case False
  then have "io' = io"
    using run io_inv_ctx(5) [OF inv, of fd] by (auto simp: cancelAll_def addEvent_lookup_def split: if_splits)
  then show ?thesis using acc by simp
next
  case True
  let ?c = "fd_contexts io ! (m_fdContexts io ! fd)"
  note ctx = io_inv_ctx [OF inv conjunct1 [OF True] HOL.refl]
  from True cancelAll_correct [OF inv _ HOL.refl, of fd] run
  have "fd_contexts io' = (fd_contexts io)[m_fdContexts io ! fd := after (fc_events ?c) ?c]"
    "io_tasks io' = io_tasks io @ woken (fc_events ?c) ?c" by auto
  from woken_accounted [OF ctx(1) ctx_waiters_after [OF ctx(3)] this acc] show ?thesis by simp
qed

lemma io_trace_accounted: "io_trace regs io \<Longrightarrow> accounted regs io"
proof (induction rule: io_trace.induct)
  case new
  have "waiters new_IOManager = {#}" "io_tasks new_IOManager = []"
    using waiters_resize [of "\<lparr>fd_contexts = [], m_fdContexts = [], m_pendingEventCount = 0, interest = Map.empty, io_tasks = []\<rparr>" 32]
    by (simp_all add: new_IOManager_def waiters_def contextResize_def Let_def)
  then show ?case by (simp add: accounted_def)
next
  case (add regs io ev ok s fib fd cb r io')
  have "io_inv io" "2 \<le> length (m_fdContexts io)" using io_reach_inv [OF io_trace_reach [OF add.hyps(1)]] by auto
  from addEvent_accounted [OF this add.hyps(2,3) add.IH] show ?case .
qed (use io_reach_inv [OF io_trace_reach] in
    \<open>blast intro: idle_event_accounted cancelEvent_accounted cancelAll_accounted\<close>)+

subsection \<open>The property\<close>

text \<open>
  C21: No waiter is lost and none is woken twice. In every run of the I/O manager, with \<open>regs\<close> the fibers
  and callbacks for which \<open>addEvent\<close> succeeded, each of them is either still registered with its
  descriptor or has been handed to the scheduler it came from, exactly once; in particular all of them
  have been handed over when no event is pending.
\<close>

theorem no_waiter_lost:
  assumes "io_trace regs io"
  shows "mset regs = waiters io + mset (io_tasks io)
    \<and> ((\<forall>c\<in>set (fd_contexts io). fc_events c = 0) \<longrightarrow> mset (io_tasks io) = mset regs)"
proof -
  have "(\<Sum>c\<leftarrow>cs. ctx_waiters c) = {#}" if "\<forall>c\<in>set cs. fc_events c = 0" for cs
    using that by (induction cs) (simp_all add: ctx_waiters_def)
  then show ?thesis using io_trace_accounted [OF assms] by (auto simp: accounted_def waiters_def)
qed

theorem no_waiter_lost_witness:
  "\<exists>io io'. addEvent True (Some 1) (7, EXEC) 5 READ None new_IOManager = Inr (0, io) \<and> cancelAll True 5 io = Inr (True, io')
     \<and> mset [(1, ScheduleTask_fiber (Some 7) (- 1))] = waiters io' + mset (io_tasks io')"
proof -
  have n: "5 < length (m_fdContexts new_IOManager)" "fc_events (fd_contexts new_IOManager ! (m_fdContexts new_IOManager ! 5)) = 0"
    by (simp_all add: new_IOManager_def contextResize_def Let_def FdContext_def NONE_def)
  from addEvent_at_correct [OF io_inv_new n(1) HOL.refl, of READ None "(7, EXEC)" 1] n
  obtain io where io: "addEvent True (Some 1) (7, EXEC) 5 READ None new_IOManager = Inr (0, io)" "io_inv io"
    "fc_events (fd_contexts io ! (m_fdContexts new_IOManager ! 5)) = READ" "m_fdContexts io = m_fdContexts new_IOManager"
    by (auto simp: addEvent_def addEvent_lookup_def)
  from cancelAll_correct [OF io(2) _ HOL.refl, of 5] io n obtain io' where io': "cancelAll True 5 io = Inr (True, io')" by auto
  from no_waiter_lost [OF io_trace.cancel_all [OF io_trace.add [OF io_trace.new _ io(1)] io']] io(1) io'
  show ?thesis by (auto simp: registers_def)
qed

end
