(* ===== verification/HookWait.thy ===== *)
theory HookWait
  imports HookCalls IOWaiters
begin

text \<open>
  A hooked call that has to wait (\<open>do_io\<close> and \<open>connect_with_timeout\<close> in \<open>src/hook/hook.cc\<close>), composed with
  the timers and the I/O manager it uses: registration, the timeout callback, and what the fiber does when it
  runs again. Theory \<open>Hook\<close> takes the outcome of a wait as given; here it is computed.
\<close>

text \<open>
  \<open>TimerInfo\<close> objects by address, \<open>None\<close> when destroyed, and the closures of the timeout callbacks: the
  weak pointer, the descriptor and the event they captured.
\<close>

record wait_world =
  ww_timers :: timer_manager
  ww_io :: io_manager
  ww_infos :: "nat \<rightharpoonup> int"
  ww_fns :: "nat \<rightharpoonup> nat \<times> nat \<times> event"

definition arm_timeout :: "u64 \<Rightarrow> nat \<Rightarrow> nat \<Rightarrow> nat \<Rightarrow> u64 \<Rightarrow> nat \<Rightarrow> event \<Rightarrow> wait_world \<Rightarrow> wait_world" where
  "arm_timeout now a f w to fd ev st =
     (if to \<noteq> - 1 then
        st\<lparr>ww_timers := addConditionTimer now a to (Function f) w False (ww_timers st),
           ww_fns := (ww_fns st)(f \<mapsto> (w, fd, ev))\<rparr>
      else st)"

definition drop_timeout :: "nat \<Rightarrow> u64 \<Rightarrow> wait_world \<Rightarrow> wait_world result" where
  "drop_timeout a to st =
     (if to \<noteq> - 1 then bind_r (cancel a (ww_timers st)) (\<lambda>(_, tm). Inr (st\<lparr>ww_timers := tm\<rparr>)) else Inr st)"

text \<open>
  From \<open>EAGAIN\<close> to \<open>YieldToReady\<close>: \<open>a\<close>, \<open>f\<close> and \<open>w\<close> are the addresses of the timer, its closure and the
  \<open>TimerInfo\<close>; the result is that of \<open>addEvent\<close>.
\<close>

definition wait_enter ::
  "u64 \<Rightarrow> nat \<Rightarrow> nat \<Rightarrow> nat \<Rightarrow> u64 \<Rightarrow> bool \<Rightarrow> nat \<Rightarrow> nat \<Rightarrow> nat \<Rightarrow> event \<Rightarrow> wait_world \<Rightarrow> (int \<times> wait_world) result" where
  "wait_enter now a f w to ctl_ok s fiber fd ev st =
     (let st1 = arm_timeout now a f w to fd ev st in
      bind_r (addEvent ctl_ok (Some s) (fiber, EXEC) fd ev None (ww_io st1)) (\<lambda>(rt, io).
        if rt \<noteq> 0 then bind_r (drop_timeout a to (st1\<lparr>ww_io := io\<rparr>)) (\<lambda>st2. Inr (rt, st2))
        else Inr (rt, st1\<lparr>ww_io := io\<rparr>)))"

text \<open>The closure. \<open>ctl_ok\<close> is the result of the \<open>epoll_ctl\<close> in \<open>cancelEvent\<close>.\<close>

definition on_timeout :: "bool \<Rightarrow> nat \<Rightarrow> wait_world \<Rightarrow> wait_world result" where
  "on_timeout ctl_ok f st = (case ww_fns st f of None \<Rightarrow> Inl NullDeref
     | Some (w, fd, ev) \<Rightarrow>
         (case ww_infos st w of None \<Rightarrow> Inr st
          | Some cancelled \<Rightarrow>
              if cancelled \<noteq> 0 then Inr st
              else bind_r (cancelEvent ctl_ok fd ev (ww_io st)) (\<lambda>(_, io).
                Inr (st\<lparr>ww_infos := (ww_infos st)(w \<mapsto> ETIMEDOUT), ww_io := io\<rparr>))))"

text \<open>After the yield: the timer is cancelled and \<open>tinfo->cancelled\<close> looked at.\<close>

definition wait_leave :: "nat \<Rightarrow> u64 \<Rightarrow> nat \<Rightarrow> wait_world \<Rightarrow> (int \<times> wait_world) result" where
  "wait_leave a to w st = bind_r (drop_timeout a to st) (\<lambda>st1.
     case ww_infos st1 w of None \<Rightarrow> Inl NullDeref | Some c \<Rightarrow> Inr (c, st1))"

subsection \<open>Entering\<close>

definition parked :: "nat \<Rightarrow> nat \<Rightarrow> nat \<Rightarrow> event \<Rightarrow> io_manager \<Rightarrow> bool" where
  "parked s fiber fd ev io \<longleftrightarrow> io_inv io \<and> fd < length (m_fdContexts io) \<and> ev \<in> {READ, WRITE} \<and>
     (let c = fd_contexts io ! (m_fdContexts io ! fd) in
      fc_events c AND ev \<noteq> 0 \<and> wake ev c = (s, ScheduleTask_fiber (Some fiber) (- 1)))"

lemma addEvent_parks:
  assumes "io_inv io" and "fd < length (m_fdContexts io)" and "ev \<in> {READ, WRITE}"
    and "fc_events (fd_contexts io ! (m_fdContexts io ! fd)) AND ev = 0"
  obtains io' where "addEvent True (Some s) (fiber, EXEC) fd ev None io = Inr (0, io')" and "parked s fiber fd ev io'"
    and "io_tasks io' = io_tasks io"
proof -
  let ?p = "m_fdContexts io ! fd"
  note ctx = io_inv_ctx [OF assms(1,2) HOL.refl]
  have "event_mask (fc_events (fd_contexts io ! ?p))" using ctx(3) by (simp add: ctx_ok_def)
  note alg = event_algebra(1) [OF this assms(3,4)]
  from addEvent_at_correct [OF assms(1,2) HOL.refl assms(3) _ assms(4), of None "(fiber, EXEC)" s]
  obtain io' where io': "addEvent_at True (Some s) (fiber, EXEC) ?p fd ev None io = Inr (0, io')" "io_inv io'"
    "io_tasks io' = io_tasks io" "m_fdContexts io' = m_fdContexts io"
    "fd_contexts io' = (fd_contexts io)[?p := registered ev s (fiber, EXEC) None (fd_contexts io ! ?p)]" by auto
  have "parked s fiber fd ev io'"
    using io' assms(2,3) ctx(1) alg
    by (auto simp: parked_def Let_def registered_def setEventContext_def wake_def waiter_def task_of_def)
  then show thesis using io' assms(2) by (intro that [of io']) (auto simp: addEvent_def addEvent_lookup_def)
qed

lemma parked_cancel:
  assumes "parked s fiber fd ev io"
  obtains io' where "cancelEvent True fd ev io = Inr (True, io')" and "io_inv io'"
    and "io_tasks io' = io_tasks io @ [(s, ScheduleTask_fiber (Some fiber) (- 1))]"
    and "fc_events (fd_contexts io' ! (m_fdContexts io' ! fd)) AND ev = 0"
proof -
  let ?p = "m_fdContexts io ! fd"
  have pk: "io_inv io" "fd < length (m_fdContexts io)" "ev \<in> {READ, WRITE}" "fc_events (fd_contexts io ! ?p) AND ev \<noteq> 0"
    "wake ev (fd_contexts io ! ?p) = (s, ScheduleTask_fiber (Some fiber) (- 1))"
    using assms by (auto simp: parked_def Let_def)
  note ctx = io_inv_ctx [OF pk(1,2) HOL.refl]
  have "event_mask (fc_events (fd_contexts io ! ?p))" using ctx(3) by (simp add: ctx_ok_def)
  from event_algebra(3) [OF this pk(3)] cancelEvent_correct [OF pk(1,2) HOL.refl pk(3,4)] pk(5) ctx(1)
  show thesis by (auto intro: that)
qed

lemma parked_ready:
  assumes "parked s fiber fd ev io" and "real_events ep (fc_events (fd_contexts io ! (m_fdContexts io ! fd))) = ev"
  obtains io' where "idle_event True ep (m_fdContexts io ! fd) io = Inr io'" and "io_inv io'"
    and "io_tasks io' = io_tasks io @ [(s, ScheduleTask_fiber (Some fiber) (- 1))]"
proof -
  let ?p = "m_fdContexts io ! fd"
  have pk: "io_inv io" "fd < length (m_fdContexts io)" "ev \<in> {READ, WRITE}" "fc_events (fd_contexts io ! ?p) AND ev \<noteq> 0"
    "wake ev (fd_contexts io ! ?p) = (s, ScheduleTask_fiber (Some fiber) (- 1))"
    using assms(1) by (auto simp: parked_def Let_def)
  have "fc_events (fd_contexts io ! ?p) AND e \<noteq> 0" if "e \<in> {READ, WRITE}" "ev AND e \<noteq> 0" for e
    using that pk(3,4) by (auto simp: event_defs)
  from idle_event_correct [OF pk(1,2) HOL.refl HOL.refl assms(2) [symmetric] pk(4) this]
  obtain io' where "idle_event True ep ?p io = Inr io'" "io_inv io'" "io_tasks io' = io_tasks io @ woken ev (fd_contexts io ! ?p)"
    by auto
  moreover have "woken ev (fd_contexts io ! ?p) = [wake ev (fd_contexts io ! ?p)]"
    using pk(3) by (auto simp: woken_def event_defs)
  ultimately show thesis using pk(5) by (intro that) simp_all
qed

subsection \<open>Waiting\<close>

text \<open>
  The fiber has yielded and nothing has happened to its wait: it is parked, and with a timeout its timer is armed for
  the time \<open>d\<close>. Whatever else the program did in between does not matter.
\<close>

definition timeout_armed :: "nat \<Rightarrow> nat \<Rightarrow> nat \<Rightarrow> u64 \<Rightarrow> u64 \<Rightarrow> nat \<Rightarrow> event \<Rightarrow> wait_world \<Rightarrow> bool" where
  "timeout_armed a f w to d fd ev st \<longleftrightarrow> ww_fns st f = Some (w, fd, ev) \<and> a \<in> set (m_timers (ww_timers st)) \<and>
     tm_heap (ww_timers st) a = Some \<lparr>m_recurring = False, m_ms = to, m_next = d, m_cb = Some (OnTimer w (Function f))\<rparr>"

definition hook_waiting :: "nat \<Rightarrow> nat \<Rightarrow> nat \<Rightarrow> u64 \<Rightarrow> u64 \<Rightarrow> nat \<Rightarrow> nat \<Rightarrow> nat \<Rightarrow> event \<Rightarrow> wait_world \<Rightarrow> bool" where
  "hook_waiting a f w to d s fiber fd ev st \<longleftrightarrow> tm_inv (ww_timers st) \<and> parked s fiber fd ev (ww_io st) \<and>
     ww_infos st w = Some 0 \<and> (to \<noteq> - 1 \<longrightarrow> timeout_armed a f w to d fd ev st)"

lemma wait_enter_waits:
  assumes "tm_inv (ww_timers st)" and "tm_heap (ww_timers st) a = None" and "io_inv (ww_io st)"
    and "fd < length (m_fdContexts (ww_io st))" and "ev \<in> {READ, WRITE}"
    and "fc_events (fd_contexts (ww_io st) ! (m_fdContexts (ww_io st) ! fd)) AND ev = 0" and "ww_infos st w = Some 0"
  obtains st1 where "wait_enter now a f w to True s fiber fd ev st = Inr (0, st1)"
    and "hook_waiting a f w to (now + to) s fiber fd ev st1" and "io_tasks (ww_io st1) = io_tasks (ww_io st)"
proof -
  obtain io where io: "addEvent True (Some s) (fiber, EXEC) fd ev None (ww_io st) = Inr (0, io)" "parked s fiber fd ev io"
    "io_tasks io = io_tasks (ww_io st)"
    using addEvent_parks [OF assms(3-6)] by metis
  let ?st1 = "(arm_timeout now a f w to fd ev st)\<lparr>ww_io := io\<rparr>"
  have "wait_enter now a f w to True s fiber fd ev st = Inr (0, ?st1)"
    using io(1) by (simp add: wait_enter_def arm_timeout_def Let_def)
  moreover have "hook_waiting a f w to (now + to) s fiber fd ev ?st1"
    using assms(1,7) io(2) tm_inv_addTimer [OF assms(1,2)]
    by (auto simp: hook_waiting_def timeout_armed_def arm_timeout_def addConditionTimer_def addTimer_def new_Timer_def)
  moreover have "io_tasks (ww_io ?st1) = io_tasks (ww_io st)" using io(3) by simp
  ultimately show thesis by (rule that)
qed

lemma drop_timeout_dead:
  assumes inv: "tm_inv (ww_timers st)"
    and t: "to \<noteq> - 1 \<Longrightarrow> tm_heap (ww_timers st) a = Some t" "m_cb t = None \<Longrightarrow> a \<notin> set (m_timers (ww_timers st))"
  shows "\<exists>tm. drop_timeout a to st = Inr (st\<lparr>ww_timers := tm\<rparr>) \<and> (to \<noteq> - 1 \<longrightarrow> dead a tm)"
proof (cases "to = - 1")
  case True
  show ?thesis by (rule exI [of _ "ww_timers st"]) (simp add: drop_timeout_def True)
next
  case False
  note c = cancel_correct [OF inv t(1) [OF False]]
  show ?thesis
  proof (cases "m_cb t = None")
    case True
    then show ?thesis using False c t by (intro exI [of _ "ww_timers st"]) (simp add: drop_timeout_def dead_def)
  next
    case armed: False
    let ?tm = "(ww_timers st)\<lparr>tm_heap := (tm_heap (ww_timers st))(a \<mapsto> t\<lparr>m_cb := None\<rparr>), m_timers := remove1 a (m_timers (ww_timers st))\<rparr>"
    have "a \<notin> set (m_timers ?tm)" using removed(2) [OF inv, of a] by simp
    moreover have "cancel a (ww_timers st) = Inr (True, ?tm)" unfolding c by (rule arg_cong [of _ _ Inr]) (rule if_not_P [OF armed])
    ultimately show ?thesis using False by (intro exI [of _ ?tm]) (simp add: drop_timeout_def dead_def)
  qed
qed

lemma waiting_ready:
  assumes "hook_waiting a f w to d s fiber fd ev st"
    and "real_events ep (fc_events (fd_contexts (ww_io st) ! (m_fdContexts (ww_io st) ! fd))) = ev"
  shows "\<exists>io st3. idle_event True ep (m_fdContexts (ww_io st) ! fd) (ww_io st) = Inr io
    \<and> io_tasks io = io_tasks (ww_io st) @ [(s, ScheduleTask_fiber (Some fiber) (- 1))]
    \<and> wait_leave a to w (st\<lparr>ww_io := io\<rparr>) = Inr (0, st3) \<and> (to \<noteq> - 1 \<longrightarrow> dead a (ww_timers st3))"
proof -
  have hw: "tm_inv (ww_timers st)" "parked s fiber fd ev (ww_io st)" "ww_infos st w = Some 0"
    "to \<noteq> - 1 \<longrightarrow> timeout_armed a f w to d fd ev st" using assms(1) by (auto simp: hook_waiting_def)
  obtain io where io: "idle_event True ep (m_fdContexts (ww_io st) ! fd) (ww_io st) = Inr io"
    "io_tasks io = io_tasks (ww_io st) @ [(s, ScheduleTask_fiber (Some fiber) (- 1))]"
    using parked_ready [OF hw(2) assms(2)] by metis
  let ?st = "st\<lparr>ww_io := io\<rparr>"
  let ?t = "\<lparr>m_recurring = False, m_ms = to, m_next = d, m_cb = Some (OnTimer w (Function f))\<rparr>"
  have "\<exists>tm. drop_timeout a to ?st = Inr (?st\<lparr>ww_timers := tm\<rparr>) \<and> (to \<noteq> - 1 \<longrightarrow> dead a tm)"
    by (rule drop_timeout_dead [where t = ?t]) (use hw(1,4) in \<open>simp_all add: timeout_armed_def\<close>)
  then obtain tm where "drop_timeout a to ?st = Inr (?st\<lparr>ww_timers := tm\<rparr>)" "to \<noteq> - 1 \<longrightarrow> dead a tm" by (elim exE conjE)
  then show ?thesis using io hw(3) by (simp add: wait_leave_def)
qed

lemma waiting_timeout:
  assumes "hook_waiting a f w to d s fiber fd ev st" and "to \<noteq> - 1" and "d \<le> now" and "tm_heap (ww_timers st) b = None"
  shows "\<exists>cbs tm st2 st3. listExpiredCb now b (ww_timers st) = Inr (cbs, tm) \<and> Some (OnTimer w (Function f)) \<in> set cbs
    \<and> on_timeout True f (st\<lparr>ww_timers := tm\<rparr>) = Inr st2
    \<and> io_tasks (ww_io st2) = io_tasks (ww_io st) @ [(s, ScheduleTask_fiber (Some fiber) (- 1))]
    \<and> wait_leave a to w st2 = Inr (ETIMEDOUT, st3)"
proof -
  have hw: "tm_inv (ww_timers st)" "parked s fiber fd ev (ww_io st)" "ww_infos st w = Some 0" "timeout_armed a f w to d fd ev st"
    using assms(1,2) by (auto simp: hook_waiting_def)
  have a: "a \<in> set (due now (ww_timers st))" using hw(4) assms(3) by (simp add: due_def timeout_armed_def next_at_def)
  obtain tm where tm: "listExpiredCb now b (ww_timers st)
      = Inr (map (\<lambda>a. m_cb (the (tm_heap (ww_timers st) a))) (due now (ww_timers st)), tm)" "tm_inv tm"
    "set (m_timers tm) = set (m_timers (ww_timers st)) - {a \<in> set (due now (ww_timers st)). \<not> m_recurring (the (tm_heap (ww_timers st) a))}"
    "tm_heap tm = (\<lambda>a. if a \<in> set (due now (ww_timers st)) then map_option (fired now) (tm_heap (ww_timers st) a) else tm_heap (ww_timers st) a)"
    by (rule listExpiredCb_correct [OF hw(1) assms(4), of now])
  have cb: "Some (OnTimer w (Function f)) \<in> set (map (\<lambda>a. m_cb (the (tm_heap (ww_timers st) a))) (due now (ww_timers st)))"
    unfolding set_map by (rule image_eqI [OF _ a]) (use hw(4) in \<open>simp add: timeout_armed_def\<close>)
  obtain io where io: "cancelEvent True fd ev (ww_io st) = Inr (True, io)"
    "io_tasks io = io_tasks (ww_io st) @ [(s, ScheduleTask_fiber (Some fiber) (- 1))]"
    by (rule parked_cancel [OF hw(2)])
  let ?st2 = "st\<lparr>ww_timers := tm, ww_infos := (ww_infos st)(w \<mapsto> ETIMEDOUT), ww_io := io\<rparr>"
  have run: "on_timeout True f (st\<lparr>ww_timers := tm\<rparr>) = Inr ?st2"
    using io hw(3,4) by (simp add: on_timeout_def timeout_armed_def)
  let ?t = "\<lparr>m_recurring = False, m_ms = to, m_next = d, m_cb = None\<rparr>"
  have "\<exists>tm'. drop_timeout a to ?st2 = Inr (?st2\<lparr>ww_timers := tm'\<rparr>) \<and> (to \<noteq> - 1 \<longrightarrow> dead a tm')"
    by (rule drop_timeout_dead [where t = ?t]) (use a hw(4) tm(2-4) in \<open>simp_all add: timeout_armed_def fired_def\<close>)
  then obtain tm' where "drop_timeout a to ?st2 = Inr (?st2\<lparr>ww_timers := tm'\<rparr>)" by (elim exE conjE)
  then have "wait_leave a to w ?st2 = Inr (ETIMEDOUT, ?st2\<lparr>ww_timers := tm'\<rparr>)" by (simp add: wait_leave_def)
  moreover have "io_tasks (ww_io ?st2) = io_tasks (ww_io st) @ [(s, ScheduleTask_fiber (Some fiber) (- 1))]" using io(2) by simp
  ultimately show ?thesis using tm(1) cb run
    by (intro exI [of _ "map _ _"] exI [of _ tm] exI [of _ ?st2] exI [of _ "?st2\<lparr>ww_timers := tm'\<rparr>"] conjI)
qed

subsection \<open>The property\<close>

text \<open>
  C23: A hooked call that waits is resumed. When \<open>do_io\<close> or \<open>connect_with_timeout\<close> registers for an event that nobody
  waits for, the fiber is parked with its timer armed for \<open>now + to\<close>. From any later state in which that
  still holds: if the event is reported, the fiber is scheduled once, finds that it was not cancelled, and
  its timer is dead, so that it never fires afterwards; if there is a timeout and the clock has reached it, the expired
  callbacks contain the one of this wait, which schedules the fiber once, and the call returns
  \<open>ETIMEDOUT\<close>; before that time, without a clock rollover, the timer is not among those that are due.
\<close>

theorem hooked_wait:
  assumes "tm_inv (ww_timers st)" and "tm_heap (ww_timers st) a = None" and "io_inv (ww_io st)"
    and "fd < length (m_fdContexts (ww_io st))" and "ev \<in> {READ, WRITE}"
    and "fc_events (fd_contexts (ww_io st) ! (m_fdContexts (ww_io st) ! fd)) AND ev = 0" and "ww_infos st w = Some 0"
  shows "(\<exists>st1. wait_enter now a f w to True s fiber fd ev st = Inr (0, st1)
      \<and> hook_waiting a f w to (now + to) s fiber fd ev st1 \<and> io_tasks (ww_io st1) = io_tasks (ww_io st))
    \<and> (\<forall>st. hook_waiting a f w to (now + to) s fiber fd ev st \<longrightarrow>
       (\<forall>ep. real_events ep (fc_events (fd_contexts (ww_io st) ! (m_fdContexts (ww_io st) ! fd))) = ev \<longrightarrow>
         (\<exists>io st3. idle_event True ep (m_fdContexts (ww_io st) ! fd) (ww_io st) = Inr io
           \<and> io_tasks io = io_tasks (ww_io st) @ [(s, ScheduleTask_fiber (Some fiber) (- 1))]
           \<and> wait_leave a to w (st\<lparr>ww_io := io\<rparr>) = Inr (0, st3) \<and> (to \<noteq> - 1 \<longrightarrow> dead a (ww_timers st3))))
       \<and> (\<forall>b now2. to \<noteq> - 1 \<and> now + to \<le> now2 \<and> tm_heap (ww_timers st) b = None \<longrightarrow>
         (\<exists>cbs tm st2 st3. listExpiredCb now2 b (ww_timers st) = Inr (cbs, tm) \<and> Some (OnTimer w (Function f)) \<in> set cbs
           \<and> on_timeout True f (st\<lparr>ww_timers := tm\<rparr>) = Inr st2
           \<and> io_tasks (ww_io st2) = io_tasks (ww_io st) @ [(s, ScheduleTask_fiber (Some fiber) (- 1))]
           \<and> wait_leave a to w st2 = Inr (ETIMEDOUT, st3)))
       \<and> (\<forall>now2. to \<noteq> - 1 \<and> now2 < now + to \<and> \<not> rolled_over now2 (ww_timers st) \<longrightarrow> a \<notin> set (due now2 (ww_timers st))))"
proof (intro conjI allI impI)
  obtain st1 where "wait_enter now a f w to True s fiber fd ev st = Inr (0, st1)"
    "hook_waiting a f w to (now + to) s fiber fd ev st1" "io_tasks (ww_io st1) = io_tasks (ww_io st)"
    by (rule wait_enter_waits [OF assms])
  then show "\<exists>st1. wait_enter now a f w to True s fiber fd ev st = Inr (0, st1)
      \<and> hook_waiting a f w to (now + to) s fiber fd ev st1 \<and> io_tasks (ww_io st1) = io_tasks (ww_io st)"
    by (intro exI [of _ st1] conjI)
next
  fix st now2
  assume "hook_waiting a f w to (now + to) s fiber fd ev st" "to \<noteq> - 1 \<and> now2 < now + to \<and> \<not> rolled_over now2 (ww_timers st)"
  then show "a \<notin> set (due now2 (ww_timers st))"
    by (simp add: hook_waiting_def timeout_armed_def due_def next_at_def not_le)
qed (erule (1) waiting_ready, elim conjE, erule (3) waiting_timeout)

definition sample_world :: wait_world where
  "sample_world = \<lparr>ww_timers = new_TimerManager 5, ww_io = sample_io, ww_infos = [3 \<mapsto> 0], ww_fns = Map.empty\<rparr>"

theorem hooked_wait_witness:
  "\<exists>st1 cbs tm st2 st3. wait_enter 5 0 8 3 10 True 1 9 0 WRITE sample_world = Inr (0, st1)
     \<and> listExpiredCb 15 2 (ww_timers st1) = Inr (cbs, tm) \<and> Some (OnTimer 3 (Function 8)) \<in> set cbs
     \<and> on_timeout True 8 (st1\<lparr>ww_timers := tm\<rparr>) = Inr st2 \<and> wait_leave 0 10 3 st2 = Inr (ETIMEDOUT, st3)"
proof -
  have p: "tm_inv (ww_timers sample_world)" "tm_heap (ww_timers sample_world) 0 = None" "io_inv (ww_io sample_world)"
    "0 < length (m_fdContexts (ww_io sample_world))" "WRITE \<in> {READ, WRITE}"
    "fc_events (fd_contexts (ww_io sample_world) ! (m_fdContexts (ww_io sample_world) ! 0)) AND WRITE = 0"
    "ww_infos sample_world 3 = Some 0"
    using tm_inv_new io_inv_sample by (simp_all add: sample_world_def sample_io_def event_defs)
  note hw = hooked_wait [OF p, of 5 8 10 1 9]
  obtain st1 where st1: "wait_enter 5 0 8 3 10 True 1 9 0 WRITE sample_world = Inr (0, st1)"
    "hook_waiting 0 8 3 10 (5 + 10) 1 9 0 WRITE st1" using hw by (elim conjE exE)
  have "ww_timers st1 = addTimer 5 0 10 (Some (OnTimer 3 (Function 8))) False (new_TimerManager 5)"
    using st1(1) by (auto simp: wait_enter_def arm_timeout_def addConditionTimer_def sample_world_def Let_def bind_r_Inr_iff
        drop_timeout_def split: if_splits)
  then have b: "tm_heap (ww_timers st1) 2 = None" by (simp add: addTimer_def)
  have "\<exists>cbs tm st2 st3. listExpiredCb 15 2 (ww_timers st1) = Inr (cbs, tm) \<and> Some (OnTimer 3 (Function 8)) \<in> set cbs
      \<and> on_timeout True 8 (st1\<lparr>ww_timers := tm\<rparr>) = Inr st2
      \<and> io_tasks (ww_io st2) = io_tasks (ww_io st1) @ [(1, ScheduleTask_fiber (Some 9) (- 1))]
      \<and> wait_leave 0 10 3 st2 = Inr (ETIMEDOUT, st3)"
    using conjunct2 [OF hw, rule_format, OF st1(2)] b by simp
  then show ?thesis using st1(1) by (elim exE conjE) (intro exI conjI; assumption)
qed

end
