(* ===== verification/HttpTables.thy ===== *)
theory HttpTables
  imports CString
begin

text \<open>
  The tables of HTTP methods and status codes of \<open>src/http/include/http_parser.h\<close> with their
  conversions in \<open>src/http/http.cc\<close>.
\<close>

subsection \<open>Methods and status codes\<close>

datatype HttpMethod =
    DELETE | GET | HEAD | POST | PUT | CONNECT | OPTIONS | TRACE | COPY | LOCK | MKCOL | MOVE |
    PROPFIND | PROPPATCH | SEARCH | UNLOCK | BIND | REBIND | UNBIND | ACL | REPORT | MKACTIVITY |
    CHECKOUT | MERGE | MSEARCH | NOTIFY | SUBSCRIBE | UNSUBSCRIBE | PATCH | PURGE | MKCALENDAR |
    LINK | UNLINK | SOURCE | INVALID_METHOD

text \<open>The tables of \<open>http_parser.h\<close>: number, name and text of the methods, code and text of the status.\<close>

definition HTTP_METHOD_MAP :: "(nat \<times> HttpMethod \<times> u8 list) list" where
  "HTTP_METHOD_MAP = [
     (0, DELETE, bytes ''DELETE''), (1, GET, bytes ''GET''), (2, HEAD, bytes ''HEAD''),
     (3, POST, bytes ''POST''), (4, PUT, bytes ''PUT''), (5, CONNECT, bytes ''CONNECT''),
     (6, OPTIONS, bytes ''OPTIONS''), (7, TRACE, bytes ''TRACE''), (8, COPY, bytes ''COPY''),
     (9, LOCK, bytes ''LOCK''), (10, MKCOL, bytes ''MKCOL''), (11, MOVE, bytes ''MOVE''),
     (12, PROPFIND, bytes ''PROPFIND''), (13, PROPPATCH, bytes ''PROPPATCH''),
     (14, SEARCH, bytes ''SEARCH''), (15, UNLOCK, bytes ''UNLOCK''), (16, BIND, bytes ''BIND''),
     (17, REBIND, bytes ''REBIND''), (18, UNBIND, bytes ''UNBIND''), (19, ACL, bytes ''ACL''),
     (20, REPORT, bytes ''REPORT''), (21, MKACTIVITY, bytes ''MKACTIVITY''),
     (22, CHECKOUT, bytes ''CHECKOUT''), (23, MERGE, bytes ''MERGE''),
     (24, MSEARCH, bytes ''M-SEARCH''), (25, NOTIFY, bytes ''NOTIFY''),
     (26, SUBSCRIBE, bytes ''SUBSCRIBE''), (27, UNSUBSCRIBE, bytes ''UNSUBSCRIBE''),
     (28, PATCH, bytes ''PATCH''), (29, PURGE, bytes ''PURGE''),
     (30, MKCALENDAR, bytes ''MKCALENDAR''), (31, LINK, bytes ''LINK''),
     (32, UNLINK, bytes ''UNLINK''), (33, SOURCE, bytes ''SOURCE'')]"

definition HTTP_STATUS_MAP :: "(nat \<times> u8 list) list" where
  "HTTP_STATUS_MAP = [
     (100, bytes ''Continue''), (101, bytes ''Switching Protocols''), (102, bytes ''Processing''),
     (200, bytes ''OK''), (201, bytes ''Created''), (202, bytes ''Accepted''),
     (203, bytes ''Non-Authoritative Information''), (204, bytes ''No Content''),
     (205, bytes ''Reset Content''), (206, bytes ''Partial Content''),
     (207, bytes ''Multi-Status''), (208, bytes ''Already Reported''), (226, bytes ''IM Used''),
     (300, bytes ''Multiple Choices''), (301, bytes ''Moved Permanently''), (302, bytes ''Found''),
     (303, bytes ''See Other''), (304, bytes ''Not Modified''), (305, bytes ''Use Proxy''),
     (307, bytes ''Temporary Redirect''), (308, bytes ''Permanent Redirect''),
     (400, bytes ''Bad Request''), (401, bytes ''Unauthorized''),
     (402, bytes ''Payment Required''), (403, bytes ''Forbidden''), (404, bytes ''Not Found''),
     (405, bytes ''Method Not Allowed''), (406, bytes ''Not Acceptable''),
     (407, bytes ''Proxy Authentication Required''), (408, bytes ''Request Timeout''),
     (409, bytes ''Conflict''), (410, bytes ''Gone''), (411, bytes ''Length Required''),
     (412, bytes ''Precondition Failed''), (413, bytes ''Payload Too Large''),
     (414, bytes ''URI Too Long''), (415, bytes ''Unsupported Media Type''),
     (416, bytes ''Range Not Satisfiable''), (417, bytes ''Expectation Failed''),
     (421, bytes ''Misdirected Request''), (422, bytes ''Unprocessable Entity''),
     (423, bytes ''Locked''), (424, bytes ''Failed Dependency''),
     (426, bytes ''Upgrade Required''), (428, bytes ''Precondition Required''),
     (429, bytes ''Too Many Requests''), (431, bytes ''Request Header Fields Too Large''),
     (451, bytes ''Unavailable For Legal Reasons''), (500, bytes ''Internal Server Error''),
     (501, bytes ''Not Implemented''), (502, bytes ''Bad Gateway''),
     (503, bytes ''Service Unavailable''), (504, bytes ''Gateway Timeout''),
     (505, bytes ''HTTP Version Not Supported''), (506, bytes ''Variant Also Negotiates''),
     (507, bytes ''Insufficient Storage''), (508, bytes ''Loop Detected''),
     (510, bytes ''Not Extended''), (511, bytes ''Network Authentication Required'')]"

definition StringToHttpMethod :: "u8 list \<Rightarrow> HttpMethod" where
  "StringToHttpMethod m = (case find (\<lambda>(num, name, str). str = c_str m) HTTP_METHOD_MAP of
     Some (num, name, str) \<Rightarrow> name | None \<Rightarrow> INVALID_METHOD)"

definition CharsToHttpMethod :: "u8 list \<Rightarrow> HttpMethod" where
  "CharsToHttpMethod m = (case find (\<lambda>(num, name, str). take (length str) (c_str m) = str) HTTP_METHOD_MAP of
     Some (num, name, str) \<Rightarrow> name | None \<Rightarrow> INVALID_METHOD)"

definition s_method_string :: "u8 list list" where
  "s_method_string = map (\<lambda>(num, name, str). str) HTTP_METHOD_MAP"

text \<open>\<open>(uint32_t)m\<close>; \<open>INVALID_METHOD\<close> follows the last method of the map.\<close>

definition method_value :: "HttpMethod \<Rightarrow> nat" where
  "method_value m = (case find (\<lambda>(num, name, str). name = m) HTTP_METHOD_MAP of
     Some (num, name, str) \<Rightarrow> num | None \<Rightarrow> 34)"

definition HttpMethodToString :: "HttpMethod \<Rightarrow> u8 list" where
  "HttpMethodToString m = (let idx = method_value m in
     if length s_method_string \<le> idx then bytes ''<unknown>'' else s_method_string ! idx)"

definition HttpStatusToString :: "nat \<Rightarrow> u8 list" where
  "HttpStatusToString s = (case find (\<lambda>(code, msg). code = s) HTTP_STATUS_MAP of
     Some (code, msg) \<Rightarrow> msg | None \<Rightarrow> bytes ''<unknown>'')"

subsection \<open>Methods: tables and text agree\<close>

lemma method_entry:
  "m \<noteq> INVALID_METHOD \<Longrightarrow> method_value m < 34 \<and> HTTP_METHOD_MAP ! method_value m = (method_value m, m, s_method_string ! method_value m)"
  by (cases m) (simp_all add: method_value_def s_method_string_def HTTP_METHOD_MAP_def)

lemma method_map_values: "list_all (\<lambda>(num, name, str). method_value name = num \<and> num < 34 \<and> name \<noteq> INVALID_METHOD) HTTP_METHOD_MAP"
  unfolding HTTP_METHOD_MAP_def by (simp add: method_value_def HTTP_METHOD_MAP_def)

lemma method_map_nums: "map fst HTTP_METHOD_MAP = [0..<34]"
  by (simp add: HTTP_METHOD_MAP_def upt_rec)

lemma length_method_map [simp]: "length HTTP_METHOD_MAP = 34" "length s_method_string = 34"
  by (simp_all add: HTTP_METHOD_MAP_def s_method_string_def)

lemma method_text_prefix_free:
  "sorted_wrt (\<lambda>a b. take (length a) b \<noteq> a \<and> take (length b) a \<noteq> b) s_method_string"
  by code_simp

lemma method_text_no_nul: "list_all (\<lambda>s. 0 \<notin> set s) s_method_string"
  by code_simp

lemma find_unique:
  "i < length xs \<Longrightarrow> P (xs ! i) \<Longrightarrow> (\<And>j. j < i \<Longrightarrow> \<not> P (xs ! j)) \<Longrightarrow> find P xs = Some (xs ! i)"
  by (auto simp: find_Some_iff)

lemma method_text: "m \<noteq> INVALID_METHOD \<Longrightarrow> HttpMethodToString m = s_method_string ! method_value m"
  using method_entry [of m] by (simp add: HttpMethodToString_def Let_def)

lemma method_map_names:
  assumes "i < 34"
  shows "snd (snd (HTTP_METHOD_MAP ! i)) = HttpMethodToString (fst (snd (HTTP_METHOD_MAP ! i)))"
proof -
  obtain n name str where x: "HTTP_METHOD_MAP ! i = (n, name, str)" by (cases "HTTP_METHOD_MAP ! i")
  have "n = i" using arg_cong [OF method_map_nums, of "\<lambda>xs. xs ! i"] assms x by simp
  moreover have "method_value name = n" "name \<noteq> INVALID_METHOD"
    using method_map_values assms x by (auto simp: list_all_length)
  ultimately show ?thesis using x method_entry [of name] by (simp add: method_text)
qed

lemma nth_method_map: "i < 34 \<Longrightarrow> \<exists>n name. HTTP_METHOD_MAP ! i = (n, name, s_method_string ! i)"
  by (cases "HTTP_METHOD_MAP ! i") (simp add: s_method_string_def)

lemma find_method_text:
  assumes m: "m \<noteq> INVALID_METHOD" and P: "P (HttpMethodToString m)"
    and only: "\<And>j. j < method_value m \<Longrightarrow> \<not> P (s_method_string ! j)"
  shows "find (\<lambda>(num, name, str). P str) HTTP_METHOD_MAP = Some (method_value m, m, HttpMethodToString m)"
proof -
  have "find (\<lambda>(num, name, str). P str) HTTP_METHOD_MAP = Some (HTTP_METHOD_MAP ! method_value m)"
  proof (rule find_unique)
    show "\<not> (case HTTP_METHOD_MAP ! j of (num, name, str) \<Rightarrow> P str)" if "j < method_value m" for j
      using only [OF that] nth_method_map [of j] method_entry [OF m] that by auto
  qed (use method_entry [OF m] P in \<open>simp_all add: method_text [OF m]\<close>)
  then show ?thesis using method_entry [OF m] by (simp add: method_text [OF m])
qed

lemma method_text_prefix:
  assumes "i < j" and "j < 34"
  shows "take (length (s_method_string ! i)) (s_method_string ! j) \<noteq> s_method_string ! i"
    and "take (length (s_method_string ! j)) (s_method_string ! i) \<noteq> s_method_string ! j"
  using method_text_prefix_free assms by (auto simp: sorted_wrt_iff_nth_less)

lemma c_str_method_text: "m \<noteq> INVALID_METHOD \<Longrightarrow> c_str (HttpMethodToString m @ rest) = HttpMethodToString m @ c_str rest"
proof -
  assume m: "m \<noteq> INVALID_METHOD"
  have "0 \<notin> set (HttpMethodToString m)"
    using method_text_no_nul method_entry [OF m] by (simp add: method_text [OF m] list_all_length)
  then show ?thesis unfolding c_str_def by (subst takeWhile_append2) auto
qed

lemma prefixes_comparable:
  assumes "take (length a) s = a" and "take (length b) s = b"
  shows "take (length a) b = a \<or> take (length b) a = b"
proof (cases "length a \<le> length b")
  case True
  then have "take (length a) b = a" using assms by (metis min.absorb1 take_take)
  then show ?thesis ..
next
  case False
  then have "take (length b) a = b" using assms by (metis min.absorb1 nle_le take_take)
  then show ?thesis ..
qed

text \<open>Request methods. The text of every method is recognised again, by \<open>StringToHttpMethod\<close> as the
  whole string and by \<open>CharsToHttpMethod\<close> at the front of any longer string (no method is a prefix of
  another one); \<open>INVALID_METHOD\<close> prints as \<open>unknown\<close> and is what any other string reads as.\<close>

theorem HttpMethod_roundtrip:
  assumes "m \<noteq> INVALID_METHOD"
  shows "StringToHttpMethod (HttpMethodToString m) = m
    \<and> CharsToHttpMethod (HttpMethodToString m @ rest) = m
    \<and> HttpMethodToString INVALID_METHOD = bytes ''<unknown>''
    \<and> (StringToHttpMethod s \<noteq> INVALID_METHOD \<longrightarrow> c_str s = HttpMethodToString (StringToHttpMethod s))"
proof (intro conjI impI)
  let ?t = "HttpMethodToString m"
  have e: "method_value m < 34" "s_method_string ! method_value m = ?t"
    using method_entry [OF assms] by (simp_all add: method_text [OF assms])
  have pf: "take (length (s_method_string ! j)) ?t \<noteq> s_method_string ! j" "take (length ?t) (s_method_string ! j) \<noteq> ?t"
    if "j < method_value m" for j
    using method_text_prefix [OF that e(1)] by (simp_all add: e(2))
  have c: "c_str ?t = ?t" using c_str_method_text [OF assms, of "[]"] by (simp only: append_Nil2 c_str_Nil)
  have "find (\<lambda>(num, name, str). str = c_str ?t) HTTP_METHOD_MAP = Some (method_value m, m, ?t)"
    using pf(1) by (intro find_method_text [OF assms]) (simp_all add: c, metis order_refl take_all)
  then show "StringToHttpMethod ?t = m" by (simp add: StringToHttpMethod_def)
  have "find (\<lambda>(num, name, str). take (length str) (c_str (?t @ rest)) = str) HTTP_METHOD_MAP
      = Some (method_value m, m, ?t)"
  proof (rule find_method_text [OF assms])
    show "take (length ?t) (c_str (?t @ rest)) = ?t" by (simp add: c_str_method_text [OF assms])
    then show "take (length (s_method_string ! j)) (c_str (?t @ rest)) \<noteq> s_method_string ! j"
      if "j < method_value m" for j
      using pf [OF that] prefixes_comparable by blast
  qed
  then show "CharsToHttpMethod (?t @ rest) = m" by (simp add: CharsToHttpMethod_def)
  show "HttpMethodToString INVALID_METHOD = bytes ''<unknown>''"
    by (simp add: HttpMethodToString_def method_value_def HTTP_METHOD_MAP_def s_method_string_def)
next
  assume ne: "StringToHttpMethod s \<noteq> INVALID_METHOD"
  then obtain x where x: "find (\<lambda>(num, name, str). str = c_str s) HTTP_METHOD_MAP = Some x"
    by (auto simp: StringToHttpMethod_def split: option.splits)
  then obtain i where i: "i < 34" "HTTP_METHOD_MAP ! i = x" "(\<lambda>(num, name, str). str = c_str s) x"
    by (auto simp: find_Some_iff)
  have name: "StringToHttpMethod s = fst (snd x)" using x by (simp add: StringToHttpMethod_def split: prod.split)
  show "c_str s = HttpMethodToString (StringToHttpMethod s)"
    using i ne method_map_names [OF i(1)] by (auto simp: name)
qed

theorem HttpMethod_roundtrip_witness:
  "CharsToHttpMethod (HttpMethodToString GET @ bytes ''/x'') = GET"
  using HttpMethod_roundtrip [of GET "bytes ''/x''"] by simp

end
