(* ===== verification/Http.thy ===== *)
theory Http
  imports CppMap HttpTables
begin

text \<open>
  \<open>src/http/http.cc\<close> and \<open>http.h\<close>: the case-insensitive header, parameter and cookie maps, the lazy
  parsing of query string, body and cookies, and the serialisation of requests and responses.
  \<open>boost::lexical_cast\<close> and the time formatting of \<open>setCookie\<close> are arguments.
\<close>

unbundle bit_operations_syntax

subsection \<open>The maps\<close>

definition CaseInsensitiveLess :: "u8 list \<Rightarrow> u8 list \<Rightarrow> bool" where
  "CaseInsensitiveLess lhs rhs \<longleftrightarrow> strcasecmp lhs rhs < 0"

type_synonym MapType = "(u8 list \<times> u8 list) list"

definition ci_find :: "u8 list \<Rightarrow> MapType \<Rightarrow> u8 list option" where
  "ci_find = map_find CaseInsensitiveLess"

definition ci_insert :: "u8 list \<Rightarrow> u8 list \<Rightarrow> MapType \<Rightarrow> MapType" where
  "ci_insert = map_insert CaseInsensitiveLess"

definition ci_assign :: "u8 list \<Rightarrow> u8 list \<Rightarrow> MapType \<Rightarrow> MapType" where
  "ci_assign = map_assign CaseInsensitiveLess"

definition ci_erase :: "u8 list \<Rightarrow> MapType \<Rightarrow> MapType" where
  "ci_erase = map_erase CaseInsensitiveLess"

text \<open>\<open>checkGetAs\<close> and \<open>getAs\<close>; \<open>cast\<close> is \<open>boost::lexical_cast\<close>, \<open>None\<close> when it throws.\<close>

definition checkGetAs :: "(u8 list \<Rightarrow> 'a option) \<Rightarrow> MapType \<Rightarrow> u8 list \<Rightarrow> 'a \<Rightarrow> bool \<times> 'a" where
  "checkGetAs cast m key def = (case ci_find key m of None \<Rightarrow> (False, def)
     | Some s \<Rightarrow> (case cast s of Some v \<Rightarrow> (True, v) | None \<Rightarrow> (False, def)))"

definition getAs :: "(u8 list \<Rightarrow> 'a option) \<Rightarrow> MapType \<Rightarrow> u8 list \<Rightarrow> 'a \<Rightarrow> 'a" where
  "getAs cast m key def = (case ci_find key m of None \<Rightarrow> def
     | Some s \<Rightarrow> (case cast s of Some v \<Rightarrow> v | None \<Rightarrow> def))"

subsection \<open>Requests\<close>

record http_request =
  rq_method :: HttpMethod
  rq_version :: u8
  rq_close :: bool
  rq_websocket :: bool
  rq_parserParamFlag :: u8
  rq_path :: "u8 list"
  rq_query :: "u8 list"
  rq_fragment :: "u8 list"
  rq_body :: "u8 list"
  rq_headers :: MapType
  rq_params :: MapType
  rq_cookies :: MapType

definition new_HttpRequest :: "u8 \<Rightarrow> bool \<Rightarrow> http_request" where
  "new_HttpRequest version close =
     \<lparr>rq_method = GET, rq_version = version, rq_close = close, rq_websocket = False, rq_parserParamFlag = 0,
      rq_path = bytes ''/'', rq_query = [], rq_fragment = [], rq_body = [],
      rq_headers = [], rq_params = [], rq_cookies = []\<rparr>"

definition rq_getHeader :: "http_request \<Rightarrow> u8 list \<Rightarrow> u8 list \<Rightarrow> u8 list" where
  "rq_getHeader r key def = (case ci_find key (rq_headers r) of None \<Rightarrow> def | Some v \<Rightarrow> v)"

definition rq_setHeader :: "u8 list \<Rightarrow> u8 list \<Rightarrow> http_request \<Rightarrow> http_request" where
  "rq_setHeader key val r = r\<lparr>rq_headers := ci_assign key val (rq_headers r)\<rparr>"

definition rq_setParam :: "u8 list \<Rightarrow> u8 list \<Rightarrow> http_request \<Rightarrow> http_request" where
  "rq_setParam key val r = r\<lparr>rq_params := ci_assign key val (rq_params r)\<rparr>"

definition rq_setCookie :: "u8 list \<Rightarrow> u8 list \<Rightarrow> http_request \<Rightarrow> http_request" where
  "rq_setCookie key val r = r\<lparr>rq_cookies := ci_assign key val (rq_cookies r)\<rparr>"

definition rq_delHeader :: "u8 list \<Rightarrow> http_request \<Rightarrow> http_request" where
  "rq_delHeader key r = r\<lparr>rq_headers := ci_erase key (rq_headers r)\<rparr>"

definition rq_delParam :: "u8 list \<Rightarrow> http_request \<Rightarrow> http_request" where
  "rq_delParam key r = r\<lparr>rq_params := ci_erase key (rq_params r)\<rparr>"

definition rq_delCookie :: "u8 list \<Rightarrow> http_request \<Rightarrow> http_request" where
  "rq_delCookie key r = r\<lparr>rq_cookies := ci_erase key (rq_cookies r)\<rparr>"

definition rq_hasHeader :: "http_request \<Rightarrow> u8 list \<Rightarrow> u8 list option" where
  "rq_hasHeader r key = ci_find key (rq_headers r)"

definition rq_init :: "http_request \<Rightarrow> http_request" where
  "rq_init r = (let conn = rq_getHeader r (bytes ''connection'') [] in
     if conn = [] then r
     else if strcasecmp conn (bytes ''keep-alive'') = 0 then r\<lparr>rq_close := False\<rparr>
     else r\<lparr>rq_close := True\<rparr>)"

subsection \<open>Parameters and cookies\<close>

text \<open>The macro \<open>PARSE_PARAM(str, m, flag, trim)\<close>.\<close>

function parse_param ::
  "u8 list \<Rightarrow> u8 \<Rightarrow> (u8 list \<Rightarrow> u8 list) \<Rightarrow> nat \<Rightarrow> MapType \<Rightarrow> MapType" where
  "parse_param str flag trim pos m =
     (case find_from 61 str pos of None \<Rightarrow> m
      | Some key \<Rightarrow>
          let k = UrlDecode (trim (substr str pos (key - pos))) True in
          (case find_from flag str key of
            None \<Rightarrow> ci_insert k (UrlDecode (drop (key + 1) str) True) m
          | Some p \<Rightarrow>
              parse_param str flag trim (p + 1)
                (ci_insert k (UrlDecode (substr str (key + 1) (p - key - 1)) True) m)))"
  by pat_completeness auto
termination
  by (relation "measure (\<lambda>(str, flag, trim, pos, m). length str - pos)") (auto dest!: find_from_Some)

declare parse_param.simps [simp del]

definition trim_ws :: "u8 list \<Rightarrow> u8 list" where
  "trim_ws s = Trim s [32, 9, 13, 10]"

definition initQueryParam :: "http_request \<Rightarrow> http_request" where
  "initQueryParam r =
     (if rq_parserParamFlag r AND 1 \<noteq> 0 then r
      else r\<lparr>rq_params := parse_param (rq_query r) 38 id 0 (rq_params r),
             rq_parserParamFlag := rq_parserParamFlag r OR 1\<rparr>)"

definition initBodyParam :: "http_request \<Rightarrow> http_request" where
  "initBodyParam r =
     (if rq_parserParamFlag r AND 2 \<noteq> 0 then r
      else if \<not> strcasestr (rq_getHeader r (bytes ''content-type'') []) (bytes ''application/x-www-form-urlencoded'')
      then r\<lparr>rq_parserParamFlag := rq_parserParamFlag r OR 2\<rparr>
      else r\<lparr>rq_params := parse_param (rq_body r) 38 id 0 (rq_params r),
             rq_parserParamFlag := rq_parserParamFlag r OR 2\<rparr>)"

definition initCookies :: "http_request \<Rightarrow> http_request" where
  "initCookies r =
     (if rq_parserParamFlag r AND 4 \<noteq> 0 then r
      else let cookie = rq_getHeader r (bytes ''cookie'') [] in
      if cookie = [] then r\<lparr>rq_parserParamFlag := rq_parserParamFlag r OR 4\<rparr>
      else r\<lparr>rq_cookies := parse_param cookie 59 trim_ws 0 (rq_cookies r),
             rq_parserParamFlag := rq_parserParamFlag r OR 4\<rparr>)"

definition getParam :: "u8 list \<Rightarrow> u8 list \<Rightarrow> http_request \<Rightarrow> u8 list \<times> http_request" where
  "getParam key def r = (let r1 = initBodyParam (initQueryParam r) in
     (case ci_find key (rq_params r1) of None \<Rightarrow> def | Some v \<Rightarrow> v, r1))"

definition getCookie :: "u8 list \<Rightarrow> u8 list \<Rightarrow> http_request \<Rightarrow> u8 list \<times> http_request" where
  "getCookie key def r = (let r1 = initCookies r in
     (case ci_find key (rq_cookies r1) of None \<Rightarrow> def | Some v \<Rightarrow> v, r1))"

definition hasParam :: "u8 list \<Rightarrow> http_request \<Rightarrow> u8 list option \<times> http_request" where
  "hasParam key r = (let r1 = initBodyParam (initQueryParam r) in (ci_find key (rq_params r1), r1))"

definition hasCookie :: "u8 list \<Rightarrow> http_request \<Rightarrow> u8 list option \<times> http_request" where
  "hasCookie key r = (let r1 = initCookies r in (ci_find key (rq_cookies r1), r1))"

subsection \<open>Responses\<close>

record http_response =
  rs_status :: nat
  rs_version :: u8
  rs_close :: bool
  rs_websocket :: bool
  rs_body :: "u8 list"
  rs_reason :: "u8 list"
  rs_headers :: MapType
  rs_cookies :: "u8 list list"

definition new_HttpResponse :: "u8 \<Rightarrow> bool \<Rightarrow> http_response" where
  "new_HttpResponse version close =
     \<lparr>rs_status = 200, rs_version = version, rs_close = close, rs_websocket = False, rs_body = [],
      rs_reason = [], rs_headers = [], rs_cookies = []\<rparr>"

definition createResponse :: "http_request \<Rightarrow> http_response" where
  "createResponse r = new_HttpResponse (rq_version r) (rq_close r)"

definition rs_getHeader :: "http_response \<Rightarrow> u8 list \<Rightarrow> u8 list \<Rightarrow> u8 list" where
  "rs_getHeader r key def = (case ci_find key (rs_headers r) of None \<Rightarrow> def | Some v \<Rightarrow> v)"

definition rs_setHeader :: "u8 list \<Rightarrow> u8 list \<Rightarrow> http_response \<Rightarrow> http_response" where
  "rs_setHeader key val r = r\<lparr>rs_headers := ci_assign key val (rs_headers r)\<rparr>"

definition rs_delHeader :: "u8 list \<Rightarrow> http_response \<Rightarrow> http_response" where
  "rs_delHeader key r = r\<lparr>rs_headers := ci_erase key (rs_headers r)\<rparr>"

definition setRedirect :: "u8 list \<Rightarrow> http_response \<Rightarrow> http_response" where
  "setRedirect uri r = rs_setHeader (bytes ''Location'') uri (r\<lparr>rs_status := 302\<rparr>)"

text \<open>\<open>time2str\<close> is \<open>Time2Str\<close> with the format of the cookie date.\<close>

definition rs_setCookie ::
  "(int \<Rightarrow> u8 list) \<Rightarrow> u8 list \<Rightarrow> u8 list \<Rightarrow> int \<Rightarrow> u8 list \<Rightarrow> u8 list \<Rightarrow> bool \<Rightarrow> http_response \<Rightarrow> http_response" where
  "rs_setCookie time2str key val expired path domain secure r =
     r\<lparr>rs_cookies := rs_cookies r @
       [key @ bytes ''='' @ val
        @ (if expired > 0 then bytes '';expires='' @ time2str expired @ bytes '' GMT'' else [])
        @ (if domain \<noteq> [] then bytes '';domain='' @ domain else [])
        @ (if path \<noteq> [] then bytes '';path='' @ path else [])
        @ (if secure then bytes '';secure'' else [])]\<rparr>"

subsection \<open>Serialisation\<close>

definition crlf :: "u8 list" where "crlf = [13, 10]"

definition header_line :: "u8 list \<times> u8 list \<Rightarrow> u8 list" where
  "header_line e = fst e @ bytes '': '' @ snd e @ crlf"

definition version_text :: "u8 \<Rightarrow> u8 list" where
  "version_text v = bytes ''HTTP/'' @ decimal (unat (drop_bit 4 v)) @ bytes ''.'' @ decimal (unat (v AND 0x0F))"

definition connection_entry :: "bool \<Rightarrow> u8 list \<times> u8 list" where
  "connection_entry close = (bytes ''connection'', if close then bytes ''close'' else bytes ''keep-alive'')"

definition length_entry :: "u8 list \<Rightarrow> u8 list \<times> u8 list" where
  "length_entry body = (bytes ''content-length'', decimal (length body))"

definition rq_dump :: "http_request \<Rightarrow> u8 list" where
  "rq_dump r =
     HttpMethodToString (rq_method r) @ bytes '' '' @ rq_path r
     @ (if rq_query r = [] then [] else bytes ''?'') @ rq_query r
     @ (if rq_fragment r = [] then [] else bytes ''#'') @ rq_fragment r
     @ bytes '' '' @ version_text (rq_version r) @ crlf
     @ (if \<not> rq_websocket r then header_line (connection_entry (rq_close r)) else [])
     @ concat (map header_line (filter (\<lambda>e.
         \<not> (\<not> rq_websocket r \<and> strcasecmp (fst e) (bytes ''connection'') = 0)
         \<and> \<not> (rq_body r \<noteq> [] \<and> strcasecmp (fst e) (bytes ''content-length'') = 0)) (rq_headers r)))
     @ (if rq_body r \<noteq> [] then header_line (length_entry (rq_body r)) @ crlf @ rq_body r else crlf)"

definition rs_dump :: "http_response \<Rightarrow> u8 list" where
  "rs_dump r =
     version_text (rs_version r) @ bytes '' '' @ decimal (rs_status r) @ bytes '' ''
     @ (if rs_reason r = [] then HttpStatusToString (rs_status r) else rs_reason r) @ crlf
     @ concat (map header_line (filter (\<lambda>e.
         \<not> (\<not> rs_websocket r \<and> strcasecmp (fst e) (bytes ''connection'') = 0)) (rs_headers r)))
     @ concat (map (\<lambda>c. header_line (bytes ''Set-Cookie'', c)) (rs_cookies r))
     @ (if \<not> rs_websocket r then header_line (connection_entry (rs_close r)) else [])
     @ (if rs_body r \<noteq> [] then header_line (length_entry (rs_body r)) @ crlf @ rs_body r else crlf)"

subsection \<open>The header order is a strict weak order\<close>

definition lkey :: "u8 list \<Rightarrow> u8 list" where
  "lkey s = map tolower (c_str s)"

lemma lkey_simps [simp]:
  "lkey [] = []"
  "lkey (c # cs) = (if c = 0 then [] else tolower c # lkey cs)"
  by (simp_all add: lkey_def c_str_def)

lemma tolower_eq_0 [simp]: "tolower c = 0 \<longleftrightarrow> c = 0"
proof
  assume t: "tolower c = 0"
  show "c = 0"
  proof (cases "65 \<le> unat c \<and> unat c \<le> 90")
    case True
    then have "unat (c + 32) = unat c + 32" by (simp add: unat_word_ariths)
    then show ?thesis using t True by (simp add: tolower_def)
  qed (use t in \<open>auto simp: tolower_def\<close>)
qed (simp add: tolower_def)

lemma tolower_0 [simp]: "tolower 0 = 0"
  by simp

lemma strcasecmp_less: "strcasecmp l r < 0 \<longleftrightarrow> (lkey l, lkey r) \<in> lexord {(a, b). a < b}"
proof (induction l r rule: strcasecmp.induct)
  case (2 y ys)
  have "y \<noteq> 0 \<Longrightarrow> 0 < uint (tolower y)" by (metis tolower_eq_0 uint_0_iff uint_ge_0 le_less)
  then show ?case by auto
next
  case (3 x xs)
  then show ?case using uint_ge_0 [of "tolower x"] by (simp add: not_less)
next
  case (4 x xs y ys)
  have "tolower x < tolower y \<longleftrightarrow> uint (tolower x) < uint (tolower y)" by (rule word_less_def)
  moreover have "x = 0 \<Longrightarrow> tolower y \<noteq> tolower x \<Longrightarrow> y \<noteq> 0 \<and> uint (tolower y) > 0"
    by (metis tolower_eq_0 uint_0_iff uint_ge_0 le_less)
  moreover have "y = 0 \<Longrightarrow> tolower y = 0" "x = 0 \<Longrightarrow> tolower x = 0" by simp_all
  ultimately show ?case using 4 uint_ge_0 [of "tolower x"] by (cases "tolower x = tolower y") auto
qed simp

lemma strcasecmp_zero: "strcasecmp l r = 0 \<longleftrightarrow> lkey l = lkey r"
proof (induction l r rule: strcasecmp.induct)
  case (2 y ys)
  then show ?case by (simp add: uint_0_iff)
next
  case (3 x xs)
  then show ?case by (simp add: uint_0_iff)
next
  case (4 x xs y ys)
  show ?case
  proof (cases "tolower x = tolower y")
    case True
    then have "x = 0 \<longleftrightarrow> y = 0" by (metis tolower_eq_0)
    then show ?thesis using True 4 by auto
  next
    case False
    then have "\<not> (x = 0 \<and> y = 0)" by auto
    then show ?thesis using False by (auto simp flip: word_uint_eq_iff)
  qed
qed simp

lemma lexord_word_linear: "(a, b) \<in> lexord {(a, b). a < b} \<or> a = b \<or> (b, a) \<in> lexord {(a, b). a < b}"
  for a b :: "u8 list"
  by (intro lexord_linear) auto

lemma lexord_word_trans:
  "(a, b) \<in> lexord {(a, b). a < b} \<Longrightarrow> (b, c) \<in> lexord {(a, b). a < b} \<Longrightarrow> (a, c) \<in> lexord {(a, b). a < b}"
  for a b c :: "u8 list"
  by (erule lexord_trans) (auto intro: transI)

lemma lexord_word_irrefl: "(a, a) \<notin> lexord {(a, b). a < b}" for a :: "u8 list"
  by (intro lexord_irreflexive) auto

lemma ci_equiv: "equiv_by CaseInsensitiveLess a b \<longleftrightarrow> lkey a = lkey b"
  using lexord_word_linear [of "lkey a" "lkey b"] lexord_word_irrefl [of "lkey a"]
  by (auto simp: equiv_by_def CaseInsensitiveLess_def strcasecmp_less)

interpretation ci: cpp_weak_order CaseInsensitiveLess
proof
  show "\<not> CaseInsensitiveLess x x" for x
    by (simp add: CaseInsensitiveLess_def strcasecmp_less lexord_word_irrefl)
  show "CaseInsensitiveLess x z" if "CaseInsensitiveLess x y" and "CaseInsensitiveLess y z" for x y z
    using that lexord_word_trans by (auto simp: CaseInsensitiveLess_def strcasecmp_less)
qed (simp add: ci_equiv)

lemma ci_find_assign:
  "map_sorted CaseInsensitiveLess m \<Longrightarrow>
   ci_find j (ci_assign k v m) = (if lkey j = lkey k then Some v else ci_find j m)"
  unfolding ci_find_def ci_assign_def ci_equiv [symmetric] by (rule ci.find_assign)

lemma ci_find_insert:
  "map_sorted CaseInsensitiveLess m \<Longrightarrow>
   ci_find j (ci_insert k v m) = (if lkey j = lkey k \<and> ci_find k m = None then Some v else ci_find j m)"
  unfolding ci_find_def ci_insert_def ci_equiv [symmetric] by (rule ci.find_insert)

lemma ci_find_erase:
  "map_sorted CaseInsensitiveLess m \<Longrightarrow>
   ci_find j (ci_erase k m) = (if lkey j = lkey k then None else ci_find j m)"
  unfolding ci_find_def ci_erase_def ci_equiv [symmetric] by (rule ci.lookup_erase)

lemma ci_sorted [inv_intro]:
  assumes "map_sorted CaseInsensitiveLess m"
  shows "map_sorted CaseInsensitiveLess (ci_assign k v m)"
    and "map_sorted CaseInsensitiveLess (ci_insert k v m)"
    and "map_sorted CaseInsensitiveLess (ci_erase k m)"
  using assms by (simp_all add: ci_assign_def ci_insert_def ci_erase_def ci.sorted_assign ci.sorted_insert ci.sorted_erase)

text \<open>Header maps. On a map in comparator order (which every operation preserves), a lookup after an
  assignment, an insertion or an erasure depends on the keys only up to the case of ASCII letters:
  assignment overwrites, insertion keeps an existing value, erasure removes.\<close>

theorem header_map_laws:
  assumes "map_sorted CaseInsensitiveLess m"
  shows "ci_find j (ci_assign k v m) = (if lkey j = lkey k then Some v else ci_find j m)
    \<and> ci_find j (ci_insert k v m) = (if lkey j = lkey k \<and> ci_find k m = None then Some v else ci_find j m)
    \<and> ci_find j (ci_erase k m) = (if lkey j = lkey k then None else ci_find j m)
    \<and> map_sorted CaseInsensitiveLess (ci_assign k v m)
    \<and> map_sorted CaseInsensitiveLess (ci_insert k v m)
    \<and> map_sorted CaseInsensitiveLess (ci_erase k m)"
  using assms by (simp only: ci_find_assign ci_find_insert ci_find_erase ci_sorted simp_thms)

theorem header_map_laws_witness:
  "map_sorted CaseInsensitiveLess [(bytes ''Host'', bytes ''a'')]
   \<and> ci_find (bytes ''HOST'') (ci_assign (bytes ''host'') (bytes ''b'') [(bytes ''Host'', bytes ''a'')]) = Some (bytes ''b'')"
  using header_map_laws [of "[(bytes ''Host'', bytes ''a'')]" "bytes ''HOST''" "bytes ''host''" "bytes ''b''"]
  by (simp add: bytes_def tolower_def)

subsection \<open>Query strings\<close>

text \<open>One pair in front of the separator, and the last pair.\<close>

lemma parse_param_more:
  assumes "61 \<notin> set k" and "flag \<notin> set v" and "flag \<noteq> 61"
  shows "parse_param (pre @ k @ 61 # v @ flag # rest) flag trim (length pre) m
    = parse_param ((pre @ k @ 61 # v @ [flag]) @ rest) flag trim (length (pre @ k @ 61 # v @ [flag]))
        (ci_insert (UrlDecode (trim k) True) (UrlDecode v True) m)"
proof -
  have f1: "find_from 61 (pre @ k @ 61 # v @ flag # rest) (length pre) = Some (length pre + length k)"
    using assms by (intro find_from_hit)
  have f2: "find_from flag (pre @ k @ 61 # v @ flag # rest) (length pre + length k)
      = Some (length pre + length k + Suc (length v))"
    using find_from_hit [of flag "61 # v" "pre @ k" rest] assms by simp
  show ?thesis by (subst parse_param.simps) (simp add: f1 f2 Let_def substr_def add.assoc)
qed

lemma parse_param_last:
  assumes "61 \<notin> set k" and "flag \<notin> set v" and "flag \<noteq> 61"
  shows "parse_param (pre @ k @ 61 # v) flag trim (length pre) m
    = ci_insert (UrlDecode (trim k) True) (UrlDecode v True) m"
proof -
  have f1: "find_from 61 (pre @ k @ 61 # v) (length pre) = Some (length pre + length k)"
    using find_from_hit [of 61 k pre v] assms by simp
  have f2: "find_from flag (pre @ k @ 61 # v) (length pre + length k) = None"
    using find_from_miss [of flag "61 # v" "pre @ k"] assms by simp
  show ?thesis by (subst parse_param.simps) (simp add: f1 f2 Let_def substr_def)
qed

text \<open>The form encoding of a list of pairs, as a client writes it with \<open>UrlEncode\<close>.\<close>

fun form_encode :: "(u8 list \<times> u8 list) list \<Rightarrow> u8 list" where
  "form_encode [] = []"
| "form_encode [(k, v)] = UrlEncode k True @ 61 # UrlEncode v True"
| "form_encode ((k, v) # e # kvs) = UrlEncode k True @ 61 # UrlEncode v True @ 38 # form_encode (e # kvs)"

lemma url_escape_no_equals: "61 \<notin> set (url_escape sp c)"
proof -
  have "hexdigits d \<noteq> 61" if "unat d < 16" for d :: u8
  proof -
    have "unat (hexdigits d) = (if unat d < 10 then unat d + 48 else unat d + 55)"
      using that by (simp add: hexdigits_def unat_word_ariths)
    then show ?thesis using that by (auto split: if_splits)
  qed
  then show ?thesis using nibbles(1,2) [of c] by (auto simp: url_escape_def)
qed

lemma UrlEncode_no_equals: "61 \<notin> set k \<Longrightarrow> 61 \<notin> set (UrlEncode k sp)"
  using url_escape_no_equals by (auto simp: UrlEncode_ref enc_ref_def split: if_splits)

lemma UrlEncode_no_amp: "38 \<notin> set (UrlEncode v sp)"
proof
  assume "38 \<in> set (UrlEncode v sp)"
  then have "uri_chars (38 :: u8)" using enc_ref_chars [of 38 sp v] by (simp add: UrlEncode_ref)
  then show False by (simp add: uri_chars_def)
qed

lemma UrlDecode_UrlEncode: "UrlDecode (UrlEncode s sp) sp = s"
  by (simp add: UrlEncode_ref UrlDecode_ref dec_enc_ref)

lemma parse_form_encode:
  "(\<forall>e \<in> set kvs. 61 \<notin> set (fst e)) \<Longrightarrow>
   parse_param (pre @ form_encode kvs) 38 id (length pre) m = foldl (\<lambda>m e. ci_insert (fst e) (snd e) m) m kvs"
proof (induction kvs arbitrary: pre m rule: form_encode.induct)
  case 1
  then show ?case using find_from_miss [of 61 "[]" pre] by (subst parse_param.simps) simp
next
  case (2 k v)
  then show ?case
    using parse_param_last [of "UrlEncode k True" 38 "UrlEncode v True" pre id m]
    by (simp add: UrlEncode_no_equals UrlEncode_no_amp UrlDecode_UrlEncode id_def)
next
  case (3 k v e kvs)
  let ?pre = "pre @ UrlEncode k True @ 61 # UrlEncode v True @ [38]"
  have "parse_param (?pre @ form_encode (e # kvs)) 38 id (length ?pre) (ci_insert k v m)
      = foldl (\<lambda>m e. ci_insert (fst e) (snd e) m) (ci_insert k v m) (e # kvs)"
    using "3.prems" by (intro "3.IH") simp
  then show ?case
    using "3.prems" parse_param_more [of "UrlEncode k True" 38 "UrlEncode v True" pre "form_encode (e # kvs)" id m]
    by (simp add: UrlEncode_no_equals UrlEncode_no_amp UrlDecode_UrlEncode id_def)
qed

lemma find_fold_insert:
  "map_sorted CaseInsensitiveLess m \<Longrightarrow>
   ci_find key (foldl (\<lambda>m e. ci_insert (fst e) (snd e) m) m kvs)
     = (case ci_find key m of Some v \<Rightarrow> Some v | None \<Rightarrow> map_option snd (find (\<lambda>e. lkey (fst e) = lkey key) kvs))"
proof (induction kvs arbitrary: m)
  case Nil
  then show ?case by (simp split: option.split)
next
  case (Cons e kvs)
  have "lkey (fst e) = lkey key \<Longrightarrow> ci_find (fst e) m = ci_find key m"
    unfolding ci_find_def by (rule ci.find_equiv) (simp add: ci_equiv)
  then show ?case using Cons by (auto simp: ci_find_insert ci_sorted split: option.splits)
qed



lemma equals_in_key_splits:
  "parse_param (form_encode [(bytes ''a=b'', bytes ''c'')]) 38 id 0 [] = [(bytes ''a'', bytes ''b=c'')]"
  by code_simp

subsection \<open>Serialised messages\<close>

definition is_header :: "string \<Rightarrow> u8 list \<times> u8 list \<Rightarrow> bool" where
  "is_header name e \<longleftrightarrow> lkey (fst e) = lkey (bytes name)"

lemma other_headers:
  "lkey (bytes ''connection'') \<noteq> lkey (bytes ''content-length'')"
  "lkey (bytes ''Set-Cookie'') \<noteq> lkey (bytes ''content-length'')"
  "lkey (bytes ''Set-Cookie'') \<noteq> lkey (bytes ''connection'')"
  by (simp_all add: bytes_def tolower_def)

lemma is_header_entries [simp]:
  "is_header ''connection'' (connection_entry c)" "\<not> is_header ''content-length'' (connection_entry c)"
  "is_header ''content-length'' (length_entry b)" "\<not> is_header ''connection'' (length_entry b)"
  "\<not> is_header ''connection'' (bytes ''Set-Cookie'', v)" "\<not> is_header ''content-length'' (bytes ''Set-Cookie'', v)"
  using other_headers by (auto simp: is_header_def connection_entry_def length_entry_def)

text \<open>Serialising a request. The dump is the request line, a list of header lines, an empty line and
  the body. Unless the request is a websocket one there is exactly one \<open>connection\<close> field, the one
  that follows from \<open>m_close\<close>; with a body there is exactly one \<open>content-length\<close> field, with its size;
  all other stored headers appear once and unchanged, in the order of the map.\<close>

theorem request_dump_fields:
  "\<exists>fields.
     rq_dump r = HttpMethodToString (rq_method r) @ bytes '' '' @ rq_path r
         @ (if rq_query r = [] then [] else bytes ''?'' @ rq_query r)
         @ (if rq_fragment r = [] then [] else bytes ''#'' @ rq_fragment r)
         @ bytes '' '' @ version_text (rq_version r) @ crlf
         @ concat (map header_line fields) @ crlf @ rq_body r
     \<and> filter (is_header ''connection'') fields
         = (if rq_websocket r then filter (is_header ''connection'') (rq_headers r) else [connection_entry (rq_close r)])
     \<and> filter (is_header ''content-length'') fields
         = (if rq_body r = [] then filter (is_header ''content-length'') (rq_headers r) else [length_entry (rq_body r)])
     \<and> filter (\<lambda>e. \<not> is_header ''connection'' e \<and> \<not> is_header ''content-length'' e) fields
         = filter (\<lambda>e. \<not> is_header ''connection'' e \<and> \<not> is_header ''content-length'' e) (rq_headers r)"
proof -
  define kept where "kept = filter (\<lambda>e. \<not> (\<not> rq_websocket r \<and> is_header ''connection'' e)
      \<and> \<not> (rq_body r \<noteq> [] \<and> is_header ''content-length'' e)) (rq_headers r)"
  define fields where "fields = (if rq_websocket r then [] else [connection_entry (rq_close r)]) @ kept
      @ (if rq_body r = [] then [] else [length_entry (rq_body r)])"
  have kept: "filter (\<lambda>e. \<not> (\<not> rq_websocket r \<and> strcasecmp (fst e) (bytes ''connection'') = 0)
         \<and> \<not> (rq_body r \<noteq> [] \<and> strcasecmp (fst e) (bytes ''content-length'') = 0)) (rq_headers r) = kept"
    by (simp only: kept_def is_header_def strcasecmp_zero)
  have both: "\<not> (is_header ''connection'' e \<and> is_header ''content-length'' e)" for e
    using other_headers by (auto simp: is_header_def)
  show ?thesis
  proof (intro exI [of _ fields] conjI)
    show "filter (is_header ''connection'') fields
         = (if rq_websocket r then filter (is_header ''connection'') (rq_headers r) else [connection_entry (rq_close r)])"
      using both by (auto simp: fields_def kept_def filter_empty_conv intro!: filter_cong)
    show "filter (is_header ''content-length'') fields
         = (if rq_body r = [] then filter (is_header ''content-length'') (rq_headers r) else [length_entry (rq_body r)])"
      using both by (auto simp: fields_def kept_def filter_empty_conv intro!: filter_cong)
    show "filter (\<lambda>e. \<not> is_header ''connection'' e \<and> \<not> is_header ''content-length'' e) fields
         = filter (\<lambda>e. \<not> is_header ''connection'' e \<and> \<not> is_header ''content-length'' e) (rq_headers r)"
      by (auto simp: fields_def kept_def intro!: filter_cong)
  qed (simp only: rq_dump_def kept, simp add: fields_def)
qed

text \<open>Serialising a response. The structure is that of a request, with the cookies as \<open>Set-Cookie\<close>
  fields, but a stored \<open>content-length\<close> header is not suppressed: a response with a body has one more
  such field than its header map.\<close>

theorem response_dump_fields:
  "\<exists>fields.
     rs_dump r = version_text (rs_version r) @ bytes '' '' @ decimal (rs_status r) @ bytes '' ''
         @ (if rs_reason r = [] then HttpStatusToString (rs_status r) else rs_reason r) @ crlf
         @ concat (map header_line fields) @ crlf @ rs_body r
     \<and> filter (is_header ''connection'') fields
         = (if rs_websocket r then filter (is_header ''connection'') (rs_headers r) else [connection_entry (rs_close r)])
     \<and> filter (is_header ''content-length'') fields
         = filter (is_header ''content-length'') (rs_headers r) @ (if rs_body r = [] then [] else [length_entry (rs_body r)])
     \<and> filter (\<lambda>e. \<not> is_header ''connection'' e \<and> \<not> is_header ''content-length'' e) fields
         = filter (\<lambda>e. \<not> is_header ''connection'' e \<and> \<not> is_header ''content-length'' e) (rs_headers r)
           @ map (\<lambda>c. (bytes ''Set-Cookie'', c)) (rs_cookies r)"
proof -
  define kept where "kept = filter (\<lambda>e. \<not> (\<not> rs_websocket r \<and> is_header ''connection'' e)) (rs_headers r)"
  define fields where "fields = kept @ map (\<lambda>c. (bytes ''Set-Cookie'', c)) (rs_cookies r)
      @ (if rs_websocket r then [] else [connection_entry (rs_close r)])
      @ (if rs_body r = [] then [] else [length_entry (rs_body r)])"
  have kept: "filter (\<lambda>e. \<not> (\<not> rs_websocket r \<and> strcasecmp (fst e) (bytes ''connection'') = 0)) (rs_headers r) = kept"
    by (simp only: kept_def is_header_def strcasecmp_zero)
  have both: "\<not> (is_header ''connection'' e \<and> is_header ''content-length'' e)" for e
    using other_headers by (auto simp: is_header_def)
  show ?thesis
  proof (intro exI [of _ fields] conjI)
    show "filter (is_header ''connection'') fields
         = (if rs_websocket r then filter (is_header ''connection'') (rs_headers r) else [connection_entry (rs_close r)])"
      using both by (auto simp: fields_def kept_def filter_empty_conv intro!: filter_cong)
    show "filter (is_header ''content-length'') fields
         = filter (is_header ''content-length'') (rs_headers r) @ (if rs_body r = [] then [] else [length_entry (rs_body r)])"
      using both by (auto simp: fields_def kept_def filter_empty_conv intro!: filter_cong)
    show "filter (\<lambda>e. \<not> is_header ''connection'' e \<and> \<not> is_header ''content-length'' e) fields
         = filter (\<lambda>e. \<not> is_header ''connection'' e \<and> \<not> is_header ''content-length'' e) (rs_headers r)
           @ map (\<lambda>c. (bytes ''Set-Cookie'', c)) (rs_cookies r)"
      by (auto simp: fields_def kept_def comp_def filter_map intro!: filter_cong)
  qed (simp only: rs_dump_def kept, simp add: fields_def comp_def)
qed

end
