(* ===== verification/Address.thy ===== *)
theory Address
  imports Endian CString
begin

text \<open>
  \<open>src/socket/address.cc\<close>: the socket address classes. A \<open>sockaddr\<close> structure is the record of its
  fields, in network byte order where the code stores them so; \<open>getAddr\<close> is its object
  representation, which the comparison operators look at. \<open>getaddrinfo\<close>, \<open>getifaddrs\<close> and
  \<open>inet_pton\<close> belong to the C library and are arguments.
\<close>

unbundle bit_operations_syntax

subsection \<open>Address structures\<close>

definition AF_UNSPEC :: u16 where "AF_UNSPEC = 0"
definition AF_UNIX :: u16 where "AF_UNIX = 1"
definition AF_INET :: u16 where "AF_INET = 2"
definition AF_INET6 :: u16 where "AF_INET6 = 10"

record sockaddr_in =
  sin_family :: u16
  sin_port :: u16
  sin_addr :: u32
  sin_zero :: "u8 list"

record sockaddr_in6 =
  sin6_family :: u16
  sin6_port :: u16
  sin6_flowinfo :: u32
  s6_addr :: "u8 list"
  sin6_scope_id :: u32

record sockaddr_un =
  sun_family :: u16
  sun_path :: "u8 list"
  un_length :: nat

record sockaddr_any =
  sa_family :: u16
  sa_data :: "u8 list"

datatype address =
    IPv4Address sockaddr_in | IPv6Address sockaddr_in6
  | UnixAddress sockaddr_un | UnknownAddress sockaddr_any

text \<open>\<open>(1 << (sizeof(T) * 8 - bits)) - 1\<close> is computed in \<open>int\<close> and then converted to \<open>T\<close>.\<close>

definition CreateMask :: "nat \<Rightarrow> 'a::len word result" where
  "CreateMask bits = (let s = size_sub LENGTH('a) bits in
     if 32 \<le> s then Inl BadShift
     else if s = 31 then Inl SignedOverflow
     else Inr (of_nat (2 ^ s - 1)))"

text \<open>\<open>CountBytes\<close> counts the bits that are set: each round clears the lowest one.\<close>

lemma clear_lowest_less:
  fixes w :: "'a::len word"
  shows "w \<noteq> 0 \<Longrightarrow> unat (w AND (w - 1)) < unat w"
proof -
  assume w: "w \<noteq> 0"
  have "w AND (w - 1) \<le> w - 1" by (rule word_and_le1)
  then have "unat (w AND (w - 1)) \<le> unat (w - 1)" by (simp add: word_le_nat_alt)
  also have "\<dots> = unat w - 1" using w by (rule unat_minus_one)
  also have "\<dots> < unat w" using w by (simp add: unat_gt_0)
  finally show ?thesis .
qed

function CountBytes :: "'a::len word \<Rightarrow> nat" where
  "CountBytes value = (if value = 0 then 0 else Suc (CountBytes (value AND (value - 1))))"
  by pat_completeness auto
termination
  by (relation "measure unat") (auto intro: clear_lowest_less)

declare CountBytes.simps [simp del]

subsection \<open>IPv4\<close>

definition new_IPv4Address :: "u32 \<Rightarrow> u16 \<Rightarrow> sockaddr_in" where
  "new_IPv4Address addr port =
     \<lparr>sin_family = AF_INET, sin_port = byteswapOnLittleEndian port,
      sin_addr = byteswapOnLittleEndian addr, sin_zero = replicate 8 0\<rparr>"

text \<open>\<open>IPv4Address::Create\<close>; \<open>pton\<close> is \<open>inet_pton\<close>, \<open>None\<close> when it does not return 1.\<close>

definition IPv4_Create :: "(u8 list \<Rightarrow> u32 option) \<Rightarrow> u8 list \<Rightarrow> u16 \<Rightarrow> sockaddr_in option" where
  "IPv4_Create pton addr port = map_option
     (\<lambda>v. (new_IPv4Address 0 0)\<lparr>sin_port := byteswapOnLittleEndian port, sin_addr := v\<rparr>) (pton addr)"

definition IPv4_insert :: "sockaddr_in \<Rightarrow> u8 list" where
  "IPv4_insert a = (let addr = byteswapOnLittleEndian (sin_addr a) in
     decimal (unat (drop_bit 24 addr AND 0xFF)) @ bytes ''.''
     @ decimal (unat (drop_bit 16 addr AND 0xFF)) @ bytes ''.''
     @ decimal (unat (drop_bit 8 addr AND 0xFF)) @ bytes ''.''
     @ decimal (unat (addr AND 0xFF)) @ bytes '':''
     @ decimal (unat (byteswapOnLittleEndian (sin_port a))))"

definition IPv4_broadcastAddress :: "nat \<Rightarrow> sockaddr_in \<Rightarrow> sockaddr_in option result" where
  "IPv4_broadcastAddress prefix_len a =
     (if prefix_len > 32 then Inr None
      else bind_r (CreateMask prefix_len) (\<lambda>m.
        Inr (Some (a\<lparr>sin_addr := sin_addr a OR byteswapOnLittleEndian m\<rparr>))))"

definition IPv4_networkAddress :: "nat \<Rightarrow> sockaddr_in \<Rightarrow> sockaddr_in option result" where
  "IPv4_networkAddress prefix_len a =
     (if prefix_len > 32 then Inr None
      else bind_r (CreateMask prefix_len) (\<lambda>m.
        Inr (Some (a\<lparr>sin_addr := sin_addr a AND byteswapOnLittleEndian (NOT m)\<rparr>))))"

definition IPv4_subnetMask :: "nat \<Rightarrow> sockaddr_in result" where
  "IPv4_subnetMask prefix_len = bind_r (CreateMask prefix_len) (\<lambda>m.
     Inr \<lparr>sin_family = AF_INET, sin_port = 0, sin_addr = NOT (byteswapOnLittleEndian m),
          sin_zero = replicate 8 0\<rparr>)"

definition IPv4_getPort :: "sockaddr_in \<Rightarrow> u32" where
  "IPv4_getPort a = ucast (byteswapOnLittleEndian (sin_port a))"

definition IPv4_setPort :: "u16 \<Rightarrow> sockaddr_in \<Rightarrow> sockaddr_in" where
  "IPv4_setPort v a = a\<lparr>sin_port := byteswapOnLittleEndian v\<rparr>"

subsection \<open>IPv6\<close>

definition empty_IPv6Address :: sockaddr_in6 where
  "empty_IPv6Address =
     \<lparr>sin6_family = AF_INET6, sin6_port = 0, sin6_flowinfo = 0, s6_addr = replicate 16 0, sin6_scope_id = 0\<rparr>"

definition new_IPv6Address :: "u8 list \<Rightarrow> u16 \<Rightarrow> sockaddr_in6" where
  "new_IPv6Address addr port =
     empty_IPv6Address\<lparr>sin6_port := byteswapOnLittleEndian port, s6_addr := addr\<rparr>"

definition IPv6_Create :: "(u8 list \<Rightarrow> u8 list option) \<Rightarrow> u8 list \<Rightarrow> u16 \<Rightarrow> sockaddr_in6 option" where
  "IPv6_Create pton addr port = map_option
     (\<lambda>v. empty_IPv6Address\<lparr>sin6_port := byteswapOnLittleEndian port, s6_addr := v\<rparr>) (pton addr)"

text \<open>\<open>insert\<close>: the loop over the eight groups, with the text so far and \<open>used_zeros\<close>.\<close>

definition group16 :: "u8 list \<Rightarrow> nat \<Rightarrow> u16" where
  "group16 s i = mem_value [s ! (2 * i), s ! (2 * i + 1)]"

fun v6_loop :: "u8 list \<Rightarrow> nat list \<Rightarrow> u8 list \<times> bool \<Rightarrow> u8 list \<times> bool" where
  "v6_loop s [] st = st"
| "v6_loop s (i # is) (os, used_zeros) =
     (if group16 s i = 0 \<and> \<not> used_zeros then v6_loop s is (os, used_zeros)
      else
        let gap = i \<noteq> 0 \<and> group16 s (i - 1) = 0 \<and> \<not> used_zeros in
        v6_loop s is
          (os @ (if gap then bytes '':'' else []) @ (if i \<noteq> 0 then bytes '':'' else [])
           @ hexadecimal (unat (byteswapOnLittleEndian (group16 s i))),
           used_zeros \<or> gap))"

definition IPv6_insert :: "sockaddr_in6 \<Rightarrow> u8 list" where
  "IPv6_insert a = (let (os, used_zeros) = v6_loop (s6_addr a) [0..<8] (bytes ''['', False) in
     os @ (if \<not> used_zeros \<and> group16 (s6_addr a) 7 = 0 then bytes ''::'' else [])
     @ bytes '']:'' @ decimal (unat (byteswapOnLittleEndian (sin6_port a))))"

text \<open>The loops \<open>for (i = a; i < b; ++i) s6_addr[i] = v\<close>.\<close>

definition set_range :: "nat \<Rightarrow> nat \<Rightarrow> u8 \<Rightarrow> u8 list \<Rightarrow> u8 list" where
  "set_range a b v xs = foldl (\<lambda>xs i. xs[i := v]) xs [a..<b]"

definition IPv6_broadcastAddress :: "nat \<Rightarrow> sockaddr_in6 \<Rightarrow> sockaddr_in6 result" where
  "IPv6_broadcastAddress prefix_len a = (let k = prefix_len div 8 in
     bind_r (CreateMask (prefix_len mod 8)) (\<lambda>m.
       if 16 \<le> k then Inl BufferOverflow
       else Inr (a\<lparr>s6_addr := set_range (k + 1) 16 0xFF ((s6_addr a)[k := s6_addr a ! k OR m])\<rparr>)))"

definition IPv6_networkAddress :: "nat \<Rightarrow> sockaddr_in6 \<Rightarrow> sockaddr_in6 result" where
  "IPv6_networkAddress prefix_len a = (let k = prefix_len div 8 in
     bind_r (CreateMask (prefix_len mod 8)) (\<lambda>m.
       if 16 \<le> k then Inl BufferOverflow
       else Inr (a\<lparr>s6_addr := set_range (k + 1) 16 0 ((s6_addr a)[k := s6_addr a ! k AND m])\<rparr>)))"

definition IPv6_subnetMask :: "nat \<Rightarrow> sockaddr_in6 result" where
  "IPv6_subnetMask prefix_len = (let k = prefix_len div 8 in
     bind_r (CreateMask (prefix_len mod 8)) (\<lambda>m.
       if 16 \<le> k then Inl BufferOverflow
       else Inr (empty_IPv6Address\<lparr>s6_addr := set_range 0 k 0xFF ((replicate 16 0)[k := NOT m])\<rparr>)))"

definition IPv6_getPort :: "sockaddr_in6 \<Rightarrow> u32" where
  "IPv6_getPort a = ucast (byteswapOnLittleEndian (sin6_port a))"

definition IPv6_setPort :: "u16 \<Rightarrow> sockaddr_in6 \<Rightarrow> sockaddr_in6" where
  "IPv6_setPort v a = a\<lparr>sin6_port := byteswapOnLittleEndian v\<rparr>"

subsection \<open>Unix and unknown addresses\<close>

definition sun_offset :: nat where "sun_offset = 2"
definition sun_path_size :: nat where "sun_path_size = 108"
definition MAX_PATH_LEN :: nat where "MAX_PATH_LEN = sun_path_size - 1"

definition empty_UnixAddress :: sockaddr_un where
  "empty_UnixAddress =
     \<lparr>sun_family = AF_UNIX, sun_path = replicate sun_path_size 0, un_length = sun_offset + MAX_PATH_LEN\<rparr>"

definition new_UnixAddress :: "u8 list \<Rightarrow> sockaddr_un result" where
  "new_UnixAddress path =
     (let len = (if path \<noteq> [] \<and> hd path = 0 then length path + 1 - 1 else length path + 1) in
      if len > sun_path_size then Inl LogicError
      else Inr \<lparr>sun_family = AF_UNIX,
                sun_path = overwrite (replicate sun_path_size 0) 0 (take len (path @ [0])),
                un_length = len + sun_offset\<rparr>)"

definition setAddrLen :: "nat \<Rightarrow> sockaddr_un \<Rightarrow> sockaddr_un" where
  "setAddrLen v a = a\<lparr>un_length := v\<rparr>"

definition getPath :: "sockaddr_un \<Rightarrow> u8 list" where
  "getPath a =
     (if un_length a > sun_offset \<and> sun_path a ! 0 = 0
      then [92, 48] @ take (un_length a - sun_offset - 1) (drop 1 (sun_path a))
      else c_str (sun_path a))"

definition new_UnknownAddress :: "u16 \<Rightarrow> sockaddr_any" where
  "new_UnknownAddress family = \<lparr>sa_family = family, sa_data = replicate 14 0\<rparr>"

subsection \<open>The class Address\<close>

definition getFamily :: "address \<Rightarrow> u16" where
  "getFamily a = (case a of IPv4Address x \<Rightarrow> sin_family x | IPv6Address x \<Rightarrow> sin6_family x
     | UnixAddress x \<Rightarrow> sun_family x | UnknownAddress x \<Rightarrow> sa_family x)"

definition getAddr :: "address \<Rightarrow> u8 list" where
  "getAddr a = (case a of
     IPv4Address x \<Rightarrow> mem_bytes (sin_family x) @ mem_bytes (sin_port x) @ mem_bytes (sin_addr x) @ sin_zero x
   | IPv6Address x \<Rightarrow> mem_bytes (sin6_family x) @ mem_bytes (sin6_port x) @ mem_bytes (sin6_flowinfo x)
       @ s6_addr x @ mem_bytes (sin6_scope_id x)
   | UnixAddress x \<Rightarrow> mem_bytes (sun_family x) @ sun_path x
   | UnknownAddress x \<Rightarrow> mem_bytes (sa_family x) @ sa_data x)"

definition getAddrLen :: "address \<Rightarrow> nat" where
  "getAddrLen a = (case a of IPv4Address x \<Rightarrow> 16 | IPv6Address x \<Rightarrow> 28
     | UnixAddress x \<Rightarrow> un_length x | UnknownAddress x \<Rightarrow> 16)"

definition address_toString :: "address \<Rightarrow> u8 list" where
  "address_toString a = (case a of IPv4Address x \<Rightarrow> IPv4_insert x | IPv6Address x \<Rightarrow> IPv6_insert x
     | UnixAddress x \<Rightarrow> getPath x
     | UnknownAddress x \<Rightarrow> bytes ''[UnknownAddress family='' @ decimal (unat (sa_family x)) @ bytes '']'')"

fun memcmp :: "u8 list \<Rightarrow> u8 list \<Rightarrow> int" where
  "memcmp (x # xs) (y # ys) = (if x = y then memcmp xs ys else uint x - uint y)"
| "memcmp _ _ = 0"

definition address_less :: "address \<Rightarrow> address \<Rightarrow> bool" where
  "address_less a b = (let minlen = min (getAddrLen a) (getAddrLen b);
       result = memcmp (take minlen (getAddr a)) (take minlen (getAddr b)) in
     if result < 0 then True else if result > 0 then False
     else getAddrLen a < getAddrLen b)"

definition address_eq :: "address \<Rightarrow> address \<Rightarrow> bool" where
  "address_eq a b \<longleftrightarrow> getAddrLen a = getAddrLen b
     \<and> memcmp (take (getAddrLen a) (getAddr a)) (take (getAddrLen a) (getAddr b)) = 0"

text \<open>\<open>Address::Create\<close>: what the pointer points to. The constructor is the family: \<open>InSockaddr\<close> for
  \<open>AF_INET\<close>, \<open>In6Sockaddr\<close> for \<open>AF_INET6\<close>, \<open>OtherSockaddr\<close> for every other one.\<close>

datatype sockaddr_ptr = NullSockaddr | InSockaddr sockaddr_in | In6Sockaddr sockaddr_in6 | OtherSockaddr sockaddr_any

definition Address_Create :: "sockaddr_ptr \<Rightarrow> address option" where
  "Address_Create addr = (case addr of NullSockaddr \<Rightarrow> None
     | InSockaddr x \<Rightarrow> Some (IPv4Address x) | In6Sockaddr x \<Rightarrow> Some (IPv6Address x)
     | OtherSockaddr x \<Rightarrow> Some (UnknownAddress x))"

subsection \<open>Name lookup\<close>

text \<open>\<open>memchr\<close> from a given index; the result is an index.\<close>

definition memchr :: "u8 list \<Rightarrow> nat \<Rightarrow> u8 \<Rightarrow> nat option" where
  "memchr s from ch = find_from ch s from"

text \<open>How \<open>Lookup\<close> splits its argument into node and service: first \<open>[node]:service\<close>, then
  \<open>node:service\<close>; the byte behind the last character is the terminator.\<close>

definition split_bracket :: "u8 list \<Rightarrow> u8 list \<times> u8 list option" where
  "split_bracket host =
     (if host \<noteq> [] \<and> host ! 0 = 91 then
        (case memchr host 1 93 of None \<Rightarrow> ([], None)
         | Some e \<Rightarrow> (substr host 1 (e - 1),
             if e + 1 < length host \<and> host ! (e + 1) = 58 then Some (drop (e + 2) host) else None))
      else ([], None))"

definition split_colon :: "u8 list \<Rightarrow> u8 list \<times> u8 list option" where
  "split_colon host = (case memchr host 0 58 of None \<Rightarrow> ([], None)
     | Some p \<Rightarrow> (case memchr host (p + 1) 58 of
           None \<Rightarrow> (take p host, Some (drop (p + 1) host))
         | Some _ \<Rightarrow> ([], Some (drop p host))))"

definition lookup_split :: "u8 list \<Rightarrow> u8 list \<times> u8 list option" where
  "lookup_split host =
     (let (node, service) = split_bracket host;
          (node, service) = (if node = [] then split_colon host else (node, service)) in
      (if node = [] then host else node, service))"

text \<open>\<open>gai\<close> is \<open>getaddrinfo\<close> with the hints; \<open>None\<close> is an error code.\<close>

type_synonym getaddrinfo = "u8 list \<Rightarrow> u8 list option \<Rightarrow> sockaddr_ptr list option"

definition Lookup :: "getaddrinfo \<Rightarrow> u8 list \<Rightarrow> address option list \<Rightarrow> bool \<times> address option list" where
  "Lookup gai host result = (let (node, service) = lookup_split host in
     case gai (c_str node) (map_option c_str service) of
       None \<Rightarrow> (False, result)
     | Some infos \<Rightarrow> (let result = result @ map Address_Create infos in (result \<noteq> [], result)))"

definition LookupAny :: "getaddrinfo \<Rightarrow> u8 list \<Rightarrow> address option" where
  "LookupAny gai host = (case Lookup gai host [] of (ok, result) \<Rightarrow> if ok then result ! 0 else None)"

definition as_IPAddress :: "address option \<Rightarrow> address option" where
  "as_IPAddress a = (case a of Some (IPv4Address x) \<Rightarrow> a | Some (IPv6Address x) \<Rightarrow> a | _ \<Rightarrow> None)"

definition LookupAnyIPAddress :: "getaddrinfo \<Rightarrow> u8 list \<Rightarrow> address option" where
  "LookupAnyIPAddress gai host = (case Lookup gai host [] of (ok, result) \<Rightarrow>
     if ok then (case find (\<lambda>i. as_IPAddress i \<noteq> None) result of Some v \<Rightarrow> v | None \<Rightarrow> None) else None)"

definition IPAddress_setPort :: "u16 \<Rightarrow> address \<Rightarrow> address" where
  "IPAddress_setPort v a = (case a of IPv4Address x \<Rightarrow> IPv4Address (IPv4_setPort v x)
     | IPv6Address x \<Rightarrow> IPv6Address (IPv6_setPort v x) | _ \<Rightarrow> a)"

text \<open>\<open>IPAddress::Create\<close>; \<open>getaddrinfo\<close> never succeeds with an empty list.\<close>

definition IPAddress_Create :: "getaddrinfo \<Rightarrow> u8 list \<Rightarrow> u16 \<Rightarrow> address option result" where
  "IPAddress_Create gai addr port = (case gai addr None of None \<Rightarrow> Inr None
     | Some [] \<Rightarrow> Inl NullDeref
     | Some (info # _) \<Rightarrow> Inr (map_option (IPAddress_setPort port) (as_IPAddress (Address_Create info))))"

subsection \<open>Interfaces\<close>

text \<open>One entry of \<open>getifaddrs\<close>: name, address and netmask.\<close>

record ifaddrs =
  ifa_name :: "u8 list"
  ifa_addr :: sockaddr_ptr
  ifa_netmask :: sockaddr_ptr

definition ptr_family :: "sockaddr_ptr \<Rightarrow> u16 result" where
  "ptr_family p = (case p of NullSockaddr \<Rightarrow> Inl NullDeref
     | InSockaddr x \<Rightarrow> Inr AF_INET | In6Sockaddr x \<Rightarrow> Inr AF_INET6 | OtherSockaddr x \<Rightarrow> Inr (sa_family x))"

definition prefix_len4 :: "sockaddr_ptr \<Rightarrow> nat result" where
  "prefix_len4 netmask = (case netmask of InSockaddr x \<Rightarrow> Inr (CountBytes (sin_addr x)) | _ \<Rightarrow> Inl NullDeref)"

definition prefix_len6 :: "sockaddr_ptr \<Rightarrow> nat result" where
  "prefix_len6 netmask = (case netmask of
     In6Sockaddr x \<Rightarrow> Inr (foldl (\<lambda>n i. n + CountBytes (s6_addr x ! i)) 0 [0..<16]) | _ \<Rightarrow> Inl NullDeref)"

type_synonym interface_map = "(u8 list \<times> (address \<times> nat)) list"

fun interface_loop :: "u16 \<Rightarrow> ifaddrs list \<Rightarrow> interface_map \<Rightarrow> interface_map result" where
  "interface_loop family [] m = Inr m"
| "interface_loop family (i # is) m = bind_r (ptr_family (ifa_addr i)) (\<lambda>f.
     if family \<noteq> AF_UNSPEC \<and> family \<noteq> f then interface_loop family is m
     else (case ifa_addr i of
         InSockaddr x \<Rightarrow> bind_r (prefix_len4 (ifa_netmask i)) (\<lambda>n.
           interface_loop family is (multi_insert str_less (ifa_name i) (IPv4Address x, n) m))
       | In6Sockaddr x \<Rightarrow> bind_r (prefix_len6 (ifa_netmask i)) (\<lambda>n.
           interface_loop family is (multi_insert str_less (ifa_name i) (IPv6Address x, n) m))
       | _ \<Rightarrow> interface_loop family is m))"

definition GetInterfaceAddresses_all ::
  "ifaddrs list option \<Rightarrow> u16 \<Rightarrow> interface_map \<Rightarrow> (bool \<times> interface_map) result" where
  "GetInterfaceAddresses_all ifs family result = (case ifs of None \<Rightarrow> Inr (False, result)
     | Some is \<Rightarrow> bind_r (interface_loop family is result) (\<lambda>m. Inr (m \<noteq> [], m)))"

definition GetInterfaceAddresses ::
  "ifaddrs list option \<Rightarrow> u8 list \<Rightarrow> u16 \<Rightarrow> (address \<times> nat) list \<Rightarrow> (bool \<times> (address \<times> nat) list) result" where
  "GetInterfaceAddresses ifs iface family result =
     (if iface = [] \<or> iface = bytes ''*'' then
        Inr (True, result
          @ (if family = AF_INET \<or> family = AF_UNSPEC then [(IPv4Address (new_IPv4Address 0 0), 0)] else [])
          @ (if family = AF_INET6 \<or> family = AF_UNSPEC then [(IPv6Address empty_IPv6Address, 0)] else []))
      else bind_r (GetInterfaceAddresses_all ifs family []) (\<lambda>(ok, m).
        if \<not> ok then Inr (False, result)
        else let result = result @ equal_range str_less iface m in Inr (result \<noteq> [], result)))"

subsection \<open>IPv4 networks\<close>

lemma bit_byteswap32:
  fixes w :: u32
  shows "bit (byteswap w) n \<longleftrightarrow> n < 32 \<and> bit w (8 * (3 - n div 8) + n mod 8)"
proof (cases "n < 32")
  case True
  then have k: "n div 8 < 4" "3 - n div 8 < 4" by auto
  have "rev (mem_bytes w) ! (n div 8) = mem_bytes w ! (3 - n div 8)"
    using k by (simp add: rev_nth)
  also have "\<dots> = ucast (drop_bit (8 * (3 - n div 8)) w)"
    using k by (simp add: mem_bytes_def nth_bytes_le)
  finally show ?thesis
    using True k by (simp add: byteswap_def mem_value_def bit_word_le bit_simps)
next
  case False
  then show ?thesis by (auto dest: bit_imp_le_length)
qed

lemma byteswap_bitwise:
  fixes a b :: u32
  shows "byteswap (a OR b) = byteswap a OR byteswap b"
    and "byteswap (a AND b) = byteswap a AND byteswap b"
    and "byteswap (NOT a) = NOT (byteswap a)"
proof -
  have "n < 32 \<Longrightarrow> 8 * (3 - n div 8) + n mod 8 < 32" for n :: nat
    by presburger
  then show "byteswap (a OR b) = byteswap a OR byteswap b"
    and "byteswap (a AND b) = byteswap a AND byteswap b"
    and "byteswap (NOT a) = NOT (byteswap a)"
    by (intro bit_word_eqI; auto simp: bit_byteswap32 bit_simps)+
qed

lemma swap_simps [simp]:
  "byteswapOnLittleEndian = (byteswap :: 'a::len word \<Rightarrow> 'a word)"
  by (simp add: fun_eq_iff byteswapOnLittleEndian_def PHASE0_BYTE_ORDER_def)

lemma CreateMask32: "2 \<le> n \<Longrightarrow> n \<le> 32 \<Longrightarrow> (CreateMask n :: u32 result) = Inr (mask (32 - n))"
  by (auto simp: CreateMask_def Let_def mask_eq_exp_minus_1 of_nat_diff)

lemma CreateMask8: "n < 8 \<Longrightarrow> (CreateMask n :: u8 result) = Inr (mask (8 - n))"
  by (auto simp: CreateMask_def Let_def mask_eq_exp_minus_1 of_nat_diff)

lemma unat_network:
  fixes x :: u32
  assumes "k \<le> 32"
  shows "unat (x AND NOT (mask k)) = unat x div 2 ^ k * 2 ^ k"
    and "unat (x OR mask k) = unat x div 2 ^ k * 2 ^ k + (2 ^ k - 1)"
proof -
  have n: "x AND NOT (mask k) = push_bit k (drop_bit k x)"
    by (intro bit_word_eqI) (auto simp: bit_simps)
  have lt: "unat x div 2 ^ k * 2 ^ k \<le> unat x" by simp
  also have "\<dots> < 2 ^ 32" using unat_bound [of x] by simp
  finally have b: "unat x div 2 ^ k * 2 ^ k < 2 ^ 32" .
  have "unat (push_bit k (drop_bit k x)) = take_bit 32 (unat x div 2 ^ k * 2 ^ k)"
    using unat_bound [of x]
    by (simp only: unsigned_push_bit_eq unsigned_drop_bit_eq) (simp add: push_bit_eq_mult drop_bit_eq_div take_bit_nat_eq_self)
  also have "\<dots> = unat x div 2 ^ k * 2 ^ k" using b by (simp add: take_bit_nat_eq_self)
  finally show nw: "unat (x AND NOT (mask k)) = unat x div 2 ^ k * 2 ^ k" by (simp add: n)
  have disj: "(x AND NOT (mask k)) AND mask k = 0" by (intro bit_word_eqI) (auto simp: bit_simps)
  have "x OR mask k = (x AND NOT (mask k)) OR mask k" by (intro bit_word_eqI) (auto simp: bit_simps)
  also have "\<dots> = (x AND NOT (mask k)) + mask k" using disj by (simp add: disjunctive_add_eq_or)
  finally have eq: "x OR mask k = (x AND NOT (mask k)) + mask k" .
  have m: "unat (mask k :: u32) = 2 ^ k - 1"
  proof -
    have lt: "(2 ^ k - 1 :: nat) < 2 ^ 32"
      using power_increasing [OF assms, of "2::nat"] zero_less_power [of "2::nat" k] by linarith
    have "unat (mask k :: u32) = unat (of_nat (2 ^ k - 1) :: u32)"
      by (simp add: mask_eq_exp_minus_1 of_nat_diff)
    also have "\<dots> = take_bit 32 (2 ^ k - 1)" by (simp only: unsigned_of_nat) simp
    also have "\<dots> = 2 ^ k - 1" using lt by (rule take_bit_nat_eq_self)
    finally show ?thesis .
  qed
  have "unat x div 2 ^ k < 2 ^ (32 - k)"
    using unat_bound [of x] assms by (simp add: less_mult_imp_div_less flip: power_add)
  then have "(unat x div 2 ^ k + 1) * 2 ^ k \<le> 2 ^ (32 - k) * 2 ^ k" by (intro mult_right_mono) auto
  also have "\<dots> = 2 ^ 32" using assms by (simp flip: power_add)
  finally have "unat x div 2 ^ k * 2 ^ k + (2 ^ k - 1) < 2 ^ 32"
    using one_le_power [of "2::nat" k] by (simp add: algebra_simps)
  then show "unat (x OR mask k) = unat x div 2 ^ k * 2 ^ k + (2 ^ k - 1)"
    by (simp add: eq unat_word_ariths nw m)
qed

text \<open>The address as a number, in host byte order.\<close>

definition host_addr :: "sockaddr_in \<Rightarrow> u32" where
  "host_addr a = byteswapOnLittleEndian (sin_addr a)"

text \<open>C40: IPv4 networks. For a prefix length from 2 to 32, the network address is the greatest multiple of
  the block size not above the address, the broadcast address is the last address of that block, the
  subnet mask selects the network part, and the port is kept. Above 32 both return null. At 0 and 1
  the mask is computed by a shift of 32 and by a signed overflow, which C++ leaves undefined.\<close>

theorem IPv4_network:
  assumes "2 \<le> n" and "n \<le> 32"
  shows "\<exists>b nw m. IPv4_broadcastAddress n a = Inr (Some b) \<and> IPv4_networkAddress n a = Inr (Some nw)
     \<and> IPv4_subnetMask n = Inr m
     \<and> unat (host_addr nw) = unat (host_addr a) div 2 ^ (32 - n) * 2 ^ (32 - n)
     \<and> unat (host_addr b) = unat (host_addr nw) + (2 ^ (32 - n) - 1)
     \<and> host_addr nw = host_addr a AND host_addr m \<and> host_addr m = NOT (mask (32 - n))
     \<and> sin_port b = sin_port a \<and> sin_port nw = sin_port a
     \<and> (\<forall>k > 32. IPv4_broadcastAddress k a = Inr None \<and> IPv4_networkAddress k a = Inr None)
     \<and> IPv4_networkAddress 0 a = Inl BadShift \<and> IPv4_networkAddress 1 a = Inl SignedOverflow"
proof -
  let ?m = "mask (32 - n) :: u32"
  define b where "b = a\<lparr>sin_addr := sin_addr a OR byteswap ?m\<rparr>"
  define nw where "nw = a\<lparr>sin_addr := sin_addr a AND byteswap (NOT ?m)\<rparr>"
  define m where "m = \<lparr>sin_family = AF_INET, sin_port = 0, sin_addr = NOT (byteswap ?m), sin_zero = replicate 8 0\<rparr>"
  have hb: "host_addr b = host_addr a OR ?m" and hn: "host_addr nw = host_addr a AND NOT ?m" and hm: "host_addr m = NOT ?m"
    by (simp_all add: host_addr_def b_def nw_def m_def byteswap_bitwise)
  have ops: "IPv4_broadcastAddress n a = Inr (Some b)" "IPv4_networkAddress n a = Inr (Some nw)" "IPv4_subnetMask n = Inr m"
    using assms by (simp_all add: IPv4_broadcastAddress_def IPv4_networkAddress_def IPv4_subnetMask_def
      CreateMask32 b_def nw_def m_def)
  have small: "IPv4_networkAddress 0 a = Inl BadShift" "IPv4_networkAddress 1 a = Inl SignedOverflow"
    by (simp_all add: IPv4_networkAddress_def CreateMask_def Let_def)
  show ?thesis
    by (intro exI [of _ b] exI [of _ nw] exI [of _ m] conjI ops small)
      (simp_all add: hb hn hm unat_network, simp_all add: b_def nw_def IPv4_broadcastAddress_def IPv4_networkAddress_def)
qed

theorem IPv4_network_witness:
  "\<exists>nw. IPv4_networkAddress 24 (new_IPv4Address 0xC0A80117 80) = Inr (Some nw) \<and> unat (host_addr nw) = 0xC0A80100"
proof -
  have "host_addr (new_IPv4Address 0xC0A80117 80) = 0xC0A80117" by (simp add: host_addr_def new_IPv4Address_def)
  then show ?thesis using IPv4_network [of 24 "new_IPv4Address 0xC0A80117 80"] by auto
qed

subsection \<open>IPv6 networks\<close>

text \<open>Bit \<open>j\<close> of an address, counted from the most significant bit of the first byte.\<close>

definition v6bit :: "u8 list \<Rightarrow> nat \<Rightarrow> bool" where
  "v6bit s j = bit (s ! (j div 8)) (7 - j mod 8)"

lemma length_set_range [simp]: "length (set_range a b v xs) = length xs"
proof -
  have "length (foldl (\<lambda>xs i. xs[i := v]) xs is) = length xs" for "is"
    by (induction "is" arbitrary: xs) auto
  then show ?thesis by (simp add: set_range_def)
qed

lemma nth_set_range:
  assumes "i < length xs"
  shows "set_range a b v xs ! i = (if a \<le> i \<and> i < b then v else xs ! i)"
proof -
  have "foldl (\<lambda>xs i. xs[i := v]) xs is ! i = (if i \<in> set is then v else xs ! i)" for "is"
    using assms by (induction "is" arbitrary: xs) (auto simp: nth_list_update)
  then show ?thesis by (simp add: set_range_def)
qed

lemma low_bit_of_mask:
  fixes j n :: nat
  assumes "j div 8 = n div 8"
  shows "7 - j mod 8 < 8 - n mod 8 \<longleftrightarrow> n \<le> j"
proof -
  have "j = 8 * (n div 8) + j mod 8" "n = 8 * (n div 8) + n mod 8"
    using assms mult_div_mod_eq [of 8 j] mult_div_mod_eq [of 8 n] by simp_all
  moreover have "j mod 8 < 8" "n mod 8 < 8" by simp_all
  ultimately show ?thesis by linarith
qed

lemma div8_order: "j div 8 < n div 8 \<Longrightarrow> j < n" for j n :: nat
  using div_le_mono not_less by blast

lemma byte_ones: "(0xFF :: u8) = mask 8"
  by (simp add: mask_eq_exp_minus_1)

lemma IPv6_prefix_overflow:
  assumes "128 \<le> k"
  shows "IPv6_broadcastAddress k a = Inl BufferOverflow \<and> IPv6_networkAddress k a = Inl BufferOverflow
    \<and> IPv6_subnetMask k = Inl BufferOverflow"
  using div_le_mono [OF assms, of 8]
  by (simp add: IPv6_broadcastAddress_def IPv6_networkAddress_def IPv6_subnetMask_def Let_def CreateMask8)

text \<open>IPv6 networks. For a prefix below 128 the broadcast address keeps the first \<open>n\<close> bits and sets all
  others, and the subnet mask has exactly the first \<open>n\<close> bits set. \<open>networkAddress\<close> masks the byte that
  contains the boundary with the complement of the right mask: in that byte it keeps the host bits and
  clears the network bits. A prefix of 128 or more writes past the end of the address.\<close>

theorem IPv6_network:
  assumes "n < 128" and "length (s6_addr a) = 16"
  shows "\<exists>b nw m. IPv6_broadcastAddress n a = Inr b \<and> IPv6_networkAddress n a = Inr nw \<and> IPv6_subnetMask n = Inr m
     \<and> (\<forall>j < 128. v6bit (s6_addr b) j = (j < n \<longrightarrow> v6bit (s6_addr a) j)
          \<and> v6bit (s6_addr m) j = (j < n)
          \<and> v6bit (s6_addr nw) j = (v6bit (s6_addr a) j \<and> (j div 8 < n div 8 \<or> j div 8 = n div 8 \<and> n \<le> j)))
     \<and> (\<forall>k \<ge> 128. IPv6_broadcastAddress k a = Inl BufferOverflow \<and> IPv6_networkAddress k a = Inl BufferOverflow
          \<and> IPv6_subnetMask k = Inl BufferOverflow)"
proof -
  let ?k = "n div 8" and ?m = "mask (8 - n mod 8) :: u8"
  define b where "b = a\<lparr>s6_addr := set_range (?k + 1) 16 0xFF ((s6_addr a)[?k := s6_addr a ! ?k OR ?m])\<rparr>"
  define nw where "nw = a\<lparr>s6_addr := set_range (?k + 1) 16 0 ((s6_addr a)[?k := s6_addr a ! ?k AND ?m])\<rparr>"
  define m where "m = empty_IPv6Address\<lparr>s6_addr := set_range 0 ?k 0xFF ((replicate 16 0)[?k := NOT ?m])\<rparr>"
  have k: "?k < 16" using assms(1) by linarith
  have ops: "IPv6_broadcastAddress n a = Inr b" "IPv6_networkAddress n a = Inr nw" "IPv6_subnetMask n = Inr m"
    using k by (simp_all add: IPv6_broadcastAddress_def IPv6_networkAddress_def IPv6_subnetMask_def Let_def CreateMask8
      b_def nw_def m_def)
  have bits: "v6bit (s6_addr b) j = (j < n \<longrightarrow> v6bit (s6_addr a) j)"
    "v6bit (s6_addr m) j = (j < n)"
    "v6bit (s6_addr nw) j = (v6bit (s6_addr a) j \<and> (j div 8 < ?k \<or> j div 8 = ?k \<and> n \<le> j))"
    if j: "j < 128" for j
  proof -
    have j16: "j div 8 < 16" using j by linarith
    have low: "j div 8 < ?k \<Longrightarrow> j < n" and high: "?k < j div 8 \<Longrightarrow> n < j"
      using div8_order [of j n] div8_order [of n j] by blast+
    note same = low_bit_of_mask [of j n]
    have ub: "s6_addr b ! (j div 8) = (if ?k < j div 8 then mask 8 else if j div 8 = ?k then s6_addr a ! ?k OR ?m
        else s6_addr a ! (j div 8))"
      using j16 k assms(2) by (simp add: b_def byte_ones nth_set_range nth_list_update)
    have un: "s6_addr nw ! (j div 8) = (if ?k < j div 8 then 0 else if j div 8 = ?k then s6_addr a ! ?k AND ?m
        else s6_addr a ! (j div 8))"
      using j16 k assms(2) by (simp add: nw_def nth_set_range nth_list_update)
    have um: "s6_addr m ! (j div 8) = (if j div 8 < ?k then mask 8 else if j div 8 = ?k then NOT ?m else 0)"
      using j16 k by (simp add: m_def byte_ones nth_set_range nth_list_update)
    consider (lo) "j div 8 < ?k" | (eq) "j div 8 = ?k" | (hi) "?k < j div 8" by linarith
    then have "v6bit (s6_addr b) j = (j < n \<longrightarrow> v6bit (s6_addr a) j) \<and> v6bit (s6_addr m) j = (j < n)
      \<and> v6bit (s6_addr nw) j = (v6bit (s6_addr a) j \<and> (j div 8 < ?k \<or> j div 8 = ?k \<and> n \<le> j))"
    proof cases
      case lo
      then show ?thesis using low by (simp add: v6bit_def ub un um bit_mask_iff less_imp_le)
    next
      case eq
      then show ?thesis using same ub un um
        by (auto simp: v6bit_def bit_or_iff bit_and_iff bit_not_iff bit_mask_iff)
    next
      case hi
      then show ?thesis using high by (simp add: v6bit_def ub un um bit_mask_iff less_imp_le)
    qed
    then show "v6bit (s6_addr b) j = (j < n \<longrightarrow> v6bit (s6_addr a) j)" "v6bit (s6_addr m) j = (j < n)"
      "v6bit (s6_addr nw) j = (v6bit (s6_addr a) j \<and> (j div 8 < ?k \<or> j div 8 = ?k \<and> n \<le> j))" by blast+
  qed
  show ?thesis
    by (intro exI [of _ b] exI [of _ nw] exI [of _ m] conjI ops) (use bits IPv6_prefix_overflow in blast)+
qed

theorem IPv6_network_witness:
  "\<exists>nw. IPv6_networkAddress 12 (new_IPv6Address (0x20 # 0x11 # replicate 14 0) 0) = Inr nw
     \<and> \<not> v6bit (s6_addr nw) 11 \<and> v6bit (s6_addr nw) 15"
proof -
  let ?a = "new_IPv6Address (0x20 # 0x11 # replicate 14 0) 0"
  have v: "v6bit (s6_addr ?a) 15" by (simp add: v6bit_def new_IPv6Address_def)
  show ?thesis
    using IPv6_network [of 12 ?a] v by (auto simp: new_IPv6Address_def)
qed

subsection \<open>Comparison\<close>

text \<open>The bytes the operators compare; an address is well-formed when they all exist.\<close>

definition addr_repr :: "address \<Rightarrow> u8 list" where
  "addr_repr a = take (getAddrLen a) (getAddr a)"

definition addr_wf :: "address \<Rightarrow> bool" where
  "addr_wf a \<longleftrightarrow> getAddrLen a \<le> length (getAddr a)"

lemma length_addr_repr: "addr_wf a \<Longrightarrow> length (addr_repr a) = getAddrLen a"
  by (simp add: addr_repr_def addr_wf_def)

lemma memcmp_zero: "length xs = length ys \<Longrightarrow> memcmp xs ys = 0 \<longleftrightarrow> xs = ys"
  by (induction xs ys rule: memcmp.induct) (auto simp: word_uint_eq_iff)

lemma memcmp_str_less:
  "str_less xs ys \<longleftrightarrow>
     (let n = min (length xs) (length ys); r = memcmp (take n xs) (take n ys) in
      r < 0 \<or> r = 0 \<and> length xs < length ys)"
proof (induction xs ys rule: str_less.induct)
  case (3 x xs y ys)
  have "x \<noteq> y \<Longrightarrow> (unat x < unat y \<longleftrightarrow> uint x - uint y < 0) \<and> uint x - uint y \<noteq> 0"
    by (simp add: word_less_nat_alt [symmetric] word_less_def word_uint_eq_iff)
  then show ?case using 3 by (auto simp: Let_def)
qed simp_all

lemma address_less_iff:
  assumes "addr_wf a" and "addr_wf b"
  shows "address_less a b \<longleftrightarrow> str_less (addr_repr a) (addr_repr b)"
proof -
  let ?n = "min (getAddrLen a) (getAddrLen b)"
  have "take ?n (getAddr a) = take ?n (addr_repr a)" "take ?n (getAddr b) = take ?n (addr_repr b)"
    by (simp_all add: addr_repr_def min.absorb1)
  then show ?thesis using assms by (auto simp: address_less_def Let_def memcmp_str_less length_addr_repr)
qed

text \<open>Comparing addresses. On addresses whose length does not exceed their storage, \<open>operator<\<close> is the
  lexicographic order of their bytes and \<open>operator==\<close> their equality: exactly one of less, equal and
  greater holds, and less is transitive.\<close>

theorem address_order:
  assumes "addr_wf a" and "addr_wf b" and "addr_wf c"
  shows "(address_eq a b \<longleftrightarrow> addr_repr a = addr_repr b)
    \<and> (if address_eq a b then \<not> address_less a b \<and> \<not> address_less b a
       else address_less a b = (\<not> address_less b a))
    \<and> (address_less a b \<and> address_less b c \<longrightarrow> address_less a c)"
proof -
  have eq: "address_eq a b \<longleftrightarrow> addr_repr a = addr_repr b"
  proof (cases "getAddrLen a = getAddrLen b")
    case True
    then show ?thesis using assms memcmp_zero [of "addr_repr a" "addr_repr b"]
      by (simp add: address_eq_def length_addr_repr) (simp add: addr_repr_def)
  next
    case False
    then show ?thesis using assms length_addr_repr by (metis address_eq_def)
  qed
  show ?thesis
    unfolding eq address_less_iff [OF assms(1,2)] address_less_iff [OF assms(2,1)]
      address_less_iff [OF assms(2,3)] address_less_iff [OF assms(1,3)]
    using str.total [of "addr_repr a" "addr_repr b"] str.irrefl [of "addr_repr b"]
      str.asym [of "addr_repr a" "addr_repr b"] str.lt_trans [of "addr_repr a" "addr_repr b" "addr_repr c"]
    by auto
qed

theorem address_order_witness:
  "address_less (IPv4Address (new_IPv4Address 1 80)) (IPv6Address empty_IPv6Address)
   = (\<not> address_less (IPv6Address empty_IPv6Address) (IPv4Address (new_IPv4Address 1 80)))"
proof -
  let ?a = "IPv4Address (new_IPv4Address 1 80)" and ?b = "IPv6Address empty_IPv6Address"
  have "addr_wf ?a" "addr_wf ?b"
    by (simp_all add: addr_wf_def getAddrLen_def getAddr_def new_IPv4Address_def empty_IPv6Address_def)
  moreover have "\<not> address_eq ?a ?b" by (simp add: address_eq_def getAddrLen_def)
  ultimately show ?thesis using address_order [of ?a ?b ?a] by simp
qed

subsection \<open>Unix paths, names and interfaces\<close>

lemma new_UnixAddress_simps:
  assumes "0 \<notin> set name" and "name \<noteq> []"
  shows "new_UnixAddress name = (if length name > 107 then Inl LogicError
     else Inr \<lparr>sun_family = AF_UNIX, sun_path = name @ 0 # replicate (107 - length name) 0,
               un_length = length name + 1 + sun_offset\<rparr>)"
    and "new_UnixAddress (0 # name) = (if length name > 107 then Inl LogicError
     else Inr \<lparr>sun_family = AF_UNIX, sun_path = 0 # name @ replicate (107 - length name) 0,
               un_length = length name + 1 + sun_offset\<rparr>)"
proof -
  have "hd name \<noteq> 0" using assms by (cases name) auto
  then show "new_UnixAddress name = (if length name > 107 then Inl LogicError
     else Inr \<lparr>sun_family = AF_UNIX, sun_path = name @ 0 # replicate (107 - length name) 0,
               un_length = length name + 1 + sun_offset\<rparr>)"
    using assms by (simp add: new_UnixAddress_def Let_def overwrite_def sun_path_size_def)
qed (simp add: new_UnixAddress_def Let_def overwrite_def sun_path_size_def)

text \<open>Unix addresses. A non-empty path without null bytes of at most 107 bytes is stored and returned by
  \<open>getPath\<close>, and its address length counts the terminator; an abstract name (first byte null) comes
  back with that byte shown as a backslash and a zero; a longer path throws \<open>logic_error\<close>.\<close>

theorem UnixAddress_path:
  assumes "0 \<notin> set name" and "name \<noteq> []"
  shows "(length name \<le> 107 \<longrightarrow>
            (\<exists>a. new_UnixAddress name = Inr a \<and> getPath a = name \<and> un_length a = sun_offset + length name + 1)
          \<and> (\<exists>a. new_UnixAddress (0 # name) = Inr a \<and> getPath a = [92, 48] @ name))
    \<and> (length name > 107 \<longrightarrow> new_UnixAddress name = Inl LogicError \<and> new_UnixAddress (0 # name) = Inl LogicError)"
proof -
  have "c_str (name @ 0 # zs) = name" for zs
    using assms(1) by (simp add: c_str_def takeWhile_stop)
  moreover have "(name @ zs) ! 0 \<noteq> 0" for zs using assms by (cases name) auto
  ultimately show ?thesis by (simp add: new_UnixAddress_simps [OF assms] getPath_def sun_offset_def)
qed

theorem UnixAddress_path_witness:
  "\<exists>a. new_UnixAddress (bytes ''/tmp/s'') = Inr a \<and> getPath a = bytes ''/tmp/s''"
  using UnixAddress_path [of "bytes ''/tmp/s''"] by (auto simp: bytes_def)

lemma split_bracket_node:
  assumes "93 \<notin> set node" and "node \<noteq> []"
  shows "lookup_split (91 # node @ 93 # 58 # service) = (node, Some service)"
    and "lookup_split (91 # node @ [93]) = (node, None)"
proof -
  have m: "memchr (91 # node @ 93 # rest) 1 93 = Some (1 + length node)" for rest
    using find_from_hit [of 93 node "[91]" rest] assms(1) by (simp add: memchr_def)
  show "lookup_split (91 # node @ 93 # 58 # service) = (node, Some service)"
    and "lookup_split (91 # node @ [93]) = (node, None)"
    using assms(2) m by (simp_all add: lookup_split_def split_bracket_def substr_def nth_append Let_def)
qed

lemma split_plain:
  assumes "host = [] \<or> hd host \<noteq> 91"
  shows "split_bracket host = ([], None)"
  using assms by (cases host) (auto simp: split_bracket_def)

text \<open>Splitting a host string. \<open>[node]:service\<close> and \<open>node:service\<close> are split at the colon, and a name
  without a colon has no service. A numeric IPv6 address without brackets (two or more colons) is passed on
  whole, but together with a service that starts at its first colon.\<close>

theorem lookup_split_cases:
  assumes "58 \<notin> set name" and "name \<noteq> []" and "hd name \<noteq> 91" and "58 \<notin> set port"
    and "93 \<notin> set node" and "node \<noteq> []" and "58 \<in> set rest"
  shows "lookup_split (name @ 58 # port) = (name, Some port)
    \<and> lookup_split name = (name, None)
    \<and> lookup_split (91 # node @ 93 # 58 # service) = (node, Some service)
    \<and> lookup_split (91 # node @ [93]) = (node, None)
    \<and> lookup_split (name @ 58 # rest) = (name @ 58 # rest, Some (58 # rest))"
proof (intro conjI split_bracket_node assms)
  have b: "split_bracket (name @ xs) = ([], None)" for xs
    using assms(2,3) by (intro split_plain) (cases name, auto)
  have m0: "memchr (name @ 58 # xs) 0 58 = Some (length name)" for xs
    using find_from_hit [of 58 name "[]" xs] assms(1) by (simp add: memchr_def)
  have m1: "memchr (name @ 58 # port) (Suc (length name)) 58 = None"
    using find_from_miss [of 58 port "name @ [58]"] assms(4) by (simp add: memchr_def)
  obtain y z where r: "rest = y @ 58 # z" "58 \<notin> set y" using split_list_first [OF assms(7)] by blast
  have m2: "memchr (name @ 58 # rest) (Suc (length name)) 58 \<noteq> None"
    using find_from_hit [of 58 y "name @ [58]" z] r by (simp add: memchr_def)
  show "lookup_split (name @ 58 # port) = (name, Some port)"
    using b assms(2) m0 m1 by (simp add: lookup_split_def split_colon_def)
  have "memchr name 0 58 = None" using find_from_miss [of 58 name "[]"] assms(1) by (simp add: memchr_def)
  then show "lookup_split name = (name, None)"
    using b [of "[]"] by (simp add: lookup_split_def split_colon_def)
  show "lookup_split (name @ 58 # rest) = (name @ 58 # rest, Some (58 # rest))"
    using b m0 m2 by (auto simp: lookup_split_def split_colon_def)
qed

theorem lookup_split_cases_witness:
  "lookup_split (bytes ''fe80::1'') = (bytes ''fe80::1'', Some (bytes ''::1''))
   \<and> lookup_split (bytes ''localhost:80'') = (bytes ''localhost'', Some (bytes ''80''))"
  using lookup_split_cases [of "bytes ''fe80''" "bytes ''80''" "bytes ''x''" "bytes '':1''"]
    lookup_split_cases [of "bytes ''localhost''" "bytes ''80''" "bytes ''x''" "bytes '':1''"]
  by (simp add: bytes_def)

subsection \<open>Prefix lengths\<close>

text \<open>One round of \<open>CountBytes\<close> clears the lowest bit that is set.\<close>

lemma clear_lowest:
  fixes w :: "'a::len word"
  assumes "bit w k" and "\<forall>j < k. \<not> bit w j"
  shows "w AND (w - 1) = w AND NOT (mask (Suc k))"
proof -
  let ?h = "w AND NOT (mask (Suc k))"
  have k: "k < LENGTH('a)" using assms(1) by (rule bit_imp_le_length)
  have "w = ?h OR push_bit k 1"
    using assms k by (intro bit_word_eqI) (auto simp: bit_simps not_less_eq less_Suc_eq linorder_neq_iff)
  also have "\<dots> = ?h + push_bit k 1"
    by (rule disjunctive_add_eq_or [symmetric], intro bit_word_eqI) (auto simp: bit_simps)
  finally have "w - 1 = ?h + (push_bit k 1 - 1)" by (metis add_diff_eq)
  also have "push_bit k 1 - 1 = (mask k :: 'a word)" by (simp add: mask_eq_exp_minus_1)
  also have "?h + mask k = ?h OR mask k"
    by (rule disjunctive_add_eq_or, intro bit_word_eqI) (auto simp: bit_simps)
  finally have w1: "w - 1 = ?h OR mask k" .
  show ?thesis
  proof (rule bit_word_eqI)
    fix n assume "n < LENGTH('a)"
    show "bit (w AND (w - 1)) n = bit ?h n"
      unfolding w1 using assms(2) by (auto simp: bit_simps)
  qed
qed

lemma CountBytes_card: "CountBytes w = card {i. bit w i}" for w :: "'a::len word"
proof (induction w rule: CountBytes.induct)
  case (1 w)
  show ?case
  proof (cases "w = 0")
    case True
    then show ?thesis by (simp add: CountBytes.simps)
  next
    case False
    then have "\<exists>k. bit w k" using bit_word_eqI [of w 0] by auto
    define k where "k = (LEAST k. bit w k)"
    have k: "bit w k" "\<forall>j < k. \<not> bit w j"
      using \<open>\<exists>k. bit w k\<close> LeastI_ex not_less_Least by (auto simp: k_def)
    have "{i. bit w i} = insert k {i. bit (w AND NOT (mask (Suc k))) i}"
      using k by (auto simp: bit_simps not_less_eq less_Suc_eq dest: bit_imp_le_length)
    moreover have "finite {i. bit (w AND NOT (mask (Suc k))) i}"
      by (rule finite_subset [of _ "{..<LENGTH('a)}"]) (auto dest: bit_imp_le_length)
    moreover have "k \<notin> {i. bit (w AND NOT (mask (Suc k))) i}" by (auto simp: bit_simps)
    ultimately have "card {i. bit w i} = Suc (card {i. bit (w AND NOT (mask (Suc k))) i})" by simp
    then show ?thesis using 1 [OF False] False clear_lowest [OF k] by (subst CountBytes.simps) simp
  qed
qed

text \<open>What one entry of the interface list contributes, for a given family.\<close>

definition iface_entry :: "u16 \<Rightarrow> ifaddrs \<Rightarrow> (address \<times> nat) list" where
  "iface_entry family i = (case (ifa_addr i, ifa_netmask i) of
     (InSockaddr x, InSockaddr m) \<Rightarrow>
       if family \<in> {AF_UNSPEC, AF_INET} then [(IPv4Address x, card {j. bit (sin_addr m) j})] else []
   | (In6Sockaddr x, In6Sockaddr m) \<Rightarrow>
       if family \<in> {AF_UNSPEC, AF_INET6}
       then [(IPv6Address x, \<Sum>k<16. card {j. bit (s6_addr m ! k) j})] else []
   | _ \<Rightarrow> [])"

definition iface_wf :: "ifaddrs \<Rightarrow> bool" where
  "iface_wf i = (case (ifa_addr i, ifa_netmask i) of
     (InSockaddr x, InSockaddr m) \<Rightarrow> True | (In6Sockaddr x, In6Sockaddr m) \<Rightarrow> True
   | (OtherSockaddr x, _) \<Rightarrow> True | _ \<Rightarrow> False)"

lemma prefix_len6_sum: "prefix_len6 (In6Sockaddr x) = Inr (\<Sum>k<16. card {j. bit (s6_addr x ! k) j})"
proof -
  have "foldl (\<lambda>n i. n + CountBytes (s6_addr x ! i)) a [0..<k] = a + (\<Sum>i<k. CountBytes (s6_addr x ! i))" for a k
    by (induction k) auto
  then show ?thesis by (simp only: prefix_len6_def sockaddr_ptr.case CountBytes_card) simp
qed

lemma interface_loop_spec:
  "\<forall>i \<in> set is. iface_wf i \<Longrightarrow> multi_sorted str_less m \<Longrightarrow>
   \<exists>m'. interface_loop family is m = Inr m' \<and>
     equal_range str_less iface m' = equal_range str_less iface m
       @ concat (map (iface_entry family) (filter (\<lambda>i. ifa_name i = iface) is))"
proof (induction "is" arbitrary: m)
  case (Cons i "is")
  define new where "new = iface_entry family i"
  obtain m1 where m1: "interface_loop family (i # is) m = interface_loop family is m1"
    "m1 = (if new = [] then m else multi_insert str_less (ifa_name i) (hd new) m)" "length new \<le> 1"
  proof -
    have "iface_wf i" using Cons.prems by simp
    then show ?thesis
      by (intro that [of "if new = [] then m else multi_insert str_less (ifa_name i) (hd new) m"])
        (auto simp: new_def iface_entry_def iface_wf_def ptr_family_def prefix_len4_def prefix_len6_sum
          CountBytes_card AF_UNSPEC_def AF_INET_def AF_INET6_def split: sockaddr_ptr.splits)
  qed
  have sorted: "multi_sorted str_less m1" using Cons.prems m1(2) by (simp add: multi_insert_sorted)
  have er: "equal_range str_less iface m1
      = equal_range str_less iface m @ (if ifa_name i = iface then new else [])"
    using m1(2,3) Cons.prems by (cases new) (auto simp: equal_range_insert)
  show ?case unfolding m1(1) using Cons.IH [OF _ sorted] Cons.prems er by (auto simp: new_def)
qed simp

text \<open>Interface addresses. When every entry of the kernel's list has an address, with a netmask of the
  same family, \<open>GetInterfaceAddresses\<close> for a named interface returns, in the order of the list, exactly the
  addresses of that interface in the requested family, each with the number of one bits of its netmask; it
  reports success when there is one. An entry without an address (which \<open>getifaddrs\<close> may contain)
  dereferences a null pointer.\<close>

theorem interface_addresses:
  assumes "\<forall>i \<in> set is. iface_wf i" and "iface \<noteq> []" and "iface \<noteq> bytes ''*''"
  shows "(let xs = concat (map (iface_entry family) (filter (\<lambda>i. ifa_name i = iface) is)) in
       GetInterfaceAddresses (Some is) iface family [] = Inr (xs \<noteq> [], xs))
     \<and> GetInterfaceAddresses (Some (\<lparr>ifa_name = nm, ifa_addr = NullSockaddr, ifa_netmask = nm2\<rparr> # is)) iface family []
       = Inl NullDeref"
proof -
  obtain m where m: "interface_loop family is [] = Inr m"
    and er: "equal_range str_less iface m = concat (map (iface_entry family) (filter (\<lambda>i. ifa_name i = iface) is))"
    using interface_loop_spec [OF assms(1), of "[]" family iface] by (auto simp: multi_sorted_def equal_range_def)
  have "m = [] \<Longrightarrow> equal_range str_less iface m = []" by (simp add: equal_range_def)
  then show ?thesis
    using assms(2,3) m er by (auto simp: GetInterfaceAddresses_def GetInterfaceAddresses_all_def ptr_family_def Let_def)
qed

theorem interface_addresses_witness:
  "\<exists>xs. GetInterfaceAddresses (Some [\<lparr>ifa_name = bytes ''lo'', ifa_addr = InSockaddr (new_IPv4Address 0x7F000001 0),
      ifa_netmask = InSockaddr ((new_IPv4Address 0 0)\<lparr>sin_addr := 0xFF\<rparr>)\<rparr>]) (bytes ''lo'') AF_INET [] = Inr (True, xs)
      \<and> length xs = 1"
  using interface_addresses [of "[\<lparr>ifa_name = bytes ''lo'', ifa_addr = InSockaddr (new_IPv4Address 0x7F000001 0),
      ifa_netmask = InSockaddr ((new_IPv4Address 0 0)\<lparr>sin_addr := 0xFF\<rparr>)\<rparr>]" "bytes ''lo''" AF_INET]
  by (simp add: iface_wf_def iface_entry_def bytes_def Let_def)

end
