(* ===== verification/Logger.thy ===== *)
theory Logger
  imports CString
begin

text \<open>
  The logger (\<open>src/log\<close>): levels, the pattern parser of \<open>LogFormatter::init\<close>, the format items, appenders,
  loggers and the logger manager. Formatters are values; appenders and loggers are objects with
  identity in two stores. \<open>strftime\<close> (with \<open>localtime_r\<close>) and the outcome of opening a file are
  arguments. Output is the list of texts handed to each appender.
\<close>

subsection \<open>Levels\<close>

datatype Level = UNKNOW | DEBUG | INFO | WARN | ERROR | FATAL

definition level_value :: "Level \<Rightarrow> nat" where
  "level_value l = (case l of UNKNOW \<Rightarrow> 0 | DEBUG \<Rightarrow> 1 | INFO \<Rightarrow> 2 | WARN \<Rightarrow> 3 | ERROR \<Rightarrow> 4 | FATAL \<Rightarrow> 5)"

definition Level_ToString :: "Level \<Rightarrow> u8 list" where
  "Level_ToString l = (case l of DEBUG \<Rightarrow> bytes ''DEBUG'' | INFO \<Rightarrow> bytes ''INFO'' | WARN \<Rightarrow> bytes ''WARN''
     | ERROR \<Rightarrow> bytes ''ERROR'' | FATAL \<Rightarrow> bytes ''FATAL'' | _ \<Rightarrow> bytes ''UNKNOW'')"

definition level_names :: "(u8 list \<times> Level) list" where
  "level_names = [(bytes ''debug'', DEBUG), (bytes ''info'', INFO), (bytes ''warn'', WARN), (bytes ''error'', ERROR),
     (bytes ''fatal'', FATAL), (bytes ''DEBUG'', DEBUG), (bytes ''INFO'', INFO), (bytes ''WARN'', WARN),
     (bytes ''ERROR'', ERROR), (bytes ''FATAL'', FATAL)]"

definition Level_FromString :: "u8 list \<Rightarrow> Level" where
  "Level_FromString str = (case map_of level_names str of Some l \<Rightarrow> l | None \<Rightarrow> UNKNOW)"

subsection \<open>The pattern parser\<close>

text \<open>The tuples of \<open>vec\<close>: a literal text (type 0) or an item with its format (type 1).\<close>

datatype pattern_part = Literal "u8 list" | Item "u8 list" "u8 list"

definition isalpha :: "u8 \<Rightarrow> bool" where
  "isalpha c \<longleftrightarrow> 65 \<le> unat c \<and> unat c \<le> 90 \<or> 97 \<le> unat c \<and> unat c \<le> 122"

text \<open>The inner loop: \<open>n\<close>, \<open>fmtStatus\<close>, \<open>fmtBegin\<close>, \<open>str\<close> and \<open>fmt\<close>.\<close>

type_synonym scan_state = "nat \<times> nat \<times> nat \<times> u8 list \<times> u8 list"

function scan_item :: "u8 list \<Rightarrow> nat \<Rightarrow> scan_state \<Rightarrow> scan_state" where
  "scan_item pattern i (n, fmtStatus, fmtBegin, str, fmt) =
     (if n \<ge> length pattern then (n, fmtStatus, fmtBegin, str, fmt)
      else
        let c = pattern ! n in
        if fmtStatus = 0 \<and> \<not> isalpha c \<and> c \<noteq> 123 \<and> c \<noteq> 125 then
          (n, fmtStatus, fmtBegin, substr pattern (i + 1) (n - i - 1), fmt)
        else if fmtStatus = 0 \<and> c = 123 then
          scan_item pattern i (n + 1, 1, n, substr pattern (i + 1) (n - i - 1), fmt)
        else if fmtStatus = 1 \<and> c = 125 then
          (n + 1, 0, fmtBegin, str, substr pattern (fmtBegin + 1) (n - fmtBegin - 1))
        else
          let str = (if n + 1 = length pattern \<and> str = [] then drop (i + 1) pattern else str) in
          scan_item pattern i (n + 1, fmtStatus, fmtBegin, str, fmt))"
  by pat_completeness auto
termination
  by (relation "measure (\<lambda>(pattern, i, n, _). length pattern - n)") auto

declare scan_item.simps [simp del]

lemma scan_item_advances: "n \<le> fst (scan_item pattern i (n, fs, fb, str, fmt))"
proof (induction pattern i "(n, fs, fb, str, fmt)" arbitrary: n fs fb str fmt rule: scan_item.induct)
  case (1 pattern i n fs fb str fmt)
  then show ?case
    by (subst scan_item.simps) (force simp: Let_def dest: Suc_leD)
qed

text \<open>The outer loop, with \<open>i\<close>, \<open>nstr\<close>, \<open>vec\<close> and \<open>m_error\<close>. A \<open>%\<close> in front of another one adds a \<open>%\<close> to
  the literal and goes on at the second one.\<close>

function pattern_loop ::
  "u8 list \<Rightarrow> nat \<Rightarrow> u8 list \<Rightarrow> pattern_part list \<Rightarrow> bool \<Rightarrow> pattern_part list \<times> bool" where
  "pattern_loop pattern i nstr vec err =
     (if i \<ge> length pattern then (if nstr \<noteq> [] then vec @ [Literal nstr] else vec, err)
      else if pattern ! i \<noteq> 37 then pattern_loop pattern (i + 1) (nstr @ [pattern ! i]) vec err
      else if i + 1 < length pattern \<and> pattern ! (i + 1) = 37 then pattern_loop pattern (i + 1) (nstr @ [37]) vec err
      else
        let st = scan_item pattern i (i + 1, 0, 0, [], []);
            n = fst st; fmtStatus = fst (snd st); str = fst (snd (snd (snd st))); fmt = snd (snd (snd (snd st))) in
        if fmtStatus = 0 then
          pattern_loop pattern n [] (vec @ (if nstr \<noteq> [] then [Literal nstr] else []) @ [Item str fmt]) err
        else pattern_loop pattern (i + 1) nstr (vec @ [Literal (bytes ''<<pattern_error>>'')]) True)"
  by pat_completeness auto
termination
proof (relation "measure (\<lambda>(pattern, i, _). length pattern - i)", goal_cases)
  case (4 pattern i nstr vec err st n fs str fmt)
  then have "i + 1 \<le> n" using scan_item_advances [of "i + 1" pattern i 0 0 "[]" "[]"] by simp
  with 4 show ?case by auto
qed auto

declare pattern_loop.simps [simp del]

subsection \<open>Format items\<close>

datatype format_item = MessageFormatItem | LevelFormatItem | ElapseFormatItem | NameFormatItem
  | ThreadIdFormatItem | NewLineFormatItem | DateTimeFormatItem "u8 list" | FilenameFormatItem
  | LineFormatItem | TabFormatItem | FiberIdFormatItem | ThreadNameFormatItem | StringFormatItem "u8 list"

definition new_DateTimeFormatItem :: "u8 list \<Rightarrow> format_item" where
  "new_DateTimeFormatItem fmt = DateTimeFormatItem (if fmt = [] then bytes ''%Y-%m-%d %H:%M:%S'' else fmt)"

text \<open>The map \<open>s_format_items\<close>.\<close>

definition s_format_items :: "u8 list \<Rightarrow> (u8 list \<Rightarrow> format_item) option" where
  "s_format_items str = map_of
     [(bytes ''m'', \<lambda>_. MessageFormatItem), (bytes ''p'', \<lambda>_. LevelFormatItem), (bytes ''r'', \<lambda>_. ElapseFormatItem),
      (bytes ''c'', \<lambda>_. NameFormatItem), (bytes ''t'', \<lambda>_. ThreadIdFormatItem), (bytes ''n'', \<lambda>_. NewLineFormatItem),
      (bytes ''d'', new_DateTimeFormatItem), (bytes ''f'', \<lambda>_. FilenameFormatItem), (bytes ''l'', \<lambda>_. LineFormatItem),
      (bytes ''T'', \<lambda>_. TabFormatItem), (bytes ''F'', \<lambda>_. FiberIdFormatItem), (bytes ''N'', \<lambda>_. ThreadNameFormatItem)] str"

fun make_items :: "pattern_part list \<Rightarrow> bool \<Rightarrow> format_item list \<times> bool" where
  "make_items [] err = ([], err)"
| "make_items (Literal s # ps) err = (let (is, err) = make_items ps err in (StringFormatItem s # is, err))"
| "make_items (Item s fmt # ps) err = (case s_format_items s of
     Some mk \<Rightarrow> (let (is, err) = make_items ps err in (mk fmt # is, err))
   | None \<Rightarrow> (let (is, err) = make_items ps True in
       (StringFormatItem (bytes ''<<error_format %'' @ s @ bytes ''>>'') # is, err)))"

record log_formatter =
  m_pattern :: "u8 list"
  m_items :: "format_item list"
  m_error :: bool

definition new_LogFormatter :: "u8 list \<Rightarrow> log_formatter" where
  "new_LogFormatter pattern = (let (vec, err) = pattern_loop pattern 0 [] [] False;
       (items, err) = make_items vec err in
     \<lparr>m_pattern = pattern, m_items = items, m_error = err\<rparr>)"

record log_event =
  ev_file :: "u8 list"
  ev_line :: u32
  ev_elapse :: u32
  ev_threadId :: u32
  ev_fiberId :: u32
  ev_time :: u64
  ev_threadName :: "u8 list"
  ev_content :: "u8 list"
  ev_logger :: nat
  ev_level :: Level

definition colorConsolePairVec :: "(u8 list \<times> u8 list) list" where
  "colorConsolePairVec = (let e = (\<lambda>s. 27 # bytes s) in
     [([], []), (e ''[34m'', e ''[0m''), (e ''[32m'', e ''[0m''), (e ''[33m'', e ''[0m''),
      (e ''[31m'', e ''[0m''), (e ''[35m'', e ''[0m'')])"

text \<open>The text of an item without the colour codes; \<open>name\<close> is the name of the event's logger.\<close>

definition item_text :: "(u8 list \<Rightarrow> u64 \<Rightarrow> u8 list) \<Rightarrow> u8 list \<Rightarrow> Level \<Rightarrow> log_event \<Rightarrow> format_item \<Rightarrow> u8 list" where
  "item_text strftime name level ev item = (case item of
     MessageFormatItem \<Rightarrow> ev_content ev
   | LevelFormatItem \<Rightarrow> Level_ToString level
   | ElapseFormatItem \<Rightarrow> decimal (unat (ev_elapse ev))
   | NameFormatItem \<Rightarrow> name
   | ThreadIdFormatItem \<Rightarrow> decimal (unat (ev_threadId ev))
   | NewLineFormatItem \<Rightarrow> [10]
   | DateTimeFormatItem fmt \<Rightarrow> strftime fmt (ev_time ev)
   | FilenameFormatItem \<Rightarrow> ev_file ev
   | LineFormatItem \<Rightarrow> decimal_int (sint (ev_line ev))
   | TabFormatItem \<Rightarrow> [9]
   | FiberIdFormatItem \<Rightarrow> decimal (unat (ev_fiberId ev))
   | ThreadNameFormatItem \<Rightarrow> ev_threadName ev
   | StringFormatItem s \<Rightarrow> s)"

definition format_one :: "(u8 list \<Rightarrow> u64 \<Rightarrow> u8 list) \<Rightarrow> u8 list \<Rightarrow> Level \<Rightarrow> log_event \<Rightarrow> format_item \<Rightarrow> u8 list" where
  "format_one strftime name level ev item = (let pair = colorConsolePairVec ! level_value level in
     fst pair @ item_text strftime name level ev item @ snd pair)"

definition format_event :: "(u8 list \<Rightarrow> u64 \<Rightarrow> u8 list) \<Rightarrow> u8 list \<Rightarrow> Level \<Rightarrow> log_event \<Rightarrow> log_formatter \<Rightarrow> u8 list" where
  "format_event strftime name level ev f = concat (map (format_one strftime name level ev) (m_items f))"

subsection \<open>Parsing printed patterns\<close>

text \<open>A pattern as a list of tokens: texts, \<open>%name\<close> and \<open>%name{fmt}\<close>.\<close>

datatype token = TText "u8 list" | TName "u8 list" | TFormat "u8 list" "u8 list"

primrec print_token :: "token \<Rightarrow> u8 list" where
  "print_token (TText s) = s"
| "print_token (TName name) = 37 # name"
| "print_token (TFormat name fmt) = 37 # name @ 123 # fmt @ [125]"

primrec token_part :: "token \<Rightarrow> pattern_part" where
  "token_part (TText s) = Literal s"
| "token_part (TName name) = Item name []"
| "token_part (TFormat name fmt) = Item name fmt"

text \<open>A bare name goes on until a character that is neither a letter nor a brace.\<close>

definition ends_name :: "u8 list \<Rightarrow> bool" where
  "ends_name rest \<longleftrightarrow> (case rest of [] \<Rightarrow> True | c # _ \<Rightarrow> \<not> isalpha c \<and> c \<noteq> 123 \<and> c \<noteq> 125)"

definition is_name :: "u8 list \<Rightarrow> bool" where
  "is_name name \<longleftrightarrow> name \<noteq> [] \<and> list_all isalpha name"

fun tokens_ok :: "token list \<Rightarrow> bool" where
  "tokens_ok [] = True"
| "tokens_ok (TText s # ts) \<longleftrightarrow>
     s \<noteq> [] \<and> 37 \<notin> set s \<and> (case ts of TText _ # _ \<Rightarrow> False | _ \<Rightarrow> True) \<and> tokens_ok ts"
| "tokens_ok (TName name # ts) \<longleftrightarrow> is_name name \<and> ends_name (concat (map print_token ts)) \<and> tokens_ok ts"
| "tokens_ok (TFormat name fmt # ts) \<longleftrightarrow> is_name name \<and> 125 \<notin> set fmt \<and> tokens_ok ts"

lemma isalpha_specials [simp]: "\<not> isalpha 37" "\<not> isalpha 123" "\<not> isalpha 125"
  by (simp_all add: isalpha_def)

lemma scan_letters:
  assumes "n \<le> m" and "m \<le> length p" and "\<forall>k. n \<le> k \<and> k < m \<longrightarrow> isalpha (p ! k)"
  shows "scan_item p i (n, 0, fb, str, fmt)
    = scan_item p i (m, 0, fb, if n < m \<and> m = length p \<and> str = [] then drop (i + 1) p else str, fmt)"
  using assms
proof (induction "m - n" arbitrary: n str)
  case (Suc d)
  then have n: "n < length p" and a: "isalpha (p ! n)" by auto
  then have "p ! n \<noteq> 123" by auto
  then have "scan_item p i (n, 0, fb, str, fmt)
      = scan_item p i (n + 1, 0, fb, if n + 1 = length p \<and> str = [] then drop (i + 1) p else str, fmt)"
    using n a by (subst scan_item.simps) (simp add: Let_def)
  also have "\<dots> = scan_item p i (m, 0, fb, if n < m \<and> m = length p \<and> str = [] then drop (i + 1) p else str, fmt)"
  proof (cases "n + 1 = length p")
    case True
    then have "m = length p" using Suc.hyps(2) Suc.prems(2) by simp
    with True Suc.hyps(2) show ?thesis by simp
  next
    case False
    then show ?thesis using Suc.hyps(1) [of "n + 1"] Suc.hyps(2) Suc.prems by auto
  qed
  finally show ?case .
qed auto

lemma scan_format:
  assumes "n \<le> q" and "q < length p" and "p ! q = 125" and "\<forall>k. n \<le> k \<and> k < q \<longrightarrow> p ! k \<noteq> 125" and "str \<noteq> []"
  shows "scan_item p i (n, 1, fb, str, fmt) = (q + 1, 0, fb, str, substr p (fb + 1) (q - fb - 1))"
  using assms
proof (induction "q - n" arbitrary: n)
  case 0
  then show ?case by (subst scan_item.simps) (simp add: Let_def)
next
  case (Suc d)
  then have "scan_item p i (n, 1, fb, str, fmt) = scan_item p i (n + 1, 1, fb, str, fmt)"
    by (subst scan_item.simps) (simp add: Let_def)
  also have "\<dots> = (q + 1, 0, fb, str, substr p (fb + 1) (q - fb - 1))"
    using Suc.hyps(2) Suc.prems by (intro Suc.hyps(1)) auto
  finally show ?case .
qed

lemma scan_name:
  assumes "is_name name" and "ends_name rest"
  shows "scan_item (pre @ 37 # name @ rest) (length pre) (length pre + 1, 0, 0, [], [])
    = (length pre + 1 + length name, 0, 0, name, [])"
proof -
  let ?p = "pre @ 37 # name @ rest"
  let ?m = "length pre + 1 + length name"
  have a: "isalpha (?p ! k)" if "length pre + 1 \<le> k \<and> k < ?m" for k
    using that assms(1) by (auto simp: is_name_def list_all_length nth_append nth_Cons')
  have s: "scan_item ?p (length pre) (length pre + 1, 0, 0, [], [])
     = scan_item ?p (length pre) (?m, 0, 0, if rest = [] then name else [], [])"
    using a scan_letters [of "length pre + 1" ?m ?p "length pre" 0 "[]" "[]"] assms(1)
    by (simp add: is_name_def)
  show ?thesis
  proof (cases rest)
    case Nil
    then show ?thesis using s by (simp add: scan_item.simps)
  next
    case (Cons c cs)
    then have "?p ! ?m = c" by (simp add: nth_append)
    then have "scan_item ?p (length pre) (?m, 0, 0, [], []) = (?m, 0, 0, name, [])"
      using Cons assms(2) by (subst scan_item.simps) (simp add: ends_name_def Let_def substr_def)
    then show ?thesis using s Cons by simp
  qed
qed

lemma scan_name_format:
  assumes "is_name name" and "125 \<notin> set fmt"
  shows "\<exists>fb. scan_item (pre @ 37 # name @ 123 # fmt @ 125 # rest) (length pre) (length pre + 1, 0, 0, [], [])
    = (length pre + length name + length fmt + 3, 0, fb, name, fmt)"
proof -
  let ?p = "pre @ 37 # name @ 123 # fmt @ 125 # rest"
  let ?m = "length pre + 1 + length name"
  have a: "isalpha (?p ! k)" if "length pre + 1 \<le> k \<and> k < ?m" for k
    using that assms(1) by (auto simp: is_name_def list_all_length nth_append nth_Cons')
  have "scan_item ?p (length pre) (length pre + 1, 0, 0, [], []) = scan_item ?p (length pre) (?m, 0, 0, [], [])"
    using a scan_letters [of "length pre + 1" ?m ?p "length pre" 0 "[]" "[]"] by simp
  also have "\<dots> = scan_item ?p (length pre) (?m + 1, 1, ?m, name, [])"
  proof -
    have "?p ! ?m = 123" by (simp add: nth_append)
    then show ?thesis by (subst scan_item.simps) (simp add: Let_def substr_def)
  qed
  also have "\<dots> = (?m + 1 + length fmt + 1, 0, ?m, name, substr ?p (?m + 1) (?m + 1 + length fmt - ?m - 1))"
  proof (rule scan_format)
    show "?p ! (?m + 1 + length fmt) = 125" by (simp add: nth_append)
    show "\<forall>k. ?m + 1 \<le> k \<and> k < ?m + 1 + length fmt \<longrightarrow> ?p ! k \<noteq> 125"
    proof (intro allI impI)
      fix k
      assume k: "?m + 1 \<le> k \<and> k < ?m + 1 + length fmt"
      define j where "j = k - (?m + 1)"
      then have j: "k = ?m + 1 + j" "j < length fmt" using k by linarith+
      have "?p ! k = fmt ! j" using j by (simp add: nth_append)
      moreover have "fmt ! j \<noteq> 125" using assms(2) nth_mem [OF j(2)] by metis
      ultimately show "?p ! k \<noteq> 125" by simp
    qed
  qed (use assms(1) in \<open>auto simp: is_name_def\<close>)
  finally show ?thesis by (simp add: substr_def)
qed

lemma loop_text:
  "37 \<notin> set s \<Longrightarrow> pattern_loop (pre @ s @ rest) (length pre) nstr vec err
     = pattern_loop (pre @ s @ rest) (length pre + length s) (nstr @ s) vec err"
proof (induction s arbitrary: pre nstr)
  case (Cons c s)
  then have "pattern_loop (pre @ (c # s) @ rest) (length pre) nstr vec err
      = pattern_loop ((pre @ [c]) @ s @ rest) (length (pre @ [c])) (nstr @ [c]) vec err"
    by (subst pattern_loop.simps) (simp add: nth_append)
  then show ?case using Cons.IH [of "pre @ [c]" "nstr @ [c]"] Cons.prems by simp
qed simp

definition flush :: "u8 list \<Rightarrow> pattern_part list" where
  "flush nstr = (if nstr \<noteq> [] then [Literal nstr] else [])"

lemma loop_item:
  assumes "scan_item p i (i + 1, 0, 0, [], []) = (n, 0, fb, str, fmt)"
    and "i < length p" and "p ! i = 37" and "i + 1 < length p" and "p ! (i + 1) \<noteq> 37"
  shows "pattern_loop p i nstr vec err = pattern_loop p n [] (vec @ flush nstr @ [Item str fmt]) err"
  using assms by (subst pattern_loop.simps) (simp add: Let_def flush_def)

text \<open>The parser reads the tokens back; the literal before them is already in \<open>nstr\<close>.\<close>

lemma parse_tokens:
  assumes "tokens_ok ts" and "nstr \<noteq> [] \<longrightarrow> (case ts of TText _ # _ \<Rightarrow> False | _ \<Rightarrow> True)"
  shows "pattern_loop (pre @ concat (map print_token ts)) (length pre) nstr vec err
    = (vec @ flush nstr @ map token_part ts, err)"
  using assms
proof (induction ts arbitrary: pre nstr vec)
  case Nil
  then show ?case by (simp add: pattern_loop.simps flush_def)
next
  case (Cons t ts)
  let ?rest = "concat (map print_token ts)"
  show ?case
  proof (cases t)
    case (TText s)
    then have n: "nstr = []" "s \<noteq> []" "37 \<notin> set s" using Cons.prems by auto
    have "pattern_loop (pre @ s @ ?rest) (length pre) [] vec err = pattern_loop ((pre @ s) @ ?rest) (length (pre @ s)) s vec err"
      using loop_text [OF n(3), of pre ?rest "[]"] by simp
    also have "\<dots> = (vec @ flush s @ map token_part ts, err)"
      using TText Cons.prems by (intro Cons.IH) auto
    finally show ?thesis using TText n by (simp add: flush_def)
  next
    case (TName name)
    then have n: "is_name name" "ends_name ?rest" "tokens_ok ts" using Cons.prems by auto
    let ?p = "pre @ 37 # name @ ?rest"
    have c: "length pre + 1 < length ?p \<and> ?p ! (length pre + 1) \<noteq> 37"
      using n(1) by (cases name) (auto simp: is_name_def nth_append)
    have "pattern_loop ?p (length pre) nstr vec err
        = pattern_loop ?p (length pre + 1 + length name) [] (vec @ flush nstr @ [Item name []]) err"
      using loop_item [OF scan_name [OF n(1,2)], of pre] c by simp
    also have "\<dots> = (vec @ flush nstr @ Item name [] # map token_part ts, err)"
      using Cons.IH [OF n(3), of "[]" "pre @ 37 # name" "vec @ flush nstr @ [Item name []]"] by (simp add: flush_def)
    finally show ?thesis using TName by simp
  next
    case (TFormat name fmt)
    then have n: "is_name name" "125 \<notin> set fmt" "tokens_ok ts" using Cons.prems by auto
    let ?p = "pre @ 37 # name @ 123 # fmt @ 125 # ?rest"
    let ?n = "length pre + length name + length fmt + 3"
    obtain fb where fb: "scan_item ?p (length pre) (length pre + 1, 0, 0, [], []) = (?n, 0, fb, name, fmt)"
      using scan_name_format [OF n(1,2)] by blast
    have c: "length pre + 1 < length ?p \<and> ?p ! (length pre + 1) \<noteq> 37"
      using n(1) by (cases name) (auto simp: is_name_def nth_append)
    have "pattern_loop ?p (length pre) nstr vec err = pattern_loop ?p ?n [] (vec @ flush nstr @ [Item name fmt]) err"
      using loop_item [OF fb] c by simp
    also have "\<dots> = (vec @ flush nstr @ Item name fmt # map token_part ts, err)"
      using Cons.IH [OF n(3), of "[]" "pre @ 37 # name @ 123 # fmt @ [125]" "vec @ flush nstr @ [Item name fmt]"]
      by (simp add: flush_def numeral_3_eq_3 ac_simps)
    finally show ?thesis using TFormat by simp
  qed
qed

text \<open>The items a list of tokens asks for.\<close>

definition known_token :: "token \<Rightarrow> bool" where
  "known_token t \<longleftrightarrow> (case t of TText _ \<Rightarrow> True | TName n \<Rightarrow> s_format_items n \<noteq> None | TFormat n _ \<Rightarrow> s_format_items n \<noteq> None)"

definition token_item :: "token \<Rightarrow> format_item" where
  "token_item t = (case t of TText s \<Rightarrow> StringFormatItem s | TName n \<Rightarrow> the (s_format_items n) []
     | TFormat n f \<Rightarrow> the (s_format_items n) f)"

lemma make_items_tokens:
  "list_all known_token ts \<Longrightarrow> make_items (map token_part ts) err = (map token_item ts, err)"
  by (induction ts) (auto simp: known_token_def token_item_def split: token.splits)

text \<open>C37: The pattern language of the log formatter. Any sequence of texts without \<open>%\<close>, of \<open>%name\<close> and of
  \<open>%name{fmt}\<close>, with known names, where a bare name is not followed by a letter or a brace, printed as one
  pattern, is parsed without error into exactly these items in this order; and the text of an event is
  the concatenation of the texts of the items.\<close>

theorem LogFormatter_parses_patterns:
  assumes "tokens_ok ts" and "list_all known_token ts"
  shows "m_items (new_LogFormatter (concat (map print_token ts))) = map token_item ts
    \<and> \<not> m_error (new_LogFormatter (concat (map print_token ts)))
    \<and> format_event strftime name level ev (new_LogFormatter (concat (map print_token ts)))
      = concat (map (\<lambda>t. format_one strftime name level ev (token_item t)) ts)"
proof -
  have "pattern_loop (concat (map print_token ts)) 0 [] [] False = (map token_part ts, False)"
    using parse_tokens [OF assms(1), of "[]" "[]" "[]" False] by (simp add: flush_def)
  then show ?thesis using make_items_tokens [OF assms(2)]
    by (simp add: new_LogFormatter_def format_event_def comp_def)
qed

text \<open>The pattern every logger starts with.\<close>

definition default_pattern :: "u8 list" where
  "default_pattern = bytes ''%d{%Y-%m-%d %H:%M:%S}%T%t%T%N%T%F%T[%p]%T[%c]%T%f:%l => %m%n''"

definition default_tokens :: "token list" where
  "default_tokens = (let n = (\<lambda>s. TName (bytes s)); t = (\<lambda>s. TText (bytes s)) in
     [TFormat (bytes ''d'') (bytes ''%Y-%m-%d %H:%M:%S''), n ''T'', n ''t'', n ''T'', n ''N'', n ''T'', n ''F'', n ''T'',
      t ''['', n ''p'', t '']'', n ''T'', t ''['', n ''c'', t '']'', n ''T'', n ''f'', t '':'', n ''l'', t '' => '', n ''m'', n ''n''])"

lemma default_tokens:
  "concat (map print_token default_tokens) = default_pattern"
  "tokens_ok default_tokens" "list_all known_token default_tokens"
  by (simp_all add: default_tokens_def default_pattern_def bytes_def is_name_def ends_name_def isalpha_def
      known_token_def s_format_items_def)

theorem LogFormatter_parses_patterns_witness:
  "m_items (new_LogFormatter default_pattern) = map token_item default_tokens \<and> \<not> m_error (new_LogFormatter default_pattern)"
  using LogFormatter_parses_patterns [OF default_tokens(2,3)] unfolding default_tokens(1) by blast

text \<open>The \<open>%%\<close> escape is not one: the second \<open>%\<close> still starts an item.\<close>

lemma percent_not_escaped:
  assumes "tokens_ok (t # ts)" and "list_all known_token (t # ts)" and "\<forall>s. t \<noteq> TText s"
  shows "m_items (new_LogFormatter (37 # concat (map print_token (t # ts)))) = StringFormatItem [37] # map token_item (t # ts)"
proof -
  obtain rest where r: "concat (map print_token (t # ts)) = 37 # rest" using assms(3) by (cases t) auto
  have "pattern_loop (37 # concat (map print_token (t # ts))) 0 [] [] False
      = pattern_loop ([37] @ concat (map print_token (t # ts))) (length [37 :: u8]) [37] [] False"
    unfolding r by (subst pattern_loop.simps) simp
  also have "\<dots> = ([] @ flush [37] @ map token_part (t # ts), False)"
    using assms by (intro parse_tokens) (auto split: token.splits)
  also have "\<dots> = (Literal [37] # map token_part (t # ts), False)" by (simp add: flush_def)
  finally show ?thesis using make_items_tokens [OF assms(2), of False] by (simp add: new_LogFormatter_def)
qed

lemma percent_at_end: "m_error (new_LogFormatter [37, 37])"
  by (simp add: new_LogFormatter_def pattern_loop.simps scan_item.simps s_format_items_def bytes_def Let_def)

end
