(* ===== verification/LogStore.thy ===== *)
theory LogStore
  imports Logger
begin

text \<open>
  Appenders, loggers and the logger manager (\<open>src/log/Logger.cc\<close>, \<open>FileLogAppender.cc\<close>,
  \<open>StdoutLogAppender.cc\<close>, \<open>LoggerManager.cc\<close>). Loggers and appenders are objects behind shared
  pointers: they live in a store under their ids and may be shared. A logger without appenders hands
  an event to its root logger. The outcome of opening and of writing a file are arguments.
\<close>

subsection \<open>Appenders\<close>

text \<open>The part of \<open>std::ofstream\<close> that counts here: is a file open, and is the fail state set.\<close>

record filestream =
  fs_open :: bool
  fs_fail :: bool

definition stream_close :: "filestream \<Rightarrow> filestream" where
  "stream_close s = \<lparr>fs_open = False, fs_fail = fs_fail s \<or> \<not> fs_open s\<rparr>"

text \<open>\<open>open\<close> fails on a stream that is open, and clears the fail state when it succeeds.\<close>

definition stream_open :: "bool \<Rightarrow> filestream \<Rightarrow> filestream" where
  "stream_open opens s = (if fs_open s then s\<lparr>fs_fail := True\<rparr> else \<lparr>fs_open = opens, fs_fail = \<not> opens\<rparr>)"

datatype target = Stdout | File "u8 list"

record log_appender =
  ap_target :: target
  ap_level :: Level
  ap_hasFormatter :: bool
  ap_formatter :: "log_formatter option"
  ap_stream :: filestream
  ap_lastTime :: u64

text \<open>What the file system does with a file: does it open, and does a write succeed.\<close>

record log_env =
  file_opens :: "u8 list \<Rightarrow> bool"
  file_writes :: "u8 list \<Rightarrow> bool"

definition new_StdoutLogAppender :: log_appender where
  "new_StdoutLogAppender = \<lparr>ap_target = Stdout, ap_level = DEBUG, ap_hasFormatter = False, ap_formatter = None,
     ap_stream = \<lparr>fs_open = False, fs_fail = False\<rparr>, ap_lastTime = 0\<rparr>"

definition reopen :: "log_env \<Rightarrow> u8 list \<Rightarrow> log_appender \<Rightarrow> bool \<times> log_appender" where
  "reopen env filename a =
     (let s = (if \<not> fs_fail (ap_stream a) then stream_close (ap_stream a) else ap_stream a);
          s = stream_open (file_opens env filename) s
      in (fs_open s, a\<lparr>ap_stream := s\<rparr>))"

definition new_FileLogAppender :: "log_env \<Rightarrow> u8 list \<Rightarrow> log_appender" where
  "new_FileLogAppender env filename = snd (reopen env filename (new_StdoutLogAppender\<lparr>ap_target := File filename\<rparr>))"

definition appender_setFormatter :: "log_formatter option \<Rightarrow> log_appender \<Rightarrow> log_appender" where
  "appender_setFormatter val a = a\<lparr>ap_formatter := val, ap_hasFormatter := val \<noteq> None\<rparr>"

text \<open>Output: the texts in the order they are written, each with its target.\<close>

type_synonym log_output = "(target \<times> u8 list) list"

definition stdout_log ::
  "(log_formatter \<Rightarrow> u8 list) \<Rightarrow> Level \<Rightarrow> log_appender \<Rightarrow> (log_output \<times> log_appender) result" where
  "stdout_log fmt level a =
     (if level_value level \<ge> level_value (ap_level a) then
        (case ap_formatter a of None \<Rightarrow> Inl NullDeref | Some f \<Rightarrow> Inr ([(Stdout, fmt f)], a))
      else Inr ([], a))"

definition file_log ::
  "log_env \<Rightarrow> u8 list \<Rightarrow> (log_formatter \<Rightarrow> u8 list) \<Rightarrow> Level \<Rightarrow> u64 \<Rightarrow> log_appender \<Rightarrow> (log_output \<times> log_appender) result" where
  "file_log env filename fmt level now a =
     (if level_value level \<ge> level_value (ap_level a) then
        let a = (if ap_lastTime a + 3 \<le> now then (snd (reopen env filename a))\<lparr>ap_lastTime := now\<rparr> else a) in
        (case ap_formatter a of None \<Rightarrow> Inl NullDeref
         | Some f \<Rightarrow>
             if fs_open (ap_stream a) \<and> \<not> fs_fail (ap_stream a) \<and> file_writes env filename
             then Inr ([(File filename, fmt f)], a)
             else Inr ([(Stdout, bytes ''error'' @ [10])], a\<lparr>ap_stream := (ap_stream a)\<lparr>fs_fail := True\<rparr>\<rparr>))
      else Inr ([], a))"

definition appender_log ::
  "log_env \<Rightarrow> (log_formatter \<Rightarrow> u8 list) \<Rightarrow> Level \<Rightarrow> u64 \<Rightarrow> log_appender \<Rightarrow> (log_output \<times> log_appender) result" where
  "appender_log env fmt level now a = (case ap_target a of
     Stdout \<Rightarrow> stdout_log fmt level a | File filename \<Rightarrow> file_log env filename fmt level now a)"

subsection \<open>Loggers\<close>

record logger =
  lg_name :: "u8 list"
  lg_level :: Level
  lg_appenders :: "nat list"
  lg_formatter :: "log_formatter option"
  lg_root :: "nat option"

record log_store =
  appender_at :: "nat \<Rightarrow> log_appender"
  logger_at :: "nat \<Rightarrow> logger"

definition new_Logger :: "u8 list \<Rightarrow> logger" where
  "new_Logger name = \<lparr>lg_name = name, lg_level = DEBUG, lg_appenders = [],
     lg_formatter = Some (new_LogFormatter default_pattern), lg_root = None\<rparr>"

definition upd_appender :: "nat \<Rightarrow> (log_appender \<Rightarrow> log_appender) \<Rightarrow> log_store \<Rightarrow> log_store" where
  "upd_appender a f st = st\<lparr>appender_at := (appender_at st)(a := f (appender_at st a))\<rparr>"

definition upd_logger :: "nat \<Rightarrow> (logger \<Rightarrow> logger) \<Rightarrow> log_store \<Rightarrow> log_store" where
  "upd_logger l f st = st\<lparr>logger_at := (logger_at st)(l := f (logger_at st l))\<rparr>"

definition follow_formatter :: "log_formatter option \<Rightarrow> log_appender \<Rightarrow> log_appender" where
  "follow_formatter val a = (if \<not> ap_hasFormatter a then a\<lparr>ap_formatter := val\<rparr> else a)"

definition logger_setFormatter :: "nat \<Rightarrow> log_formatter option \<Rightarrow> log_store \<Rightarrow> log_store" where
  "logger_setFormatter l val st = (let st = upd_logger l (\<lambda>lg. lg\<lparr>lg_formatter := val\<rparr>) st in
     foldl (\<lambda>st a. upd_appender a (follow_formatter val) st) st (lg_appenders (logger_at st l)))"

definition logger_setFormatter_str :: "nat \<Rightarrow> u8 list \<Rightarrow> log_store \<Rightarrow> log_store" where
  "logger_setFormatter_str l val st = (let newVal = new_LogFormatter val in
     if m_error newVal then st else logger_setFormatter l (Some newVal) st)"

definition addAppender :: "nat \<Rightarrow> nat \<Rightarrow> log_store \<Rightarrow> log_store" where
  "addAppender l a st =
     (let st = (if ap_formatter (appender_at st a) = None
                then upd_appender a (\<lambda>ap. ap\<lparr>ap_formatter := lg_formatter (logger_at st l)\<rparr>) st else st)
      in upd_logger l (\<lambda>lg. lg\<lparr>lg_appenders := lg_appenders lg @ [a]\<rparr>) st)"

definition delAppender :: "nat \<Rightarrow> nat \<Rightarrow> log_store \<Rightarrow> log_store" where
  "delAppender l a st = upd_logger l (\<lambda>lg. lg\<lparr>lg_appenders := remove1 a (lg_appenders lg)\<rparr>) st"

definition clearAppenders :: "nat \<Rightarrow> log_store \<Rightarrow> log_store" where
  "clearAppenders l st = upd_logger l (\<lambda>lg. lg\<lparr>lg_appenders := []\<rparr>) st"

text \<open>The loop over the appenders of a logger.\<close>

fun log_appenders ::
  "log_env \<Rightarrow> (log_formatter \<Rightarrow> u8 list) \<Rightarrow> Level \<Rightarrow> u64 \<Rightarrow> nat list \<Rightarrow> log_store \<Rightarrow> (log_output \<times> log_store) result" where
  "log_appenders env fmt level now [] st = Inr ([], st)"
| "log_appenders env fmt level now (a # as) st =
     bind_r (appender_log env fmt level now (appender_at st a)) (\<lambda>(out, ap).
       bind_r (log_appenders env fmt level now as (upd_appender a (\<lambda>_. ap) st)) (\<lambda>(outs, st). Inr (out @ outs, st)))"

text \<open>\<open>Logger::log\<close>. The chain of root pointers is followed at most \<open>fuel\<close> times; a logger that meets its own
  mutex again would never return.\<close>

fun logger_log ::
  "nat \<Rightarrow> log_env \<Rightarrow> (log_formatter \<Rightarrow> u8 list) \<Rightarrow> Level \<Rightarrow> u64 \<Rightarrow> nat \<Rightarrow> log_store \<Rightarrow> (log_output \<times> log_store) result" where
  "logger_log 0 env fmt level now l st = Inl NonTermination"
| "logger_log (Suc fuel) env fmt level now l st =
     (if level_value level \<ge> level_value (lg_level (logger_at st l)) then
        if lg_appenders (logger_at st l) \<noteq> [] then
          log_appenders env fmt level now (lg_appenders (logger_at st l)) st
        else (case lg_root (logger_at st l) of None \<Rightarrow> Inr ([], st)
          | Some r \<Rightarrow> logger_log fuel env fmt level now r st)
      else Inr ([], st))"

text \<open>The end of a log statement (\<open>~LogEventWrap\<close>): the event goes to its logger at its level. The names in
  the text are those of the event's logger.\<close>

definition log_event_end ::
  "log_env \<Rightarrow> (u8 list \<Rightarrow> u64 \<Rightarrow> u8 list) \<Rightarrow> nat \<Rightarrow> log_event \<Rightarrow> log_store \<Rightarrow> (log_output \<times> log_store) result" where
  "log_event_end env strftime fuel ev st =
     logger_log fuel env (format_event strftime (lg_name (logger_at st (ev_logger ev))) (ev_level ev) ev)
       (ev_level ev) (ev_time ev) (ev_logger ev) st"

subsection \<open>The manager\<close>

record logger_manager =
  m_loggers :: "(u8 list \<times> nat) list"
  lm_root :: nat

text \<open>\<open>root\<close>, \<open>ap\<close> and \<open>l\<close> are the addresses of the objects that are allocated.\<close>

definition new_LoggerManager :: "nat \<Rightarrow> nat \<Rightarrow> log_store \<Rightarrow> logger_manager \<times> log_store" where
  "new_LoggerManager root ap st =
     (let st = upd_logger root (\<lambda>_. new_Logger (bytes ''root'')) st;
          st = upd_appender ap (\<lambda>_. new_StdoutLogAppender) st;
          st = addAppender root ap st
      in (\<lparr>m_loggers = [(lg_name (logger_at st root), root)], lm_root = root\<rparr>, st))"

definition getLogger :: "nat \<Rightarrow> u8 list \<Rightarrow> logger_manager \<Rightarrow> log_store \<Rightarrow> nat \<times> logger_manager \<times> log_store" where
  "getLogger l name m st = (case map_find str_less name (m_loggers m) of
     Some k \<Rightarrow> (k, m, st)
   | None \<Rightarrow>
       (l, m\<lparr>m_loggers := map_assign str_less name l (m_loggers m)\<rparr>,
        upd_logger l (\<lambda>_. (new_Logger name)\<lparr>lg_root := Some (lm_root m)\<rparr>) st))"

subsection \<open>What logging leaves alone\<close>

lemma upd_simps [simp]:
  "appender_at (upd_appender a f st) b = (if b = a then f (appender_at st a) else appender_at st b)"
  "logger_at (upd_appender a f st) = logger_at st"
  "logger_at (upd_logger l g st) k = (if k = l then g (logger_at st l) else logger_at st k)"
  "appender_at (upd_logger l g st) = appender_at st"
  by (simp_all add: upd_appender_def upd_logger_def)

text \<open>Everything of an appender but its stream and the time of its last opening.\<close>

definition same_conf :: "log_appender \<Rightarrow> log_appender \<Rightarrow> bool" where
  "same_conf a b \<longleftrightarrow> ap_target a = ap_target b \<and> ap_level a = ap_level b
     \<and> ap_hasFormatter a = ap_hasFormatter b \<and> ap_formatter a = ap_formatter b"

lemma same_conf_refl [simp]: "same_conf a a"
  by (simp add: same_conf_def)

lemma same_conf_trans: "same_conf a b \<Longrightarrow> same_conf b c \<Longrightarrow> same_conf a c"
  by (simp add: same_conf_def)

lemma same_conf_reopen [simp]: "same_conf a (snd (reopen env filename a))"
  by (simp add: same_conf_def reopen_def Let_def)

definition stream_good :: "log_appender \<Rightarrow> bool" where
  "stream_good a \<longleftrightarrow> ap_target a = Stdout \<or> fs_open (ap_stream a) \<and> \<not> fs_fail (ap_stream a)"

definition healthy :: "log_env \<Rightarrow> bool" where
  "healthy env \<longleftrightarrow> (\<forall>f. file_opens env f \<and> file_writes env f)"

text \<open>What one appender gets of an event.\<close>

definition delivery :: "(log_formatter \<Rightarrow> u8 list) \<Rightarrow> Level \<Rightarrow> log_appender \<Rightarrow> log_output" where
  "delivery fmt level a = (if level_value (ap_level a) \<le> level_value level then [(ap_target a, fmt (the (ap_formatter a)))] else [])"

lemma delivery_conf: "same_conf a b \<Longrightarrow> delivery fmt level a = delivery fmt level b"
  by (simp add: delivery_def same_conf_def)

lemma reopen_good: "file_opens env f \<Longrightarrow> stream_good a \<Longrightarrow> ap_target a \<noteq> Stdout \<Longrightarrow>
    fs_open (ap_stream (snd (reopen env f a))) \<and> \<not> fs_fail (ap_stream (snd (reopen env f a)))"
  by (auto simp: reopen_def stream_close_def stream_open_def stream_good_def Let_def)

lemma appender_log_result:
  assumes "ap_formatter a \<noteq> None"
  shows "\<exists>out b. appender_log env fmt level now a = Inr (out, b) \<and> same_conf a b
    \<and> (healthy env \<and> stream_good a \<longrightarrow> out = delivery fmt level a \<and> stream_good b)"
proof (cases "ap_target a")
  case Stdout
  then show ?thesis using assms by (auto simp: appender_log_def stdout_log_def delivery_def stream_good_def)
next
  case (File f)
  obtain fm where fm: "ap_formatter a = Some fm" using assms by blast
  define b where "b = (if ap_lastTime a + 3 \<le> now then (snd (reopen env f a))\<lparr>ap_lastTime := now\<rparr> else a)"
  have b: "ap_target b = File f" "ap_level b = ap_level a" "ap_hasFormatter b = ap_hasFormatter a" "ap_formatter b = Some fm"
    using File fm by (simp_all add: b_def reopen_def Let_def)
  have g: "healthy env \<and> stream_good a \<longrightarrow> fs_open (ap_stream b) \<and> \<not> fs_fail (ap_stream b) \<and> file_writes env f"
    using File reopen_good [of env f a] by (auto simp: b_def healthy_def stream_good_def)
  have "appender_log env fmt level now a
      = (if level_value level \<ge> level_value (ap_level a) then
          if fs_open (ap_stream b) \<and> \<not> fs_fail (ap_stream b) \<and> file_writes env f
          then Inr ([(File f, fmt fm)], b)
          else Inr ([(Stdout, bytes ''error'' @ [10])], b\<lparr>ap_stream := (ap_stream b)\<lparr>fs_fail := True\<rparr>\<rparr>)
         else Inr ([], a))"
    using File b(4) by (simp add: appender_log_def file_log_def b_def [symmetric] Let_def)
  then show ?thesis using File fm b g by (auto simp: same_conf_def delivery_def stream_good_def)
qed

lemma log_appenders_result:
  assumes "\<forall>a \<in> set as. ap_formatter (appender_at st a) \<noteq> None"
  shows "\<exists>out st1. log_appenders env fmt level now as st = Inr (out, st1)
    \<and> logger_at st1 = logger_at st \<and> (\<forall>a. same_conf (appender_at st a) (appender_at st1 a))
    \<and> (healthy env \<and> (\<forall>a \<in> set as. stream_good (appender_at st a))
       \<longrightarrow> out = concat (map (\<lambda>a. delivery fmt level (appender_at st a)) as))"
  using assms
proof (induction as arbitrary: st)
  case (Cons a as)
  obtain out b where b: "appender_log env fmt level now (appender_at st a) = Inr (out, b)"
      "same_conf (appender_at st a) b"
      "healthy env \<and> stream_good (appender_at st a) \<longrightarrow> out = delivery fmt level (appender_at st a) \<and> stream_good b"
    using appender_log_result [of "appender_at st a" env fmt level now] Cons.prems
    by (meson list.set_intros(1))
  let ?st = "upd_appender a (\<lambda>_. b) st"
  have c: "same_conf (appender_at st x) (appender_at ?st x)" for x using b(2) by simp
  have "\<forall>x \<in> set as. ap_formatter (appender_at ?st x) \<noteq> None"
    using Cons.prems c by (metis list.set_intros(2) same_conf_def)
  from Cons.IH [OF this] obtain outs st1 where r:
    "log_appenders env fmt level now as ?st = Inr (outs, st1)" "logger_at st1 = logger_at ?st"
    "\<forall>x. same_conf (appender_at ?st x) (appender_at st1 x)"
    "healthy env \<and> (\<forall>x \<in> set as. stream_good (appender_at ?st x))
       \<longrightarrow> outs = concat (map (\<lambda>x. delivery fmt level (appender_at ?st x)) as)" by blast
  have d: "concat (map (\<lambda>x. delivery fmt level (appender_at ?st x)) as)
      = concat (map (\<lambda>x. delivery fmt level (appender_at st x)) as)"
    using delivery_conf [OF c] by (intro arg_cong [of _ _ concat] map_cong) auto
  show ?case
  proof (intro exI conjI)
    show "log_appenders env fmt level now (a # as) st = Inr (out @ outs, st1)" using b(1) r(1) by simp
    show "logger_at st1 = logger_at st" using r(2) by simp
    show "\<forall>x. same_conf (appender_at st x) (appender_at st1 x)" using c r(3) same_conf_trans by blast
    show "healthy env \<and> (\<forall>x \<in> set (a # as). stream_good (appender_at st x))
       \<longrightarrow> out @ outs = concat (map (\<lambda>x. delivery fmt level (appender_at st x)) (a # as))"
      using b(3) r(4) d by (simp del: upd_simps) (simp add: upd_simps)
  qed
qed simp

subsection \<open>Runs\<close>

text \<open>What can happen to the loggers and appenders: \<open>L\<close> and \<open>A\<close> are the addresses in use.\<close>

inductive log_run :: "logger_manager \<Rightarrow> log_store \<Rightarrow> nat set \<Rightarrow> nat set \<Rightarrow> bool" where
  run_init: "new_LoggerManager root ap st0 = (m, st) \<Longrightarrow> log_run m st {root} {ap}"
| run_getLogger: "log_run m st L A \<Longrightarrow> l \<notin> L \<Longrightarrow> getLogger l name m st = (k, m1, st1) \<Longrightarrow> log_run m1 st1 (insert k L) A"
| run_newLogger: "log_run m st L A \<Longrightarrow> l \<notin> L \<Longrightarrow> log_run m (upd_logger l (\<lambda>_. new_Logger name) st) (insert l L) A"
| run_newStdout: "log_run m st L A \<Longrightarrow> a \<notin> A \<Longrightarrow> log_run m (upd_appender a (\<lambda>_. new_StdoutLogAppender) st) L (insert a A)"
| run_newFile: "log_run m st L A \<Longrightarrow> a \<notin> A \<Longrightarrow> log_run m (upd_appender a (\<lambda>_. new_FileLogAppender env f) st) L (insert a A)"
| run_addAppender: "log_run m st L A \<Longrightarrow> l \<in> L \<Longrightarrow> a \<in> A \<Longrightarrow> log_run m (addAppender l a st) L A"
| run_delAppender: "log_run m st L A \<Longrightarrow> l \<in> L \<Longrightarrow> log_run m (delAppender l a st) L A"
| run_clearAppenders: "log_run m st L A \<Longrightarrow> l \<in> L \<Longrightarrow> log_run m (clearAppenders l st) L A"
| run_setFormatter: "log_run m st L A \<Longrightarrow> l \<in> L \<Longrightarrow> log_run m (logger_setFormatter l (Some f) st) L A"
| run_setFormatter_str: "log_run m st L A \<Longrightarrow> l \<in> L \<Longrightarrow> log_run m (logger_setFormatter_str l pattern st) L A"
| run_appender_setFormatter: "log_run m st L A \<Longrightarrow> a \<in> A \<Longrightarrow> log_run m (upd_appender a (appender_setFormatter (Some f)) st) L A"
| run_setLevel: "log_run m st L A \<Longrightarrow> l \<in> L \<Longrightarrow> log_run m (upd_logger l (\<lambda>lg. lg\<lparr>lg_level := v\<rparr>) st) L A"
| run_appender_setLevel: "log_run m st L A \<Longrightarrow> a \<in> A \<Longrightarrow> log_run m (upd_appender a (\<lambda>ap. ap\<lparr>ap_level := v\<rparr>) st) L A"
| run_log: "log_run m st L A \<Longrightarrow> l \<in> L \<Longrightarrow> logger_log fuel env fmt level now l st = Inr (out, st1) \<Longrightarrow> log_run m st1 L A"

definition loggers_ok :: "nat \<Rightarrow> log_store \<Rightarrow> nat set \<Rightarrow> nat set \<Rightarrow> bool" where
  "loggers_ok root st L A \<longleftrightarrow> root \<in> L \<and> lg_root (logger_at st root) = None
     \<and> (\<forall>l \<in> L. lg_formatter (logger_at st l) \<noteq> None \<and> lg_root (logger_at st l) \<in> {None, Some root}
         \<and> (\<forall>a \<in> set (lg_appenders (logger_at st l)). a \<in> A \<and> ap_formatter (appender_at st a) \<noteq> None))"

definition names_ok :: "logger_manager \<Rightarrow> log_store \<Rightarrow> nat set \<Rightarrow> bool" where
  "names_ok m st L \<longleftrightarrow> map_sorted str_less (m_loggers m) \<and> distinct (map snd (m_loggers m))
     \<and> (\<forall>e \<in> set (m_loggers m). snd e \<in> L \<and> lg_name (logger_at st (snd e)) = fst e
         \<and> lg_root (logger_at st (snd e)) = (if snd e = lm_root m then None else Some (lm_root m)))
     \<and> (bytes ''root'', lm_root m) \<in> set (m_loggers m)"

text \<open>Operations that keep names and root pointers keep \<open>names_ok\<close>.\<close>

lemma names_ok_cong:
  assumes "names_ok m st L" and "L \<subseteq> K"
    and "\<And>l. l \<in> L \<Longrightarrow> lg_name (logger_at st1 l) = lg_name (logger_at st l) \<and> lg_root (logger_at st1 l) = lg_root (logger_at st l)"
  shows "names_ok m st1 K"
  using assms unfolding names_ok_def by (metis subsetD)

lemma loggers_ok_logger:
  assumes "loggers_ok root st L A" and "l \<notin> L \<or> lg_root g = lg_root (logger_at st l)"
    and "lg_formatter g \<noteq> None" and "lg_root g \<in> {None, Some root}"
    and "\<forall>a \<in> set (lg_appenders g). a \<in> A \<and> ap_formatter (appender_at st a) \<noteq> None"
  shows "loggers_ok root (upd_logger l (\<lambda>_. g) st) (insert l L) A"
  using assms unfolding loggers_ok_def by (auto simp del: not_None_eq)

lemma upd_logger_const: "upd_logger l f st = upd_logger l (\<lambda>_. f (logger_at st l)) st"
  by (simp add: upd_logger_def)

lemma loggers_ok_edit:
  assumes "loggers_ok root st L A" and "l \<in> L"
    and "lg_root (f (logger_at st l)) = lg_root (logger_at st l)" and "lg_formatter (f (logger_at st l)) \<noteq> None"
    and "set (lg_appenders (f (logger_at st l))) \<subseteq> set (lg_appenders (logger_at st l))"
  shows "loggers_ok root (upd_logger l f st) L A"
proof -
  have "loggers_ok root (upd_logger l (\<lambda>_. f (logger_at st l)) st) (insert l L) A"
  proof (rule loggers_ok_logger [OF assms(1)])
    show "lg_root (f (logger_at st l)) \<in> {None, Some root}" using assms(1-3) by (simp add: loggers_ok_def)
    show "\<forall>a \<in> set (lg_appenders (f (logger_at st l))). a \<in> A \<and> ap_formatter (appender_at st a) \<noteq> None"
      using assms(1,2,5) unfolding loggers_ok_def by blast
  qed (use assms in auto)
  then show ?thesis using assms(2) upd_logger_const [of l f st] by (simp add: insert_absorb)
qed

text \<open>Changes to appenders that leave none of them without a formatter.\<close>

lemma loggers_ok_appenders:
  assumes "loggers_ok root st L A" and "logger_at st1 = logger_at st" and "A \<subseteq> B"
    and "\<And>a. a \<in> A \<Longrightarrow> ap_formatter (appender_at st a) \<noteq> None \<Longrightarrow> ap_formatter (appender_at st1 a) \<noteq> None"
  shows "loggers_ok root st1 L B"
  using assms unfolding loggers_ok_def by (metis subsetD)

lemma fold_follow:
  "logger_at (foldl (\<lambda>st a. upd_appender a (follow_formatter val) st) st as) = logger_at st
   \<and> appender_at (foldl (\<lambda>st a. upd_appender a (follow_formatter val) st) st as) b
     = (if b \<in> set as then follow_formatter val (appender_at st b) else appender_at st b)"
  by (induction as arbitrary: st) (auto simp: follow_formatter_def)

lemma logger_setFormatter_effect:
  "logger_at (logger_setFormatter l val st) = (logger_at st)(l := (logger_at st l)\<lparr>lg_formatter := val\<rparr>)"
  "appender_at (logger_setFormatter l val st) b
     = (if b \<in> set (lg_appenders (logger_at st l)) then follow_formatter val (appender_at st b) else appender_at st b)"
  using fold_follow [of val "upd_logger l (\<lambda>lg. lg\<lparr>lg_formatter := val\<rparr>) st"]
  by (auto simp: logger_setFormatter_def Let_def fun_eq_iff)

lemma loggers_ok_setFormatter:
  assumes "loggers_ok root st L A" and "l \<in> L"
  shows "loggers_ok root (logger_setFormatter l (Some f) st) L A"
proof (rule loggers_ok_appenders)
  show "loggers_ok root (upd_logger l (\<lambda>lg. lg\<lparr>lg_formatter := Some f\<rparr>) st) L A"
    by (rule loggers_ok_edit [OF assms]) simp_all
  show "logger_at (logger_setFormatter l (Some f) st) = logger_at (upd_logger l (\<lambda>lg. lg\<lparr>lg_formatter := Some f\<rparr>) st)"
    by (simp add: logger_setFormatter_effect fun_eq_iff)
qed (auto simp: logger_setFormatter_effect follow_formatter_def)

lemma loggers_ok_addAppender:
  assumes "loggers_ok root st L A" and "l \<in> L" and "a \<in> A"
  shows "loggers_ok root (addAppender l a st) L A"
proof -
  define st1 where "st1 = (if ap_formatter (appender_at st a) = None
    then upd_appender a (\<lambda>ap. ap\<lparr>ap_formatter := lg_formatter (logger_at st l)\<rparr>) st else st)"
  have f: "lg_formatter (logger_at st l) \<noteq> None" using assms(1,2) by (simp add: loggers_ok_def)
  have l1: "logger_at st1 = logger_at st" by (simp add: st1_def)
  have ok: "loggers_ok root st1 L A"
    by (rule loggers_ok_appenders [OF assms(1) l1]) (use f in \<open>auto simp: st1_def\<close>)
  have a: "ap_formatter (appender_at st1 a) \<noteq> None" using f by (auto simp: st1_def)
  let ?g = "(logger_at st1 l)\<lparr>lg_appenders := lg_appenders (logger_at st1 l) @ [a]\<rparr>"
  have "loggers_ok root (upd_logger l (\<lambda>_. ?g) st1) (insert l L) A"
  proof (rule loggers_ok_logger [OF ok])
    show "lg_root ?g \<in> {None, Some root}" using ok assms(2) by (simp add: loggers_ok_def)
    show "\<forall>b \<in> set (lg_appenders ?g). b \<in> A \<and> ap_formatter (appender_at st1 b) \<noteq> None"
      using ok assms(2,3) a by (auto simp: loggers_ok_def simp del: not_None_eq)
  qed (use f l1 in auto)
  moreover have "addAppender l a st = upd_logger l (\<lambda>_. ?g) st1"
    unfolding addAppender_def st1_def [symmetric] Let_def by (rule upd_logger_const)
  ultimately show ?thesis using assms(2) by (simp add: insert_absorb)
qed

text \<open>The appenders an event logged at \<open>l\<close> is for.\<close>

definition receivers :: "log_store \<Rightarrow> nat \<Rightarrow> Level \<Rightarrow> nat list" where
  "receivers st l level =
     (if level_value level < level_value (lg_level (logger_at st l)) then []
      else if lg_appenders (logger_at st l) \<noteq> [] then lg_appenders (logger_at st l)
      else (case lg_root (logger_at st l) of None \<Rightarrow> []
        | Some r \<Rightarrow> if level_value level < level_value (lg_level (logger_at st r)) then [] else lg_appenders (logger_at st r)))"

lemma logger_log_receivers:
  assumes "loggers_ok root st L A" and "l \<in> L"
  shows "logger_log (Suc (Suc fuel)) env fmt level now l st = log_appenders env fmt level now (receivers st l level) st"
proof -
  have r: "lg_root (logger_at st root) = None" "lg_root (logger_at st l) \<in> {None, Some root}"
    using assms by (simp_all add: loggers_ok_def)
  show ?thesis
  proof (cases "lg_root (logger_at st l)")
    case None
    then show ?thesis by (simp add: receivers_def)
  next
    case (Some k)
    then have "k = root" using r(2) by simp
    then show ?thesis using Some r(1) by (simp add: receivers_def)
  qed
qed

lemma receivers_formatters:
  assumes "loggers_ok root st L A" and "l \<in> L"
  shows "\<forall>a \<in> set (receivers st l level). ap_formatter (appender_at st a) \<noteq> None"
proof -
  have "\<forall>k \<in> L. \<forall>a \<in> set (lg_appenders (logger_at st k)). ap_formatter (appender_at st a) \<noteq> None"
    and "lg_root (logger_at st l) \<in> {None, Some root}" "root \<in> L"
    using assms by (simp_all add: loggers_ok_def)
  then show ?thesis using assms(2) by (auto simp: receivers_def simp del: not_None_eq split: option.splits)
qed

lemma logger_log_result:
  assumes "loggers_ok root st L A" and "l \<in> L" and "2 \<le> fuel"
  shows "\<exists>out st1. logger_log fuel env fmt level now l st = Inr (out, st1)
    \<and> logger_at st1 = logger_at st \<and> (\<forall>a. same_conf (appender_at st a) (appender_at st1 a))
    \<and> (healthy env \<and> (\<forall>a \<in> set (receivers st l level). stream_good (appender_at st a))
       \<longrightarrow> out = concat (map (\<lambda>a. delivery fmt level (appender_at st a)) (receivers st l level)))"
proof -
  obtain n where "fuel = Suc (Suc n)" using assms(3) by (metis Suc_le_D numeral_2_eq_2 Suc_le_mono)
  then show ?thesis
    using logger_log_receivers [OF assms(1,2)] log_appenders_result [OF receivers_formatters [OF assms(1,2)]] by simp
qed

text \<open>A log call that returns changes nothing but streams, whatever the fuel.\<close>

lemma logger_log_frame:
  assumes "loggers_ok root st L A" and "l \<in> L" and "logger_log fuel env fmt level now l st = Inr (out, st1)"
  shows "logger_at st1 = logger_at st \<and> (\<forall>a. same_conf (appender_at st a) (appender_at st1 a))"
proof (cases "2 \<le> fuel")
  case True
  then show ?thesis using logger_log_result [OF assms(1,2) True, of env fmt level now] assms(3) by auto
next
  case False
  then have "fuel = 1" using assms(3) by (cases fuel) auto
  then have "st1 = st \<or> log_appenders env fmt level now (lg_appenders (logger_at st l)) st = Inr (out, st1)"
    using assms(3) by (auto split: if_splits option.splits)
  moreover have "\<forall>a \<in> set (lg_appenders (logger_at st l)). ap_formatter (appender_at st a) \<noteq> None"
    using assms(1,2) by (simp add: loggers_ok_def)
  ultimately show ?thesis using log_appenders_result [of "lg_appenders (logger_at st l)" st env fmt level now] by auto
qed

lemma names_ok_getLogger:
  assumes "names_ok m st L" and "lm_root m \<in> L" and "l \<notin> L" and "map_find str_less name (m_loggers m) = None"
  shows "names_ok (m\<lparr>m_loggers := map_assign str_less name l (m_loggers m)\<rparr>)
    (upd_logger l (\<lambda>_. (new_Logger name)\<lparr>lg_root := Some (lm_root m)\<rparr>) st) (insert l L)"
proof -
  let ?m = "map_assign str_less name l (m_loggers m)"
  have l: "l \<notin> snd ` set (m_loggers m)" using assms(1,3) by (auto simp: names_ok_def)
  have s: "set ?m = insert (name, l) (set (m_loggers m))" by (rule str.weak.assign_new [OF assms(4)])
  have d: "map_sorted str_less ?m" "distinct (map snd ?m)"
    using assms(1) str.weak.sorted_assign str.weak.assign_new_distinct [OF assms(4) l] by (auto simp: names_ok_def)
  have e: "snd e \<noteq> l" if "e \<in> set (m_loggers m)" for e using l that by auto
  have r: "lm_root m \<noteq> l" using assms(2,3) by auto
  have "\<forall>e \<in> set (m_loggers m). snd e \<in> L \<and> lg_name (logger_at st (snd e)) = fst e
      \<and> lg_root (logger_at st (snd e)) = (if snd e = lm_root m then None else Some (lm_root m))"
    and "(bytes ''root'', lm_root m) \<in> set (m_loggers m)"
    using assms(1) by (simp_all add: names_ok_def)
  then show ?thesis
    using d e r unfolding names_ok_def by (simp add: s new_Logger_def)
qed

lemma loggers_ok_new:
  assumes "loggers_ok root st L A" and "l \<notin> L" and "r \<in> {None, Some root}"
  shows "loggers_ok root (upd_logger l (\<lambda>_. (new_Logger name)\<lparr>lg_root := r\<rparr>) st) (insert l L) A"
  using assms by (intro loggers_ok_logger) (auto simp: new_Logger_def)

lemma new_Logger_root: "(new_Logger name)\<lparr>lg_root := None\<rparr> = new_Logger name"
  by (simp add: new_Logger_def)

lemma getLogger_cases:
  assumes "getLogger l name m st = (k, m1, st1)"
  obtains "map_find str_less name (m_loggers m) = Some k" "m1 = m" "st1 = st"
  | "map_find str_less name (m_loggers m) = None" "k = l"
    "m1 = m\<lparr>m_loggers := map_assign str_less name l (m_loggers m)\<rparr>"
    "st1 = upd_logger l (\<lambda>_. (new_Logger name)\<lparr>lg_root := Some (lm_root m)\<rparr>) st"
  using assms by (auto simp: getLogger_def split: option.splits)

lemma init_ok:
  assumes "new_LoggerManager root ap st0 = (m, st)"
  shows "lm_root m = root \<and> loggers_ok root st {root} {ap} \<and> names_ok m st {root}"
  using assms by (auto simp: new_LoggerManager_def Let_def addAppender_def new_StdoutLogAppender_def new_Logger_def
      loggers_ok_def names_ok_def)

lemma names_ok_appenders: "names_ok m st L \<Longrightarrow> logger_at st1 = logger_at st \<Longrightarrow> names_ok m st1 L"
  by (simp add: names_ok_def)

lemma names_ok_edit:
  assumes "names_ok m st L"
    and "lg_name (f (logger_at st l)) = lg_name (logger_at st l)" and "lg_root (f (logger_at st l)) = lg_root (logger_at st l)"
  shows "names_ok m (upd_logger l f st) L"
  by (rule names_ok_cong [OF assms(1)]) (use assms in auto)

lemma names_ok_new: "names_ok m st L \<Longrightarrow> l \<notin> L \<Longrightarrow> names_ok m (upd_logger l (\<lambda>_. g) st) (insert l L)"
  by (erule names_ok_cong) auto

lemma names_ok_setFormatter: "names_ok m st L \<Longrightarrow> names_ok m (logger_setFormatter l val st) L"
  by (erule names_ok_cong) (auto simp: logger_setFormatter_effect)

lemma names_ok_addAppender: "names_ok m st L \<Longrightarrow> names_ok m (addAppender l a st) L"
  by (erule names_ok_cong) (auto simp: addAppender_def Let_def)

lemma loggers_ok_same_conf:
  assumes "loggers_ok root st L A" and "logger_at st1 = logger_at st" and "\<forall>a. same_conf (appender_at st a) (appender_at st1 a)"
  shows "loggers_ok root st1 L A"
  using loggers_ok_appenders [OF assms(1,2) subset_refl] assms(3) by (simp add: same_conf_def)

lemma ok_upd_appender:
  assumes "loggers_ok (lm_root m) st L A \<and> names_ok m st L"
    and "a \<in> A \<Longrightarrow> ap_formatter (appender_at st a) \<noteq> None \<Longrightarrow> ap_formatter (f (appender_at st a)) \<noteq> None"
  shows "loggers_ok (lm_root m) (upd_appender a f st) L (insert a A) \<and> names_ok m (upd_appender a f st) L"
proof
  show "loggers_ok (lm_root m) (upd_appender a f st) L (insert a A)"
    by (rule loggers_ok_appenders [of "lm_root m" st L A]) (use assms in \<open>auto simp del: not_None_eq\<close>)
  show "names_ok m (upd_appender a f st) L" by (rule names_ok_appenders [of m st]) (use assms in auto)
qed

lemma log_run_ok: "log_run m st L A \<Longrightarrow> loggers_ok (lm_root m) st L A \<and> names_ok m st L"
proof (induction rule: log_run.induct)
  case (run_init root ap st0 m st)
  then show ?case using init_ok by blast
next
  case (run_getLogger m st L A l name k m1 st1)
  from run_getLogger.hyps(3) show ?case
  proof (cases rule: getLogger_cases)
    case 1
    then obtain j where "(j, k) \<in> set (m_loggers m)" using str.weak.find_Some_mem [OF 1(1)] by auto
    then have "k \<in> L" using run_getLogger.IH by (force simp: names_ok_def)
    then show ?thesis using run_getLogger.IH 1 by (simp add: insert_absorb)
  next
    case 2
    have "lm_root m \<in> L" using run_getLogger.IH by (simp add: loggers_ok_def)
    then show ?thesis
      using 2 run_getLogger.IH names_ok_getLogger [of m st L l name]
        loggers_ok_new [of "lm_root m" st L A l "Some (lm_root m)" name] run_getLogger.hyps(2) by simp
  qed
next
  case (run_newLogger m st L A l name)
  then show ?case
    using loggers_ok_new [of "lm_root m" st L A l None name] names_ok_new [of m st L l] by (simp add: new_Logger_root)
next
  case (run_newStdout m st L A a)
  then show ?case
    using ok_upd_appender [of m st L A a] by simp
next
  case (run_newFile m st L A a env f)
  then show ?case
    using ok_upd_appender [of m st L A a] by simp
next
  case (run_addAppender m st L A l a)
  then show ?case using loggers_ok_addAppender names_ok_addAppender by blast
next
  case (run_delAppender m st L A l a)
  then have "lg_formatter (logger_at st l) \<noteq> None" by (simp add: loggers_ok_def)
  then show ?case
    using run_delAppender loggers_ok_edit [of "lm_root m" st L A l "\<lambda>lg. lg\<lparr>lg_appenders := remove1 a (lg_appenders lg)\<rparr>"]
      names_ok_edit [of m st L "\<lambda>lg. lg\<lparr>lg_appenders := remove1 a (lg_appenders lg)\<rparr>" l]
    by (simp add: delAppender_def set_remove1_subset)
next
  case (run_clearAppenders m st L A l)
  then have "lg_formatter (logger_at st l) \<noteq> None" by (simp add: loggers_ok_def)
  then show ?case
    using run_clearAppenders loggers_ok_edit [of "lm_root m" st L A l "\<lambda>lg. lg\<lparr>lg_appenders := []\<rparr>"]
      names_ok_edit [of m st L "\<lambda>lg. lg\<lparr>lg_appenders := []\<rparr>" l]
    by (simp add: clearAppenders_def)
next
  case (run_setFormatter m st L A l f)
  then show ?case using loggers_ok_setFormatter names_ok_setFormatter by blast
next
  case (run_setFormatter_str m st L A l pattern)
  then show ?case
    using loggers_ok_setFormatter names_ok_setFormatter by (simp add: logger_setFormatter_str_def Let_def)
next
  case (run_appender_setFormatter m st L A a f)
  then show ?case
    using ok_upd_appender [of m st L A a "appender_setFormatter (Some f)"] by (simp add: appender_setFormatter_def insert_absorb)
next
  case (run_setLevel m st L A l v)
  then have "lg_formatter (logger_at st l) \<noteq> None" by (simp add: loggers_ok_def)
  then show ?case
    using run_setLevel loggers_ok_edit [of "lm_root m" st L A l "\<lambda>lg. lg\<lparr>lg_level := v\<rparr>"]
      names_ok_edit [of m st L "\<lambda>lg. lg\<lparr>lg_level := v\<rparr>" l] by simp
next
  case (run_appender_setLevel m st L A a v)
  then show ?case
    using ok_upd_appender [of m st L A a "\<lambda>ap. ap\<lparr>ap_level := v\<rparr>"] by (simp add: insert_absorb)
next
  case (run_log m st L A l fuel env fmt level now out st1)
  have f: "logger_at st1 = logger_at st \<and> (\<forall>a. same_conf (appender_at st a) (appender_at st1 a))"
    using logger_log_frame run_log.IH run_log.hyps(2,3) by blast
  then show ?case using loggers_ok_same_conf names_ok_appenders run_log.IH by blast
qed

subsection \<open>Properties\<close>

text \<open>C36: Delivery. In every state reached from the construction of the manager through any calls of the
  loggers, appenders and the manager (with non-null formatters), logging an event returns, follows at
  most one root pointer, never uses a null formatter and changes no logger and no configuration of an
  appender; when the files open and can be written and the streams of the receiving appenders are
  good, the output is, in order, exactly one text for each receiving appender whose level admits the
  event, written to that appender's target with its formatter. The receivers are the logger's own
  appenders, or the root's when it has none, provided the levels of the loggers passed admit it.\<close>

theorem log_delivery:
  assumes "log_run m st L A" and "l \<in> L" and "2 \<le> fuel"
  shows "\<exists>out st1. logger_log fuel env fmt level now l st = Inr (out, st1) \<and> log_run m st1 L A
    \<and> logger_at st1 = logger_at st \<and> (\<forall>a. same_conf (appender_at st a) (appender_at st1 a))
    \<and> (healthy env \<and> (\<forall>a \<in> set (receivers st l level). stream_good (appender_at st a))
       \<longrightarrow> out = concat (map (\<lambda>a. delivery fmt level (appender_at st a)) (receivers st l level)))"
proof -
  have "loggers_ok (lm_root m) st L A" using log_run_ok [OF assms(1)] by blast
  from logger_log_result [OF this assms(2,3), of env fmt level now] obtain out st1 where
    r: "logger_log fuel env fmt level now l st = Inr (out, st1)" "logger_at st1 = logger_at st"
      "\<forall>a. same_conf (appender_at st a) (appender_at st1 a)"
      "healthy env \<and> (\<forall>a \<in> set (receivers st l level). stream_good (appender_at st a))
        \<longrightarrow> out = concat (map (\<lambda>a. delivery fmt level (appender_at st a)) (receivers st l level))"
    by blast
  moreover have "log_run m st1 L A" using run_log [OF assms(1,2) r(1)] .
  ultimately show ?thesis by blast
qed

definition store0 :: log_store where
  "store0 = \<lparr>appender_at = (\<lambda>_. new_StdoutLogAppender), logger_at = (\<lambda>_. new_Logger [])\<rparr>"

definition all_healthy :: log_env where
  "all_healthy = \<lparr>file_opens = (\<lambda>_. True), file_writes = (\<lambda>_. True)\<rparr>"

text \<open>An event of a fresh named logger is printed once, by the appender of the root.\<close>

theorem log_delivery_witness:
  "let (m, st) = new_LoggerManager 0 0 store0; (l, m, st) = getLogger 1 (bytes ''sys'') m st in
     \<exists>st1. logger_log 2 all_healthy (\<lambda>_. [104, 105]) INFO 0 l st = Inr ([(Stdout, [104, 105])], st1)"
proof -
  obtain m st where i: "new_LoggerManager 0 0 store0 = (m, st)" by fastforce
  obtain l m1 st1 where g: "getLogger 1 (bytes ''sys'') m st = (l, m1, st1)" by (cases "getLogger 1 (bytes ''sys'') m st")
  have r: "log_run m1 st1 (insert l {0}) {0}" using run_getLogger [OF run_init [OF i] _ g] by simp
  have m: "m = \<lparr>m_loggers = [(bytes ''root'', 0)], lm_root = 0\<rparr>"
    and s: "st = addAppender 0 0 (upd_appender 0 (\<lambda>_. new_StdoutLogAppender) (upd_logger 0 (\<lambda>_. new_Logger (bytes ''root'')) store0))"
    using i by (auto simp: new_LoggerManager_def Let_def addAppender_def new_Logger_def)
  have l: "l = 1" "st1 = upd_logger 1 (\<lambda>_. (new_Logger (bytes ''sys''))\<lparr>lg_root := Some 0\<rparr>) st"
    using g by (auto simp: getLogger_def m bytes_def)
  have "receivers st1 l INFO = [0]" "ap_target (appender_at st1 0) = Stdout" "ap_level (appender_at st1 0) = DEBUG"
    by (simp_all add: receivers_def l s addAppender_def new_Logger_def new_StdoutLogAppender_def level_value_def)
  then show ?thesis
    using log_delivery [OF r, of l 2 all_healthy "\<lambda>_. [104, 105]" INFO 0]
    by (auto simp: i g healthy_def all_healthy_def stream_good_def delivery_def level_value_def simp del: One_nat_def)
qed

lemma equiv_str: "equiv_by str_less a b \<longleftrightarrow> a = b"
  using str.total [of a b] str.irrefl by (auto simp: equiv_by_def)

lemma names_ok_entry:
  assumes "names_ok m st L" and "map_find str_less n (m_loggers m) = Some v"
  shows "lg_name (logger_at st v) = n" "lg_root (logger_at st v) = (if v = lm_root m then None else Some (lm_root m))"
proof -
  have "(n, v) \<in> set (m_loggers m)" using str.weak.find_Some_mem [OF assms(2)] equiv_str by auto
  then have "lg_name (logger_at st (snd (n, v))) = fst (n, v)
      \<and> lg_root (logger_at st (snd (n, v))) = (if snd (n, v) = lm_root m then None else Some (lm_root m))"
    using assms(1) unfolding names_ok_def by blast
  then show "lg_name (logger_at st v) = n" "lg_root (logger_at st v) = (if v = lm_root m then None else Some (lm_root m))"
    by simp_all
qed

lemma names_ok_root: "names_ok m st L \<Longrightarrow> map_find str_less (bytes ''root'') (m_loggers m) = Some (lm_root m)"
  by (simp add: names_ok_def str.weak.find_mem)

text \<open>Loggers by name. In every reachable state \<open>getLogger\<close> returns a logger with the name asked for, whose
  root pointer is the root logger (null for the root itself); asking again returns the same logger
  and changes nothing; different names give different loggers; \<open>root\<close> gives the root logger.\<close>

theorem getLogger_laws:
  assumes "log_run m st L A" and "l \<notin> L" and "getLogger l name m st = (k, m1, st1)"
  shows "lg_name (logger_at st1 k) = name
    \<and> lg_root (logger_at st1 k) = (if k = lm_root m then None else Some (lm_root m))
    \<and> getLogger j name m1 st1 = (k, m1, st1)
    \<and> (\<forall>name2 k2. map_find str_less name2 (m_loggers m) = Some k2 \<and> name2 \<noteq> name \<longrightarrow>
         k2 \<noteq> k \<and> getLogger j name2 m1 st1 = (k2, m1, st1))
    \<and> (name = bytes ''root'' \<longrightarrow> k = lm_root m)"
proof -
  have ok: "names_ok m st L" using log_run_ok [OF assms(1)] by blast
  have ok1: "names_ok m1 st1 (insert k L)" using log_run_ok [OF run_getLogger [OF assms]] by blast
  have m1: "lm_root m1 = lm_root m" using assms(3) by (cases rule: getLogger_cases) simp_all
  have find: "map_find str_less n (m_loggers m1) = (if n = name then Some k else map_find str_less n (m_loggers m))" for n
    using assms(3)
  proof (cases rule: getLogger_cases)
    case 2
    have "map_sorted str_less (m_loggers m)" using ok by (simp add: names_ok_def)
    then show ?thesis using 2 by (simp add: str.weak.find_assign equiv_str)
  qed simp
  note entry = names_ok_entry [OF ok1, unfolded m1]
  have again: "getLogger j n m1 st1 = (v, m1, st1)" if "map_find str_less n (m_loggers m1) = Some v" for n v
    using that by (simp add: getLogger_def)
  have k: "map_find str_less name (m_loggers m1) = Some k" using find by simp
  have other: "k2 \<noteq> k \<and> getLogger j name2 m1 st1 = (k2, m1, st1)"
    if "map_find str_less name2 (m_loggers m) = Some k2 \<and> name2 \<noteq> name" for name2 k2
  proof -
    have f: "map_find str_less name2 (m_loggers m1) = Some k2" using find that by simp
    then show ?thesis using entry(1) [OF f] entry(1) [OF k] again [OF f] that by auto
  qed
  have "k = lm_root m" if "name = bytes ''root''"
    using names_ok_root [OF ok1] k m1 that by simp
  then show ?thesis using entry [OF k] again [OF k] other by blast
qed

theorem getLogger_laws_witness:
  "let (m, st) = new_LoggerManager 0 0 store0; (k, m1, st1) = getLogger 1 (bytes ''sys'') m st in
     lg_name (logger_at st1 k) = bytes ''sys'' \<and> getLogger 2 (bytes ''sys'') m1 st1 = (k, m1, st1)"
proof -
  obtain m st where i: "new_LoggerManager 0 0 store0 = (m, st)" by fastforce
  obtain k m1 st1 where g: "getLogger 1 (bytes ''sys'') m st = (k, m1, st1)" by (cases "getLogger 1 (bytes ''sys'') m st")
  show ?thesis using getLogger_laws [OF run_init [OF i] _ g, of 2] by (simp add: i g del: One_nat_def)
qed

text \<open>Changing the formatter of a logger. A pattern that does not parse changes nothing. Any other pattern
  becomes the formatter of the logger and of those of its appenders that have none of their own; the
  others, all other appenders and all other loggers keep theirs.\<close>

theorem setFormatter_reach:
  "logger_setFormatter_str l pattern st = st \<and> m_error (new_LogFormatter pattern)
   \<or> \<not> m_error (new_LogFormatter pattern)
     \<and> logger_at (logger_setFormatter_str l pattern st)
         = (logger_at st)(l := (logger_at st l)\<lparr>lg_formatter := Some (new_LogFormatter pattern)\<rparr>)
     \<and> (\<forall>a. appender_at (logger_setFormatter_str l pattern st) a
         = (if a \<in> set (lg_appenders (logger_at st l)) \<and> \<not> ap_hasFormatter (appender_at st a)
            then (appender_at st a)\<lparr>ap_formatter := Some (new_LogFormatter pattern)\<rparr> else appender_at st a))"
  by (auto simp: logger_setFormatter_str_def Let_def logger_setFormatter_effect follow_formatter_def)

text \<open>Setting the formatter of an attached appender to null makes the next event it accepts fail.\<close>

lemma null_formatter:
  "level_value (ap_level a) \<le> level_value level \<Longrightarrow>
   appender_log env fmt level now (appender_setFormatter None a) = Inl NullDeref"
  by (cases "ap_target a")
    (simp_all add: appender_log_def stdout_log_def file_log_def appender_setFormatter_def reopen_def Let_def)

text \<open>Several events at one appender.\<close>

fun log_events ::
  "log_env list \<Rightarrow> (log_formatter \<Rightarrow> u8 list) \<Rightarrow> (Level \<times> u64) list \<Rightarrow> log_appender \<Rightarrow> (log_output \<times> log_appender) result" where
  "log_events (env # envs) fmt ((level, now) # evs) a =
     bind_r (appender_log env fmt level now a) (\<lambda>(out, a).
       bind_r (log_events envs fmt evs a) (\<lambda>(outs, a). Inr (out @ outs, a)))"
| "log_events envs fmt evs a = Inr ([], a)"

lemma stuck_stream:
  assumes "ap_target a = File f" and "fs_open (ap_stream a)" and "fs_fail (ap_stream a)" and "ap_formatter a = Some g"
  shows "\<exists>out b. appender_log env fmt level now a = Inr (out, b) \<and> set out \<subseteq> {(Stdout, bytes ''error'' @ [10])}
    \<and> ap_target b = File f \<and> fs_open (ap_stream b) \<and> fs_fail (ap_stream b) \<and> ap_formatter b = Some g"
  using assms by (simp add: appender_log_def file_log_def reopen_def stream_open_def Let_def)

text \<open>A write error of a log file is permanent. Once the stream of a file appender has failed while its file
  is open, no later event reaches the file, however many there are and although the file could be
  opened and written again: \<open>reopen\<close> closes the file only when the stream is good, and opening an open
  stream fails. Each event the level admits prints \<open>error\<close> on the standard output instead.\<close>

theorem file_error_permanent:
  assumes "ap_target a = File f" and "fs_open (ap_stream a)" and "fs_fail (ap_stream a)"
    and "ap_formatter a \<noteq> None"
  shows "\<exists>out b. log_events envs fmt evs a = Inr (out, b) \<and> set out \<subseteq> {(Stdout, bytes ''error'' @ [10])}
    \<and> fst (reopen env f b)"
  using assms
proof (induction envs fmt evs a rule: log_events.induct)
  case (1 env1 envs fmt level now evs a)
  obtain out b where ab: "appender_log env1 fmt level now a = Inr (out, b)" and o: "set out \<subseteq> {(Stdout, bytes ''error'' @ [10])}"
    and b: "ap_target b = File f" "fs_open (ap_stream b)" "fs_fail (ap_stream b)" "ap_formatter b \<noteq> None"
    using stuck_stream [OF "1.prems"(1-3)] "1.prems"(4) by (metis not_None_eq)
  from "1.IH" [OF ab HOL.refl b] obtain outs c where
    "log_events envs fmt evs b = Inr (outs, c)" "set outs \<subseteq> {(Stdout, bytes ''error'' @ [10])}" "fst (reopen env f c)" by blast
  then show ?case using ab o by auto
qed (auto simp: reopen_def stream_open_def Let_def)

theorem file_error_permanent_witness:
  "let a = (new_FileLogAppender all_healthy [120])\<lparr>ap_formatter := Some (new_LogFormatter [109])\<rparr>;
       broken = all_healthy\<lparr>file_writes := (\<lambda>_. False)\<rparr> in
   case appender_log broken (\<lambda>_. [104]) INFO 5 a of Inr (out, b) \<Rightarrow>
     \<exists>outs c. log_events [all_healthy] (\<lambda>_. [104]) [(INFO, 9)] b = Inr (outs, c) \<and> (File [120], [104]) \<notin> set outs
   | _ \<Rightarrow> False"
proof -
  let ?a = "(new_FileLogAppender all_healthy [120])\<lparr>ap_formatter := Some (new_LogFormatter [109])\<rparr>"
  obtain out b where b: "appender_log (all_healthy\<lparr>file_writes := (\<lambda>_. False)\<rparr>) (\<lambda>_. [104]) INFO 5 ?a = Inr (out, b)"
      "ap_target b = File [120]" "fs_open (ap_stream b)" "fs_fail (ap_stream b)" "ap_formatter b \<noteq> None"
    by (simp add: new_FileLogAppender_def new_StdoutLogAppender_def reopen_def stream_open_def stream_close_def
        all_healthy_def appender_log_def file_log_def level_value_def Let_def)
  show ?thesis
    using file_error_permanent [OF b(2-5), of "[all_healthy]" "\<lambda>_. [104]" "[(INFO, 9)]" all_healthy] by (auto simp: b(1))
qed

end
