(* ===== verification/Sockets.thy ===== *)
theory Sockets
  imports Address Hook
begin

text \<open>
  \<open>src/socket/socket.cc\<close>: the class \<open>Socket\<close>. What the system calls return is an argument (the record
  \<open>sock_sys\<close>); what an operation does to descriptors, options and the file system is the list of
  actions it performs, in order. Descriptors are integers, \<open>-1\<close> is none.
\<close>

subsection \<open>The state\<close>

definition SOCK_STREAM :: int where "SOCK_STREAM = 1"
definition SOCK_DGRAM :: int where "SOCK_DGRAM = 2"

record socket =
  sk_sock :: int
  sk_family :: u16
  sk_type :: int
  sk_protocol :: int
  sk_isConnected :: bool
  sk_localAddress :: "address option"
  sk_remoteAddress :: "address option"

text \<open>The outcomes of the system calls. \<open>getpeername\<close> and \<open>getsockname\<close> fill the buffer they are given and
  return a length; \<open>None\<close> is an error.\<close>

record sock_sys =
  sys_socket :: int
  sys_bind :: int
  sys_listen :: int
  sys_connect :: "u64 \<Rightarrow> int"
  sys_accept :: int
  sys_getpeername :: "address \<Rightarrow> (address \<times> nat) option"
  sys_getsockname :: "address \<Rightarrow> (address \<times> nat) option"

datatype sock_action = OpenFd int | CloseFd int | SetReuseAddr | SetNoDelay | UnlinkPath "u8 list"

definition new_Socket :: "u16 \<Rightarrow> int \<Rightarrow> int \<Rightarrow> socket" where
  "new_Socket family type protocol = \<lparr>sk_sock = - 1, sk_family = family, sk_type = type, sk_protocol = protocol,
     sk_isConnected = False, sk_localAddress = None, sk_remoteAddress = None\<rparr>"

definition isValid :: "socket \<Rightarrow> bool" where
  "isValid s \<longleftrightarrow> sk_sock s \<noteq> - 1"

definition initSock :: "socket \<Rightarrow> sock_action list" where
  "initSock s = SetReuseAddr # (if sk_type s = SOCK_STREAM then [SetNoDelay] else [])"

definition newSock :: "sock_sys \<Rightarrow> socket \<Rightarrow> socket \<times> sock_action list" where
  "newSock sys s = (let s = s\<lparr>sk_sock := sys_socket sys\<rparr> in
     (s, if sk_sock s \<noteq> - 1 then OpenFd (sk_sock s) # initSock s else []))"

definition CreateTCP :: "address \<Rightarrow> socket" where
  "CreateTCP addr = new_Socket (getFamily addr) SOCK_STREAM 0"

definition create_udp :: "sock_sys \<Rightarrow> u16 \<Rightarrow> socket \<times> sock_action list" where
  "create_udp sys family = (let (s, acts) = newSock sys (new_Socket family SOCK_DGRAM 0) in
     (s\<lparr>sk_isConnected := True\<rparr>, acts))"

definition CreateUDP :: "sock_sys \<Rightarrow> address \<Rightarrow> socket \<times> sock_action list" where
  "CreateUDP sys addr = create_udp sys (getFamily addr)"

definition CreateTCPSocket :: socket where "CreateTCPSocket = new_Socket AF_INET SOCK_STREAM 0"
definition CreateTCPSocket6 :: socket where "CreateTCPSocket6 = new_Socket AF_INET6 SOCK_STREAM 0"
definition CreateUnixTCPSocket :: socket where "CreateUnixTCPSocket = new_Socket AF_UNIX SOCK_STREAM 0"
definition CreateUnixUDPSocket :: socket where "CreateUnixUDPSocket = new_Socket AF_UNIX SOCK_DGRAM 0"

definition CreateUDPSocket :: "sock_sys \<Rightarrow> socket \<times> sock_action list" where
  "CreateUDPSocket sys = create_udp sys AF_INET"

definition CreateUDPSocket6 :: "sock_sys \<Rightarrow> socket \<times> sock_action list" where
  "CreateUDPSocket6 sys = create_udp sys AF_INET6"

subsection \<open>Addresses\<close>

text \<open>The buffer for an address of the socket's family.\<close>

definition blank_address :: "u16 \<Rightarrow> address" where
  "blank_address family =
     (if family = AF_INET then IPv4Address (new_IPv4Address 0 0)
      else if family = AF_INET6 then IPv6Address empty_IPv6Address
      else if family = AF_UNIX then UnixAddress empty_UnixAddress
      else UnknownAddress (new_UnknownAddress family))"

definition set_len :: "u16 \<Rightarrow> nat \<Rightarrow> address \<Rightarrow> address" where
  "set_len family len a = (if family = AF_UNIX then (case a of UnixAddress u \<Rightarrow> UnixAddress (setAddrLen len u) | _ \<Rightarrow> a) else a)"

definition getRemoteAddress :: "sock_sys \<Rightarrow> socket \<Rightarrow> address \<times> socket" where
  "getRemoteAddress sys s = (case sk_remoteAddress s of Some a \<Rightarrow> (a, s)
     | None \<Rightarrow> (case sys_getpeername sys (blank_address (sk_family s)) of
         None \<Rightarrow> (UnknownAddress (new_UnknownAddress (sk_family s)), s)
       | Some (result, addrlen) \<Rightarrow> (let a = set_len (sk_family s) addrlen result in (a, s\<lparr>sk_remoteAddress := Some a\<rparr>))))"

definition getLocalAddress :: "sock_sys \<Rightarrow> socket \<Rightarrow> address \<times> socket" where
  "getLocalAddress sys s = (case sk_localAddress s of Some a \<Rightarrow> (a, s)
     | None \<Rightarrow> (case sys_getsockname sys (blank_address (sk_family s)) of
         None \<Rightarrow> (UnknownAddress (new_UnknownAddress (sk_family s)), s)
       | Some (result, addrlen) \<Rightarrow> (let a = set_len (sk_family s) addrlen result in (a, s\<lparr>sk_localAddress := Some a\<rparr>))))"

subsection \<open>Connecting\<close>

definition close_socket :: "socket \<Rightarrow> bool \<times> socket \<times> sock_action list" where
  "close_socket s =
     (if \<not> sk_isConnected s \<and> sk_sock s = - 1 then (True, s, [])
      else (False, s\<lparr>sk_isConnected := False, sk_sock := - 1\<rparr>, if sk_sock s \<noteq> - 1 then [CloseFd (sk_sock s)] else []))"

text \<open>The destructor.\<close>

definition delete_Socket :: "socket \<Rightarrow> sock_action list" where
  "delete_Socket s = snd (snd (close_socket s))"

definition open_if_needed :: "sock_sys \<Rightarrow> socket \<Rightarrow> socket \<times> sock_action list" where
  "open_if_needed sys s = (if \<not> isValid s then newSock sys s else (s, []))"

definition sock_connect :: "sock_sys \<Rightarrow> address \<Rightarrow> u64 \<Rightarrow> socket \<Rightarrow> bool \<times> socket \<times> sock_action list" where
  "sock_connect sys addr timeoutMs s =
     (let s = s\<lparr>sk_remoteAddress := Some addr\<rparr>; (s, acts) = open_if_needed sys s in
      if \<not> isValid s then (False, s, acts)
      else if getFamily addr \<noteq> sk_family s then (False, s, acts)
      else if sys_connect sys timeoutMs \<noteq> 0 then (let (_, s, cl) = close_socket s in (False, s, acts @ cl))
      else let s = s\<lparr>sk_isConnected := True\<rparr>; (_, s) = getRemoteAddress sys s; (_, s) = getLocalAddress sys s in (True, s, acts))"

definition reconnect :: "sock_sys \<Rightarrow> u64 \<Rightarrow> socket \<Rightarrow> bool \<times> socket \<times> sock_action list" where
  "reconnect sys timeoutMs s = (case sk_remoteAddress s of None \<Rightarrow> (False, s, [])
     | Some a \<Rightarrow> sock_connect sys a timeoutMs (s\<lparr>sk_localAddress := None\<rparr>))"

text \<open>\<open>bind\<close>: for a Unix address a second socket (\<open>probe\<close>, with the outcomes \<open>sys2\<close>) tests whether a server
  is listening; it is destroyed at the end of the block.\<close>

definition probe_unix :: "sock_sys \<Rightarrow> address \<Rightarrow> sockaddr_un \<Rightarrow> bool \<times> sock_action list" where
  "probe_unix sys2 addr u = (let (ok, probe, acts) = sock_connect sys2 addr (- 1) CreateUnixTCPSocket in
     (ok, acts @ (if ok then [] else [UnlinkPath (getPath u)]) @ delete_Socket probe))"

definition sock_bind :: "sock_sys \<Rightarrow> sock_sys \<Rightarrow> address \<Rightarrow> socket \<Rightarrow> bool \<times> socket \<times> sock_action list" where
  "sock_bind sys sys2 addr s =
     (let s = s\<lparr>sk_localAddress := Some addr\<rparr>; (s, acts) = open_if_needed sys s in
      if \<not> isValid s then (False, s, acts)
      else if getFamily addr \<noteq> sk_family s then (False, s, acts)
      else let (busy, acts2) = (case addr of UnixAddress u \<Rightarrow> probe_unix sys2 addr u | _ \<Rightarrow> (False, [])) in
        if busy then (False, s, acts @ acts2)
        else if sys_bind sys \<noteq> 0 then (False, s, acts @ acts2)
        else (True, snd (getLocalAddress sys s), acts @ acts2))"

definition sock_listen :: "sock_sys \<Rightarrow> socket \<Rightarrow> bool" where
  "sock_listen sys s = (if \<not> isValid s then False else if sys_listen sys \<noteq> 0 then False else True)"

text \<open>\<open>init\<close> with the context of the descriptor in the descriptor table.\<close>

definition init_Socket :: "sock_sys \<Rightarrow> fd_ctx option \<Rightarrow> int \<Rightarrow> socket \<Rightarrow> bool \<times> socket \<times> sock_action list" where
  "init_Socket sys ctx sock s = (case ctx of None \<Rightarrow> (False, s, [])
     | Some c \<Rightarrow>
       if m_isSocket c \<and> \<not> m_isClosed c then
         (let s = s\<lparr>sk_sock := sock, sk_isConnected := True\<rparr>; acts = initSock s;
              s = snd (getLocalAddress sys s); s = snd (getRemoteAddress sys s) in (True, s, acts))
       else (False, s, []))"

definition sock_accept :: "sock_sys \<Rightarrow> fd_ctx option \<Rightarrow> socket \<Rightarrow> socket option \<times> sock_action list" where
  "sock_accept sys ctx s =
     (let sock = new_Socket (sk_family s) (sk_type s) (sk_protocol s) in
      if sys_accept sys = - 1 then (None, [])
      else let (ok, sock, acts) = init_Socket sys ctx (sys_accept sys) sock in
        (if ok then Some sock else None, OpenFd (sys_accept sys) # acts))"

subsection \<open>Transfer\<close>

text \<open>The message header of \<open>sendmsg\<close> and \<open>recvmsg\<close>, with the buffers and the peer.\<close>

record 'b msghdr =
  msg_name :: "address option"
  msg_iov :: "'b list"

definition send_buf :: "(int \<Rightarrow> u8 list \<Rightarrow> int \<Rightarrow> int) \<Rightarrow> u8 list \<Rightarrow> int \<Rightarrow> socket \<Rightarrow> int" where
  "send_buf k_send buffer flags s = (if sk_isConnected s then k_send (sk_sock s) buffer flags else - 1)"

definition send_iov :: "(int \<Rightarrow> 'b msghdr \<Rightarrow> int \<Rightarrow> int) \<Rightarrow> 'b list \<Rightarrow> int \<Rightarrow> socket \<Rightarrow> int" where
  "send_iov k_sendmsg buffers flags s =
     (if sk_isConnected s then k_sendmsg (sk_sock s) \<lparr>msg_name = None, msg_iov = buffers\<rparr> flags else - 1)"

definition sendTo_buf :: "(int \<Rightarrow> u8 list \<Rightarrow> int \<Rightarrow> address \<Rightarrow> int) \<Rightarrow> u8 list \<Rightarrow> address \<Rightarrow> int \<Rightarrow> socket \<Rightarrow> int" where
  "sendTo_buf k_sendto buffer to flags s = (if sk_isConnected s then k_sendto (sk_sock s) buffer flags to else - 1)"

definition sendTo_iov :: "(int \<Rightarrow> 'b msghdr \<Rightarrow> int \<Rightarrow> int) \<Rightarrow> 'b list \<Rightarrow> address \<Rightarrow> int \<Rightarrow> socket \<Rightarrow> int" where
  "sendTo_iov k_sendmsg buffers to flags s =
     (if sk_isConnected s then k_sendmsg (sk_sock s) \<lparr>msg_name = Some to, msg_iov = buffers\<rparr> flags else - 1)"

text \<open>Receiving: the kernel also gives the bytes it stores.\<close>

definition recv_buf :: "(int \<Rightarrow> nat \<Rightarrow> int \<Rightarrow> int \<times> u8 list) \<Rightarrow> nat \<Rightarrow> int \<Rightarrow> socket \<Rightarrow> int \<times> u8 list" where
  "recv_buf k_recv len flags s = (if sk_isConnected s then k_recv (sk_sock s) len flags else (- 1, []))"

definition recv_iov :: "(int \<Rightarrow> 'b msghdr \<Rightarrow> int \<Rightarrow> int \<times> u8 list) \<Rightarrow> 'b list \<Rightarrow> int \<Rightarrow> socket \<Rightarrow> int \<times> u8 list" where
  "recv_iov k_recvmsg buffers flags s =
     (if sk_isConnected s then k_recvmsg (sk_sock s) \<lparr>msg_name = None, msg_iov = buffers\<rparr> flags else (- 1, []))"

definition recvFrom_buf ::
  "(int \<Rightarrow> nat \<Rightarrow> int \<Rightarrow> address \<Rightarrow> int \<times> u8 list \<times> address) \<Rightarrow> nat \<Rightarrow> address \<Rightarrow> int \<Rightarrow> socket \<Rightarrow> int \<times> u8 list \<times> address" where
  "recvFrom_buf k_recvfrom len from flags s =
     (if sk_isConnected s then k_recvfrom (sk_sock s) len flags from else (- 1, [], from))"

definition recvFrom_iov ::
  "(int \<Rightarrow> 'b msghdr \<Rightarrow> int \<Rightarrow> int \<times> u8 list \<times> address) \<Rightarrow> 'b list \<Rightarrow> address \<Rightarrow> int \<Rightarrow> socket \<Rightarrow> int \<times> u8 list \<times> address" where
  "recvFrom_iov k_recvmsg buffers from flags s =
     (if sk_isConnected s then k_recvmsg (sk_sock s) \<lparr>msg_name = Some from, msg_iov = buffers\<rparr> flags else (- 1, [], from))"

subsection \<open>Options\<close>

text \<open>The \<open>timeval\<close> of a timeout in milliseconds; \<open>int(\<dots>)\<close> keeps 32 bits.\<close>

definition to_int32 :: "int \<Rightarrow> int" where
  "to_int32 v = sint (word_of_int v :: u32)"

definition timeout_tv :: "int \<Rightarrow> int \<times> int" where
  "timeout_tv v = (to_int32 (v sdiv 1000), to_int32 (v smod 1000 * 1000))"

definition set_timeout :: "bool \<Rightarrow> timeout_opt \<Rightarrow> int \<Rightarrow> fd_ctx option \<Rightarrow> fd_ctx option" where
  "set_timeout t_hookEnable opt v ctx =
     setsockopt_timeout t_hookEnable opt (fst (timeout_tv v)) (snd (timeout_tv v)) ctx"

definition setSendTimeout :: "bool \<Rightarrow> int \<Rightarrow> fd_ctx option \<Rightarrow> fd_ctx option" where
  "setSendTimeout t_hookEnable v = set_timeout t_hookEnable SO_SNDTIMEO v"

definition setRecvTimeout :: "bool \<Rightarrow> int \<Rightarrow> fd_ctx option \<Rightarrow> fd_ctx option" where
  "setRecvTimeout t_hookEnable v = set_timeout t_hookEnable SO_RCVTIMEO v"

definition getSendTimeout :: "fd_ctx option \<Rightarrow> int" where
  "getSendTimeout ctx = (case ctx of Some c \<Rightarrow> sint (getTimeout SO_SNDTIMEO c) | None \<Rightarrow> - 1)"

definition getRecvTimeout :: "fd_ctx option \<Rightarrow> int" where
  "getRecvTimeout ctx = (case ctx of Some c \<Rightarrow> sint (getTimeout SO_RCVTIMEO c) | None \<Rightarrow> - 1)"

text \<open>\<open>getOption\<close> and \<open>setOption\<close> turn a result code into success; \<open>getError\<close> reads \<open>SO_ERROR\<close> (\<open>None\<close>: the call
  fails and leaves \<open>e\<close> in \<open>errno\<close>).\<close>

definition getOption :: "int \<Rightarrow> bool" where "getOption rt = (if rt \<noteq> 0 then False else True)"
definition setOption :: "int \<Rightarrow> bool" where "setOption rt = (if rt \<noteq> 0 then False else True)"

definition getError :: "int \<Rightarrow> int \<Rightarrow> int \<Rightarrow> int" where
  "getError rt so_error e = (if \<not> getOption rt then e else so_error)"

definition sock_dump :: "socket \<Rightarrow> u8 list" where
  "sock_dump s = bytes ''[Socket sock='' @ decimal_int (sk_sock s)
     @ bytes '' is_connected='' @ (if sk_isConnected s then bytes ''1'' else bytes ''0'')
     @ bytes '' family='' @ decimal (unat (sk_family s)) @ bytes '' type='' @ decimal_int (sk_type s)
     @ bytes '' protocol='' @ decimal_int (sk_protocol s)
     @ (case sk_localAddress s of Some a \<Rightarrow> bytes '' local_address='' @ address_toString a | None \<Rightarrow> [])
     @ (case sk_remoteAddress s of Some a \<Rightarrow> bytes '' remote_address='' @ address_toString a | None \<Rightarrow> [])
     @ bytes '']''"

subsection \<open>Descriptors\<close>

text \<open>Descriptors opened by the actions and held before are closed by the actions or held afterwards.\<close>

definition held :: "socket \<Rightarrow> int \<Rightarrow> nat" where
  "held s fd = (if sk_sock s = fd then 1 else 0)"

definition balanced :: "socket \<Rightarrow> sock_action list \<Rightarrow> socket \<Rightarrow> bool" where
  "balanced s acts t \<longleftrightarrow> (\<forall>fd. fd \<noteq> - 1 \<longrightarrow>
     count_list acts (OpenFd fd) + held s fd = count_list acts (CloseFd fd) + held t fd)"

lemma balanced_refl: "sk_sock s = sk_sock t \<Longrightarrow> balanced s [] t"
  by (simp add: balanced_def held_def)

lemma balanced_trans: "balanced s a t \<Longrightarrow> balanced t b u \<Longrightarrow> balanced s (a @ b) u"
  unfolding balanced_def
proof (intro allI impI)
  fix fd :: int
  assume "\<forall>fd. fd \<noteq> - 1 \<longrightarrow> count_list a (OpenFd fd) + held s fd = count_list a (CloseFd fd) + held t fd"
    and "\<forall>fd. fd \<noteq> - 1 \<longrightarrow> count_list b (OpenFd fd) + held t fd = count_list b (CloseFd fd) + held u fd" and "fd \<noteq> - 1"
  then have "count_list a (OpenFd fd) + held s fd = count_list a (CloseFd fd) + held t fd"
    and "count_list b (OpenFd fd) + held t fd = count_list b (CloseFd fd) + held u fd" by blast+
  then show "count_list (a @ b) (OpenFd fd) + held s fd = count_list (a @ b) (CloseFd fd) + held u fd" by simp
qed

definition balanced_acts :: "sock_action list \<Rightarrow> bool" where
  "balanced_acts acts \<longleftrightarrow> (\<forall>fd. fd \<noteq> - 1 \<longrightarrow> count_list acts (OpenFd fd) = count_list acts (CloseFd fd))"

lemma balanced_insert: "balanced s a t \<Longrightarrow> balanced_acts b \<Longrightarrow> balanced s (a @ b) t"
  by (simp add: balanced_def balanced_acts_def)

lemma getRemoteAddress_keeps [simp]:
  "sk_sock (snd (getRemoteAddress sys s)) = sk_sock s" "sk_isConnected (snd (getRemoteAddress sys s)) = sk_isConnected s"
  "sk_type (snd (getRemoteAddress sys s)) = sk_type s" "sk_localAddress (snd (getRemoteAddress sys s)) = sk_localAddress s"
  "sk_family (snd (getRemoteAddress sys s)) = sk_family s"
  by (simp_all add: getRemoteAddress_def Let_def split: option.split prod.split)

lemma getLocalAddress_keeps [simp]:
  "sk_sock (snd (getLocalAddress sys s)) = sk_sock s" "sk_isConnected (snd (getLocalAddress sys s)) = sk_isConnected s"
  "sk_type (snd (getLocalAddress sys s)) = sk_type s"
  by (simp_all add: getLocalAddress_def Let_def split: option.split prod.split)

lemma count_initSock [simp]:
  "count_list (initSock s) (OpenFd fd) = 0" "count_list (initSock s) (CloseFd fd) = 0"
  by (simp_all add: initSock_def)

text \<open>A socket that is connected has a descriptor, and keeps its type.\<close>

definition step_ok :: "socket \<Rightarrow> sock_action list \<Rightarrow> socket \<Rightarrow> bool" where
  "step_ok s acts t \<longleftrightarrow> balanced s acts t \<and> sk_type t = sk_type s
     \<and> ((sk_isConnected s \<longrightarrow> sk_sock s \<noteq> - 1) \<longrightarrow> sk_isConnected t \<longrightarrow> sk_sock t \<noteq> - 1)"

lemma step_ok_trans: "step_ok s a t \<Longrightarrow> step_ok t b u \<Longrightarrow> step_ok s (a @ b) u"
  using balanced_trans by (auto simp: step_ok_def)

lemma newSock_ok: "\<not> isValid s \<Longrightarrow> \<not> sk_isConnected s \<Longrightarrow> newSock sys s = (t, acts) \<Longrightarrow> step_ok s acts t"
  by (auto simp: newSock_def Let_def isValid_def step_ok_def balanced_def held_def)

lemma open_if_needed_ok:
  assumes "open_if_needed sys s = (t, acts)"
  shows "balanced s acts t" "sk_type t = sk_type s" "sk_isConnected t = sk_isConnected s" "isValid s \<Longrightarrow> t = s"
  using assms by (auto simp: open_if_needed_def newSock_def Let_def isValid_def balanced_def held_def split: if_splits)

lemma close_socket_ok: "close_socket s = (ok, t, acts) \<Longrightarrow> step_ok s acts t"
  by (auto simp: close_socket_def step_ok_def balanced_def held_def split: if_splits)

lemma sock_connect_ok:
  assumes "sock_connect sys addr timeoutMs s = (ok, t, acts)"
  shows "step_ok s acts t"
proof -
  let ?s = "s\<lparr>sk_remoteAddress := Some addr\<rparr>"
  obtain u a where u: "open_if_needed sys ?s = (u, a)" by fastforce
  note o = open_if_needed_ok [OF u]
  have b: "balanced s a u" using o(1) by (simp add: balanced_def held_def)
  have su: "step_ok s a u"
    using b o(2-4) by (cases "isValid ?s") (auto simp: step_ok_def isValid_def)
  consider "\<not> isValid u \<or> getFamily addr \<noteq> sk_family u" | "isValid u" "getFamily addr = sk_family u" "sys_connect sys timeoutMs \<noteq> 0"
    | "isValid u" "getFamily addr = sk_family u" "sys_connect sys timeoutMs = 0" by blast
  then show ?thesis
  proof cases
    case 1
    then have "t = u \<and> acts = a" using assms u by (cases "isValid u") (auto simp: sock_connect_def)
    then show ?thesis using su by simp
  next
    case 2
    obtain c v cl where c: "close_socket u = (c, v, cl)" by (cases "close_socket u")
    then have "t = v \<and> acts = a @ cl" using 2 assms u by (simp add: sock_connect_def Let_def)
    then show ?thesis using step_ok_trans [OF su close_socket_ok [OF c]] by simp
  next
    case 3
    let ?v = "snd (getLocalAddress sys (snd (getRemoteAddress sys (u\<lparr>sk_isConnected := True\<rparr>))))"
    have "t = ?v \<and> acts = a" using 3 assms u by (simp add: sock_connect_def Let_def case_prod_beta)
    then show ?thesis using su 3(1) by (simp add: step_ok_def balanced_def held_def isValid_def)
  qed
qed

lemma delete_balances: "balanced s acts t \<Longrightarrow> sk_sock s = - 1 \<Longrightarrow> balanced_acts (acts @ delete_Socket t)"
  by (auto simp: balanced_def balanced_acts_def held_def delete_Socket_def close_socket_def)

lemma probe_unix_ok: "probe_unix sys2 addr u = (busy, acts) \<Longrightarrow> balanced_acts acts"
proof -
  assume p: "probe_unix sys2 addr u = (busy, acts)"
  obtain ok probe a where c: "sock_connect sys2 addr (- 1) CreateUnixTCPSocket = (ok, probe, a)"
    by (cases "sock_connect sys2 addr (- 1) CreateUnixTCPSocket")
  have "balanced_acts (a @ delete_Socket probe)"
    using sock_connect_ok [OF c] by (intro delete_balances) (auto simp: step_ok_def CreateUnixTCPSocket_def new_Socket_def)
  then show ?thesis using p c by (auto simp: probe_unix_def balanced_acts_def split: if_splits)
qed

lemma sock_bind_ok:
  assumes "sock_bind sys sys2 addr s = (ok, t, acts)"
  shows "step_ok s acts t"
proof -
  let ?s = "s\<lparr>sk_localAddress := Some addr\<rparr>"
  obtain u a where u: "open_if_needed sys ?s = (u, a)" by fastforce
  note o = open_if_needed_ok [OF u]
  have b: "balanced s a u" using o(1) by (simp add: balanced_def held_def)
  have su: "step_ok s a u"
    using b o(2-4) by (cases "isValid ?s") (auto simp: step_ok_def isValid_def)
  obtain busy b2 where p: "(case addr of UnixAddress x \<Rightarrow> probe_unix sys2 addr x | _ \<Rightarrow> (False, [])) = (busy, b2)" by fastforce
  have b2: "balanced_acts b2"
    using p probe_unix_ok by (auto simp: balanced_acts_def split: address.splits)
  have su2: "step_ok s (a @ b2) u" using su balanced_insert [OF _ b2] by (simp add: step_ok_def)
  have "(t = u \<and> acts = a) \<or> (t = u \<and> acts = a @ b2) \<or> (t = snd (getLocalAddress sys u) \<and> acts = a @ b2)"
    using assms unfolding sock_bind_def by (auto simp: u p Let_def split: if_splits)
  then show ?thesis using su su2 by (auto simp: step_ok_def balanced_def held_def)
qed

lemma reconnect_ok:
  assumes "reconnect sys timeoutMs s = (ok, t, acts)"
  shows "step_ok s acts t"
proof (cases "sk_remoteAddress s")
  case None
  then show ?thesis using assms by (auto simp: reconnect_def step_ok_def balanced_def)
next
  case (Some a)
  then have "step_ok (s\<lparr>sk_localAddress := None\<rparr>) acts t"
    using assms by (intro sock_connect_ok) (simp add: reconnect_def)
  then show ?thesis by (simp add: step_ok_def balanced_def held_def)
qed

text \<open>The life of one socket object: how it comes into being, and every call on it.\<close>

inductive sock_run :: "socket \<Rightarrow> sock_action list \<Rightarrow> bool" where
  run_new: "sock_run (new_Socket family type protocol) []"
| run_udp: "create_udp sys family = (s, acts) \<Longrightarrow> sock_run s acts"
| run_accept: "sock_accept sys ctx l = (Some s, acts) \<Longrightarrow> sock_run s acts"
| run_connect: "sock_run s acts \<Longrightarrow> sock_connect sys addr timeoutMs s = (ok, t, b) \<Longrightarrow> sock_run t (acts @ b)"
| run_reconnect: "sock_run s acts \<Longrightarrow> reconnect sys timeoutMs s = (ok, t, b) \<Longrightarrow> sock_run t (acts @ b)"
| run_bind: "sock_run s acts \<Longrightarrow> sock_bind sys sys2 addr s = (ok, t, b) \<Longrightarrow> sock_run t (acts @ b)"
| run_close: "sock_run s acts \<Longrightarrow> close_socket s = (ok, t, b) \<Longrightarrow> sock_run t (acts @ b)"
| run_local: "sock_run s acts \<Longrightarrow> getLocalAddress sys s = (a, t) \<Longrightarrow> sock_run t acts"
| run_remote: "sock_run s acts \<Longrightarrow> getRemoteAddress sys s = (a, t) \<Longrightarrow> sock_run t acts"

definition run_ok :: "socket \<Rightarrow> sock_action list \<Rightarrow> bool" where
  "run_ok s acts \<longleftrightarrow> (\<forall>fd. fd \<noteq> - 1 \<longrightarrow> count_list acts (OpenFd fd) = count_list acts (CloseFd fd) + held s fd)
     \<and> (sk_type s = SOCK_STREAM \<longrightarrow> sk_isConnected s \<longrightarrow> sk_sock s \<noteq> - 1)"

lemma run_ok_step: "run_ok s acts \<Longrightarrow> step_ok s b t \<Longrightarrow> run_ok t (acts @ b)"
  unfolding run_ok_def step_ok_def balanced_def by (auto simp: add.assoc [symmetric])

lemma run_ok_init: "sock_accept sys ctx l = (Some s, acts) \<Longrightarrow> run_ok s acts"
  by (auto simp: sock_accept_def init_Socket_def run_ok_def held_def Let_def split: if_splits option.splits prod.splits)

lemma sock_run_ok: "sock_run s acts \<Longrightarrow> run_ok s acts"
proof (induction rule: sock_run.induct)
  case (run_udp sys family s acts)
  then show ?case
    by (auto simp: create_udp_def newSock_def new_Socket_def run_ok_def held_def SOCK_STREAM_def SOCK_DGRAM_def Let_def)
next
  case (run_accept sys ctx l s acts)
  then show ?case by (rule run_ok_init)
next
  case (run_local s acts sys a t)
  then have "t = snd (getLocalAddress sys s)" by simp
  then show ?case using run_local.IH by (simp add: run_ok_def held_def)
next
  case (run_remote s acts sys a t)
  then have "t = snd (getRemoteAddress sys s)" by simp
  then show ?case using run_remote.IH by (simp add: run_ok_def held_def)
next
  case (run_new family type protocol)
  then show ?case by (simp add: run_ok_def new_Socket_def held_def)
qed (blast intro: run_ok_step sock_connect_ok reconnect_ok sock_bind_ok close_socket_ok)+


definition sample_sys :: sock_sys where
  "sample_sys = \<lparr>sys_socket = 7, sys_bind = 0, sys_listen = 0, sys_connect = (\<lambda>_. 0), sys_accept = 8,
     sys_getpeername = (\<lambda>a. Some (a, 16)), sys_getsockname = (\<lambda>a. Some (IPv4Address (new_IPv4Address 1 4000), 16))\<rparr>"

definition sample_addr :: address where
  "sample_addr = IPv4Address (new_IPv4Address 0x7F000001 0)"


text \<open>A datagram socket is marked connected also when the descriptor could not be made.\<close>

lemma udp_connected_without_descriptor:
  "sys_socket sys = - 1 \<Longrightarrow> sk_isConnected (fst (CreateUDP sys addr)) \<and> \<not> isValid (fst (CreateUDP sys addr))"
  by (simp add: CreateUDP_def create_udp_def newSock_def new_Socket_def isValid_def Let_def)

lemma known_local [simp]: "sk_localAddress s = Some a \<Longrightarrow> getLocalAddress sys s = (a, s)"
  by (simp add: getLocalAddress_def)

lemma open_if_needed_local:
  "open_if_needed sys s = (t, acts) \<Longrightarrow> sk_localAddress t = sk_localAddress s \<and> sk_family t = sk_family s"
  by (auto simp: open_if_needed_def newSock_def Let_def split: if_splits)

lemma close_socket_local: "close_socket s = (ok, t, acts) \<Longrightarrow> sk_localAddress t = sk_localAddress s"
  by (auto simp: close_socket_def split: if_splits)

lemma bind_local: "sock_bind sys sys2 addr s = (ok, t, acts) \<Longrightarrow> sk_localAddress t = Some addr"
  using open_if_needed_local [of sys "s\<lparr>sk_localAddress := Some addr\<rparr>"]
  by (auto simp: sock_bind_def Let_def split: prod.splits if_splits)

lemma connect_local:
  assumes "sock_connect sys addr timeoutMs s = (ok, t, acts)" and "sk_localAddress s = Some a"
  shows "sk_localAddress t = Some a"
proof -
  obtain u b where u: "open_if_needed sys (s\<lparr>sk_remoteAddress := Some addr\<rparr>) = (u, b)" by fastforce
  obtain c v cl where c: "close_socket u = (c, v, cl)" by (cases "close_socket u")
  have l: "sk_localAddress u = Some a" "sk_localAddress v = Some a"
    using open_if_needed_local [OF u] close_socket_local [OF c] assms(2) by simp_all
  have "t = u \<or> t = v \<or> t = snd (getLocalAddress sys (snd (getRemoteAddress sys (u\<lparr>sk_isConnected := True\<rparr>))))"
    using assms(1) u c by (auto simp: sock_connect_def Let_def case_prod_beta split: if_splits)
  then show ?thesis using l by auto
qed

lemma connect_fresh_local:
  assumes "sock_connect sys addr timeoutMs s = (True, t, acts)" and "sk_localAddress s = None"
    and "sys_getsockname sys (blank_address (sk_family s)) = Some (c, n)"
  shows "sk_localAddress t = Some (set_len (sk_family s) n c)"
proof -
  obtain u b where u: "open_if_needed sys (s\<lparr>sk_remoteAddress := Some addr\<rparr>) = (u, b)" by fastforce
  let ?v = "snd (getRemoteAddress sys (u\<lparr>sk_isConnected := True\<rparr>))"
  have "t = snd (getLocalAddress sys ?v)"
    using assms(1) u by (auto simp: sock_connect_def Let_def case_prod_beta split: if_splits)
  moreover have "sk_localAddress ?v = None" "sk_family ?v = sk_family s"
    using open_if_needed_local [OF u] assms(2) by simp_all
  ultimately show ?thesis using assms(3) by (simp add: getLocalAddress_def Let_def)
qed

text \<open>The local address is the one given, not the one in use. After a successful \<open>bind\<close> the socket reports the
  address passed in, whatever address the kernel chose (so port 0 stays 0), also after a failed one;
  a connect on a socket that already knows a local address (closed in between or not) keeps it,
  whereas \<open>reconnect\<close> asks the kernel again.\<close>

theorem local_address_kept:
  "(sock_bind sys sys2 addr s = (ok, t, acts) \<longrightarrow> fst (getLocalAddress sys3 t) = addr)
   \<and> (sk_localAddress s = Some a \<and> sock_connect sys addr timeoutMs s = (ok, t, acts) \<longrightarrow> fst (getLocalAddress sys3 t) = a)
   \<and> (sk_remoteAddress s = Some b \<and> sys_getsockname sys (blank_address (sk_family s)) = Some (c, n)
        \<and> reconnect sys timeoutMs s = (True, t, acts) \<longrightarrow> fst (getLocalAddress sys3 t) = set_len (sk_family s) n c)"
proof (intro conjI impI)
  assume "sock_bind sys sys2 addr s = (ok, t, acts)"
  then show "fst (getLocalAddress sys3 t) = addr" using bind_local by simp
next
  assume "sk_localAddress s = Some a \<and> sock_connect sys addr timeoutMs s = (ok, t, acts)"
  then show "fst (getLocalAddress sys3 t) = a" using connect_local [of sys addr timeoutMs s ok t acts a] by simp
next
  assume r: "sk_remoteAddress s = Some b \<and> sys_getsockname sys (blank_address (sk_family s)) = Some (c, n)
    \<and> reconnect sys timeoutMs s = (True, t, acts)"
  then have "sock_connect sys b timeoutMs (s\<lparr>sk_localAddress := None\<rparr>) = (True, t, acts)" by (auto simp: reconnect_def)
  then have "sk_localAddress t = Some (set_len (sk_family s) n c)"
    using connect_fresh_local [of sys b timeoutMs "s\<lparr>sk_localAddress := None\<rparr>" t acts c n] r by simp
  then show "fst (getLocalAddress sys3 t) = set_len (sk_family s) n c" by simp
qed

theorem local_address_kept_witness:
  "\<exists>s acts. sock_bind sample_sys sample_sys sample_addr (CreateTCP sample_addr) = (True, s, acts)
     \<and> fst (getLocalAddress sample_sys s) = sample_addr \<and> sample_addr \<noteq> IPv4Address (new_IPv4Address 1 4000)"
proof -
  obtain ok s acts where b: "sock_bind sample_sys sample_sys sample_addr (CreateTCP sample_addr) = (ok, s, acts)"
    by (cases "sock_bind sample_sys sample_sys sample_addr (CreateTCP sample_addr)")
  moreover have ok
    using b by (simp add: sock_bind_def sample_addr_def sample_sys_def CreateTCP_def new_Socket_def open_if_needed_def
        newSock_def isValid_def getFamily_def Let_def)
  moreover have "sample_addr \<noteq> IPv4Address (new_IPv4Address 1 4000)"
  proof
    assume "sample_addr = IPv4Address (new_IPv4Address 1 4000)"
    then have "byteswap (0 :: u16) = byteswap 4000"
      by (simp add: sample_addr_def new_IPv4Address_def byteswapOnLittleEndian_def)
    then have "byteswap (byteswap (0 :: u16)) = byteswap (byteswap 4000)" by (rule arg_cong)
    then show False by simp
  qed
  ultimately show ?thesis using local_address_kept [of sample_sys sample_sys sample_addr "CreateTCP sample_addr" ok s acts] by auto
qed

lemma to_int32_id: "- (2 ^ 31) \<le> v \<Longrightarrow> v < 2 ^ 31 \<Longrightarrow> to_int32 v = v"
  by (simp add: to_int32_def sint_sbintrunc' signed_take_bit_int_eq_self)

text \<open>Timeouts. On a hooked descriptor the receive and send timeouts read back as set, for every number of
  milliseconds up to \<open>2 ^ 31\<close> seconds, and \<open>-1\<close> (no timeout) as well; the two do not interfere.\<close>

theorem timeout_roundtrip:
  assumes "- 1 \<le> v" and "v < 2 ^ 31 * 1000"
  shows "getRecvTimeout (setRecvTimeout True v (Some c)) = v \<and> getSendTimeout (setSendTimeout True v (Some c)) = v
    \<and> getSendTimeout (setRecvTimeout True v (Some c)) = getSendTimeout (Some c)
    \<and> getRecvTimeout (setSendTimeout True v (Some c)) = getRecvTimeout (Some c)"
proof -
  have tv: "fst (timeout_tv v) * 1000 + snd (timeout_tv v) sdiv 1000 = v"
  proof (cases "v = - 1")
    case True
    then have "timeout_tv v = (to_int32 0, to_int32 (- 1000))"
      by (simp add: timeout_tv_def signed_divide_int_def signed_modulo_int_def)
    then show ?thesis using True by (simp add: to_int32_id signed_divide_int_def)
  next
    case False
    then have v: "0 \<le> v" using assms(1) by simp
    have d: "v sdiv 1000 = v div 1000" "v smod 1000 = v mod 1000"
      using v by (cases "v = 0"; simp add: signed_divide_int_def signed_modulo_int_def)+
    have "v div 1000 < 2 ^ 31" "0 \<le> v div 1000" "0 \<le> v mod 1000" "v mod 1000 < 1000" using v assms(2) by auto
    then have "timeout_tv v = (v div 1000, v mod 1000 * 1000)"
      by (simp add: timeout_tv_def d to_int32_id)
    moreover have "(v mod 1000 * 1000) sdiv 1000 = v mod 1000"
      by (cases "v mod 1000 = 0") (simp_all add: signed_divide_int_def sgn_mult abs_mult)
    ultimately show ?thesis by simp
  qed
  have w: "sint (word_of_int v :: u64) = v"
    using assms by (simp add: sint_sbintrunc' signed_take_bit_int_eq_self)
  show ?thesis
    by (simp add: setRecvTimeout_def setSendTimeout_def set_timeout_def setsockopt_timeout_def tv w setTimeout_def
        getRecvTimeout_def getSendTimeout_def getTimeout_def)
qed

theorem timeout_roundtrip_witness:
  "getRecvTimeout (setRecvTimeout True 120000 (Some (fst (new_FdCtx (Some True) 0 5)))) = 120000"
  using timeout_roundtrip [of 120000] by simp

end
