(* ===== verification/Streams.thy ===== *)
theory Streams
  imports ByteArraySpec Sockets
begin

text \<open>
  \<open>src/stream\<close>: the abstract class \<open>Stream\<close>, whose \<open>readFixSize\<close> and \<open>writeFixSize\<close> loop over the virtual
  \<open>read\<close> and \<open>write\<close>, and \<open>SocketStream\<close>, which implements these over a \<open>Socket\<close>, for plain buffers and
  for a \<open>ByteArray\<close> through its scatter and gather lists. The virtual members are arguments of the
  loops; what a client of a stream relies on is the locale \<open>stream_source\<close> (and \<open>stream_sink\<close>), and
  \<open>SocketStream\<close> is shown to be an instance.
\<close>

subsection \<open>\<open>Stream\<close>\<close>

text \<open>The loop of \<open>readFixSize\<close> into a buffer: the bytes stored one behind the other, and the value of \<open>len\<close>
  that stopped the loop, if any.\<close>

function read_fix_loop ::
  "(nat \<Rightarrow> 's \<Rightarrow> int \<times> u8 list \<times> 's) \<Rightarrow> int \<Rightarrow> 's \<Rightarrow> int option \<times> u8 list \<times> 's" where
  "read_fix_loop rd left st =
     (if left > 0 then
        let (len, d, st) = rd (nat left) st in
        if len \<le> 0 then (Some len, d, st)
        else let (halt, ds, st) = read_fix_loop rd (left - len) st in (halt, d @ ds, st)
      else (None, [], st))"
  by pat_completeness auto
termination
  by (relation "measure (\<lambda>(rd, left, st). nat left)") auto

declare read_fix_loop.simps [simp del]

text \<open>\<open>int64_t left = length\<close>, and the results are converted to \<open>int\<close>.\<close>

definition int64 :: "nat \<Rightarrow> int" where
  "int64 n = sint (of_nat n :: u64)"

definition readFixSize ::
  "(nat \<Rightarrow> 's \<Rightarrow> int \<times> u8 list \<times> 's) \<Rightarrow> nat \<Rightarrow> 's \<Rightarrow> int \<times> u8 list \<times> 's" where
  "readFixSize rd len st = (let (halt, ds, st) = read_fix_loop rd (int64 len) st in
     (case halt of Some r \<Rightarrow> to_int32 r | None \<Rightarrow> to_int32 (int len), ds, st))"

text \<open>Into a \<open>ByteArray\<close>, which is part of the state.\<close>

function read_fix_loop_ba :: "(nat \<Rightarrow> 's \<Rightarrow> (int \<times> 's) result) \<Rightarrow> int \<Rightarrow> 's \<Rightarrow> (int option \<times> 's) result" where
  "read_fix_loop_ba rd left st =
     (if left > 0 then
        bind_r (rd (nat left) st) (\<lambda>(len, st).
          if len \<le> 0 then Inr (Some len, st) else read_fix_loop_ba rd (left - len) st)
      else Inr (None, st))"
  by pat_completeness auto
termination
  by (relation "measure (\<lambda>(rd, left, st). nat left)") auto

declare read_fix_loop_ba.simps [simp del]

definition readFixSize_ba :: "(nat \<Rightarrow> 's \<Rightarrow> (int \<times> 's) result) \<Rightarrow> nat \<Rightarrow> 's \<Rightarrow> (int \<times> 's) result" where
  "readFixSize_ba rd len st = bind_r (read_fix_loop_ba rd (int64 len) st) (\<lambda>(halt, st).
     Inr (case halt of Some r \<Rightarrow> to_int32 r | None \<Rightarrow> to_int32 (int len), st))"

text \<open>\<open>writeFixSize\<close> from a buffer, with \<open>offset\<close>.\<close>

function write_fix_loop :: "(u8 list \<Rightarrow> 's \<Rightarrow> int \<times> 's) \<Rightarrow> u8 list \<Rightarrow> nat \<Rightarrow> int \<Rightarrow> 's \<Rightarrow> int option \<times> 's" where
  "write_fix_loop wr buffer offset left st =
     (if left > 0 then
        let (len, st) = wr (take (nat left) (drop offset buffer)) st in
        if len \<le> 0 then (Some len, st) else write_fix_loop wr buffer (offset + nat len) (left - len) st
      else (None, st))"
  by pat_completeness auto
termination
  by (relation "measure (\<lambda>(wr, buffer, offset, left, st). nat left)") auto

declare write_fix_loop.simps [simp del]

definition writeFixSize :: "(u8 list \<Rightarrow> 's \<Rightarrow> int \<times> 's) \<Rightarrow> u8 list \<Rightarrow> nat \<Rightarrow> 's \<Rightarrow> int \<times> 's" where
  "writeFixSize wr buffer len st = (let (halt, st) = write_fix_loop wr buffer 0 (int64 len) st in
     (case halt of Some r \<Rightarrow> to_int32 r | None \<Rightarrow> to_int32 (int len), st))"

text \<open>\<open>writeFixSize\<close> from a \<open>ByteArray\<close> has the same loop as \<open>readFixSize\<close> into one.\<close>

definition writeFixSize_ba :: "(nat \<Rightarrow> 's \<Rightarrow> (int \<times> 's) result) \<Rightarrow> nat \<Rightarrow> 's \<Rightarrow> (int \<times> 's) result" where
  "writeFixSize_ba wr len st = bind_r (read_fix_loop_ba wr (int64 len) st) (\<lambda>(halt, st).
     Inr (case halt of Some r \<Rightarrow> to_int32 r | None \<Rightarrow> to_int32 (int len), st))"

subsection \<open>The connection\<close>

text \<open>What the kernel holds for one connection. Incoming data arrive in segments; when they are used up a
  receive returns 0 when the peer has closed the connection and \<open>-1\<close> otherwise (a timeout or an error).
  A send accepts as many bytes as the next number in \<open>cn_quota\<close> allows; when there is none it fails.\<close>

record connection =
  cn_segs :: "u8 list list"
  cn_closed :: bool
  cn_sent :: "cell list"
  cn_quota :: "nat list"

definition k_recv :: "connection \<Rightarrow> nat \<Rightarrow> int \<times> u8 list" where
  "k_recv c len = (case cn_segs c of [] \<Rightarrow> (if cn_closed c then 0 else - 1, []) | s # ss \<Rightarrow> (int (length (take len s)), take len s))"

definition after_recv :: "connection \<Rightarrow> nat \<Rightarrow> connection" where
  "after_recv c len = (case cn_segs c of [] \<Rightarrow> c
     | s # ss \<Rightarrow> c\<lparr>cn_segs := if drop len s = [] then ss else drop len s # ss\<rparr>)"

definition k_send :: "connection \<Rightarrow> cell list \<Rightarrow> int" where
  "k_send c d = (case cn_quota c of [] \<Rightarrow> - 1 | q # qs \<Rightarrow> int (min q (length d)))"

definition after_send :: "connection \<Rightarrow> cell list \<Rightarrow> connection" where
  "after_send c d = (case cn_quota c of [] \<Rightarrow> c
     | q # qs \<Rightarrow> c\<lparr>cn_quota := qs, cn_sent := cn_sent c @ take q d\<rparr>)"

subsection \<open>\<open>SocketStream\<close>\<close>

record socket_stream =
  ss_socket :: "socket option"
  ss_owner :: bool

definition new_SocketStream :: "socket option \<Rightarrow> bool \<Rightarrow> socket_stream" where
  "new_SocketStream sock owner = \<lparr>ss_socket = sock, ss_owner = owner\<rparr>"

definition delete_SocketStream :: "socket_stream \<Rightarrow> sock_action list" where
  "delete_SocketStream s = (case ss_socket s of Some k \<Rightarrow> if ss_owner s then snd (snd (close_socket k)) else [] | None \<Rightarrow> [])"

definition ss_isConnected :: "socket_stream \<Rightarrow> bool" where
  "ss_isConnected s \<longleftrightarrow> (case ss_socket s of Some k \<Rightarrow> sk_isConnected k | None \<Rightarrow> False)"

definition ss_close :: "socket_stream \<Rightarrow> socket_stream \<times> sock_action list" where
  "ss_close s = (case ss_socket s of None \<Rightarrow> (s, [])
     | Some k \<Rightarrow> (let (_, k, acts) = close_socket k in (s\<lparr>ss_socket := Some k\<rparr>, acts)))"

type_synonym stream_state = "socket_stream \<times> connection"

definition ss_read :: "nat \<Rightarrow> stream_state \<Rightarrow> int \<times> u8 list \<times> stream_state" where
  "ss_read len st = (let (s, c) = st in
     if \<not> ss_isConnected s then (- 1, [], st)
     else let (rt, d) = recv_buf (\<lambda>_ n _. k_recv c n) len 0 (the (ss_socket s)) in (rt, d, s, after_recv c len))"

definition ss_write :: "u8 list \<Rightarrow> stream_state \<Rightarrow> int \<times> stream_state" where
  "ss_write buffer st = (let (s, c) = st in
     if \<not> ss_isConnected s then (- 1, st)
     else (send_buf (\<lambda>_ d _. k_send c (map Some d)) buffer 0 (the (ss_socket s)), s, after_send c (map Some buffer)))"

definition iov_room :: "iovec list \<Rightarrow> nat" where
  "iov_room iovs = sum_list (map iov_len iovs)"

definition ss_read_ba :: "nat \<Rightarrow> stream_state \<times> byte_array \<Rightarrow> (int \<times> stream_state \<times> byte_array) result" where
  "ss_read_ba len st = (let ((s, c), ba) = st in
     if \<not> ss_isConnected s then Inr (- 1, st)
     else bind_r (getWriteBuffers len ba) (\<lambda>((_, iovs), ba).
       let (rt, d) = recv_iov (\<lambda>_ m _. k_recv c (iov_room (msg_iov m))) iovs 0 (the (ss_socket s));
           ba = ba\<lparr>m_nodes := scatter iovs (map Some d) (m_nodes ba)\<rparr>;
           c = after_recv c (iov_room iovs) in
       if rt > 0 then bind_r (setPosition (m_position ba + nat rt) ba) (\<lambda>ba. Inr (rt, (s, c), ba))
       else Inr (rt, (s, c), ba)))"

definition ss_write_ba :: "nat \<Rightarrow> stream_state \<times> byte_array \<Rightarrow> (int \<times> stream_state \<times> byte_array) result" where
  "ss_write_ba len st = (let ((s, c), ba) = st in
     if \<not> ss_isConnected s then Inr (- 1, st)
     else bind_r (getReadBuffers len ba) (\<lambda>(_, iovs).
       let d = gather (m_nodes ba) iovs;
           rt = send_iov (\<lambda>_ m _. k_send c (gather (m_nodes ba) (msg_iov m))) iovs 0 (the (ss_socket s));
           c = after_send c d in
       if rt > 0 then bind_r (setPosition (m_position ba + nat rt) ba) (\<lambda>ba. Inr (rt, (s, c), ba))
       else Inr (rt, (s, c), ba)))"

definition ss_getRemoteAddress :: "sock_sys \<Rightarrow> socket_stream \<Rightarrow> address option \<times> socket_stream" where
  "ss_getRemoteAddress sys s = (case ss_socket s of None \<Rightarrow> (None, s)
     | Some k \<Rightarrow> (let (a, k) = getRemoteAddress sys k in (Some a, s\<lparr>ss_socket := Some k\<rparr>)))"

definition ss_getLocalAddress :: "sock_sys \<Rightarrow> socket_stream \<Rightarrow> address option \<times> socket_stream" where
  "ss_getLocalAddress sys s = (case ss_socket s of None \<Rightarrow> (None, s)
     | Some k \<Rightarrow> (let (a, k) = getLocalAddress sys k in (Some a, s\<lparr>ss_socket := Some k\<rparr>)))"

definition getRemoteAddressString :: "sock_sys \<Rightarrow> socket_stream \<Rightarrow> u8 list" where
  "getRemoteAddressString sys s = (case fst (ss_getRemoteAddress sys s) of Some a \<Rightarrow> address_toString a | None \<Rightarrow> [])"

definition getLocalAddressString :: "sock_sys \<Rightarrow> socket_stream \<Rightarrow> u8 list" where
  "getLocalAddressString sys s = (case fst (ss_getLocalAddress sys s) of Some a \<Rightarrow> address_toString a | None \<Rightarrow> [])"

lemma flat_write_Nil [simp]: "flat_write [] f = f"
  by (simp add: flat_write_def)

lemma flat_write_append: "f_pos f \<le> length (f_data f) \<Longrightarrow> flat_write (a @ b) f = flat_write b (flat_write a f)"
  by (simp add: flat_write_def ac_simps)

lemma abs_ba_pos: "ba_inv ba \<Longrightarrow> f_pos (abs_ba ba) \<le> length (f_data (abs_ba ba))"
  using length_abs_ba [of ba] ba_invD(5) [of ba] by (simp add: abs_ba_def)

subsection \<open>What a client of a stream relies on\<close>

text \<open>A stream to read from: \<open>pending\<close> are the bytes that will arrive. A positive result is the number of bytes
  taken from their front, at most as many as asked; otherwise nothing is taken. While the stream is
  \<open>live\<close> a read of something pending succeeds.\<close>

locale stream_source =
  fixes rd :: "nat \<Rightarrow> 's \<Rightarrow> int \<times> u8 list \<times> 's"
    and pending :: "'s \<Rightarrow> u8 list"
    and live :: "'s \<Rightarrow> bool"
  assumes rd_some: "0 < n \<Longrightarrow> rd n st = (r, d, st1) \<Longrightarrow> 0 < r \<Longrightarrow>
      int (length d) = r \<and> length d \<le> n \<and> pending st = d @ pending st1 \<and> (live st \<longrightarrow> live st1)"
    and rd_none: "0 < n \<Longrightarrow> rd n st = (r, d, st1) \<Longrightarrow> r \<le> 0 \<Longrightarrow> d = [] \<and> pending st1 = pending st"
    and rd_int: "- (2 ^ 31) \<le> fst (rd n st)"
    and rd_live: "0 < n \<Longrightarrow> live st \<Longrightarrow> pending st \<noteq> [] \<Longrightarrow> 0 < fst (rd n st)"
begin

lemma loop_step:
  assumes "rd (Suc n) st = (r, d, st1)"
  shows "read_fix_loop rd (int (Suc n)) st =
    (if r \<le> 0 then (Some r, [], st1)
     else let (halt, ds, st2) = read_fix_loop rd (int (Suc n - length d)) st1 in (halt, d @ ds, st2))"
proof (cases "r \<le> 0")
  case True
  then show ?thesis using assms rd_none [OF _ assms] by (subst read_fix_loop.simps) (simp del: of_nat_Suc)
next
  case False
  then have "int (length d) = r" "length d \<le> Suc n" using rd_some [OF _ assms] by auto
  then have "int (Suc n) - r = int (Suc n - length d)" by (simp add: of_nat_diff)
  then show ?thesis using assms False by (subst read_fix_loop.simps) (simp del: of_nat_Suc add: Let_def)
qed

text \<open>The loop takes a prefix of the pending bytes; it stops early only at a failing read.\<close>

lemma loop_prefix:
  assumes "read_fix_loop rd (int n) st = (halt, ds, st1)"
  shows "pending st = ds @ pending st1 \<and> length ds \<le> n
    \<and> (halt = None \<longrightarrow> length ds = n) \<and> (\<forall>r. halt = Some r \<longrightarrow> r \<le> 0 \<and> - (2 ^ 31) \<le> r \<and> length ds < n)"
  using assms
proof (induction n arbitrary: st halt ds rule: less_induct)
  case (less n)
  show ?case
  proof (cases n)
    case 0
    then show ?thesis using less.prems by (simp add: read_fix_loop.simps)
  next
    case (Suc m)
    obtain r d st2 where r: "rd n st = (r, d, st2)" by (cases "rd n st")
    show ?thesis
    proof (cases "r \<le> 0")
      case True
      then show ?thesis using less.prems Suc r loop_step [of m st r d st2] rd_none [OF _ r] rd_int [of n st] by auto
    next
      case False
      then have d: "int (length d) = r" "length d \<le> n" "pending st = d @ pending st2" using rd_some [OF _ r] Suc by auto
      obtain halt2 ds2 st3 where l: "read_fix_loop rd (int (n - length d)) st2 = (halt2, ds2, st3)"
        by (cases "read_fix_loop rd (int (n - length d)) st2")
      have eq: "halt = halt2" "ds = d @ ds2" "st1 = st3"
        using less.prems Suc r loop_step [of m st r d st2] False l by (auto simp: Let_def)
      have "n - length d < n" using d False Suc by auto
      from less.IH [OF this, of st2 halt2 ds2] show ?thesis using l eq d by auto
    qed
  qed
qed

lemma loop_live:
  assumes "live st" and "n \<le> length (pending st)"
  shows "\<exists>st1. read_fix_loop rd (int n) st = (None, take n (pending st), st1) \<and> live st1
    \<and> pending st1 = drop n (pending st)"
  using assms
proof (induction n arbitrary: st rule: less_induct)
  case (less n)
  show ?case
  proof (cases n)
    case 0
    then show ?thesis using less.prems by (simp add: read_fix_loop.simps)
  next
    case (Suc m)
    obtain r d st2 where r: "rd n st = (r, d, st2)" by (cases "rd n st")
    have "pending st \<noteq> []" using less.prems(2) Suc by auto
    then have pos: "0 < r" using rd_live [of n st] less.prems(1) Suc r by simp
    then have d: "int (length d) = r" "length d \<le> n" "pending st = d @ pending st2" "live st2"
      using rd_some [OF _ r pos] Suc less.prems(1) by auto
    have "n - length d < n" using d pos Suc by auto
    moreover have "n - length d \<le> length (pending st2)" using d(3) less.prems(2) by simp
    ultimately obtain st3 where l: "read_fix_loop rd (int (n - length d)) st2 = (None, take (n - length d) (pending st2), st3)"
      "live st3" "pending st3 = drop (n - length d) (pending st2)"
      using less.IH [of "n - length d" st2] d(4) by blast
    show ?thesis using l loop_step [of m st r d st2] Suc r pos d by (simp add: Let_def)
  qed
qed

end

text \<open>Reading into an array is reading into a buffer and writing that to the array.\<close>

locale array_source = stream_source rd pending live
  for rd :: "nat \<Rightarrow> 's \<Rightarrow> int \<times> u8 list \<times> 's" and pending live +
  fixes rd_ba :: "nat \<Rightarrow> 's \<times> byte_array \<Rightarrow> (int \<times> 's \<times> byte_array) result"
  assumes rd_ba_rd: "0 < n \<Longrightarrow> ba_inv ba \<Longrightarrow> rd n st = (r, d, st1) \<Longrightarrow>
      \<exists>ba1. rd_ba n (st, ba) = Inr (r, st1, ba1) \<and> ba_inv ba1 \<and> abs_ba ba1 = flat_write (map Some d) (abs_ba ba)"
begin

lemma loop_ba_step:
  "rd_ba (Suc n) st = Inr (r, st1) \<Longrightarrow> read_fix_loop_ba rd_ba (int (Suc n)) st
    = (if r \<le> 0 then Inr (Some r, st1) else read_fix_loop_ba rd_ba (int (Suc n) - r) st1)"
  by (subst read_fix_loop_ba.simps) (simp del: of_nat_Suc add: Let_def)

lemma loop_ba:
  assumes "ba_inv ba" and "read_fix_loop rd (int n) st = (halt, ds, st1)"
  shows "\<exists>ba1. read_fix_loop_ba rd_ba (int n) (st, ba) = Inr (halt, st1, ba1) \<and> ba_inv ba1
    \<and> abs_ba ba1 = flat_write (map Some ds) (abs_ba ba)"
  using assms
proof (induction n arbitrary: st ba halt ds rule: less_induct)
  case (less n)
  show ?case
  proof (cases n)
    case 0
    then show ?thesis using less.prems by (simp add: read_fix_loop.simps read_fix_loop_ba.simps)
  next
    case (Suc m)
    obtain r d st2 where r: "rd n st = (r, d, st2)" by (cases "rd n st")
    obtain ba2 where b: "rd_ba n (st, ba) = Inr (r, st2, ba2)" "ba_inv ba2" "abs_ba ba2 = flat_write (map Some d) (abs_ba ba)"
      using rd_ba_rd [OF _ less.prems(1) r] Suc by auto
    note step = loop_ba_step [of m "(st, ba)" r "(st2, ba2)"] loop_step [of m st r d st2]
    show ?thesis
    proof (cases "r \<le> 0")
      case True
      then show ?thesis using less.prems Suc r b step rd_none [OF _ r] by auto
    next
      case False
      then have d: "int (length d) = r" "length d \<le> n" using rd_some [OF _ r] Suc by auto
      obtain halt2 ds2 st3 where l: "read_fix_loop rd (int (n - length d)) st2 = (halt2, ds2, st3)"
        by (cases "read_fix_loop rd (int (n - length d)) st2")
      have eq: "halt = halt2" "ds = d @ ds2" "st1 = st3"
        using less.prems Suc r step False l by (auto simp: Let_def)
      have "n - length d < n" using d False Suc by auto
      moreover have "read_fix_loop rd (int (n - length d)) st2 = (halt, ds2, st1)" using l eq by simp
      ultimately obtain ba3 where
        "read_fix_loop_ba rd_ba (int (n - length d)) (st2, ba2) = Inr (halt, st1, ba3)" "ba_inv ba3"
        "abs_ba ba3 = flat_write (map Some ds2) (abs_ba ba2)" using less.IH b(2) by blast
      moreover have "int n - r = int (n - length d)" using d by (simp add: of_nat_diff)
      ultimately show ?thesis
        using step(1) b False Suc eq by (auto simp: flat_write_append [OF abs_ba_pos [OF less.prems(1)]])
    qed
  qed
qed

end

subsection \<open>\<open>SocketStream\<close> is one\<close>

definition ss_pending :: "stream_state \<Rightarrow> u8 list" where
  "ss_pending st = concat (cn_segs (snd st))"

definition ss_live :: "stream_state \<Rightarrow> bool" where
  "ss_live st \<longleftrightarrow> ss_isConnected (fst st) \<and> list_all (\<lambda>s. s \<noteq> []) (cn_segs (snd st))"

lemma connected_socket: "ss_isConnected s \<Longrightarrow> sk_isConnected (the (ss_socket s))"
  by (simp add: ss_isConnected_def split: option.splits)

lemma ss_read_connected:
  "ss_isConnected s \<Longrightarrow> ss_read n (s, c) = (fst (k_recv c n), snd (k_recv c n), s, after_recv c n)"
  using connected_socket [of s] by (simp add: ss_read_def recv_buf_def Let_def case_prod_beta)

lemma iov_loop_room: "iov_loop nds cur npos ncap n = Inr iovs \<Longrightarrow> iov_room iovs = n"
proof (induction nds cur npos ncap n arbitrary: iovs rule: iov_loop.induct)
  case (1 nds cur npos ncap n)
  show ?case
  proof (cases "n = 0")
    case True
    then show ?thesis using "1.prems" by (simp add: iov_loop.simps [of nds cur npos ncap 0] iov_room_def)
  next
    case n: False
    with "1.prems" obtain i where i: "cur = Some i" "i < length nds"
      by (auto simp: iov_loop.simps [of nds cur npos ncap n] split: option.splits if_splits)
    show ?thesis
    proof (cases "n \<le> ncap")
      case True
      then show ?thesis using "1.prems" n i by (auto simp: iov_loop.simps [of nds "Some i" npos ncap n] iov_room_def)
    next
      case False
      then obtain nd iovs2 where nd: "deref nds (next_of nds (Some i)) = Inr nd"
        and l: "iov_loop nds (Some (Suc i)) 0 (node_size nd) (n - ncap) = Inr iovs2"
        and e: "iovs = \<lparr>iov_node = i, iov_off = npos, iov_len = ncap\<rparr> # iovs2"
        using "1.prems" n i by (auto simp: iov_loop.simps [of nds "Some i" npos ncap n] bind_r_Inr_iff)
      have "iov_room iovs2 = n - ncap" by (rule "1.IH" [OF n i False nd l])
      then show ?thesis using e False by (simp add: iov_room_def)
    qed
  qed
qed

lemma getWriteBuffers_room: "getWriteBuffers n ba = Inr ((l, iovs), ba1) \<Longrightarrow> iov_room iovs = n"
  by (auto simp: getWriteBuffers_def bind_r_Inr_iff Let_def iov_room_def [of "[]"] split: if_splits dest: iov_loop_room)

text \<open>Storing through the list of \<open>getWriteBuffers\<close> and moving the position is a write.\<close>

lemma store_and_move:
  assumes inv: "ba_inv ba" and n: "length d \<le> n" "d \<noteq> []"
  obtains iovs ba1 ba2 where "getWriteBuffers n ba = Inr ((n, iovs), ba1)" and "iov_room iovs = n"
    and "setPosition (m_position ba1 + length d) (ba1\<lparr>m_nodes := scatter iovs (map Some d) (m_nodes ba1)\<rparr>) = Inr ba2"
    and "ba_inv ba2" and "abs_ba ba2 = flat_write (map Some d) (abs_ba ba)"
proof -
  obtain iovs ba1 ext where w: "getWriteBuffers n ba = Inr ((n, iovs), ba1)" "ba_inv ba1"
    "m_position ba1 = m_position ba" "m_size ba1 = m_size ba" "contents ba1 = contents ba @ replicate ext None"
    "m_endian ba1 = m_endian ba" "m_position ba + n \<le> m_capacity ba1"
    and sc: "\<forall>cs. length cs \<le> n \<longrightarrow> nodes_ok (m_baseSize ba1) (scatter iovs cs (m_nodes ba1))
      \<and> length (scatter iovs cs (m_nodes ba1)) = length (m_nodes ba1)
      \<and> concat (map node_ptr (scatter iovs cs (m_nodes ba1))) = overwrite (contents ba1) (m_position ba) cs"
    by (rule getWriteBuffers_correct [OF inv, of n])
  let ?ba = "ba1\<lparr>m_nodes := scatter iovs (map Some d) (m_nodes ba1)\<rparr>"
  have s: "nodes_ok (m_baseSize ba1) (m_nodes ?ba)" "length (m_nodes ?ba) = length (m_nodes ba1)"
    "contents ?ba = overwrite (contents ba1) (m_position ba) (map Some d)"
    using sc [rule_format, of "map Some d"] n(1) by simp_all
  have inv1: "ba_inv ?ba" using w(2) s(1,2) by (auto simp: ba_inv_def)
  have cap: "m_position ba1 + length d \<le> m_capacity ?ba" using w(3,7) n(1) by simp
  obtain ba2 where p: "setPosition (m_position ba1 + length d) ?ba = Inr ba2" "ba_inv ba2"
    "m_position ba2 = m_position ba1 + length d" "m_size ba2 = max (m_size ?ba) (m_position ba1 + length d)"
    "contents ba2 = contents ?ba" "m_endian ba2 = m_endian ?ba"
    by (rule setPosition_correct [OF inv1 cap])
  have "m_size ba \<le> length (contents ba)" using ba_invD(6) length_contents inv by simp
  from flat_data_write [OF ba_invD(5) [OF inv] this, of "map Some d" ext None]
  have "abs_ba ba2 = flat_write (map Some d) (abs_ba ba)"
    using p w s(3) by (simp add: abs_ba_def flat_write_def)
  with w(1) p(1,2) getWriteBuffers_room [OF w(1)] show thesis by (intro that)
qed

lemma nothing_stored:
  assumes inv: "ba_inv ba"
  obtains iovs ba1 where "getWriteBuffers n ba = Inr ((n, iovs), ba1)" and "iov_room iovs = n"
    and "ba_inv (ba1\<lparr>m_nodes := scatter iovs [] (m_nodes ba1)\<rparr>)"
    and "abs_ba (ba1\<lparr>m_nodes := scatter iovs [] (m_nodes ba1)\<rparr>) = abs_ba ba"
proof -
  obtain iovs ba1 ext where w: "getWriteBuffers n ba = Inr ((n, iovs), ba1)" "ba_inv ba1"
    "m_position ba1 = m_position ba" "m_size ba1 = m_size ba" "contents ba1 = contents ba @ replicate ext None"
    "m_endian ba1 = m_endian ba" "m_position ba + n \<le> m_capacity ba1"
    and sc: "\<forall>cs. length cs \<le> n \<longrightarrow> nodes_ok (m_baseSize ba1) (scatter iovs cs (m_nodes ba1))
      \<and> length (scatter iovs cs (m_nodes ba1)) = length (m_nodes ba1)
      \<and> concat (map node_ptr (scatter iovs cs (m_nodes ba1))) = overwrite (contents ba1) (m_position ba) cs"
    by (rule getWriteBuffers_correct [OF inv, of n])
  have "ba_inv (ba1\<lparr>m_nodes := scatter iovs [] (m_nodes ba1)\<rparr>)"
    using w(2) sc [rule_format, of "[]"] by (auto simp: ba_inv_def)
  moreover have "m_size ba \<le> length (contents ba)" using ba_invD(6) length_contents inv by simp
  then have "abs_ba (ba1\<lparr>m_nodes := scatter iovs [] (m_nodes ba1)\<rparr>) = abs_ba ba"
    using w sc [rule_format, of "[]"] by (simp add: abs_ba_def)
  ultimately show thesis using w(1) getWriteBuffers_room [OF w(1)] by (intro that)
qed

lemma k_recv_shape: "k_recv c n = (r, d) \<Longrightarrow> d = [] \<and> r \<le> 0 \<or> d \<noteq> [] \<and> r = int (length d) \<and> length d \<le> n"
  by (auto simp: k_recv_def split: list.splits if_splits)

lemma ss_read_ba_rd:
  assumes inv: "ba_inv ba" and rd: "ss_read n st = (r, d, st1)"
  shows "\<exists>ba1. ss_read_ba n (st, ba) = Inr (r, st1, ba1) \<and> ba_inv ba1 \<and> abs_ba ba1 = flat_write (map Some d) (abs_ba ba)"
proof -
  obtain s c where st: "st = (s, c)" by fastforce
  show ?thesis
  proof (cases "ss_isConnected s")
    case False
    then show ?thesis using rd inv st by (auto simp: ss_read_def ss_read_ba_def)
  next
    case True
    have k: "k_recv c n = (r, d)" "st1 = (s, after_recv c n)"
      using rd st ss_read_connected [OF True, of n c] by auto
    note sk = connected_socket [OF True]
    consider "d = []" "r \<le> 0" | "d \<noteq> []" "r = int (length d)" "length d \<le> n" using k_recv_shape [OF k(1)] by blast
    then show ?thesis
    proof cases
      case 1
      obtain iovs ba1 where w: "getWriteBuffers n ba = Inr ((n, iovs), ba1)" "iov_room iovs = n"
        "ba_inv (ba1\<lparr>m_nodes := scatter iovs [] (m_nodes ba1)\<rparr>)"
        "abs_ba (ba1\<lparr>m_nodes := scatter iovs [] (m_nodes ba1)\<rparr>) = abs_ba ba"
        by (rule nothing_stored [OF inv])
      show ?thesis using w 1 k st True sk by (simp add: ss_read_ba_def recv_iov_def Let_def)
    next
      case 2
      obtain iovs ba1 ba2 where w: "getWriteBuffers n ba = Inr ((n, iovs), ba1)" "iov_room iovs = n"
        "setPosition (m_position ba1 + length d) (ba1\<lparr>m_nodes := scatter iovs (map Some d) (m_nodes ba1)\<rparr>) = Inr ba2"
        "ba_inv ba2" "abs_ba ba2 = flat_write (map Some d) (abs_ba ba)"
        by (rule store_and_move [OF inv 2(3,1)])
      show ?thesis using w 2 k st True sk by (simp add: ss_read_ba_def recv_iov_def Let_def)
    qed
  qed
qed

interpretation sock_src: array_source ss_read ss_pending ss_live ss_read_ba
proof
  fix n :: nat and st :: stream_state and r d st1
  assume n: "0 < n" and rd: "ss_read n st = (r, d, st1)"
  obtain s c where st: "st = (s, c)" by fastforce
  show "int (length d) = r \<and> length d \<le> n \<and> ss_pending st = d @ ss_pending st1 \<and> (ss_live st \<longrightarrow> ss_live st1)" if "0 < r"
  proof -
    have con: "ss_isConnected s" using rd that st by (auto simp: ss_read_def split: if_splits)
    then show ?thesis using rd that st ss_read_connected [OF con, of n c]
      by (auto simp: k_recv_def after_recv_def ss_pending_def ss_live_def split: list.splits if_splits)
  qed
  show "d = [] \<and> ss_pending st1 = ss_pending st" if "r \<le> 0"
  proof (cases "ss_isConnected s")
    case True
    then show ?thesis using rd that n st ss_read_connected [OF True, of n c]
      by (auto simp: k_recv_def after_recv_def ss_pending_def split: list.splits if_splits)
  qed (use rd st in \<open>auto simp: ss_read_def\<close>)
next
  fix n :: nat and st :: stream_state
  show "- (2 ^ 31) \<le> fst (ss_read n st)"
    by (cases st) (auto simp: ss_read_def recv_buf_def k_recv_def split: list.splits)
next
  fix n :: nat and st :: stream_state
  assume "0 < n" "ss_live st" "ss_pending st \<noteq> []"
  then show "0 < fst (ss_read n st)"
    by (cases st) (auto simp: ss_live_def ss_pending_def ss_read_connected k_recv_def split: list.splits)
next
  fix n :: nat and ba st r d st1
  assume n: "0 < n" and inv: "ba_inv ba" and rd: "ss_read n st = (r, d, st1)"
  show "\<exists>ba1. ss_read_ba n (st, ba) = Inr (r, st1, ba1) \<and> ba_inv ba1 \<and> abs_ba ba1 = flat_write (map Some d) (abs_ba ba)"
    by (rule ss_read_ba_rd [OF inv rd])
qed

lemma int64_id: "n < 2 ^ 63 \<Longrightarrow> int64 n = int n"
proof -
  assume n: "n < 2 ^ 63"
  have "int64 n = sint (word_of_int (int n) :: u64)" by (simp add: int64_def)
  also have "\<dots> = signed_take_bit 63 (int n)" by (simp only: sint_sbintrunc') simp
  also have "\<dots> = int n" using n by (intro signed_take_bit_int_eq_self) auto
  finally show ?thesis .
qed


definition sample_stream :: socket_stream where
  "sample_stream = new_SocketStream (Some ((new_Socket AF_INET SOCK_STREAM 0)\<lparr>sk_sock := 5, sk_isConnected := True\<rparr>)) True"

definition sample_conn :: connection where
  "sample_conn = \<lparr>cn_segs = [[1, 2], [3, 4, 5]], cn_closed = True, cn_sent = [], cn_quota = [2, 9]\<rparr>"


subsection \<open>Sending\<close>

text \<open>A stream to write to: \<open>sent\<close> is what has gone out. A positive result is the number of bytes taken from the
  front of the buffer. \<open>willing st n\<close>: the next \<open>n\<close> writes succeed.\<close>

locale stream_sink =
  fixes wr :: "u8 list \<Rightarrow> 's \<Rightarrow> int \<times> 's"
    and sent :: "'s \<Rightarrow> cell list"
    and willing :: "'s \<Rightarrow> nat \<Rightarrow> bool"
  assumes wr_some: "wr b st = (r, st1) \<Longrightarrow> 0 < r \<Longrightarrow> nat r \<le> length b \<and> sent st1 = sent st @ map Some (take (nat r) b)"
    and wr_none: "wr b st = (r, st1) \<Longrightarrow> r \<le> 0 \<Longrightarrow> - (2 ^ 31) \<le> r \<and> sent st1 = sent st"
    and wr_willing: "willing st n \<Longrightarrow> 0 < n \<Longrightarrow> b \<noteq> [] \<Longrightarrow> wr b st = (r, st1) \<Longrightarrow> 0 < r \<and> willing st1 (n - 1)"
    and willing_less: "willing st n \<Longrightarrow> m \<le> n \<Longrightarrow> willing st m"
begin

lemma write_loop_sent:
  assumes "write_fix_loop wr b off (int n) st = (halt, st1)" and "off + n \<le> length b"
  shows "\<exists>k \<le> n. sent st1 = sent st @ map Some (take k (drop off b)) \<and> (halt = None \<longrightarrow> k = n)
    \<and> (\<forall>r. halt = Some r \<longrightarrow> r \<le> 0 \<and> - (2 ^ 31) \<le> r \<and> k < n) \<and> (willing st n \<longrightarrow> halt = None)"
  using assms
proof (induction n arbitrary: off st halt rule: less_induct)
  case (less n)
  show ?case
  proof (cases n)
    case 0
    then show ?thesis using less.prems by (simp add: write_fix_loop.simps)
  next
    case (Suc m)
    let ?b = "take n (drop off b)"
    have b: "?b \<noteq> []" using less.prems(2) Suc by auto
    obtain r st2 where r: "wr ?b st = (r, st2)" by (cases "wr ?b st")
    have step: "write_fix_loop wr b off (int n) st
        = (if r \<le> 0 then (Some r, st2) else write_fix_loop wr b (off + nat r) (int n - r) st2)"
      using r Suc by (subst write_fix_loop.simps) (simp del: of_nat_Suc)
    show ?thesis
    proof (cases "r \<le> 0")
      case True
      moreover have "\<not> willing st n" using wr_willing [OF _ _ b r] True Suc by auto
      ultimately show ?thesis using less.prems step Suc wr_none [OF r] by (intro exI [of _ 0]) auto
    next
      case False
      define j where "j = nat r"
      have j: "r = int j" "0 < j" "j \<le> n" "sent st2 = sent st @ map Some (take j (drop off b))"
        using wr_some [OF r] False by (auto simp: j_def min_def split: if_splits)
      have "write_fix_loop wr b (off + j) (int (n - j)) st2 = (halt, st1)"
        using less.prems(1) step False j by (simp add: of_nat_diff)
      then obtain k where k: "k \<le> n - j" "sent st1 = sent st2 @ map Some (take k (drop (off + j) b))"
        "halt = None \<longrightarrow> k = n - j" "\<forall>r. halt = Some r \<longrightarrow> r \<le> 0 \<and> - (2 ^ 31) \<le> r \<and> k < n - j"
        "willing st2 (n - j) \<longrightarrow> halt = None"
        using less.IH [of "n - j" "off + j" st2 halt] j less.prems(2) by auto
      have "willing st2 (n - j)" if "willing st n"
      proof (rule willing_less)
        show "willing st2 (n - 1)" using wr_willing [OF that _ b r] Suc by simp
      qed (use j in simp)
      moreover have "take (j + k) (drop off b) = take j (drop off b) @ take k (drop (off + j) b)"
        by (rule take_drop_split)
      ultimately show ?thesis using k j by (intro exI [of _ "j + k"]) auto
    qed
  qed
qed

end

text \<open>Sending from an array: what is taken is the front of its unread bytes, and the position moves past it.\<close>

locale array_sink =
  fixes wr_ba :: "nat \<Rightarrow> 's \<times> byte_array \<Rightarrow> (int \<times> 's \<times> byte_array) result"
    and sent :: "'s \<Rightarrow> cell list"
    and willing :: "'s \<Rightarrow> nat \<Rightarrow> bool"
  assumes wr_ba_total: "ba_inv ba \<Longrightarrow> \<exists>r st1 ba1. wr_ba n (st, ba) = Inr (r, st1, ba1) \<and> ba_inv ba1 \<and> - (2 ^ 31) \<le> r"
    and wr_ba_some: "ba_inv ba \<Longrightarrow> wr_ba n (st, ba) = Inr (r, st1, ba1) \<Longrightarrow> 0 < r \<Longrightarrow>
      nat r \<le> n \<and> nat r \<le> length (unread ba) \<and> sent st1 = sent st @ take (nat r) (unread ba) \<and> unread ba1 = drop (nat r) (unread ba)"
    and wr_ba_none: "ba_inv ba \<Longrightarrow> wr_ba n (st, ba) = Inr (r, st1, ba1) \<Longrightarrow> r \<le> 0 \<Longrightarrow> sent st1 = sent st \<and> unread ba1 = unread ba"
    and wr_ba_willing: "willing st k \<Longrightarrow> 0 < k \<Longrightarrow> 0 < n \<Longrightarrow> ba_inv ba \<Longrightarrow> wr_ba n (st, ba) = Inr (r, st1, ba1) \<Longrightarrow>
      if unread ba = [] then r = 0 else 0 < r \<and> willing st1 (k - 1)"
    and willing_less: "willing st n \<Longrightarrow> m \<le> n \<Longrightarrow> willing st m"
begin

lemma write_loop_ba:
  assumes "ba_inv ba"
  shows "\<exists>halt st1 ba1 k. read_fix_loop_ba wr_ba (int n) (st, ba) = Inr (halt, st1, ba1) \<and> ba_inv ba1 \<and> k \<le> n
    \<and> sent st1 = sent st @ take k (unread ba) \<and> unread ba1 = drop k (unread ba) \<and> k \<le> length (unread ba)
    \<and> (halt = None \<longrightarrow> k = n) \<and> (\<forall>r. halt = Some r \<longrightarrow> r \<le> 0 \<and> - (2 ^ 31) \<le> r \<and> k < n)
    \<and> (willing st n \<longrightarrow> (if n \<le> length (unread ba) then halt = None else halt = Some 0 \<and> k = length (unread ba)))"
  using assms
proof (induction n arbitrary: st ba rule: less_induct)
  case (less n)
  show ?case
  proof (cases n)
    case 0
    then show ?thesis using less.prems
      by (intro exI [of _ None] exI [of _ st] exI [of _ ba] exI [of _ 0]) (simp add: read_fix_loop_ba.simps)
  next
    case (Suc m)
    obtain r st2 ba2 where w: "wr_ba n (st, ba) = Inr (r, st2, ba2)" "ba_inv ba2" "- (2 ^ 31) \<le> r"
      using wr_ba_total [OF less.prems] by blast
    have step: "read_fix_loop_ba wr_ba (int n) (st, ba)
        = (if r \<le> 0 then Inr (Some r, st2, ba2) else read_fix_loop_ba wr_ba (int n - r) (st2, ba2))"
      using w(1) Suc by (subst read_fix_loop_ba.simps) (simp del: of_nat_Suc)
    show ?thesis
    proof (cases "r \<le> 0")
      case True
      have "willing st n \<longrightarrow> unread ba = [] \<and> r = 0"
        using wr_ba_willing [of st n n ba r st2 ba2] w(1) less.prems True Suc by (auto split: if_splits)
      then show ?thesis using step True w Suc wr_ba_none [OF less.prems w(1) True]
        by (intro exI [of _ "Some r"] exI [of _ st2] exI [of _ ba2] exI [of _ 0]) auto
    next
      case False
      define j where "j = nat r"
      have j: "r = int j" "0 < j" "j \<le> n" "j \<le> length (unread ba)" "sent st2 = sent st @ take j (unread ba)"
        "unread ba2 = drop j (unread ba)"
        using wr_ba_some [OF less.prems w(1)] False by (auto simp: j_def)
      have "n - j < n" using j Suc by simp
      from less.IH [OF this w(2), of st2] obtain halt st1 ba1 k where
        k: "read_fix_loop_ba wr_ba (int (n - j)) (st2, ba2) = Inr (halt, st1, ba1)" "ba_inv ba1" "k \<le> n - j"
          "sent st1 = sent st2 @ take k (unread ba2)" "unread ba1 = drop k (unread ba2)" "k \<le> length (unread ba2)"
          "halt = None \<longrightarrow> k = n - j" "\<forall>r. halt = Some r \<longrightarrow> r \<le> 0 \<and> - (2 ^ 31) \<le> r \<and> k < n - j"
          "willing st2 (n - j) \<longrightarrow> (if n - j \<le> length (unread ba2) then halt = None else halt = Some 0 \<and> k = length (unread ba2))"
        by blast
      have w2: "willing st2 (n - j)" if "willing st n"
      proof (rule willing_less)
        show "willing st2 (n - 1)"
          using wr_ba_willing [OF that _ _ less.prems w(1)] False Suc by (auto split: if_splits)
      qed (use j in simp)
      have l: "read_fix_loop_ba wr_ba (int n) (st, ba) = Inr (halt, st1, ba1)" using step False j k(1) by (simp add: of_nat_diff)
      have "sent st1 = sent st @ take (j + k) (unread ba)" using k(4) j by (simp add: take_add)
      moreover have "unread ba1 = drop (j + k) (unread ba)" using k(5) j by (simp add: add.commute)
      moreover have "j + k \<le> length (unread ba)" using k(6) j by simp
      moreover have "willing st n \<longrightarrow> (if n \<le> length (unread ba) then halt = None else halt = Some 0 \<and> j + k = length (unread ba))"
        using k(9) w2 j by (auto split: if_splits)
      ultimately show ?thesis using l k(2,3,7,8) j
        by (intro exI [of _ halt] exI [of _ st1] exI [of _ ba1] exI [of _ "j + k"]) auto
    qed
  qed
qed

end

definition ss_sent :: "stream_state \<Rightarrow> cell list" where
  "ss_sent st = cn_sent (snd st)"

definition ss_willing :: "stream_state \<Rightarrow> nat \<Rightarrow> bool" where
  "ss_willing st n \<longleftrightarrow> ss_isConnected (fst st) \<and> n \<le> length (cn_quota (snd st)) \<and> list_all (\<lambda>q. 0 < q) (cn_quota (snd st))"

lemma ss_write_connected:
  "ss_isConnected s \<Longrightarrow> ss_write b (s, c) = (k_send c (map Some b), s, after_send c (map Some b))"
  using connected_socket [of s] by (simp add: ss_write_def send_buf_def)

lemma ss_write_failed: "\<not> ss_isConnected s \<Longrightarrow> ss_write b (s, c) = (- 1, s, c)"
  by (simp add: ss_write_def)

interpretation sock_sink: stream_sink ss_write ss_sent ss_willing
proof
  fix b st r st1
  assume w: "ss_write b st = (r, st1)"
  obtain s c where st: "st = (s, c)" by fastforce
  show "nat r \<le> length b \<and> ss_sent st1 = ss_sent st @ map Some (take (nat r) b)" if "0 < r"
    using w that st by (cases "ss_isConnected s")
      (auto simp: ss_write_connected ss_write_failed k_send_def after_send_def ss_sent_def take_map min_def split: list.splits if_splits)
  show "- (2 ^ 31) \<le> r \<and> ss_sent st1 = ss_sent st" if "r \<le> 0"
    using w that st by (cases "ss_isConnected s")
      (auto simp: ss_write_connected ss_write_failed k_send_def after_send_def ss_sent_def min_def split: list.splits if_splits)
  show "0 < r \<and> ss_willing st1 (n - 1)" if "ss_willing st n" "0 < n" "b \<noteq> []" for n
    using w that st by (auto simp: ss_willing_def ss_write_connected k_send_def after_send_def split: list.splits)
next
  show "ss_willing st n \<Longrightarrow> m \<le> n \<Longrightarrow> ss_willing st m" for st n m by (auto simp: ss_willing_def)
qed

lemma ss_write_ba_step:
  assumes inv: "ba_inv ba" and con: "ss_isConnected s"
  shows "\<exists>ba1. ss_write_ba n ((s, c), ba)
      = Inr (k_send c (take n (unread ba)), (s, after_send c (take n (unread ba))), ba1) \<and> ba_inv ba1
    \<and> unread ba1 = drop (nat (k_send c (take n (unread ba)))) (unread ba)"
proof -
  let ?d = "take n (unread ba)" and ?r = "k_send c (take n (unread ba))"
  obtain iovs where g: "getReadBuffers n ba = Inr (min n (getReadSize ba), iovs)" "gather (m_nodes ba) iovs = ?d"
    by (rule getReadBuffers_correct [OF inv, of n])
  note sk = connected_socket [OF con]
  show ?thesis
  proof (cases "0 < ?r")
    case False
    then show ?thesis using g con sk inv by (simp add: ss_write_ba_def send_iov_def Let_def)
  next
    case True
    have u: "length (unread ba) = m_size ba - m_position ba" by (rule length_unread [OF inv])
    have r: "nat ?r \<le> length (unread ba)" using True by (auto simp: k_send_def split: list.splits)
    then have p: "m_position ba + nat ?r \<le> m_size ba" using u ba_invD(5) [OF inv] by linarith
    then have "m_position ba + nat ?r \<le> m_capacity ba" using ba_invD(6) [OF inv] by linarith
    then obtain ba1 where b: "setPosition (m_position ba + nat ?r) ba = Inr ba1" "ba_inv ba1" "m_position ba1 = m_position ba + nat ?r"
      "m_size ba1 = max (m_size ba) (m_position ba + nat ?r)" "contents ba1 = contents ba"
      by (rule setPosition_correct [OF inv])
    have "unread ba1 = drop (nat ?r) (unread ba)"
      using b p by (simp add: unread_def drop_take add.commute)
    then show ?thesis using g con sk True b by (simp add: ss_write_ba_def send_iov_def Let_def)
  qed
qed

lemma k_send_bounds: "- 1 \<le> k_send c d" "k_send c d \<le> int (length d)"
  by (auto simp: k_send_def split: list.splits)

interpretation sock_ba_sink: array_sink ss_write_ba ss_sent ss_willing
proof
  fix n ba and st :: stream_state
  assume inv: "ba_inv ba"
  obtain s c where st: "st = (s, c)" by fastforce
  let ?d = "take n (unread ba)"
  have dis: "ss_write_ba n (st, ba) = Inr (- 1, st, ba)" if "\<not> ss_isConnected s" using that st by (simp add: ss_write_ba_def)
  show "\<exists>r st1 ba1. ss_write_ba n (st, ba) = Inr (r, st1, ba1) \<and> ba_inv ba1 \<and> - (2 ^ 31) \<le> r"
  proof (cases "ss_isConnected s")
    case True
    then show ?thesis using ss_write_ba_step [OF inv True, of n c] k_send_bounds(1) [of c ?d] st by auto
  qed (use dis inv in auto)
  fix r st1 ba1
  assume w: "ss_write_ba n (st, ba) = Inr (r, st1, ba1)"
  have con: "r = k_send c ?d \<and> st1 = (s, after_send c ?d) \<and> unread ba1 = drop (nat r) (unread ba)" if "ss_isConnected s"
    using ss_write_ba_step [OF inv that, of n c] w st by auto
  show "nat r \<le> n \<and> nat r \<le> length (unread ba) \<and> ss_sent st1 = ss_sent st @ take (nat r) (unread ba) \<and> unread ba1 = drop (nat r) (unread ba)" if "0 < r"
  proof -
    have c: "ss_isConnected s" using dis w that by force
    then show ?thesis using con that st
      by (auto simp: k_send_def after_send_def ss_sent_def min_def split: list.splits if_splits)
  qed
  show "ss_sent st1 = ss_sent st \<and> unread ba1 = unread ba" if "r \<le> 0"
  proof (cases "ss_isConnected s")
    case True
    then show ?thesis using con that st by (auto simp: k_send_def after_send_def ss_sent_def min_def split: list.splits if_splits)
  qed (use dis w in auto)
  show "if unread ba = [] then r = 0 else 0 < r \<and> ss_willing st1 (k - 1)" if "ss_willing st k" "0 < k" "0 < n" for k
    using con that st by (auto simp: ss_willing_def k_send_def after_send_def split: list.splits)
qed (auto simp: ss_willing_def)

text \<open>C28: Sending a fixed number of bytes. \<open>writeFixSize\<close> of a buffer puts a prefix of it on the connection and returns
  \<open>n\<close> exactly when all \<open>n\<close> bytes went out, which is so when the kernel keeps accepting bytes; otherwise
  it returns the failing result. From a \<open>ByteArray\<close> it sends the unread bytes in order and moves the
  position past what was sent; when more is asked for than the array holds, everything is sent and
  the result is 0.\<close>

theorem writeFixSize_exact:
  assumes "n < 2 ^ 31" and "n = length b" and "ba_inv ba"
  shows "(\<exists>r st1 k. writeFixSize ss_write b n st = (r, st1) \<and> k \<le> n \<and> ss_sent st1 = ss_sent st @ map Some (take k b)
      \<and> (k = n \<and> r = int n \<or> k < n \<and> r \<le> 0) \<and> (ss_willing st n \<longrightarrow> r = int n))
    \<and> (\<exists>r st1 ba1 k. writeFixSize_ba ss_write_ba n (st, ba) = Inr (r, st1, ba1) \<and> ba_inv ba1
      \<and> ss_sent st1 = ss_sent st @ take k (unread ba) \<and> unread ba1 = drop k (unread ba)
      \<and> (k = n \<and> r = int n \<or> k < n \<and> r \<le> 0)
      \<and> (ss_willing st n \<longrightarrow> (if n \<le> length (unread ba) then r = int n else r = 0 \<and> unread ba1 = [])))"
proof
  have i: "int64 n = int n" "to_int32 (int n) = int n" using assms(1) by (auto simp: int64_id to_int32_id)
  obtain halt st1 where l: "write_fix_loop ss_write b 0 (int n) st = (halt, st1)" by (cases "write_fix_loop ss_write b 0 (int n) st")
  obtain k where k: "k \<le> n" "ss_sent st1 = ss_sent st @ map Some (take k b)" "halt = None \<longrightarrow> k = n"
    "\<forall>r. halt = Some r \<longrightarrow> r \<le> 0 \<and> - (2 ^ 31) \<le> r \<and> k < n" "ss_willing st n \<longrightarrow> halt = None"
    using sock_sink.write_loop_sent [OF l] assms(2) by auto
  define r where "r = (case halt of Some r \<Rightarrow> to_int32 r | None \<Rightarrow> to_int32 (int n))"
  have "writeFixSize ss_write b n st = (r, st1)" using l by (simp add: writeFixSize_def i(1) r_def)
  moreover have "k = n \<and> r = int n \<or> k < n \<and> r \<le> 0" using k(3,4) i(2) by (cases halt) (auto simp: r_def to_int32_id)
  moreover have "ss_willing st n \<longrightarrow> r = int n" using k(5) i(2) by (simp add: r_def)
  ultimately show "\<exists>r st1 k. writeFixSize ss_write b n st = (r, st1) \<and> k \<le> n \<and> ss_sent st1 = ss_sent st @ map Some (take k b)
      \<and> (k = n \<and> r = int n \<or> k < n \<and> r \<le> 0) \<and> (ss_willing st n \<longrightarrow> r = int n)"
    using k(1,2) by blast
next
  have i: "int64 n = int n" "to_int32 (int n) = int n" using assms(1) by (auto simp: int64_id to_int32_id)
  obtain halt st1 ba1 k where k: "read_fix_loop_ba ss_write_ba (int n) (st, ba) = Inr (halt, st1, ba1)" "ba_inv ba1" "k \<le> n"
    "ss_sent st1 = ss_sent st @ take k (unread ba)" "unread ba1 = drop k (unread ba)"
    "halt = None \<longrightarrow> k = n" "\<forall>r. halt = Some r \<longrightarrow> r \<le> 0 \<and> - (2 ^ 31) \<le> r \<and> k < n"
    "ss_willing st n \<longrightarrow> (if n \<le> length (unread ba) then halt = None else halt = Some 0 \<and> k = length (unread ba))"
    using sock_ba_sink.write_loop_ba [OF assms(3), of n st] by blast
  define r where "r = (case halt of Some r \<Rightarrow> to_int32 r | None \<Rightarrow> to_int32 (int n))"
  have "writeFixSize_ba ss_write_ba n (st, ba) = Inr (r, st1, ba1)"
    using k(1) by (simp add: writeFixSize_ba_def i(1) r_def)
  moreover have "k = n \<and> r = int n \<or> k < n \<and> r \<le> 0" using k(6,7) i(2) by (cases halt) (auto simp: r_def to_int32_id)
  moreover have "ss_willing st n \<longrightarrow> (if n \<le> length (unread ba) then r = int n else r = 0 \<and> unread ba1 = [])"
    using k(5,8) i(2) to_int32_id [of 0] by (auto simp: r_def)
  ultimately show "\<exists>r st1 ba1 k. writeFixSize_ba ss_write_ba n (st, ba) = Inr (r, st1, ba1) \<and> ba_inv ba1
      \<and> ss_sent st1 = ss_sent st @ take k (unread ba) \<and> unread ba1 = drop k (unread ba)
      \<and> (k = n \<and> r = int n \<or> k < n \<and> r \<le> 0)
      \<and> (ss_willing st n \<longrightarrow> (if n \<le> length (unread ba) then r = int n else r = 0 \<and> unread ba1 = []))"
    using k(2,4,5) by blast
qed

theorem writeFixSize_exact_witness:
  "\<exists>st1. writeFixSize ss_write [7, 8] 2 (sample_stream, sample_conn) = (2, st1)"
proof -
  have w: "ss_willing (sample_stream, sample_conn) 2"
    by (simp add: ss_willing_def sample_conn_def sample_stream_def new_SocketStream_def ss_isConnected_def)
  have "(2 :: nat) < 2 ^ 31" "2 = length [7, 8 :: u8]" "ba_inv (new_ByteArray 3)" by (simp_all add: ba_inv_new)
  from conjunct1 [OF writeFixSize_exact [OF this, of "(sample_stream, sample_conn)"]] w show ?thesis by auto
qed

end
