(* ===== verification/Servlet.thy ===== *)
theory Servlet
  imports Http "HOL-Library.AList"
begin

text \<open>
  \<open>src/http/servlet.cc\<close>: servlets and their dispatch by path. A servlet is a value; what user code does
  in \<open>handle\<close> is a function of request, response and the rest of the world (of type \<open>'w\<close>: the session
  and whatever else it touches). The exact paths are an unordered map, here an association list with
  unspecified order; the glob patterns are a vector searched from the front, and \<open>fnmatch\<close> of the C
  library is an argument (true when it returns 0).
\<close>

subsection \<open>Servlets\<close>

type_synonym 'w callback = "http_request \<times> http_response \<times> 'w \<Rightarrow> int \<times> http_request \<times> http_response \<times> 'w"

datatype 'w servlet = FunctionServlet "'w callback" | NotFoundServlet "u8 list" "u8 list"

definition new_NotFoundServlet :: "u8 list \<Rightarrow> 'w servlet" where
  "new_NotFoundServlet name = NotFoundServlet name
     (bytes ''<html><head><title>404 Not Found</title></head><body><center><h1>404 Not Found</h1></center><hr><center>''
      @ name @ bytes ''</center></body></html>'')"

definition NotFoundServlet_handle :: "u8 list \<Rightarrow> http_response \<Rightarrow> http_response" where
  "NotFoundServlet_handle content rsp =
     (let rsp = rsp\<lparr>rs_status := 404\<rparr>;
          rsp = rs_setHeader (bytes ''Server'') (bytes ''phase0/1.0.0'') rsp;
          rsp = rs_setHeader (bytes ''Content-Type'') (bytes ''text/html'') rsp
      in rsp\<lparr>rs_body := content\<rparr>)"

definition servlet_handle :: "'w servlet \<Rightarrow> 'w callback" where
  "servlet_handle s = (\<lambda>(req, rsp, w). case s of
     FunctionServlet cb \<Rightarrow> cb (req, rsp, w)
   | NotFoundServlet name content \<Rightarrow> (0, req, NotFoundServlet_handle content rsp, w))"

text \<open>Creators: a held (possibly null) servlet, or a new one at each \<open>get\<close>.\<close>

datatype 'w creator = HoldServletCreator "'w servlet option" | ServletCreator "'w servlet"

definition creator_get :: "'w creator \<Rightarrow> 'w servlet option" where
  "creator_get c = (case c of HoldServletCreator s \<Rightarrow> s | ServletCreator s \<Rightarrow> Some s)"

subsection \<open>The dispatcher\<close>

record 'w servlet_dispatch =
  sd_datas :: "(u8 list \<times> 'w creator) list"
  sd_globs :: "(u8 list \<times> 'w creator) list"
  sd_default :: "'w servlet option"

definition new_ServletDispatch :: "'w servlet_dispatch" where
  "new_ServletDispatch = \<lparr>sd_datas = [], sd_globs = [], sd_default = Some (new_NotFoundServlet (bytes ''phase0/1.0''))\<rparr>"

definition addServletCreator :: "u8 list \<Rightarrow> 'w creator \<Rightarrow> 'w servlet_dispatch \<Rightarrow> 'w servlet_dispatch" where
  "addServletCreator uri c d = d\<lparr>sd_datas := AList.update uri c (sd_datas d)\<rparr>"

definition addServlet :: "u8 list \<Rightarrow> 'w servlet option \<Rightarrow> 'w servlet_dispatch \<Rightarrow> 'w servlet_dispatch" where
  "addServlet uri slt d = d\<lparr>sd_datas := AList.update uri (HoldServletCreator slt) (sd_datas d)\<rparr>"

definition addServlet_cb :: "u8 list \<Rightarrow> 'w callback \<Rightarrow> 'w servlet_dispatch \<Rightarrow> 'w servlet_dispatch" where
  "addServlet_cb uri cb d = d\<lparr>sd_datas := AList.update uri (HoldServletCreator (Some (FunctionServlet cb))) (sd_datas d)\<rparr>"

text \<open>The loop that erases the first entry with the pattern \<open>uri\<close>.\<close>

fun erase_glob :: "u8 list \<Rightarrow> (u8 list \<times> 'c) list \<Rightarrow> (u8 list \<times> 'c) list" where
  "erase_glob uri [] = []"
| "erase_glob uri (e # es) = (if fst e = uri then es else e # erase_glob uri es)"

definition addGlobServletCreator :: "u8 list \<Rightarrow> 'w creator \<Rightarrow> 'w servlet_dispatch \<Rightarrow> 'w servlet_dispatch" where
  "addGlobServletCreator uri c d = d\<lparr>sd_globs := erase_glob uri (sd_globs d) @ [(uri, c)]\<rparr>"

definition addGlobServlet :: "u8 list \<Rightarrow> 'w servlet option \<Rightarrow> 'w servlet_dispatch \<Rightarrow> 'w servlet_dispatch" where
  "addGlobServlet uri slt d = d\<lparr>sd_globs := erase_glob uri (sd_globs d) @ [(uri, HoldServletCreator slt)]\<rparr>"

definition addGlobServlet_cb :: "u8 list \<Rightarrow> 'w callback \<Rightarrow> 'w servlet_dispatch \<Rightarrow> 'w servlet_dispatch" where
  "addGlobServlet_cb uri cb d = addGlobServlet uri (Some (FunctionServlet cb)) d"

definition delServlet :: "u8 list \<Rightarrow> 'w servlet_dispatch \<Rightarrow> 'w servlet_dispatch" where
  "delServlet uri d = d\<lparr>sd_datas := AList.delete uri (sd_datas d)\<rparr>"

definition delGlobServlet :: "u8 list \<Rightarrow> 'w servlet_dispatch \<Rightarrow> 'w servlet_dispatch" where
  "delGlobServlet uri d = d\<lparr>sd_globs := erase_glob uri (sd_globs d)\<rparr>"

definition getServlet :: "u8 list \<Rightarrow> 'w servlet_dispatch \<Rightarrow> 'w servlet option" where
  "getServlet uri d = (case map_of (sd_datas d) uri of None \<Rightarrow> None | Some c \<Rightarrow> creator_get c)"

definition getGlobServlet :: "u8 list \<Rightarrow> 'w servlet_dispatch \<Rightarrow> 'w servlet option" where
  "getGlobServlet uri d = (case find (\<lambda>e. fst e = uri) (sd_globs d) of None \<Rightarrow> None | Some e \<Rightarrow> creator_get (snd e))"

definition getMatchedServlet ::
  "(u8 list \<Rightarrow> u8 list \<Rightarrow> bool) \<Rightarrow> u8 list \<Rightarrow> 'w servlet_dispatch \<Rightarrow> 'w servlet option" where
  "getMatchedServlet fnmatch uri d = (case map_of (sd_datas d) uri of Some c \<Rightarrow> creator_get c
     | None \<Rightarrow> (case find (\<lambda>e. fnmatch (c_str (fst e)) (c_str uri)) (sd_globs d) of
         Some e \<Rightarrow> creator_get (snd e) | None \<Rightarrow> sd_default d))"

definition listAllServletCreator :: "(u8 list \<times> 'w creator) list \<Rightarrow> 'w servlet_dispatch \<Rightarrow> (u8 list \<times> 'w creator) list" where
  "listAllServletCreator infos d = foldl (\<lambda>m i. map_assign str_less (fst i) (snd i) m) infos (sd_datas d)"

definition listAllGlobServletCreator :: "(u8 list \<times> 'w creator) list \<Rightarrow> 'w servlet_dispatch \<Rightarrow> (u8 list \<times> 'w creator) list" where
  "listAllGlobServletCreator infos d = foldl (\<lambda>m i. map_assign str_less (fst i) (snd i) m) infos (sd_globs d)"

definition dispatch_handle ::
  "(u8 list \<Rightarrow> u8 list \<Rightarrow> bool) \<Rightarrow> 'w servlet_dispatch \<Rightarrow> 'w callback" where
  "dispatch_handle fnmatch d = (\<lambda>(req, rsp, w). case getMatchedServlet fnmatch (rq_path req) d of
     Some slt \<Rightarrow> (0, snd (servlet_handle slt (req, rsp, w))) | None \<Rightarrow> (0, req, rsp, w))"

subsection \<open>What a history of registrations means\<close>

datatype 'w reg = AddExact "u8 list" "'w creator" | DelExact "u8 list" | AddGlob "u8 list" "'w creator" | DelGlob "u8 list"

primrec apply_reg :: "'w reg \<Rightarrow> 'w servlet_dispatch \<Rightarrow> 'w servlet_dispatch" where
  "apply_reg (AddExact u c) d = addServletCreator u c d"
| "apply_reg (DelExact u) d = delServlet u d"
| "apply_reg (AddGlob u c) d = addGlobServletCreator u c d"
| "apply_reg (DelGlob u) d = delGlobServlet u d"

text \<open>The history is given latest first. The servlet of an exact path is that of the last registration, if no
  removal follows. A pattern counts from its last registration on.\<close>

fun exact_spec :: "'w reg list \<Rightarrow> u8 list \<Rightarrow> 'w creator option" where
  "exact_spec [] u = None"
| "exact_spec (AddExact v c # h) u = (if v = u then Some c else exact_spec h u)"
| "exact_spec (DelExact v # h) u = (if v = u then None else exact_spec h u)"
| "exact_spec (_ # h) u = exact_spec h u"

fun globs_spec :: "'w reg list \<Rightarrow> u8 list list \<Rightarrow> (u8 list \<times> 'w creator) list" where
  "globs_spec [] seen = []"
| "globs_spec (AddGlob u c # h) seen = globs_spec h (u # seen) @ (if u \<in> set seen then [] else [(u, c)])"
| "globs_spec (DelGlob u # h) seen = globs_spec h (u # seen)"
| "globs_spec (_ # h) seen = globs_spec h seen"

lemma exact_run: "map_of (sd_datas (foldr apply_reg h new_ServletDispatch)) u = exact_spec h u"
proof (induction h)
  case Nil
  then show ?case by (simp add: new_ServletDispatch_def)
next
  case (Cons r h)
  then show ?case
    by (cases r) (auto simp: addServletCreator_def delServlet_def addGlobServletCreator_def delGlobServlet_def
        update_conv' delete_conv')
qed

lemma globs_spec_fst: "e \<in> set (globs_spec h seen) \<Longrightarrow> fst e \<notin> set seen"
  by (induction h seen rule: globs_spec.induct) (auto split: if_splits)

lemma globs_spec_drop: "globs_spec h seen = filter (\<lambda>e. fst e \<notin> set seen) (globs_spec h [])"
proof (induction h arbitrary: seen)
  case (Cons r h)
  have two: "globs_spec h (u # seen) = filter (\<lambda>e. fst e \<notin> set seen) (globs_spec h [u])" for u
    by (subst Cons.IH, subst Cons.IH [of "[u]"]) (simp add: conj_commute cong: conj_cong)
  show ?case using Cons.IH [of seen] two by (cases r) auto
qed simp

lemma globs_spec_distinct: "distinct (map fst (globs_spec h seen))"
  using globs_spec_fst by (induction h seen rule: globs_spec.induct) fastforce+

lemma erase_glob_filter: "distinct (map fst es) \<Longrightarrow> erase_glob u es = filter (\<lambda>e. fst e \<noteq> u) es"
proof (induction es)
  case (Cons e es)
  then have "fst e = u \<Longrightarrow> filter (\<lambda>e. fst e \<noteq> u) es = es" by (auto simp: filter_id_conv image_iff)
  then show ?case using Cons by auto
qed simp

lemma globs_run: "sd_globs (foldr apply_reg h new_ServletDispatch) = globs_spec h []"
proof (induction h)
  case Nil
  then show ?case by (simp add: new_ServletDispatch_def)
next
  case (Cons r h)
  have "globs_spec h [u] = erase_glob u (globs_spec h [])" for u
    using globs_spec_drop [of h "[u]"] by (simp add: erase_glob_filter [OF globs_spec_distinct])
  then show ?case
    using Cons.IH by (cases r) (auto simp: addServletCreator_def delServlet_def addGlobServletCreator_def delGlobServlet_def)
qed

lemma default_run: "sd_default (foldr apply_reg h new_ServletDispatch) = sd_default new_ServletDispatch"
proof (induction h)
  case (Cons r h)
  then show ?case
    by (cases r) (auto simp: addServletCreator_def delServlet_def addGlobServletCreator_def delGlobServlet_def)
qed simp

text \<open>C10: Dispatch. After any history of registrations and removals, a request path is served by the servlet last
  registered for exactly this path, if any; otherwise by the first matching pattern, in the order in
  which the patterns still registered were last registered; otherwise by the page for 404. No history
  makes two entries for one pattern.\<close>

theorem dispatch_spec:
  "getMatchedServlet fnmatch uri (foldr apply_reg h new_ServletDispatch)
     = (case exact_spec h uri of Some c \<Rightarrow> creator_get c
        | None \<Rightarrow> (case find (\<lambda>e. fnmatch (c_str (fst e)) (c_str uri)) (globs_spec h []) of
            Some e \<Rightarrow> creator_get (snd e) | None \<Rightarrow> Some (new_NotFoundServlet (bytes ''phase0/1.0''))))
   \<and> distinct (map fst (sd_globs (foldr apply_reg h new_ServletDispatch)))"
proof -
  have d: "sd_default (foldr apply_reg h new_ServletDispatch) = Some (new_NotFoundServlet (bytes ''phase0/1.0''))"
    unfolding default_run by (simp add: new_ServletDispatch_def)
  show ?thesis
    by (simp add: getMatchedServlet_def exact_run globs_run globs_spec_distinct d split: option.split)
qed

text \<open>An unknown path gets status 404 with the page as its body, whatever the response held before.\<close>

lemma not_found_response:
  assumes "getMatchedServlet fnmatch (rq_path req) d = Some (NotFoundServlet name content)"
  shows "dispatch_handle fnmatch d (req, rsp, w) = (0, req, NotFoundServlet_handle content rsp, w)
    \<and> rs_status (NotFoundServlet_handle content rsp) = 404 \<and> rs_body (NotFoundServlet_handle content rsp) = content"
  using assms by (simp add: dispatch_handle_def servlet_handle_def NotFoundServlet_handle_def rs_setHeader_def Let_def)

end
