(* ===== verification/HttpGrammar.thy ===== *)
theory HttpGrammar
  imports HttpTables
begin

text \<open>
  The HTTP grammar library \<open>src/http/http_parser.cc\<close>, first part: character classes, the states of the
  request and response machine, the structure \<open>http_parser\<close>, the tests on a parsed message, and the URL
  parser. The library is compiled with \<open>HTTP_PARSER_STRICT\<close>, as the header sets it.
\<close>

subsection \<open>Characters\<close>

abbreviation CR :: u8 where "CR \<equiv> 13"
abbreviation LF :: u8 where "LF \<equiv> 10"

definition LOWER :: "u8 \<Rightarrow> u8" where "LOWER c = c OR 0x20"

definition IS_ALPHA :: "u8 \<Rightarrow> bool" where "IS_ALPHA c \<longleftrightarrow> 97 \<le> LOWER c \<and> LOWER c \<le> 122"
definition IS_NUM :: "u8 \<Rightarrow> bool" where "IS_NUM c \<longleftrightarrow> 48 \<le> c \<and> c \<le> 57"
definition IS_ALPHANUM :: "u8 \<Rightarrow> bool" where "IS_ALPHANUM c \<longleftrightarrow> IS_ALPHA c \<or> IS_NUM c"
definition IS_HEX :: "u8 \<Rightarrow> bool" where "IS_HEX c \<longleftrightarrow> IS_NUM c \<or> 97 \<le> LOWER c \<and> LOWER c \<le> 102"

definition IS_MARK :: "u8 \<Rightarrow> bool" where
  "IS_MARK c \<longleftrightarrow> c \<in> set (bytes ''-_.!~*'') \<or> c = 39 \<or> c \<in> set (bytes ''()'')"

definition IS_USERINFO_CHAR :: "u8 \<Rightarrow> bool" where
  "IS_USERINFO_CHAR c \<longleftrightarrow> IS_ALPHANUM c \<or> IS_MARK c \<or> c \<in> set (bytes ''%;:&=+$,'')"

text \<open>The table \<open>tokens\<close>: letters in lower case, the other token characters as they are, 0 for the rest.\<close>

definition tokens :: "u8 \<Rightarrow> u8" where
  "tokens c =
     (if 65 \<le> c \<and> c \<le> 90 then c + 32
      else if 97 \<le> c \<and> c \<le> 122 \<or> 48 \<le> c \<and> c \<le> 57 \<or> c \<in> set (bytes '' !#$%&*+-.^_|~'') \<or> c = 39 \<or> c = 96 then c
      else 0)"

definition STRICT_TOKEN :: "u8 \<Rightarrow> u8" where "STRICT_TOKEN c = (if c = 32 then 0 else tokens c)"

text \<open>The bitmap \<open>normal_url_char\<close>: the printable characters but the number sign and the question mark.\<close>

definition IS_URL_CHAR :: "u8 \<Rightarrow> bool" where "IS_URL_CHAR c \<longleftrightarrow> 33 \<le> c \<and> c \<le> 126 \<and> c \<noteq> 35 \<and> c \<noteq> 63"

definition IS_HOST_CHAR :: "u8 \<Rightarrow> bool" where "IS_HOST_CHAR c \<longleftrightarrow> IS_ALPHANUM c \<or> c = 46 \<or> c = 45"

definition IS_HEADER_CHAR :: "u8 \<Rightarrow> bool" where
  "IS_HEADER_CHAR c \<longleftrightarrow> c = CR \<or> c = LF \<or> c = 9 \<or> 31 < c \<and> c \<noteq> 127"

text \<open>The array \<open>unhex\<close> has 256 elements and 128 initialisers: from 128 on its elements are 0.\<close>

definition unhex :: "u8 \<Rightarrow> int" where
  "unhex c =
     (if IS_NUM c then uint c - 48
      else if 65 \<le> c \<and> c \<le> 70 then uint c - 55
      else if 97 \<le> c \<and> c \<le> 102 then uint c - 87
      else if 128 \<le> c then 0 else - 1)"

subsection \<open>States\<close>

datatype (plugins only: code size) p_state =
    s_dead | s_start_req_or_res | s_res_or_resp_H | s_start_res | s_res_H | s_res_HT | s_res_HTT | s_res_HTTP
  | s_res_http_major | s_res_http_dot | s_res_http_minor | s_res_http_end | s_res_first_status_code
  | s_res_status_code | s_res_status_start | s_res_status | s_res_line_almost_done
  | s_start_req | s_req_method | s_req_spaces_before_url | s_req_schema | s_req_schema_slash
  | s_req_schema_slash_slash | s_req_server_start | s_req_server | s_req_server_with_at | s_req_path
  | s_req_query_string_start | s_req_query_string | s_req_fragment_start | s_req_fragment
  | s_req_http_start | s_req_http_H | s_req_http_HT | s_req_http_HTT | s_req_http_HTTP | s_req_http_I
  | s_req_http_IC | s_req_http_major | s_req_http_dot | s_req_http_minor | s_req_http_end
  | s_req_line_almost_done
  | s_header_field_start | s_header_field | s_header_value_discard_ws | s_header_value_discard_ws_almost_done
  | s_header_value_discard_lws | s_header_value_start | s_header_value | s_header_value_lws
  | s_header_almost_done | s_chunk_size_start | s_chunk_size | s_chunk_parameters | s_chunk_size_almost_done
  | s_headers_almost_done | s_headers_done
  | s_chunk_data | s_chunk_data_almost_done | s_chunk_data_done | s_body_identity | s_body_identity_eof
  | s_message_done

text \<open>\<open>state <= s_headers_done\<close>.\<close>

definition PARSING_HEADER :: "p_state \<Rightarrow> bool" where
  "PARSING_HEADER s \<longleftrightarrow> s \<notin> set [s_chunk_data, s_chunk_data_almost_done, s_chunk_data_done,
     s_body_identity, s_body_identity_eof, s_message_done]"

datatype (plugins only: code size) header_states =
    h_general | h_C | h_CO | h_CON | h_matching_connection | h_matching_proxy_connection
  | h_matching_content_length | h_matching_transfer_encoding | h_matching_upgrade
  | h_connection | h_content_length | h_content_length_num | h_content_length_ws | h_transfer_encoding | h_upgrade
  | h_matching_transfer_encoding_chunked | h_matching_connection_token_start | h_matching_connection_keep_alive
  | h_matching_connection_close | h_matching_connection_upgrade | h_matching_connection_token
  | h_transfer_encoding_chunked | h_connection_keep_alive | h_connection_close | h_connection_upgrade

datatype parser_type = HTTP_REQUEST | HTTP_RESPONSE | HTTP_BOTH

datatype (plugins only: code size) http_errno =
    HPE_OK | HPE_CB_message_begin | HPE_CB_url | HPE_CB_header_field | HPE_CB_header_value
  | HPE_CB_headers_complete | HPE_CB_body | HPE_CB_message_complete | HPE_CB_status | HPE_CB_chunk_header
  | HPE_CB_chunk_complete | HPE_INVALID_EOF_STATE | HPE_HEADER_OVERFLOW | HPE_CLOSED_CONNECTION
  | HPE_INVALID_VERSION | HPE_INVALID_STATUS | HPE_INVALID_METHOD | HPE_INVALID_URL | HPE_INVALID_HOST
  | HPE_INVALID_PORT | HPE_INVALID_PATH | HPE_INVALID_QUERY_STRING | HPE_INVALID_FRAGMENT | HPE_LF_EXPECTED
  | HPE_INVALID_HEADER_TOKEN | HPE_INVALID_CONTENT_LENGTH | HPE_UNEXPECTED_CONTENT_LENGTH
  | HPE_INVALID_CHUNK_SIZE | HPE_INVALID_CONSTANT | HPE_INVALID_INTERNAL_STATE | HPE_STRICT | HPE_PAUSED
  | HPE_UNKNOWN

definition HTTP_ERRNO_MAP :: "(http_errno \<times> string \<times> string) list" where
  "HTTP_ERRNO_MAP =
    [(HPE_OK, ''HPE_OK'', ''success''),
     (HPE_CB_message_begin, ''HPE_CB_message_begin'', ''the on_message_begin callback failed''),
     (HPE_CB_url, ''HPE_CB_url'', ''the on_url callback failed''),
     (HPE_CB_header_field, ''HPE_CB_header_field'', ''the on_header_field callback failed''),
     (HPE_CB_header_value, ''HPE_CB_header_value'', ''the on_header_value callback failed''),
     (HPE_CB_headers_complete, ''HPE_CB_headers_complete'', ''the on_headers_complete callback failed''),
     (HPE_CB_body, ''HPE_CB_body'', ''the on_body callback failed''),
     (HPE_CB_message_complete, ''HPE_CB_message_complete'', ''the on_message_complete callback failed''),
     (HPE_CB_status, ''HPE_CB_status'', ''the on_status callback failed''),
     (HPE_CB_chunk_header, ''HPE_CB_chunk_header'', ''the on_chunk_header callback failed''),
     (HPE_CB_chunk_complete, ''HPE_CB_chunk_complete'', ''the on_chunk_complete callback failed''),
     (HPE_INVALID_EOF_STATE, ''HPE_INVALID_EOF_STATE'', ''stream ended at an unexpected time''),
     (HPE_HEADER_OVERFLOW, ''HPE_HEADER_OVERFLOW'', ''too many header bytes seen; overflow detected''),
     (HPE_CLOSED_CONNECTION, ''HPE_CLOSED_CONNECTION'', ''data received after completed connection: close message''),
     (HPE_INVALID_VERSION, ''HPE_INVALID_VERSION'', ''invalid HTTP version''),
     (HPE_INVALID_STATUS, ''HPE_INVALID_STATUS'', ''invalid HTTP status code''),
     (HPE_INVALID_METHOD, ''HPE_INVALID_METHOD'', ''invalid HTTP method''),
     (HPE_INVALID_URL, ''HPE_INVALID_URL'', ''invalid URL''),
     (HPE_INVALID_HOST, ''HPE_INVALID_HOST'', ''invalid host''),
     (HPE_INVALID_PORT, ''HPE_INVALID_PORT'', ''invalid port''),
     (HPE_INVALID_PATH, ''HPE_INVALID_PATH'', ''invalid path''),
     (HPE_INVALID_QUERY_STRING, ''HPE_INVALID_QUERY_STRING'', ''invalid query string''),
     (HPE_INVALID_FRAGMENT, ''HPE_INVALID_FRAGMENT'', ''invalid fragment''),
     (HPE_LF_EXPECTED, ''HPE_LF_EXPECTED'', ''LF character expected''),
     (HPE_INVALID_HEADER_TOKEN, ''HPE_INVALID_HEADER_TOKEN'', ''invalid character in header''),
     (HPE_INVALID_CONTENT_LENGTH, ''HPE_INVALID_CONTENT_LENGTH'', ''invalid character in content-length header''),
     (HPE_UNEXPECTED_CONTENT_LENGTH, ''HPE_UNEXPECTED_CONTENT_LENGTH'', ''unexpected content-length header''),
     (HPE_INVALID_CHUNK_SIZE, ''HPE_INVALID_CHUNK_SIZE'', ''invalid character in chunk size header''),
     (HPE_INVALID_CONSTANT, ''HPE_INVALID_CONSTANT'', ''invalid constant string''),
     (HPE_INVALID_INTERNAL_STATE, ''HPE_INVALID_INTERNAL_STATE'', ''encountered unexpected internal state''),
     (HPE_STRICT, ''HPE_STRICT'', ''strict mode assertion failed''),
     (HPE_PAUSED, ''HPE_PAUSED'', ''parser is paused''),
     (HPE_UNKNOWN, ''HPE_UNKNOWN'', ''an unknown error occurred'')]"

definition errno_value :: "http_errno \<Rightarrow> nat" where
  "errno_value e = length (takeWhile (\<lambda>(x, _). x \<noteq> e) HTTP_ERRNO_MAP)"

text \<open>\<open>http_errno_name\<close> and \<open>http_errno_description\<close>: an index outside \<open>http_strerror_tab\<close> fails an assertion.\<close>

definition http_errno_name :: "nat \<Rightarrow> string result" where
  "http_errno_name err = (if err < length HTTP_ERRNO_MAP then Inr (fst (snd (HTTP_ERRNO_MAP ! err))) else Inl AssertFail)"

definition http_errno_description :: "nat \<Rightarrow> string result" where
  "http_errno_description err = (if err < length HTTP_ERRNO_MAP then Inr (snd (snd (HTTP_ERRNO_MAP ! err))) else Inl AssertFail)"

subsection \<open>The structure\<close>

definition F_CHUNKED :: u8 where "F_CHUNKED = 1"
definition F_CONNECTION_KEEP_ALIVE :: u8 where "F_CONNECTION_KEEP_ALIVE = 2"
definition F_CONNECTION_CLOSE :: u8 where "F_CONNECTION_CLOSE = 4"
definition F_CONNECTION_UPGRADE :: u8 where "F_CONNECTION_UPGRADE = 8"
definition F_TRAILING :: u8 where "F_TRAILING = 16"
definition F_UPGRADE :: u8 where "F_UPGRADE = 32"
definition F_SKIPBODY :: u8 where "F_SKIPBODY = 64"
definition F_CONTENTLENGTH :: u8 where "F_CONTENTLENGTH = 128"

record http_parser =
  hp_type :: parser_type
  hp_flags :: u8
  hp_state :: p_state
  hp_header_state :: header_states
  hp_index :: nat
  hp_lenient :: bool
  hp_nread :: u32
  hp_content_length :: u64
  http_major :: u16
  http_minor :: u16
  status_code :: nat
  hp_method :: HttpMethod
  http_errno :: http_errno
  upgrade :: bool

definition has_flag :: "u8 \<Rightarrow> http_parser \<Rightarrow> bool" where "has_flag f p \<longleftrightarrow> hp_flags p AND f \<noteq> 0"
definition add_flag :: "u8 \<Rightarrow> http_parser \<Rightarrow> http_parser" where "add_flag f p = p\<lparr>hp_flags := hp_flags p OR f\<rparr>"

abbreviation ULLONG_MAX :: u64 where "ULLONG_MAX \<equiv> - 1"

definition http_parser_init :: "parser_type \<Rightarrow> http_parser" where
  "http_parser_init t =
     \<lparr>hp_type = t, hp_flags = 0,
      hp_state = (if t = HTTP_REQUEST then s_start_req else if t = HTTP_RESPONSE then s_start_res else s_start_req_or_res),
      hp_header_state = h_general, hp_index = 0, hp_lenient = False, hp_nread = 0, hp_content_length = 0,
      http_major = 0, http_minor = 0, status_code = 0, hp_method = DELETE, http_errno = HPE_OK, upgrade = False\<rparr>"

definition http_message_needs_eof :: "http_parser \<Rightarrow> bool" where
  "http_message_needs_eof p =
     (if hp_type p = HTTP_REQUEST then False
      else if status_code p div 100 = 1 \<or> status_code p = 204 \<or> status_code p = 304 \<or> has_flag F_SKIPBODY p then False
      else if has_flag F_CHUNKED p \<or> hp_content_length p \<noteq> ULLONG_MAX then False
      else True)"

definition http_should_keep_alive :: "http_parser \<Rightarrow> bool" where
  "http_should_keep_alive p =
     (if (if 0 < http_major p \<and> 0 < http_minor p then has_flag F_CONNECTION_CLOSE p
          else \<not> has_flag F_CONNECTION_KEEP_ALIVE p) then False
      else \<not> http_message_needs_eof p)"

definition start_state :: "http_parser \<Rightarrow> p_state" where
  "start_state p = (if hp_type p = HTTP_REQUEST then s_start_req else s_start_res)"

definition NEW_MESSAGE :: "http_parser \<Rightarrow> p_state" where
  "NEW_MESSAGE p = (if http_should_keep_alive p then start_state p else s_dead)"

definition http_method_str :: "HttpMethod \<Rightarrow> u8 list" where
  "http_method_str m = (if method_value m < length s_method_string then s_method_string ! method_value m else bytes ''<unknown>'')"

text \<open>The method strings as bytes, for evaluation.\<close>

lemma s_method_string_bytes:
  "s_method_string =
    [[68, 69, 76, 69, 84, 69],
     [71, 69, 84],
     [72, 69, 65, 68],
     [80, 79, 83, 84],
     [80, 85, 84],
     [67, 79, 78, 78, 69, 67, 84],
     [79, 80, 84, 73, 79, 78, 83],
     [84, 82, 65, 67, 69],
     [67, 79, 80, 89],
     [76, 79, 67, 75],
     [77, 75, 67, 79, 76],
     [77, 79, 86, 69],
     [80, 82, 79, 80, 70, 73, 78, 68],
     [80, 82, 79, 80, 80, 65, 84, 67, 72],
     [83, 69, 65, 82, 67, 72],
     [85, 78, 76, 79, 67, 75],
     [66, 73, 78, 68],
     [82, 69, 66, 73, 78, 68],
     [85, 78, 66, 73, 78, 68],
     [65, 67, 76],
     [82, 69, 80, 79, 82, 84],
     [77, 75, 65, 67, 84, 73, 86, 73, 84, 89],
     [67, 72, 69, 67, 75, 79, 85, 84],
     [77, 69, 82, 71, 69],
     [77, 45, 83, 69, 65, 82, 67, 72],
     [78, 79, 84, 73, 70, 89],
     [83, 85, 66, 83, 67, 82, 73, 66, 69],
     [85, 78, 83, 85, 66, 83, 67, 82, 73, 66, 69],
     [80, 65, 84, 67, 72],
     [80, 85, 82, 71, 69],
     [77, 75, 67, 65, 76, 69, 78, 68, 65, 82],
     [76, 73, 78, 75],
     [85, 78, 76, 73, 78, 75],
     [83, 79, 85, 82, 67, 69]]"
  by (simp add: s_method_string_def HTTP_METHOD_MAP_def bytes_def)

lemma method_values:
  "method_value DELETE = 0"
  "method_value GET = 1"
  "method_value HEAD = 2"
  "method_value POST = 3"
  "method_value PUT = 4"
  "method_value CONNECT = 5"
  "method_value OPTIONS = 6"
  "method_value TRACE = 7"
  "method_value COPY = 8"
  "method_value LOCK = 9"
  "method_value MKCOL = 10"
  "method_value MOVE = 11"
  "method_value PROPFIND = 12"
  "method_value PROPPATCH = 13"
  "method_value SEARCH = 14"
  "method_value UNLOCK = 15"
  "method_value BIND = 16"
  "method_value REBIND = 17"
  "method_value UNBIND = 18"
  "method_value ACL = 19"
  "method_value REPORT = 20"
  "method_value MKACTIVITY = 21"
  "method_value CHECKOUT = 22"
  "method_value MERGE = 23"
  "method_value MSEARCH = 24"
  "method_value NOTIFY = 25"
  "method_value SUBSCRIBE = 26"
  "method_value UNSUBSCRIBE = 27"
  "method_value PATCH = 28"
  "method_value PURGE = 29"
  "method_value MKCALENDAR = 30"
  "method_value LINK = 31"
  "method_value UNLINK = 32"
  "method_value SOURCE = 33"
  using method_map_values by (simp_all add: HTTP_METHOD_MAP_def)

lemma method_value_invalid: "method_value INVALID_METHOD = 34"
  by (simp add: method_value_def HTTP_METHOD_MAP_def)

lemma http_method_str_code [code]:
  "http_method_str DELETE = [68, 69, 76, 69, 84, 69]"
  "http_method_str GET = [71, 69, 84]"
  "http_method_str HEAD = [72, 69, 65, 68]"
  "http_method_str POST = [80, 79, 83, 84]"
  "http_method_str PUT = [80, 85, 84]"
  "http_method_str CONNECT = [67, 79, 78, 78, 69, 67, 84]"
  "http_method_str OPTIONS = [79, 80, 84, 73, 79, 78, 83]"
  "http_method_str TRACE = [84, 82, 65, 67, 69]"
  "http_method_str COPY = [67, 79, 80, 89]"
  "http_method_str LOCK = [76, 79, 67, 75]"
  "http_method_str MKCOL = [77, 75, 67, 79, 76]"
  "http_method_str MOVE = [77, 79, 86, 69]"
  "http_method_str PROPFIND = [80, 82, 79, 80, 70, 73, 78, 68]"
  "http_method_str PROPPATCH = [80, 82, 79, 80, 80, 65, 84, 67, 72]"
  "http_method_str SEARCH = [83, 69, 65, 82, 67, 72]"
  "http_method_str UNLOCK = [85, 78, 76, 79, 67, 75]"
  "http_method_str BIND = [66, 73, 78, 68]"
  "http_method_str REBIND = [82, 69, 66, 73, 78, 68]"
  "http_method_str UNBIND = [85, 78, 66, 73, 78, 68]"
  "http_method_str ACL = [65, 67, 76]"
  "http_method_str REPORT = [82, 69, 80, 79, 82, 84]"
  "http_method_str MKACTIVITY = [77, 75, 65, 67, 84, 73, 86, 73, 84, 89]"
  "http_method_str CHECKOUT = [67, 72, 69, 67, 75, 79, 85, 84]"
  "http_method_str MERGE = [77, 69, 82, 71, 69]"
  "http_method_str MSEARCH = [77, 45, 83, 69, 65, 82, 67, 72]"
  "http_method_str NOTIFY = [78, 79, 84, 73, 70, 89]"
  "http_method_str SUBSCRIBE = [83, 85, 66, 83, 67, 82, 73, 66, 69]"
  "http_method_str UNSUBSCRIBE = [85, 78, 83, 85, 66, 83, 67, 82, 73, 66, 69]"
  "http_method_str PATCH = [80, 65, 84, 67, 72]"
  "http_method_str PURGE = [80, 85, 82, 71, 69]"
  "http_method_str MKCALENDAR = [77, 75, 67, 65, 76, 69, 78, 68, 65, 82]"
  "http_method_str LINK = [76, 73, 78, 75]"
  "http_method_str UNLINK = [85, 78, 76, 73, 78, 75]"
  "http_method_str SOURCE = [83, 79, 85, 82, 67, 69]"
  "http_method_str INVALID_METHOD = [60, 117, 110, 107, 110, 111, 119, 110, 62]"
  by (simp_all add: http_method_str_def method_values method_value_invalid s_method_string_bytes bytes_def)

definition http_body_is_final :: "http_parser \<Rightarrow> bool" where
  "http_body_is_final p \<longleftrightarrow> hp_state p = s_message_done"

text \<open>\<open>http_parser_pause\<close>.\<close>

definition http_parser_pause :: "bool \<Rightarrow> http_parser \<Rightarrow> http_parser result" where
  "http_parser_pause paused p =
     (if http_errno p = HPE_OK \<or> http_errno p = HPE_PAUSED
      then Inr (p\<lparr>http_errno := if paused then HPE_PAUSED else HPE_OK\<rparr>) else Inl AssertFail)"

subsection \<open>URLs\<close>

text \<open>The part of \<open>parse_url_char\<close> that \<open>s_req_server_with_at\<close> falls through to.\<close>

definition url_server_char :: "u8 \<Rightarrow> p_state" where
  "url_server_char ch =
     (if ch = 47 then s_req_path else if ch = 63 then s_req_query_string_start
      else if ch = 64 then s_req_server_with_at
      else if IS_USERINFO_CHAR ch \<or> ch = 91 \<or> ch = 93 then s_req_server else s_dead)"

definition parse_url_char :: "p_state \<Rightarrow> u8 \<Rightarrow> p_state" where
  "parse_url_char s ch =
     (if ch = 32 \<or> ch = CR \<or> ch = LF then s_dead
      else if ch = 9 \<or> ch = 12 then s_dead
      else case s of
        s_req_spaces_before_url \<Rightarrow> if ch = 47 \<or> ch = 42 then s_req_path else if IS_ALPHA ch then s_req_schema else s_dead
      | s_req_schema \<Rightarrow> if IS_ALPHA ch then s else if ch = 58 then s_req_schema_slash else s_dead
      | s_req_schema_slash \<Rightarrow> if ch = 47 then s_req_schema_slash_slash else s_dead
      | s_req_schema_slash_slash \<Rightarrow> if ch = 47 then s_req_server_start else s_dead
      | s_req_server_with_at \<Rightarrow> if ch = 64 then s_dead else url_server_char ch
      | s_req_server_start \<Rightarrow> url_server_char ch
      | s_req_server \<Rightarrow> url_server_char ch
      | s_req_path \<Rightarrow>
          if IS_URL_CHAR ch then s else if ch = 63 then s_req_query_string_start
          else if ch = 35 then s_req_fragment_start else s_dead
      | s_req_query_string_start \<Rightarrow>
          if IS_URL_CHAR ch then s_req_query_string else if ch = 63 then s_req_query_string
          else if ch = 35 then s_req_fragment_start else s_dead
      | s_req_query_string \<Rightarrow>
          if IS_URL_CHAR ch then s_req_query_string else if ch = 63 then s_req_query_string
          else if ch = 35 then s_req_fragment_start else s_dead
      | s_req_fragment_start \<Rightarrow>
          if IS_URL_CHAR ch then s_req_fragment else if ch = 63 then s_req_fragment else if ch = 35 then s else s_dead
      | s_req_fragment \<Rightarrow> if IS_URL_CHAR ch then s else if ch = 63 \<or> ch = 35 then s else s_dead
      | _ \<Rightarrow> s_dead)"

datatype http_host_state =
    s_http_host_dead | s_http_userinfo_start | s_http_userinfo | s_http_host_start | s_http_host_v6_start
  | s_http_host | s_http_host_v6 | s_http_host_v6_end | s_http_host_v6_zone_start | s_http_host_v6_zone
  | s_http_host_port_start | s_http_host_port

definition zone_char :: "u8 \<Rightarrow> bool" where
  "zone_char ch \<longleftrightarrow> IS_ALPHANUM ch \<or> ch \<in> set (bytes ''%.-_~'')"

definition http_parse_host_char :: "http_host_state \<Rightarrow> u8 \<Rightarrow> http_host_state" where
  "http_parse_host_char s ch = (case s of
       s_http_userinfo \<Rightarrow> if ch = 64 then s_http_host_start else if IS_USERINFO_CHAR ch then s_http_userinfo else s_http_host_dead
     | s_http_userinfo_start \<Rightarrow> if ch = 64 then s_http_host_start else if IS_USERINFO_CHAR ch then s_http_userinfo else s_http_host_dead
     | s_http_host_start \<Rightarrow> if ch = 91 then s_http_host_v6_start else if IS_HOST_CHAR ch then s_http_host else s_http_host_dead
     | s_http_host \<Rightarrow> if IS_HOST_CHAR ch then s_http_host else if ch = 58 then s_http_host_port_start else s_http_host_dead
     | s_http_host_v6_end \<Rightarrow> if ch = 58 then s_http_host_port_start else s_http_host_dead
     | s_http_host_v6 \<Rightarrow>
         if ch = 93 then s_http_host_v6_end else if IS_HEX ch \<or> ch = 58 \<or> ch = 46 then s_http_host_v6
         else if ch = 37 then s_http_host_v6_zone_start else s_http_host_dead
     | s_http_host_v6_start \<Rightarrow> if IS_HEX ch \<or> ch = 58 \<or> ch = 46 then s_http_host_v6 else s_http_host_dead
     | s_http_host_v6_zone \<Rightarrow> if ch = 93 then s_http_host_v6_end else if zone_char ch then s_http_host_v6_zone else s_http_host_dead
     | s_http_host_v6_zone_start \<Rightarrow> if zone_char ch then s_http_host_v6_zone else s_http_host_dead
     | s_http_host_port \<Rightarrow> if IS_NUM ch then s_http_host_port else s_http_host_dead
     | s_http_host_port_start \<Rightarrow> if IS_NUM ch then s_http_host_port else s_http_host_dead
     | _ \<Rightarrow> s_http_host_dead)"

datatype url_field = UF_SCHEMA | UF_HOST | UF_PORT | UF_PATH | UF_QUERY | UF_FRAGMENT | UF_USERINFO

text \<open>\<open>field_set\<close> is the set of the fields whose bit is set; offsets and lengths are 16 bits wide.\<close>

record http_parser_url =
  field_set :: "url_field list"
  url_port :: u16
  field_off :: "url_field \<Rightarrow> u16"
  field_len :: "url_field \<Rightarrow> u16"

definition http_parser_url_init :: http_parser_url where
  "http_parser_url_init = \<lparr>field_set = [], url_port = 0, field_off = (\<lambda>_. 0), field_len = (\<lambda>_. 0)\<rparr>"

text \<open>A field begins at \<open>i\<close> with length \<open>n\<close>, or grows by one.\<close>

definition begin_field :: "url_field \<Rightarrow> nat \<Rightarrow> u16 \<Rightarrow> http_parser_url \<Rightarrow> http_parser_url" where
  "begin_field uf i n u = u\<lparr>field_set := List.insert uf (field_set u), field_off := (field_off u)(uf := of_nat i),
     field_len := (field_len u)(uf := n)\<rparr>"

definition grow_field :: "url_field \<Rightarrow> http_parser_url \<Rightarrow> http_parser_url" where
  "grow_field uf u = u\<lparr>field_len := (field_len u)(uf := field_len u uf + 1)\<rparr>"

definition host_action :: "http_host_state \<Rightarrow> http_host_state \<Rightarrow> nat \<Rightarrow> http_parser_url \<Rightarrow> http_parser_url" where
  "host_action s new_s i u = (case new_s of
       s_http_host \<Rightarrow> grow_field UF_HOST (if s \<noteq> s_http_host then u\<lparr>field_off := (field_off u)(UF_HOST := of_nat i)\<rparr> else u)
     | s_http_host_v6 \<Rightarrow> grow_field UF_HOST (if s \<noteq> s_http_host_v6 then u\<lparr>field_off := (field_off u)(UF_HOST := of_nat i)\<rparr> else u)
     | s_http_host_v6_zone_start \<Rightarrow> grow_field UF_HOST u
     | s_http_host_v6_zone \<Rightarrow> grow_field UF_HOST u
     | s_http_host_port \<Rightarrow> grow_field UF_PORT (if s \<noteq> s_http_host_port then begin_field UF_PORT i 0 u else u)
     | s_http_userinfo \<Rightarrow> grow_field UF_USERINFO (if s \<noteq> s_http_userinfo then begin_field UF_USERINFO i 0 u else u)
     | _ \<Rightarrow> u)"

fun host_loop :: "u8 list \<Rightarrow> nat \<Rightarrow> http_host_state \<Rightarrow> http_parser_url \<Rightarrow> (http_host_state \<times> http_parser_url) option" where
  "host_loop [] i s u = Some (s, u)"
| "host_loop (ch # cs) i s u = (let new_s = http_parse_host_char s ch in
     if new_s = s_http_host_dead then None else host_loop cs (i + 1) new_s (host_action s new_s i u))"

text \<open>\<open>None\<close> when it returns 1.\<close>

definition http_parse_host :: "u8 list \<Rightarrow> bool \<Rightarrow> http_parser_url \<Rightarrow> http_parser_url option" where
  "http_parse_host buf found_at u =
     (let off = unat (field_off u UF_HOST); buflen = off + unat (field_len u UF_HOST);
          u = u\<lparr>field_len := (field_len u)(UF_HOST := 0)\<rparr>;
          s = (if found_at then s_http_userinfo_start else s_http_host_start) in
      case host_loop (take (buflen - off) (drop off buf)) off s u of None \<Rightarrow> None
      | Some (s, u) \<Rightarrow>
          if s \<in> set [s_http_host_start, s_http_host_v6_start, s_http_host_v6, s_http_host_v6_zone_start,
               s_http_host_v6_zone, s_http_host_port_start, s_http_userinfo, s_http_userinfo_start]
          then None else Some u)"

text \<open>The field a state belongs to. A state that \<open>parse_url_char\<close> never returns fails an assertion.\<close>

datatype url_class = Url_dead | Url_delimiter | Url_field url_field | Url_unexpected

definition state_field :: "p_state \<Rightarrow> url_class" where
  "state_field s = (case s of
       s_dead \<Rightarrow> Url_dead
     | s_req_schema_slash \<Rightarrow> Url_delimiter | s_req_schema_slash_slash \<Rightarrow> Url_delimiter | s_req_server_start \<Rightarrow> Url_delimiter
     | s_req_query_string_start \<Rightarrow> Url_delimiter | s_req_fragment_start \<Rightarrow> Url_delimiter
     | s_req_schema \<Rightarrow> Url_field UF_SCHEMA | s_req_server_with_at \<Rightarrow> Url_field UF_HOST | s_req_server \<Rightarrow> Url_field UF_HOST
     | s_req_path \<Rightarrow> Url_field UF_PATH | s_req_query_string \<Rightarrow> Url_field UF_QUERY | s_req_fragment \<Rightarrow> Url_field UF_FRAGMENT
     | _ \<Rightarrow> Url_unexpected)"

fun url_loop ::
  "u8 list \<Rightarrow> nat \<Rightarrow> p_state \<Rightarrow> url_field option \<Rightarrow> bool \<Rightarrow> http_parser_url \<Rightarrow> (bool \<times> http_parser_url) option result" where
  "url_loop [] i s old_uf found_at u = Inr (Some (found_at, u))"
| "url_loop (ch # cs) i s old_uf found_at u =
     (let s = parse_url_char s ch; found_at = (found_at \<or> s = s_req_server_with_at) in
      case state_field s of
        Url_dead \<Rightarrow> Inr None
      | Url_delimiter \<Rightarrow> url_loop cs (i + 1) s old_uf found_at u
      | Url_field uf \<Rightarrow>
          if Some uf = old_uf then url_loop cs (i + 1) s old_uf found_at (grow_field uf u)
          else url_loop cs (i + 1) s (Some uf) found_at (begin_field uf i 1 u)
      | Url_unexpected \<Rightarrow> Inl AssertFail)"

fun port_loop :: "u8 list \<Rightarrow> u64 \<Rightarrow> u64 option" where
  "port_loop [] v = Some v"
| "port_loop (ch # cs) v = (let v = v * 10 + (ucast ch - 48) in if v > 0xffff then None else port_loop cs v)"

definition http_parser_parse_url :: "u8 list \<Rightarrow> bool \<Rightarrow> http_parser_url \<Rightarrow> http_parser_url option result" where
  "http_parser_parse_url buf is_connect u =
     (if buf = [] then Inr None
      else case url_loop buf 0 (if is_connect then s_req_server_start else s_req_spaces_before_url) None False
             (u\<lparr>url_port := 0, field_set := []\<rparr>) of
        Inl e \<Rightarrow> Inl e
      | Inr None \<Rightarrow> Inr None
      | Inr (Some (found_at, u)) \<Rightarrow>
          if UF_SCHEMA \<in> set (field_set u) \<and> UF_HOST \<notin> set (field_set u) then Inr None
          else case (if UF_HOST \<in> set (field_set u) then http_parse_host buf found_at u else Some u) of
            None \<Rightarrow> Inr None
          | Some u \<Rightarrow>
              if is_connect \<and> set (field_set u) \<noteq> set [UF_HOST, UF_PORT] then Inr None
              else if UF_PORT \<in> set (field_set u) then
                (let off = unat (field_off u UF_PORT); len = unat (field_len u UF_PORT) in
                 if length buf < off + len then Inl AssertFail
                 else case port_loop (take len (drop off buf)) 0 of
                   None \<Rightarrow> Inr None | Some v \<Rightarrow> Inr (Some (u\<lparr>url_port := ucast v\<rparr>)))
              else Inr (Some u))"

text \<open>The bytes of a field.\<close>

definition url_part :: "u8 list \<Rightarrow> http_parser_url \<Rightarrow> url_field \<Rightarrow> u8 list option" where
  "url_part buf u uf = (if uf \<in> set (field_set u)
     then Some (take (unat (field_len u uf)) (drop (unat (field_off u uf)) buf)) else None)"

end
