(* ===== verification/HttpUrl.thy ===== *)
theory HttpUrl
  imports HttpGrammar
begin

text \<open>
  The URL parser of the grammar library: it returns on every buffer, its fields lie in the buffer, and a
  request target in origin form is taken apart into path, query and fragment.
\<close>

subsection \<open>The fields lie in the buffer\<close>

definition field_end :: "http_parser_url \<Rightarrow> url_field \<Rightarrow> nat" where
  "field_end u uf = unat (field_off u uf) + unat (field_len u uf)"

definition fields_within :: "nat \<Rightarrow> http_parser_url \<Rightarrow> bool" where
  "fields_within n u \<longleftrightarrow> (\<forall>uf\<in>set (field_set u). field_end u uf \<le> n)"

lemma unat_of_nat_le: "unat (of_nat n :: u16) \<le> n"
  by (simp add: unat_of_nat)

lemma unat_plus_one_le: "unat (w + 1 :: u16) \<le> unat w + 1"
  using unat_of_nat_le [of "unat w + 1"] by (simp add: add.commute)

lemma field_end_grow: "field_end (grow_field uf u) x \<le> (if x = uf then field_end u x + 1 else field_end u x)"
  using unat_plus_one_le [of "field_len u uf"] by (simp add: field_end_def grow_field_def)

lemma field_end_begin: "field_end (begin_field uf i n u) x \<le> (if x = uf then i + unat n else field_end u x)"
  using unat_of_nat_le [of i] by (simp add: field_end_def begin_field_def)

lemma field_sets [simp]: "field_set (grow_field uf u) = field_set u" "set (field_set (begin_field uf i n u)) = insert uf (set (field_set u))"
  by (simp_all add: grow_field_def begin_field_def)

lemma fields_within_grow: "fields_within i u \<Longrightarrow> fields_within (Suc i) (grow_field uf u)"
  unfolding fields_within_def by (fastforce intro: order_trans [OF field_end_grow])

lemma fields_within_begin: "fields_within i u \<Longrightarrow> fields_within (Suc i) (begin_field uf i 1 u)"
  unfolding fields_within_def by (auto intro!: order_trans [OF field_end_begin])

lemma state_field_url: "state_field (parse_url_char s ch) \<noteq> Url_unexpected"
  by (cases s) (simp_all add: parse_url_char_def url_server_char_def state_field_def)

lemma fields_within_mono: "fields_within i u \<Longrightarrow> i \<le> j \<Longrightarrow> fields_within j u"
  unfolding fields_within_def by fastforce

lemma state_field_range: "state_field s = Url_field uf \<Longrightarrow> uf \<noteq> UF_PORT \<and> uf \<noteq> UF_USERINFO"
  by (cases s) (auto simp: state_field_def)

definition url_inv :: "nat \<Rightarrow> http_parser_url \<Rightarrow> bool" where
  "url_inv i u \<longleftrightarrow> fields_within i u \<and> UF_PORT \<notin> set (field_set u) \<and> UF_USERINFO \<notin> set (field_set u)"

lemma url_loop_within:
  assumes "url_inv i u"
  shows "case url_loop cs i s old_uf fa u of Inl _ \<Rightarrow> False | Inr None \<Rightarrow> True
    | Inr (Some (fa', u')) \<Rightarrow> url_inv (i + length cs) u'"
  using assms
proof (induction cs i s old_uf fa u rule: url_loop.induct)
  case (2 ch cs i s old_uf fa u)
  have n: "i + 1 + length cs = i + length (ch # cs)" by simp
  have w: "fields_within i u" using "2.prems" by (simp add: url_inv_def)
  show ?case
  proof (cases "state_field (parse_url_char s ch)")
    case Url_delimiter
    have "url_inv (i + 1) u" using "2.prems" fields_within_mono [OF w, of "i + 1"] by (simp add: url_inv_def)
    then show ?thesis using "2.IH"(1) [OF refl refl Url_delimiter] Url_delimiter unfolding n by (simp add: Let_def)
  next
    case (Url_field uf)
    have "url_inv (i + 1) (grow_field uf u)" "url_inv (i + 1) (begin_field uf i 1 u)"
      using "2.prems" fields_within_grow [OF w] fields_within_begin [OF w] state_field_range [OF Url_field] by (auto simp: url_inv_def)
    then show ?thesis using "2.IH"(2,3) [OF refl refl Url_field] Url_field unfolding n by (simp add: Let_def)
  qed (use state_field_url [of s ch] in simp_all)
qed simp

subsection \<open>The host\<close>

definition host_fields :: "url_field set" where "host_fields = {UF_HOST, UF_PORT, UF_USERINFO}"

lemma host_fields_simps [simp]: "UF_HOST \<in> host_fields" "UF_PORT \<in> host_fields" "UF_USERINFO \<in> host_fields"
  by (simp_all add: host_fields_def)

definition before_host :: "http_host_state \<Rightarrow> bool" where
  "before_host s \<longleftrightarrow> s \<in> set [s_http_userinfo_start, s_http_userinfo, s_http_host_start, s_http_host_v6_start]"

definition host_ends :: "nat \<Rightarrow> nat \<Rightarrow> http_parser_url \<Rightarrow> bool" where
  "host_ends n i u \<longleftrightarrow> (\<forall>uf\<in>set (field_set u). field_end u uf \<le> (if uf \<in> host_fields then i else n))"

definition host_inv :: "nat \<Rightarrow> nat \<Rightarrow> http_host_state \<Rightarrow> http_parser_url \<Rightarrow> bool" where
  "host_inv n i s u \<longleftrightarrow> host_ends n i u \<and> (before_host s \<longrightarrow> field_len u UF_HOST = 0)"

lemma host_ends_grow: "host_ends n i u \<Longrightarrow> uf \<in> host_fields \<Longrightarrow> host_ends n (Suc i) (grow_field uf u)"
  unfolding host_ends_def by (fastforce intro: order_trans [OF field_end_grow])

lemma host_ends_mono: "host_ends n i u \<Longrightarrow> host_ends n (Suc i) u"
  unfolding host_ends_def by (fastforce split: if_splits)

lemma host_ends_begin: "host_ends n i u \<Longrightarrow> uf \<in> host_fields \<Longrightarrow> host_ends n i (begin_field uf i 0 u)"
  unfolding host_ends_def by (auto intro!: order_trans [OF field_end_begin])

lemma host_ends_off:
  "host_ends n i u \<Longrightarrow> field_len u UF_HOST = 0 \<Longrightarrow> host_ends n i (u\<lparr>field_off := (field_off u)(UF_HOST := of_nat i)\<rparr>)"
  using unat_of_nat_le [of i] unfolding host_ends_def by (auto simp: field_end_def host_fields_def)

lemma host_char_before:
  "http_parse_host_char s ch = s_http_host \<Longrightarrow> s \<noteq> s_http_host \<Longrightarrow> before_host s"
  "http_parse_host_char s ch = s_http_host_v6 \<Longrightarrow> s \<noteq> s_http_host_v6 \<Longrightarrow> before_host s"
  "before_host (http_parse_host_char s ch) \<Longrightarrow> before_host s"
  by (cases s; simp add: http_parse_host_char_def before_host_def split: if_splits)+

lemma host_action_inv:
  assumes "host_inv n i s u" "http_parse_host_char s ch = new_s"
  shows "host_inv n (Suc i) new_s (host_action s new_s i u)"
proof -
  have e: "host_ends n i u" and l: "before_host s \<Longrightarrow> field_len u UF_HOST = 0" using assms(1) by (auto simp: host_inv_def)
  have b: "before_host new_s \<Longrightarrow> before_host s" using host_char_before(3) [of s ch] assms(2) by simp
  have z: "field_len u UF_HOST = 0" if "new_s = s_http_host \<and> s \<noteq> s_http_host \<or> new_s = s_http_host_v6 \<and> s \<noteq> s_http_host_v6"
    using that host_char_before(1,2) [of s ch] assms l by auto
  have "host_ends n (Suc i) (host_action s new_s i u)"
    using host_ends_grow [OF e] host_ends_grow [OF host_ends_off [OF e z]] host_ends_grow [OF host_ends_begin [OF e]] host_ends_mono [OF e]
    by (cases new_s) (auto simp: host_action_def)
  moreover have "before_host new_s \<Longrightarrow> field_len (host_action s new_s i u) UF_HOST = 0"
    using b l by (cases new_s) (auto simp: before_host_def host_action_def grow_field_def begin_field_def)
  ultimately show ?thesis by (simp add: host_inv_def)
qed

lemma host_loop_inv:
  assumes "host_loop cs i s u = Some (s', u')" "host_inv n i s u"
  shows "host_inv n (i + length cs) s' u'"
  using assms
proof (induction cs i s u rule: host_loop.induct)
  case (2 ch cs i s u)
  then show ?case using host_action_inv [OF "2.prems"(2) refl, of ch] by (auto simp: Let_def split: if_splits)
qed simp

lemma http_parse_host_within:
  assumes "http_parse_host buf fa u = Some u'" "url_inv (length buf) u" "UF_HOST \<in> set (field_set u)"
  shows "fields_within (length buf) u'"
proof -
  let ?off = "unat (field_off u UF_HOST)" and ?u = "u\<lparr>field_len := (field_len u)(UF_HOST := 0)\<rparr>"
  let ?cs = "take (field_end u UF_HOST - ?off) (drop ?off buf)" and ?s = "if fa then s_http_userinfo_start else s_http_host_start"
  obtain s' where h: "host_loop ?cs ?off ?s ?u = Some (s', u')"
    using assms(1) by (auto simp: http_parse_host_def field_end_def Let_def split: option.splits if_splits)
  have e: "?off \<le> field_end u UF_HOST" "field_end u UF_HOST \<le> length buf"
    using assms(2,3) by (auto simp: field_end_def url_inv_def fields_within_def)
  have "host_inv (length buf) ?off ?s ?u"
    using assms(2) by (auto simp: host_inv_def host_ends_def url_inv_def fields_within_def field_end_def host_fields_def)
  from host_loop_inv [OF h this] have "host_ends (length buf) (?off + length ?cs) u'" by (simp add: host_inv_def)
  moreover have "?off + length ?cs \<le> length buf" using e by simp
  ultimately show ?thesis unfolding host_ends_def fields_within_def by (fastforce split: if_splits)
qed

lemma parse_url_within:
  "case http_parser_parse_url buf c u of Inl _ \<Rightarrow> False | Inr None \<Rightarrow> True | Inr (Some u') \<Rightarrow> fields_within (length buf) u'"
proof (cases "buf = []")
  case False
  let ?s = "if c then s_req_server_start else s_req_spaces_before_url" and ?u = "u\<lparr>url_port := 0, field_set := []\<rparr>"
  have "url_inv 0 ?u" by (simp add: url_inv_def fields_within_def)
  from url_loop_within [OF this, of buf ?s None False] consider "url_loop buf 0 ?s None False ?u = Inr None"
    | fa u1 where "url_loop buf 0 ?s None False ?u = Inr (Some (fa, u1))" "url_inv (length buf) u1"
    by (auto split: sum.splits option.splits)
  then show ?thesis
  proof cases
    case (2 fa u1)
    let ?h = "if UF_HOST \<in> set (field_set u1) then http_parse_host buf fa u1 else Some u1"
    have w: "fields_within (length buf) u2" if "?h = Some u2" for u2
      using that http_parse_host_within [of buf fa u1 u2] 2(2) by (auto simp: url_inv_def split: if_splits)
    have p: "unat (field_off u2 UF_PORT) + unat (field_len u2 UF_PORT) \<le> length buf" if "?h = Some u2" "UF_PORT \<in> set (field_set u2)" for u2
      using w [OF that(1)] that(2) by (auto simp: fields_within_def field_end_def)
    have f: "fields_within n (u2\<lparr>url_port := x\<rparr>) = fields_within n u2" for n u2 x
      by (simp add: fields_within_def field_end_def)
    show ?thesis using False 2(1) w p
      by (auto simp: http_parser_parse_url_def Let_def f not_le split: option.splits)
  qed (use False in \<open>simp add: http_parser_parse_url_def\<close>)
qed (simp add: http_parser_parse_url_def)
subsection \<open>Origin form\<close>

definition origin_form :: "u8 list \<Rightarrow> u8 list \<Rightarrow> u8 list \<Rightarrow> u8 list" where
  "origin_form path query fragment =
     path @ (if query = [] then [] else 63 # query) @ (if fragment = [] then [] else 35 # fragment)"

definition target_ok :: "u8 list \<Rightarrow> u8 list \<Rightarrow> u8 list \<Rightarrow> bool" where
  "target_ok path query fragment \<longleftrightarrow> path \<noteq> [] \<and> (hd path = 47 \<or> hd path = 42) \<and> list_all IS_URL_CHAR path \<and>
     list_all (\<lambda>c. IS_URL_CHAR c \<or> c = 63) query \<and>
     (fragment \<noteq> [] \<longrightarrow> hd fragment \<noteq> 35) \<and> list_all (\<lambda>c. IS_URL_CHAR c \<or> c = 63 \<or> c = 35) fragment"

lemma url_char_cases: "IS_URL_CHAR c \<Longrightarrow> c \<noteq> 32 \<and> c \<noteq> CR \<and> c \<noteq> LF \<and> c \<noteq> 9 \<and> c \<noteq> 12 \<and> c \<noteq> 63 \<and> c \<noteq> 35"
  by (auto simp: IS_URL_CHAR_def)

lemma url_loop_same:
  assumes "state_field s = Url_field uf" "s \<noteq> s_req_server_with_at" "list_all (\<lambda>c. parse_url_char s c = s) cs"
  shows "url_loop (cs @ rest) i s (Some uf) fa u = url_loop rest (i + length cs) s (Some uf) fa
    (u\<lparr>field_len := (field_len u)(uf := field_len u uf + of_nat (length cs))\<rparr>)"
  using assms(3)
proof (induction cs arbitrary: i u)
  case (Cons c cs)
  then show ?case using assms(1,2) by (simp add: grow_field_def fun_upd_def [symmetric] add.assoc)
qed simp

lemma url_loop_field:
  assumes "state_field s = Url_field uf" "s \<noteq> s_req_server_with_at" "cs \<noteq> []" "parse_url_char s0 (hd cs) = s"
    and "list_all (\<lambda>c. parse_url_char s c = s) (tl cs)" "old \<noteq> Some uf"
  shows "url_loop (cs @ rest) i s0 old fa u = url_loop rest (i + length cs) s (Some uf) fa (begin_field uf i (of_nat (length cs)) u)"
proof (cases cs)
  case (Cons c cs')
  then show ?thesis using assms url_loop_same [of s uf cs' rest "i + 1" fa "begin_field uf i 1 u"]
    by (simp add: begin_field_def)
qed (use assms(3) in simp)

lemma url_delimiters:
  "url_loop (63 # rest) i s_req_path old fa u = url_loop rest (i + 1) s_req_query_string_start old fa u"
  "url_loop (35 # rest) i s_req_path old fa u = url_loop rest (i + 1) s_req_fragment_start old fa u"
  "url_loop (35 # rest) i s_req_query_string old fa u = url_loop rest (i + 1) s_req_fragment_start old fa u"
  by (simp_all add: parse_url_char_def state_field_def IS_URL_CHAR_def)

lemma url_chars:
  "IS_URL_CHAR c \<Longrightarrow> parse_url_char s_req_path c = s_req_path"
  "IS_URL_CHAR c \<or> c = 63 \<Longrightarrow> parse_url_char s_req_query_string c = s_req_query_string"
  "IS_URL_CHAR c \<or> c = 63 \<Longrightarrow> parse_url_char s_req_query_string_start c = s_req_query_string"
  "IS_URL_CHAR c \<or> c = 63 \<or> c = 35 \<Longrightarrow> parse_url_char s_req_fragment c = s_req_fragment"
  "IS_URL_CHAR c \<or> c = 63 \<Longrightarrow> parse_url_char s_req_fragment_start c = s_req_fragment"
  "c = 47 \<or> c = 42 \<Longrightarrow> parse_url_char s_req_spaces_before_url c = s_req_path"
proof -
  have u: "IS_URL_CHAR c \<or> c = 63 \<or> c = 35 \<Longrightarrow> c \<noteq> 32 \<and> c \<noteq> CR \<and> c \<noteq> LF \<and> c \<noteq> 9 \<and> c \<noteq> 12"
    using url_char_cases [of c] by auto
  have x: "\<not> IS_URL_CHAR 63" "\<not> IS_URL_CHAR 35" by (simp_all add: IS_URL_CHAR_def)
  show "IS_URL_CHAR c \<Longrightarrow> parse_url_char s_req_path c = s_req_path" using u by (simp add: parse_url_char_def)
  show "IS_URL_CHAR c \<or> c = 63 \<Longrightarrow> parse_url_char s_req_query_string c = s_req_query_string" using u x by (auto simp: parse_url_char_def)
  show "IS_URL_CHAR c \<or> c = 63 \<Longrightarrow> parse_url_char s_req_query_string_start c = s_req_query_string" using u x by (auto simp: parse_url_char_def)
  show "IS_URL_CHAR c \<or> c = 63 \<or> c = 35 \<Longrightarrow> parse_url_char s_req_fragment c = s_req_fragment" using u x by (auto simp: parse_url_char_def)
  show "IS_URL_CHAR c \<or> c = 63 \<Longrightarrow> parse_url_char s_req_fragment_start c = s_req_fragment" using u x by (auto simp: parse_url_char_def)
  show "c = 47 \<or> c = 42 \<Longrightarrow> parse_url_char s_req_spaces_before_url c = s_req_path" by (auto simp: parse_url_char_def)
qed

lemma list_all_tl: "list_all P xs \<Longrightarrow> list_all P (tl xs)"
  by (cases xs) auto

lemma list_all_hd: "list_all P xs \<Longrightarrow> xs \<noteq> [] \<Longrightarrow> P (hd xs)"
  by (cases xs) auto

lemma url_path_step:
  assumes "target_ok path query fragment"
  shows "url_loop (path @ rest) 0 s_req_spaces_before_url None False u
    = url_loop rest (length path) s_req_path (Some UF_PATH) False (begin_field UF_PATH 0 (of_nat (length path)) u)"
proof -
  have p: "list_all IS_URL_CHAR path" "path \<noteq> []" "hd path = 47 \<or> hd path = 42" using assms by (auto simp: target_ok_def)
  have "url_loop (path @ rest) 0 s_req_spaces_before_url None False u = url_loop rest (0 + length path) s_req_path (Some UF_PATH) False
      (begin_field UF_PATH 0 (of_nat (length path)) u)"
    using list_all_tl [OF p(1)] p(2,3) by (intro url_loop_field) (auto simp: state_field_def list_all_iff intro!: url_chars)
  then show ?thesis by simp
qed

lemma url_query_step:
  assumes "target_ok path query fragment" "query \<noteq> []" "old \<noteq> Some UF_QUERY"
  shows "url_loop (query @ rest) i s_req_query_string_start old False u
    = url_loop rest (i + length query) s_req_query_string (Some UF_QUERY) False (begin_field UF_QUERY i (of_nat (length query)) u)"
proof -
  have q: "list_all (\<lambda>c. IS_URL_CHAR c \<or> c = 63) query" using assms(1) by (simp add: target_ok_def)
  show ?thesis
    using list_all_tl [OF q] list_all_hd [OF q assms(2)] assms(2,3)
    by (intro url_loop_field) (auto simp: state_field_def list_all_iff intro!: url_chars)
qed

lemma url_fragment_step:
  assumes "target_ok path query fragment" "fragment \<noteq> []" "old \<noteq> Some UF_FRAGMENT"
  shows "url_loop fragment i s_req_fragment_start old False u = Inr (Some (False, begin_field UF_FRAGMENT i (of_nat (length fragment)) u))"
proof -
  have f: "list_all (\<lambda>c. IS_URL_CHAR c \<or> c = 63 \<or> c = 35) fragment" "hd fragment \<noteq> 35" using assms(1,2) by (simp_all add: target_ok_def)
  have "url_loop (fragment @ []) i s_req_fragment_start old False u = url_loop [] (i + length fragment) s_req_fragment (Some UF_FRAGMENT) False
      (begin_field UF_FRAGMENT i (of_nat (length fragment)) u)"
    using list_all_tl [OF f(1)] list_all_hd [OF f(1) assms(2)] f(2) assms(2,3)
    by (intro url_loop_field) (auto simp: state_field_def list_all_iff intro!: url_chars)
  then show ?thesis by simp
qed

lemma url_part_begin: "length buf < 2 ^ 16 \<Longrightarrow> i \<le> length buf \<Longrightarrow> n \<le> length buf \<Longrightarrow>
  url_part buf (begin_field uf i (of_nat n) u) x = (if x = uf then Some (take n (drop i buf)) else url_part buf u x)"
  by (simp add: url_part_def begin_field_def unat_of_nat)

lemma origin_form_parsed:
  assumes "target_ok path query fragment" "length (origin_form path query fragment) < 2 ^ 16"
  shows "\<exists>u'. http_parser_parse_url (origin_form path query fragment) False u = Inr (Some u') \<and>
    url_part (origin_form path query fragment) u' = [UF_PATH \<mapsto> path]
      (UF_QUERY := if query = [] then None else Some query, UF_FRAGMENT := if fragment = [] then None else Some fragment)"
proof -
  let ?b = "origin_form path query fragment"
  let ?u0 = "begin_field UF_PATH 0 (of_nat (length path)) (u\<lparr>url_port := 0, field_set := []\<rparr>)"
  let ?u1 = "if query = [] then ?u0 else begin_field UF_QUERY (length path + 1) (of_nat (length query)) ?u0"
  let ?i = "length path + (if query = [] then 0 else length query + 1)"
  let ?u2 = "if fragment = [] then ?u1 else begin_field UF_FRAGMENT (?i + 1) (of_nat (length fragment)) ?u1"
  have "url_loop ?b 0 s_req_spaces_before_url None False (u\<lparr>url_port := 0, field_set := []\<rparr>) = Inr (Some (False, ?u2))"
    using assms(1) by (auto simp: origin_form_def url_path_step [OF assms(1)] url_delimiters url_query_step [OF assms(1)]
      url_path_step [OF assms(1), of "[]", simplified] url_query_step [OF assms(1), of _ "[]", simplified] url_fragment_step [OF assms(1)]
      simp del: url_loop.simps(2))
  moreover have "?b \<noteq> []" using assms(1) by (auto simp: origin_form_def target_ok_def)
  moreover have "UF_HOST \<notin> set (field_set ?u2)" "UF_PORT \<notin> set (field_set ?u2)" "UF_SCHEMA \<notin> set (field_set ?u2)"
    by (auto simp: begin_field_def)
  ultimately have r: "http_parser_parse_url ?b False u = Inr (Some ?u2)" by (simp add: http_parser_parse_url_def)
  have "url_part ?b ?u2 x = ([UF_PATH \<mapsto> path] (UF_QUERY := if query = [] then None else Some query,
      UF_FRAGMENT := if fragment = [] then None else Some fragment)) x" for x
    using assms(2) by (auto simp: url_part_begin origin_form_def) (simp_all add: url_part_def)
  then show ?thesis using r by blast
qed


text \<open>Request targets in origin form. A path that starts with a slash (or an asterisk), followed by a query after a
  question mark and a fragment after a number sign when they are not empty, is taken apart into
  exactly these parts, as long as it is shorter than 65536 bytes.\<close>

theorem origin_form_url:
  assumes "target_ok path query fragment" "length (origin_form path query fragment) < 2 ^ 16"
  shows "\<exists>u'. http_parser_parse_url (origin_form path query fragment) False u = Inr (Some u') \<and>
    url_part (origin_form path query fragment) u' = [UF_PATH \<mapsto> path]
      (UF_QUERY := if query = [] then None else Some query, UF_FRAGMENT := if fragment = [] then None else Some fragment)"
  using assms by (rule origin_form_parsed)

theorem origin_form_url_witness:
  "\<exists>u'. http_parser_parse_url (bytes ''/a?b?c#d'') False http_parser_url_init = Inr (Some u') \<and>
     url_part (bytes ''/a?b?c#d'') u' UF_QUERY = Some (bytes ''b?c'') \<and> url_part (bytes ''/a?b?c#d'') u' UF_HOST = None"
proof -
  have e: "bytes ''/a?b?c#d'' = origin_form (bytes ''/a'') (bytes ''b?c'') (bytes ''d'')" by (simp add: origin_form_def bytes_def)
  have t: "target_ok (bytes ''/a'') (bytes ''b?c'') (bytes ''d'')" by (simp add: target_ok_def bytes_def IS_URL_CHAR_def)
  have l: "length (origin_form (bytes ''/a'') (bytes ''b?c'') (bytes ''d'')) < 2 ^ 16" by (simp add: origin_form_def bytes_def)
  show ?thesis unfolding e using origin_form_url [OF t l, of http_parser_url_init] by (auto simp: bytes_def)
qed

text \<open>A longer path is cut: its length is stored modulo 65536.\<close>

lemma long_path_truncated:
  assumes "target_ok path [] []"
  shows "\<exists>u'. http_parser_parse_url path False u = Inr (Some u') \<and> url_part path u' UF_PATH = Some (take (length path mod 2 ^ 16) path)"
proof -
  let ?u = "begin_field UF_PATH 0 (of_nat (length path)) (u\<lparr>url_port := 0, field_set := []\<rparr>)"
  have "url_loop path 0 s_req_spaces_before_url None False (u\<lparr>url_port := 0, field_set := []\<rparr>) = Inr (Some (False, ?u))"
    using url_path_step [OF assms, of "[]"] by simp
  moreover have "path \<noteq> []" using assms by (simp add: target_ok_def)
  ultimately have "http_parser_parse_url path False u = Inr (Some ?u)"
    by (simp add: http_parser_parse_url_def begin_field_def)
  then show ?thesis by (simp add: url_part_def begin_field_def unat_of_nat)
qed

end
