(* ===== verification/HttpExecute.thy ===== *)
theory HttpExecute
  imports HttpGrammar
begin

text \<open>
  The HTTP grammar library, second part: \<open>http_parser_execute\<close>. The function is one loop over the bytes
  with a switch on the state; here each group of states is a function, \<open>step\<close> is the switch and
  \<open>exec_loop\<close> the loop with its \<open>goto reexecute\<close>. The local copies \<open>p_state\<close> and \<open>nread\<close> are fields of
  the record of local variables, stored into the structure where the code stores them. Callbacks get the structure and
  may change the state \<open>'s\<close> of the user, not the structure. Assertions are checked: one that fails is
  the outcome \<open>Abort\<close>, as is an access outside an array.
\<close>

subsection \<open>Callbacks and marks\<close>

datatype parser_event =
    MessageBegin | Url "u8 list" | StatusText "u8 list" | HeaderField "u8 list" | HeaderValue "u8 list"
  | HeadersComplete | BodyPart "u8 list" | MessageComplete | ChunkHeader | ChunkComplete

type_synonym 's settings = "parser_event \<Rightarrow> http_parser \<Rightarrow> 's \<Rightarrow> int \<times> 's"

datatype mark = Mheader_field | Mheader_value | Murl | Mbody | Mstatus

fun mark_event :: "mark \<Rightarrow> u8 list \<Rightarrow> parser_event" where
  "mark_event Mheader_field b = HeaderField b"
| "mark_event Mheader_value b = HeaderValue b"
| "mark_event Murl b = Url b"
| "mark_event Mbody b = BodyPart b"
| "mark_event Mstatus b = StatusText b"

fun mark_errno :: "mark \<Rightarrow> http_errno" where
  "mark_errno Mheader_field = HPE_CB_header_field"
| "mark_errno Mheader_value = HPE_CB_header_value"
| "mark_errno Murl = HPE_CB_url"
| "mark_errno Mbody = HPE_CB_body"
| "mark_errno Mstatus = HPE_CB_status"

text \<open>The local variables: \<open>p\<close> as an index into \<open>data\<close>, the marks likewise.\<close>

record 's exec =
  ex_p :: nat
  ex_ch :: u8
  ex_state :: p_state
  ex_nread :: u32
  ex_parser :: http_parser
  ex_marks :: "mark \<Rightarrow> nat option"
  ex_user :: 's

text \<open>How the code of a state ends: \<open>break\<close>, \<open>goto reexecute\<close>, \<open>return\<close>, \<open>goto error\<close>, or a failed assertion.\<close>

datatype 's outcome =
    Next "'s exec" | Reexecute "'s exec" | Return nat "'s exec" | Error "'s exec" | Abort cpp_error

definition upd :: "(http_parser \<Rightarrow> http_parser) \<Rightarrow> 's exec \<Rightarrow> 's exec" where
  "upd f ex = ex\<lparr>ex_parser := f (ex_parser ex)\<rparr>"

definition UPDATE_STATE :: "p_state \<Rightarrow> 's exec \<Rightarrow> 's exec" where
  "UPDATE_STATE s ex = ex\<lparr>ex_state := s\<rparr>"

definition SET_ERRNO :: "http_errno \<Rightarrow> 's exec \<Rightarrow> 's exec" where
  "SET_ERRNO e ex = upd (\<lambda>p. p\<lparr>hp_nread := ex_nread ex, http_errno := e\<rparr>) ex"

definition fail :: "http_errno \<Rightarrow> 's exec \<Rightarrow> 's outcome" where
  "fail e ex = Error (SET_ERRNO e ex)"

definition RETURN :: "nat \<Rightarrow> 's exec \<Rightarrow> 's outcome" where
  "RETURN v ex = Return v (upd (\<lambda>p. p\<lparr>hp_nread := ex_nread ex, hp_state := ex_state ex\<rparr>) ex)"

definition assert_ex :: "bool \<Rightarrow> 's outcome \<Rightarrow> 's outcome" where
  "assert_ex b o1 = (if b then o1 else Abort AssertFail)"

definition CALLBACK_NOTIFY' ::
  "'s settings \<Rightarrow> parser_event \<Rightarrow> http_errno \<Rightarrow> nat \<Rightarrow> 's exec \<Rightarrow> ('s exec \<Rightarrow> 's outcome) \<Rightarrow> 's outcome" where
  "CALLBACK_NOTIFY' cb ev er ret ex k = assert_ex (http_errno (ex_parser ex) = HPE_OK)
     (let ex = upd (\<lambda>p. p\<lparr>hp_state := ex_state ex\<rparr>) ex; (rt, u) = cb ev (ex_parser ex) (ex_user ex); ex = ex\<lparr>ex_user := u\<rparr> in
      if rt \<noteq> 0 then Return ret (SET_ERRNO er ex) else k ex)"

definition CALLBACK_NOTIFY ::
  "'s settings \<Rightarrow> parser_event \<Rightarrow> http_errno \<Rightarrow> 's exec \<Rightarrow> ('s exec \<Rightarrow> 's outcome) \<Rightarrow> 's outcome" where
  "CALLBACK_NOTIFY cb ev er ex k = CALLBACK_NOTIFY' cb ev er (ex_p ex + 1) ex k"

definition CALLBACK_NOTIFY_NOADVANCE ::
  "'s settings \<Rightarrow> parser_event \<Rightarrow> http_errno \<Rightarrow> 's exec \<Rightarrow> ('s exec \<Rightarrow> 's outcome) \<Rightarrow> 's outcome" where
  "CALLBACK_NOTIFY_NOADVANCE cb ev er ex k = CALLBACK_NOTIFY' cb ev er (ex_p ex) ex k"

text \<open>
  The data callback of a mark gets the bytes up to \<open>stop_at\<close>; a length \<open>p - mark\<close> that is negative or
  leaves the buffer is an access outside it.
\<close>

definition CALLBACK_DATA' ::
  "'s settings \<Rightarrow> u8 list \<Rightarrow> mark \<Rightarrow> nat \<Rightarrow> nat \<Rightarrow> 's exec \<Rightarrow> ('s exec \<Rightarrow> 's outcome) \<Rightarrow> 's outcome" where
  "CALLBACK_DATA' cb data m stop_at ret ex k = assert_ex (http_errno (ex_parser ex) = HPE_OK)
     (case ex_marks ex m of None \<Rightarrow> k ex
      | Some i \<Rightarrow>
          if stop_at < i \<or> length data < stop_at then Abort BufferOverflow
          else CALLBACK_NOTIFY' cb (mark_event m (take (stop_at - i) (drop i data))) (mark_errno m) ret ex
            (\<lambda>ex. k (ex\<lparr>ex_marks := (ex_marks ex)(m := None)\<rparr>)))"

definition CALLBACK_DATA :: "'s settings \<Rightarrow> u8 list \<Rightarrow> mark \<Rightarrow> 's exec \<Rightarrow> ('s exec \<Rightarrow> 's outcome) \<Rightarrow> 's outcome" where
  "CALLBACK_DATA cb data m ex k = CALLBACK_DATA' cb data m (ex_p ex) (ex_p ex + 1) ex k"

definition CALLBACK_DATA_NOADVANCE ::
  "'s settings \<Rightarrow> u8 list \<Rightarrow> mark \<Rightarrow> 's exec \<Rightarrow> ('s exec \<Rightarrow> 's outcome) \<Rightarrow> 's outcome" where
  "CALLBACK_DATA_NOADVANCE cb data m ex k = CALLBACK_DATA' cb data m (ex_p ex) (ex_p ex) ex k"

definition MARK :: "mark \<Rightarrow> 's exec \<Rightarrow> 's exec" where
  "MARK m ex = (case ex_marks ex m of Some i \<Rightarrow> ex | None \<Rightarrow> ex\<lparr>ex_marks := (ex_marks ex)(m := Some (ex_p ex))\<rparr>)"

definition max_header_size :: u32 where "max_header_size = 80 * 1024"

definition COUNT_HEADER_SIZE :: "nat \<Rightarrow> 's exec \<Rightarrow> ('s exec \<Rightarrow> 's outcome) \<Rightarrow> 's outcome" where
  "COUNT_HEADER_SIZE v ex k =
     (let ex = ex\<lparr>ex_nread := ex_nread ex + of_nat v\<rparr> in
      if max_header_size < ex_nread ex then fail HPE_HEADER_OVERFLOW ex else k ex)"

definition STRICT_CHECK :: "bool \<Rightarrow> 's exec \<Rightarrow> 's outcome \<Rightarrow> 's outcome" where
  "STRICT_CHECK cond ex o1 = (if cond then fail HPE_STRICT ex else o1)"

text \<open>\<open>++parser->index\<close> on a field of seven bits.\<close>

definition inc_index :: "http_parser \<Rightarrow> http_parser" where
  "inc_index p = p\<lparr>hp_index := (hp_index p + 1) mod 128\<rparr>"

text \<open>The character at index \<open>i\<close> of a C string, its terminator included.\<close>

definition char_at :: "u8 list \<Rightarrow> nat \<Rightarrow> u8" where
  "char_at s i = (s @ [0]) ! i"

subsection \<open>Start of a message and status line\<close>

definition begin_message :: "http_parser \<Rightarrow> http_parser" where
  "begin_message p = p\<lparr>hp_flags := 0, hp_content_length := ULLONG_MAX\<rparr>"

definition step_start :: "'s settings \<Rightarrow> 's exec \<Rightarrow> 's outcome" where
  "step_start cb ex = (let ch = ex_ch ex in case ex_state ex of
     s_dead \<Rightarrow> if ch = CR \<or> ch = LF then Next ex else fail HPE_CLOSED_CONNECTION ex
   | s_start_req_or_res \<Rightarrow>
       if ch = CR \<or> ch = LF then Next ex
       else let ex = upd begin_message ex in
         if ch = 72 then CALLBACK_NOTIFY cb MessageBegin HPE_CB_message_begin (UPDATE_STATE s_res_or_resp_H ex) Next
         else Reexecute (UPDATE_STATE s_start_req (upd (\<lambda>p. p\<lparr>hp_type := HTTP_REQUEST\<rparr>) ex))
   | s_res_or_resp_H \<Rightarrow>
       if ch = 84 then Next (UPDATE_STATE s_res_HT (upd (\<lambda>p. p\<lparr>hp_type := HTTP_RESPONSE\<rparr>) ex))
       else if ch \<noteq> 69 then fail HPE_INVALID_CONSTANT ex
       else Next (UPDATE_STATE s_req_method (upd (\<lambda>p. p\<lparr>hp_type := HTTP_REQUEST, hp_method := HEAD, hp_index := 2\<rparr>) ex))
   | s_start_res \<Rightarrow>
       if ch = CR \<or> ch = LF then Next ex
       else let ex = upd begin_message ex in
         if ch = 72 then CALLBACK_NOTIFY cb MessageBegin HPE_CB_message_begin (UPDATE_STATE s_res_H ex) Next
         else fail HPE_INVALID_CONSTANT ex
   | _ \<Rightarrow> Abort LogicError)"

definition step_status :: "'s settings \<Rightarrow> u8 list \<Rightarrow> 's exec \<Rightarrow> 's outcome" where
  "step_status cb data ex = (let ch = ex_ch ex in case ex_state ex of
     s_res_H \<Rightarrow> STRICT_CHECK (ch \<noteq> 84) ex (Next (UPDATE_STATE s_res_HT ex))
   | s_res_HT \<Rightarrow> STRICT_CHECK (ch \<noteq> 84) ex (Next (UPDATE_STATE s_res_HTT ex))
   | s_res_HTT \<Rightarrow> STRICT_CHECK (ch \<noteq> 80) ex (Next (UPDATE_STATE s_res_HTTP ex))
   | s_res_HTTP \<Rightarrow> STRICT_CHECK (ch \<noteq> 47) ex (Next (UPDATE_STATE s_res_http_major ex))
   | s_res_http_major \<Rightarrow>
       if \<not> IS_NUM ch then fail HPE_INVALID_VERSION ex
       else Next (UPDATE_STATE s_res_http_dot (upd (\<lambda>p. p\<lparr>http_major := ucast ch - 48\<rparr>) ex))
   | s_res_http_dot \<Rightarrow> if ch \<noteq> 46 then fail HPE_INVALID_VERSION ex else Next (UPDATE_STATE s_res_http_minor ex)
   | s_res_http_minor \<Rightarrow>
       if \<not> IS_NUM ch then fail HPE_INVALID_VERSION ex
       else Next (UPDATE_STATE s_res_http_end (upd (\<lambda>p. p\<lparr>http_minor := ucast ch - 48\<rparr>) ex))
   | s_res_http_end \<Rightarrow> if ch \<noteq> 32 then fail HPE_INVALID_VERSION ex else Next (UPDATE_STATE s_res_first_status_code ex)
   | s_res_first_status_code \<Rightarrow>
       if \<not> IS_NUM ch then (if ch = 32 then Next ex else fail HPE_INVALID_STATUS ex)
       else Next (UPDATE_STATE s_res_status_code (upd (\<lambda>p. p\<lparr>status_code := unat ch - 48\<rparr>) ex))
   | s_res_status_code \<Rightarrow>
       if \<not> IS_NUM ch then
         (if ch = 32 then Next (UPDATE_STATE s_res_status_start ex)
          else if ch = CR \<or> ch = LF then Reexecute (UPDATE_STATE s_res_status_start ex)
          else fail HPE_INVALID_STATUS ex)
       else let ex = upd (\<lambda>p. p\<lparr>status_code := status_code p * 10 + (unat ch - 48)\<rparr>) ex in
         if status_code (ex_parser ex) > 999 then fail HPE_INVALID_STATUS ex else Next ex
   | s_res_status_start \<Rightarrow>
       let ex = upd (\<lambda>p. p\<lparr>hp_index := 0\<rparr>) (UPDATE_STATE s_res_status (MARK Mstatus ex)) in
       if ch = CR \<or> ch = LF then Reexecute ex else Next ex
   | s_res_status \<Rightarrow>
       if ch = CR then CALLBACK_DATA cb data Mstatus (UPDATE_STATE s_res_line_almost_done ex) Next
       else if ch = LF then CALLBACK_DATA cb data Mstatus (UPDATE_STATE s_header_field_start ex) Next
       else Next ex
   | s_res_line_almost_done \<Rightarrow> STRICT_CHECK (ch \<noteq> LF) ex (Next (UPDATE_STATE s_header_field_start ex))
   | _ \<Rightarrow> Abort LogicError)"

subsection \<open>Request line\<close>

definition first_method :: "u8 \<Rightarrow> HttpMethod option" where
  "first_method ch = map_of
     [(65, ACL), (66, BIND), (67, CONNECT), (68, DELETE), (71, GET), (72, HEAD), (76, LOCK), (77, MKCOL),
      (78, NOTIFY), (79, OPTIONS), (80, POST), (82, REPORT), (83, SUBSCRIBE), (84, TRACE), (85, UNLOCK)] ch"

text \<open>The table of \<open>XX(meth, pos, ch, new_meth)\<close>.\<close>

definition method_switch :: "((HttpMethod \<times> nat \<times> u8) \<times> HttpMethod) list" where
  "method_switch =
    [((POST, 1, 85), PUT), ((POST, 1, 65), PATCH), ((POST, 1, 82), PROPFIND), ((PUT, 2, 82), PURGE),
     ((CONNECT, 1, 72), CHECKOUT), ((CONNECT, 2, 80), COPY), ((MKCOL, 1, 79), MOVE), ((MKCOL, 1, 69), MERGE),
     ((MKCOL, 1, 45), MSEARCH), ((MKCOL, 2, 65), MKACTIVITY), ((MKCOL, 3, 65), MKCALENDAR),
     ((SUBSCRIBE, 1, 69), SEARCH), ((SUBSCRIBE, 1, 79), SOURCE), ((REPORT, 2, 66), REBIND),
     ((PROPFIND, 4, 80), PROPPATCH), ((LOCK, 1, 73), LINK), ((UNLOCK, 2, 83), UNSUBSCRIBE),
     ((UNLOCK, 2, 66), UNBIND), ((UNLOCK, 3, 73), UNLINK)]"

definition step_method :: "'s settings \<Rightarrow> 's exec \<Rightarrow> 's outcome" where
  "step_method cb ex = (let ch = ex_ch ex; p = ex_parser ex in case ex_state ex of
     s_start_req \<Rightarrow>
       if ch = CR \<or> ch = LF then Next ex
       else let ex = upd begin_message ex in
         if \<not> IS_ALPHA ch then fail HPE_INVALID_METHOD ex
         else let ex = upd (\<lambda>p. p\<lparr>hp_method := DELETE, hp_index := 1\<rparr>) ex in
           (case first_method ch of None \<Rightarrow> fail HPE_INVALID_METHOD ex
            | Some m \<Rightarrow> CALLBACK_NOTIFY cb MessageBegin HPE_CB_message_begin
                (UPDATE_STATE s_req_method (upd (\<lambda>p. p\<lparr>hp_method := m\<rparr>) ex)) Next)
   | s_req_method \<Rightarrow>
       if ch = 0 then fail HPE_INVALID_METHOD ex
       else let matcher = http_method_str (hp_method p) in
         if length matcher < hp_index p then Abort BufferOverflow
         else if ch = 32 \<and> char_at matcher (hp_index p) = 0 then Next (upd inc_index (UPDATE_STATE s_req_spaces_before_url ex))
         else if ch = char_at matcher (hp_index p) then Next (upd inc_index ex)
         else if 65 \<le> ch \<and> ch \<le> 90 \<or> ch = 45 then
           (case map_of method_switch (hp_method p, hp_index p, ch) of None \<Rightarrow> fail HPE_INVALID_METHOD ex
            | Some m \<Rightarrow> Next (upd (\<lambda>p. inc_index (p\<lparr>hp_method := m\<rparr>)) ex))
         else fail HPE_INVALID_METHOD ex
   | _ \<Rightarrow> Abort LogicError)"

definition url_next :: "'s exec \<Rightarrow> 's outcome" where
  "url_next ex = (let ch = ex_ch ex; ex = UPDATE_STATE (parse_url_char (ex_state ex) ch) ex in
     if ex_state ex = s_dead then fail HPE_INVALID_URL ex else Next ex)"

definition step_url :: "'s settings \<Rightarrow> u8 list \<Rightarrow> 's exec \<Rightarrow> 's outcome" where
  "step_url cb data ex = (let ch = ex_ch ex in case ex_state ex of
     s_req_spaces_before_url \<Rightarrow>
       if ch = 32 then Next ex
       else let ex = MARK Murl ex in
         url_next (if hp_method (ex_parser ex) = CONNECT then UPDATE_STATE s_req_server_start ex else ex)
   | s \<Rightarrow>
       if s \<in> set [s_req_schema, s_req_schema_slash, s_req_schema_slash_slash, s_req_server_start] then
         (if ch = 32 \<or> ch = CR \<or> ch = LF then fail HPE_INVALID_URL ex else url_next ex)
       else if ch = 32 then CALLBACK_DATA cb data Murl (UPDATE_STATE s_req_http_start ex) Next
       else if ch = CR \<or> ch = LF then
         CALLBACK_DATA cb data Murl
           (UPDATE_STATE (if ch = CR then s_req_line_almost_done else s_header_field_start)
             (upd (\<lambda>p. p\<lparr>http_major := 0, http_minor := 9\<rparr>) ex)) Next
       else url_next ex)"

definition step_version :: "'s exec \<Rightarrow> 's outcome" where
  "step_version ex = (let ch = ex_ch ex in case ex_state ex of
     s_req_http_start \<Rightarrow>
       if ch = 32 then Next ex
       else if ch = 72 then Next (UPDATE_STATE s_req_http_H ex)
       else if ch = 73 \<and> hp_method (ex_parser ex) = SOURCE then Next (UPDATE_STATE s_req_http_I ex)
       else fail HPE_INVALID_CONSTANT ex
   | s_req_http_H \<Rightarrow> STRICT_CHECK (ch \<noteq> 84) ex (Next (UPDATE_STATE s_req_http_HT ex))
   | s_req_http_HT \<Rightarrow> STRICT_CHECK (ch \<noteq> 84) ex (Next (UPDATE_STATE s_req_http_HTT ex))
   | s_req_http_HTT \<Rightarrow> STRICT_CHECK (ch \<noteq> 80) ex (Next (UPDATE_STATE s_req_http_HTTP ex))
   | s_req_http_I \<Rightarrow> STRICT_CHECK (ch \<noteq> 67) ex (Next (UPDATE_STATE s_req_http_IC ex))
   | s_req_http_IC \<Rightarrow> STRICT_CHECK (ch \<noteq> 69) ex (Next (UPDATE_STATE s_req_http_HTTP ex))
   | s_req_http_HTTP \<Rightarrow> STRICT_CHECK (ch \<noteq> 47) ex (Next (UPDATE_STATE s_req_http_major ex))
   | s_req_http_major \<Rightarrow>
       if \<not> IS_NUM ch then fail HPE_INVALID_VERSION ex
       else Next (UPDATE_STATE s_req_http_dot (upd (\<lambda>p. p\<lparr>http_major := ucast ch - 48\<rparr>) ex))
   | s_req_http_dot \<Rightarrow> if ch \<noteq> 46 then fail HPE_INVALID_VERSION ex else Next (UPDATE_STATE s_req_http_minor ex)
   | s_req_http_minor \<Rightarrow>
       if \<not> IS_NUM ch then fail HPE_INVALID_VERSION ex
       else Next (UPDATE_STATE s_req_http_end (upd (\<lambda>p. p\<lparr>http_minor := ucast ch - 48\<rparr>) ex))
   | s_req_http_end \<Rightarrow>
       if ch = CR then Next (UPDATE_STATE s_req_line_almost_done ex)
       else if ch = LF then Next (UPDATE_STATE s_header_field_start ex)
       else fail HPE_INVALID_VERSION ex
   | s_req_line_almost_done \<Rightarrow> if ch \<noteq> LF then fail HPE_LF_EXPECTED ex else Next (UPDATE_STATE s_header_field_start ex)
   | _ \<Rightarrow> Abort LogicError)"
subsection \<open>Header fields\<close>

text \<open>
  Comparison of the next character with a word, by the incremented index: \<open>sizeof(W) - 1\<close> is its length.
\<close>

definition match_word :: "u8 list \<Rightarrow> u8 \<Rightarrow> nat \<Rightarrow> 'a \<Rightarrow> 'a \<Rightarrow> 'a \<Rightarrow> 'a" where
  "match_word w c i bad same good =
     (if length w < i \<or> c \<noteq> char_at w i then bad else if i = length w - 1 then good else same)"

definition set_hs :: "header_states \<Rightarrow> http_parser \<Rightarrow> http_parser" where
  "set_hs h p = p\<lparr>hp_header_state := h\<rparr>"

definition step_header_field_start :: "'s exec \<Rightarrow> 's outcome" where
  "step_header_field_start ex = (let ch = ex_ch ex in
     if ch = CR then Next (UPDATE_STATE s_headers_almost_done ex)
     else if ch = LF then Reexecute (UPDATE_STATE s_headers_almost_done ex)
     else let c = STRICT_TOKEN ch in
       if c = 0 then fail HPE_INVALID_HEADER_TOKEN ex
       else let ex = UPDATE_STATE s_header_field (upd (\<lambda>p. p\<lparr>hp_index := 0\<rparr>) (MARK Mheader_field ex)) in
         Next (upd (set_hs (if c = 99 then h_C else if c = 112 then h_matching_proxy_connection
           else if c = 116 then h_matching_transfer_encoding else if c = 117 then h_matching_upgrade else h_general)) ex))"

text \<open>One character of a field name, outside the inner loop of \<open>h_general\<close>.\<close>

definition field_char :: "u8 \<Rightarrow> u8 \<Rightarrow> http_parser \<Rightarrow> http_parser result" where
  "field_char ch c p =
     (let q = inc_index p; i = hp_index q;
          word = (\<lambda>w good. Inr (set_hs (match_word w c i h_general (hp_header_state p) good) q)) in
      case hp_header_state p of
        h_general \<Rightarrow> Inr p
      | h_C \<Rightarrow> Inr (set_hs (if c = 111 then h_CO else h_general) q)
      | h_CO \<Rightarrow> Inr (set_hs (if c = 110 then h_CON else h_general) q)
      | h_CON \<Rightarrow> Inr (set_hs (if c = 110 then h_matching_connection
            else if c = 116 then h_matching_content_length else h_general) q)
      | h_matching_connection \<Rightarrow> word (bytes ''connection'') h_connection
      | h_matching_proxy_connection \<Rightarrow> word (bytes ''proxy-connection'') h_connection
      | h_matching_content_length \<Rightarrow> word (bytes ''content-length'') h_content_length
      | h_matching_transfer_encoding \<Rightarrow> word (bytes ''transfer-encoding'') h_transfer_encoding
      | h_matching_upgrade \<Rightarrow> word (bytes ''upgrade'') h_upgrade
      | h_connection \<Rightarrow> Inr (if ch \<noteq> 32 then set_hs h_general p else p)
      | h_content_length \<Rightarrow> Inr (if ch \<noteq> 32 then set_hs h_general p else p)
      | h_transfer_encoding \<Rightarrow> Inr (if ch \<noteq> 32 then set_hs h_general p else p)
      | h_upgrade \<Rightarrow> Inr (if ch \<noteq> 32 then set_hs h_general p else p)
      | _ \<Rightarrow> Inl AssertFail)"

text \<open>The inner loop of \<open>h_general\<close>, with \<open>pe\<close> the limit of its search.\<close>

function skip_tokens :: "u8 list \<Rightarrow> nat \<Rightarrow> nat \<Rightarrow> nat" where
  "skip_tokens data pe p =
     (if p + 1 < pe \<and> STRICT_TOKEN (data ! (p + 1)) \<noteq> 0 then skip_tokens data pe (p + 1) else p)"
  by pat_completeness auto
termination by (relation "measure (\<lambda>(data, pe, p). pe - p)") auto

definition search_end :: "u8 list \<Rightarrow> nat \<Rightarrow> nat" where
  "search_end data p = p + min (length data - p) (unat max_header_size)"

lemma search_end_code [code]:
  "search_end data p = (let left = length data - p in p + (if int left \<le> uint max_header_size then left else unat max_header_size))"
  by (auto simp: search_end_def Let_def min_def max_header_size_def)

declare skip_tokens.simps [simp del]

lemma skip_tokens_ge: "p \<le> skip_tokens data pe p"
proof (induction data pe p rule: skip_tokens.induct)
  case (1 data pe p)
  then show ?case by (subst skip_tokens.simps) (auto simp del: One_nat_def)
qed

function field_loop :: "u8 list \<Rightarrow> nat \<Rightarrow> u8 \<Rightarrow> http_parser \<Rightarrow> (nat \<times> u8 \<times> http_parser) result" where
  "field_loop data p ch hp =
     (if length data \<le> p then Inr (p, ch, hp)
      else let ch = data ! p; c = STRICT_TOKEN ch in
        if c = 0 then Inr (p, ch, hp)
        else case field_char ch c hp of
          Inl e \<Rightarrow> Inl e
        | Inr hp' \<Rightarrow>
            field_loop data
              ((if hp_header_state hp = h_general then skip_tokens data (search_end data p) p else p) + 1) ch hp')"
  by pat_completeness auto
termination
  by (relation "measure (\<lambda>(data, p, ch, hp). length data - p)")
    (simp_all add: diff_less_mono2 less_Suc_eq_le skip_tokens_ge)

declare field_loop.simps [simp del]

definition step_header_field :: "'s settings \<Rightarrow> u8 list \<Rightarrow> 's exec \<Rightarrow> 's outcome" where
  "step_header_field cb data ex = (let start = ex_p ex in
     case field_loop data start (ex_ch ex) (ex_parser ex) of
       Inl e \<Rightarrow> Abort e
     | Inr (p, ch, hp) \<Rightarrow>
         let ex = ex\<lparr>ex_p := p, ex_ch := ch, ex_parser := hp\<rparr> in
         if p = length data then COUNT_HEADER_SIZE (p - 1 - start) (ex\<lparr>ex_p := p - 1\<rparr>) Next
         else COUNT_HEADER_SIZE (p - start) ex (\<lambda>ex.
           if ch = 58 then CALLBACK_DATA cb data Mheader_field (UPDATE_STATE s_header_value_discard_ws ex) Next
           else fail HPE_INVALID_HEADER_TOKEN ex))"
subsection \<open>Header values\<close>

text \<open>\<open>s_header_value_start\<close>, which \<open>s_header_value_discard_ws\<close> falls through to.\<close>

definition value_start :: "'s exec \<Rightarrow> 's outcome" where
  "value_start ex =
     (let ch = ex_ch ex; c = LOWER ch;
          ex = upd (\<lambda>p. p\<lparr>hp_index := 0\<rparr>) (UPDATE_STATE s_header_value (MARK Mheader_value ex)) in
      case hp_header_state (ex_parser ex) of
        h_upgrade \<Rightarrow> Next (upd (\<lambda>p. set_hs h_general (add_flag F_UPGRADE p)) ex)
      | h_transfer_encoding \<Rightarrow> Next (upd (set_hs (if c = 99 then h_matching_transfer_encoding_chunked else h_general)) ex)
      | h_content_length \<Rightarrow>
          if \<not> IS_NUM ch then fail HPE_INVALID_CONTENT_LENGTH ex
          else if has_flag F_CONTENTLENGTH (ex_parser ex) then fail HPE_UNEXPECTED_CONTENT_LENGTH ex
          else Next (upd (\<lambda>p. set_hs h_content_length_num
            ((add_flag F_CONTENTLENGTH p)\<lparr>hp_content_length := ucast ch - 48\<rparr>)) ex)
      | h_content_length_ws \<Rightarrow> Next ex
      | h_connection \<Rightarrow> Next (upd (set_hs (if c = 107 then h_matching_connection_keep_alive
          else if c = 99 then h_matching_connection_close else if c = 117 then h_matching_connection_upgrade
          else h_matching_connection_token)) ex)
      | h_matching_connection_token_start \<Rightarrow> Next ex
      | _ \<Rightarrow> Next (upd (set_hs h_general) ex))"

definition step_value_discard_ws :: "'s exec \<Rightarrow> 's outcome" where
  "step_value_discard_ws ex = (let ch = ex_ch ex in
     if ch = 32 \<or> ch = 9 then Next ex
     else if ch = CR then Next (UPDATE_STATE s_header_value_discard_ws_almost_done ex)
     else if ch = LF then Next (UPDATE_STATE s_header_value_discard_lws ex)
     else value_start ex)"

text \<open>A digit of a content length: \<open>None\<close> when the number before it is above the limit.\<close>

definition more_length :: "u64 \<Rightarrow> u64 \<Rightarrow> u64 \<Rightarrow> u64 option" where
  "more_length base cl d = (if (ULLONG_MAX - base) div base < cl then None else Some (cl * base + d))"

text \<open>
  One character of a value outside the inner loop of \<open>h_general\<close>: the new \<open>h_state\<close>, with \<open>True\<close> when
  the length of the content is refused.
\<close>

definition length_char :: "u8 \<Rightarrow> http_parser \<Rightarrow> bool \<times> header_states \<times> http_parser" where
  "length_char ch p =
     (if ch = 32 then (False, h_content_length_ws, p)
      else if \<not> IS_NUM ch then (True, h_content_length_num, p)
      else case more_length 10 (hp_content_length p) (ucast ch - 48) of
        None \<Rightarrow> (True, h_content_length_num, p)
      | Some t \<Rightarrow> (False, h_content_length_num, p\<lparr>hp_content_length := t\<rparr>))"

definition connection_flag :: "header_states \<Rightarrow> u8" where
  "connection_flag h = (if h = h_connection_keep_alive then F_CONNECTION_KEEP_ALIVE
     else if h = h_connection_close then F_CONNECTION_CLOSE else F_CONNECTION_UPGRADE)"

definition value_char :: "u8 \<Rightarrow> header_states \<Rightarrow> http_parser \<Rightarrow> (bool \<times> header_states \<times> http_parser) result" where
  "value_char ch h p =
     (let c = LOWER ch; q = inc_index p; i = hp_index q;
          word = (\<lambda>w bad good. Inr (False, match_word w c i bad h good, q));
          token_end = Inr (if ch = 44 then (False, h_matching_connection_token_start, (add_flag (connection_flag h) p)\<lparr>hp_index := 0\<rparr>)
            else (False, if ch \<noteq> 32 then h_matching_connection_token else h, p)) in
      case h of
        h_connection \<Rightarrow> Inl AssertFail
      | h_transfer_encoding \<Rightarrow> Inl AssertFail
      | h_content_length \<Rightarrow> Inr (if ch = 32 then (False, h, p) else length_char ch p)
      | h_content_length_num \<Rightarrow> Inr (length_char ch p)
      | h_content_length_ws \<Rightarrow> Inr (ch \<noteq> 32, h, p)
      | h_matching_transfer_encoding_chunked \<Rightarrow> word (bytes ''chunked'') h_general h_transfer_encoding_chunked
      | h_matching_connection_token_start \<Rightarrow>
          Inr (False, if c = 107 then h_matching_connection_keep_alive else if c = 99 then h_matching_connection_close
            else if c = 117 then h_matching_connection_upgrade else if STRICT_TOKEN c \<noteq> 0 then h_matching_connection_token
            else if c = 32 \<or> c = 9 then h else h_general, p)
      | h_matching_connection_keep_alive \<Rightarrow> word (bytes ''keep-alive'') h_matching_connection_token h_connection_keep_alive
      | h_matching_connection_close \<Rightarrow> word (bytes ''close'') h_matching_connection_token h_connection_close
      | h_matching_connection_upgrade \<Rightarrow> word (bytes ''upgrade'') h_matching_connection_token h_connection_upgrade
      | h_matching_connection_token \<Rightarrow>
          Inr (if ch = 44 then (False, h_matching_connection_token_start, p\<lparr>hp_index := 0\<rparr>) else (False, h, p))
      | h_transfer_encoding_chunked \<Rightarrow> Inr (False, if ch \<noteq> 32 then h_general else h, p)
      | h_connection_keep_alive \<Rightarrow> token_end
      | h_connection_close \<Rightarrow> token_end
      | h_connection_upgrade \<Rightarrow> token_end
      | _ \<Rightarrow> Inr (False, h_general, p))"

text \<open>The inner loop of \<open>h_general\<close>: where it stops, the last character and whether that one is refused.\<close>

function scan_value :: "bool \<Rightarrow> u8 list \<Rightarrow> nat \<Rightarrow> nat \<Rightarrow> u8 \<Rightarrow> nat \<times> u8 \<times> bool" where
  "scan_value lenient data pe p ch =
     (if pe \<le> p then (p, ch, False)
      else let ch = data ! p in
        if ch = CR \<or> ch = LF then (p - 1, ch, False)
        else if \<not> lenient \<and> \<not> IS_HEADER_CHAR ch then (p, ch, True)
        else scan_value lenient data pe (p + 1) ch)"
  by pat_completeness auto
termination by (relation "measure (\<lambda>(l, data, pe, p, ch). pe - p)") auto

declare scan_value.simps [simp del]

lemma scan_value_ge: "p - 1 \<le> fst (scan_value lenient data pe p ch)"
proof (induction lenient data pe p ch rule: scan_value.induct)
  case (1 lenient data pe p ch)
  then show ?case by (subst scan_value.simps) (auto simp: Let_def)
qed

lemma scan_value_progress:
  assumes "data ! p \<noteq> CR" "data ! p \<noteq> LF"
  shows "p \<le> fst (scan_value lenient data pe p ch)"
  using assms scan_value_ge [of "p + 1" lenient data pe "data ! p"] by (subst scan_value.simps) (simp add: Let_def)

datatype value_exit = V_end | V_cr | V_lf | V_token | V_length

function value_loop ::
  "u8 list \<Rightarrow> nat \<Rightarrow> u8 \<Rightarrow> header_states \<Rightarrow> http_parser \<Rightarrow> (value_exit \<times> nat \<times> u8 \<times> header_states \<times> http_parser) result" where
  "value_loop data p ch h hp =
     (if length data \<le> p then Inr (V_end, p, ch, h, hp)
      else let ch = data ! p in
        if ch = CR then Inr (V_cr, p, ch, h, hp)
        else if ch = LF then Inr (V_lf, p, ch, h, hp)
        else if \<not> hp_lenient hp \<and> \<not> IS_HEADER_CHAR ch then Inr (V_token, p, ch, h, hp)
        else if h = h_general then
          (case scan_value (hp_lenient hp) data (search_end data p) p ch of (p', ch', bad) \<Rightarrow>
             if bad then Inr (V_token, p', ch', h, hp)
             else value_loop data ((if p' = length data then p' - 1 else p') + 1) ch' h hp)
        else (case value_char ch h hp of
            Inl e \<Rightarrow> Inl e
          | Inr (bad, h', hp') \<Rightarrow>
              if bad then Inr (V_length, p, ch, h', hp') else value_loop data (p + 1) ch h' hp'))"
  by pat_completeness auto
termination
proof (relation "measure (\<lambda>(data, p, ch, h, hp). length data - p)", goal_cases)
  case (2 data p ch h hp x q y ch' bad)
  then have "p \<le> q" using scan_value_progress [of data p "hp_lenient hp" "search_end data p" x] by (metis fst_conv)
  then show ?case using 2 by auto
qed auto

declare value_loop.simps [simp del]

definition step_header_value :: "'s settings \<Rightarrow> u8 list \<Rightarrow> 's exec \<Rightarrow> 's outcome" where
  "step_header_value cb data ex = (let start = ex_p ex in
     case value_loop data start (ex_ch ex) (hp_header_state (ex_parser ex)) (ex_parser ex) of
       Inl e \<Rightarrow> Abort e
     | Inr (v, p, ch, h, hp) \<Rightarrow>
         let ex = ex\<lparr>ex_p := p, ex_ch := ch, ex_parser := hp\<rparr> in
         case v of
           V_cr \<Rightarrow> CALLBACK_DATA cb data Mheader_value (UPDATE_STATE s_header_almost_done (upd (set_hs h) ex))
             (\<lambda>ex. COUNT_HEADER_SIZE (p - start) ex Next)
         | V_lf \<Rightarrow> COUNT_HEADER_SIZE (p - start) (UPDATE_STATE s_header_almost_done ex)
             (\<lambda>ex. CALLBACK_DATA_NOADVANCE cb data Mheader_value (upd (set_hs h) ex) Reexecute)
         | V_token \<Rightarrow> fail HPE_INVALID_HEADER_TOKEN ex
         | V_length \<Rightarrow> fail HPE_INVALID_CONTENT_LENGTH (upd (set_hs h) ex)
         | V_end \<Rightarrow> COUNT_HEADER_SIZE (p - 1 - start) (upd (set_hs h) (ex\<lparr>ex_p := p - 1\<rparr>)) Next)"

text \<open>The flag a finished header sets.\<close>

definition header_flag :: "header_states \<Rightarrow> u8" where
  "header_flag h = (case h of
       h_connection_keep_alive \<Rightarrow> F_CONNECTION_KEEP_ALIVE | h_connection_close \<Rightarrow> F_CONNECTION_CLOSE
     | h_transfer_encoding_chunked \<Rightarrow> F_CHUNKED | h_connection_upgrade \<Rightarrow> F_CONNECTION_UPGRADE | _ \<Rightarrow> 0)"

definition finish_header :: "http_parser \<Rightarrow> http_parser" where
  "finish_header p = add_flag (header_flag (hp_header_state p)) p"

definition step_value_end :: "'s settings \<Rightarrow> u8 list \<Rightarrow> 's exec \<Rightarrow> 's outcome" where
  "step_value_end cb data ex = (let ch = ex_ch ex in case ex_state ex of
     s_header_almost_done \<Rightarrow> if ch \<noteq> LF then fail HPE_LF_EXPECTED ex else Next (UPDATE_STATE s_header_value_lws ex)
   | s_header_value_lws \<Rightarrow>
       if ch = 32 \<or> ch = 9 then
         Reexecute (UPDATE_STATE s_header_value_start
           (upd (\<lambda>p. if hp_header_state p = h_content_length_num then set_hs h_content_length_ws p else p) ex))
       else Reexecute (UPDATE_STATE s_header_field_start (upd finish_header ex))
   | s_header_value_discard_ws_almost_done \<Rightarrow> STRICT_CHECK (ch \<noteq> LF) ex (Next (UPDATE_STATE s_header_value_discard_lws ex))
   | s_header_value_discard_lws \<Rightarrow>
       if ch = 32 \<or> ch = 9 then Next (UPDATE_STATE s_header_value_discard_ws ex)
       else if hp_header_state (ex_parser ex) = h_content_length then fail HPE_INVALID_CONTENT_LENGTH ex
       else CALLBACK_DATA_NOADVANCE cb data Mheader_value
         (UPDATE_STATE s_header_field_start (MARK Mheader_value (upd finish_header ex))) Reexecute
   | _ \<Rightarrow> Abort LogicError)"
subsection \<open>End of the headers and body\<close>

definition step_headers_almost_done :: "'s settings \<Rightarrow> 's exec \<Rightarrow> 's outcome" where
  "step_headers_almost_done cb ex = STRICT_CHECK (ex_ch ex \<noteq> LF) ex
     (if has_flag F_TRAILING (ex_parser ex) then
        CALLBACK_NOTIFY_NOADVANCE cb ChunkComplete HPE_CB_chunk_complete (UPDATE_STATE s_message_done ex) Reexecute
      else if has_flag F_CHUNKED (ex_parser ex) \<and> has_flag F_CONTENTLENGTH (ex_parser ex) then
        fail HPE_UNEXPECTED_CONTENT_LENGTH ex
      else
        let ex = upd (\<lambda>p. p\<lparr>upgrade :=
              if has_flag F_UPGRADE p \<and> has_flag F_CONNECTION_UPGRADE p
              then hp_type p = HTTP_REQUEST \<or> status_code p = 101 else hp_method p = CONNECT\<rparr>)
            (UPDATE_STATE s_headers_done ex);
            (rt, u) = cb HeadersComplete (ex_parser ex) (ex_user ex);
            ex = ex\<lparr>ex_user := u\<rparr> in
        if rt = 0 \<or> rt = 1 \<or> rt = 2 then
          (let ex = (if rt = 2 then upd (\<lambda>p. p\<lparr>upgrade := True\<rparr>) ex else ex);
               ex = (if rt = 0 then ex else upd (add_flag F_SKIPBODY) ex) in
           if http_errno (ex_parser ex) \<noteq> HPE_OK then RETURN (ex_p ex) ex else Reexecute ex)
        else RETURN (ex_p ex) (SET_ERRNO HPE_CB_headers_complete ex))"

text \<open>\<open>UPDATE_STATE(NEW_MESSAGE()); CALLBACK_NOTIFY(message_complete)\<close>.\<close>

definition complete_message :: "'s settings \<Rightarrow> 's exec \<Rightarrow> ('s exec \<Rightarrow> 's outcome) \<Rightarrow> 's outcome" where
  "complete_message cb ex k =
     CALLBACK_NOTIFY cb MessageComplete HPE_CB_message_complete (UPDATE_STATE (NEW_MESSAGE (ex_parser ex)) ex) k"

definition reset_nread :: "'s exec \<Rightarrow> 's exec" where
  "reset_nread ex = (upd (\<lambda>p. p\<lparr>hp_nread := 0\<rparr>) ex)\<lparr>ex_nread := 0\<rparr>"

definition step_headers_done :: "'s settings \<Rightarrow> 's exec \<Rightarrow> 's outcome" where
  "step_headers_done cb ex = STRICT_CHECK (ex_ch ex \<noteq> LF) ex
     (let ex = reset_nread ex; p = ex_parser ex; cl = hp_content_length p;
          hasBody = (has_flag F_CHUNKED p \<or> 0 < cl \<and> cl \<noteq> ULLONG_MAX) in
      if upgrade p \<and> (hp_method p = CONNECT \<or> has_flag F_SKIPBODY p \<or> \<not> hasBody) then
        complete_message cb ex (\<lambda>ex. RETURN (ex_p ex + 1) ex)
      else if has_flag F_SKIPBODY p then complete_message cb ex Next
      else if has_flag F_CHUNKED p then Next (UPDATE_STATE s_chunk_size_start ex)
      else if cl = 0 then complete_message cb ex Next
      else if cl \<noteq> ULLONG_MAX then Next (UPDATE_STATE s_body_identity ex)
      else if \<not> http_message_needs_eof p then complete_message cb ex Next
      else Next (UPDATE_STATE s_body_identity_eof ex))"

text \<open>The bytes a body or a chunk takes from the buffer.\<close>

definition take_body :: "u8 list \<Rightarrow> 's exec \<Rightarrow> 's exec" where
  "take_body data ex =
     (let cl = hp_content_length (ex_parser ex); to_read = min (unat cl) (length data - ex_p ex) in
      (upd (\<lambda>p. p\<lparr>hp_content_length := cl - of_nat to_read\<rparr>) (MARK Mbody ex))\<lparr>ex_p := ex_p ex + (to_read - 1)\<rparr>)"

definition step_body :: "'s settings \<Rightarrow> u8 list \<Rightarrow> 's exec \<Rightarrow> 's outcome" where
  "step_body cb data ex = (case ex_state ex of
     s_body_identity \<Rightarrow>
       assert_ex (hp_content_length (ex_parser ex) \<noteq> 0 \<and> hp_content_length (ex_parser ex) \<noteq> ULLONG_MAX)
         (let ex = take_body data ex in
          if hp_content_length (ex_parser ex) = 0 then
            CALLBACK_DATA' cb data Mbody (ex_p ex + 1) (ex_p ex) (UPDATE_STATE s_message_done ex) Reexecute
          else Next ex)
   | s_body_identity_eof \<Rightarrow> Next ((MARK Mbody ex)\<lparr>ex_p := length data - 1\<rparr>)
   | s_message_done \<Rightarrow>
       complete_message cb ex (\<lambda>ex. if upgrade (ex_parser ex) then RETURN (ex_p ex + 1) ex else Next ex)
   | _ \<Rightarrow> Abort LogicError)"

subsection \<open>Chunks\<close>

definition step_chunk :: "'s settings \<Rightarrow> u8 list \<Rightarrow> 's exec \<Rightarrow> 's outcome" where
  "step_chunk cb data ex = (let ch = ex_ch ex; p = ex_parser ex in
     if ex_state ex = s_chunk_size_start \<and> ex_nread ex \<noteq> 1 then Abort AssertFail
     else assert_ex (has_flag F_CHUNKED p) (case ex_state ex of
       s_chunk_size_start \<Rightarrow>
         if unhex ch = - 1 then fail HPE_INVALID_CHUNK_SIZE ex
         else Next (UPDATE_STATE s_chunk_size (upd (\<lambda>p. p\<lparr>hp_content_length := of_int (unhex ch)\<rparr>) ex))
     | s_chunk_size \<Rightarrow>
         if ch = CR then Next (UPDATE_STATE s_chunk_size_almost_done ex)
         else if unhex ch = - 1 then
           (if ch = 59 \<or> ch = 32 then Next (UPDATE_STATE s_chunk_parameters ex) else fail HPE_INVALID_CHUNK_SIZE ex)
         else (case more_length 16 (hp_content_length p) (of_int (unhex ch)) of
             None \<Rightarrow> fail HPE_INVALID_CONTENT_LENGTH ex
           | Some t \<Rightarrow> Next (upd (\<lambda>p. p\<lparr>hp_content_length := t\<rparr>) ex))
     | s_chunk_parameters \<Rightarrow> if ch = CR then Next (UPDATE_STATE s_chunk_size_almost_done ex) else Next ex
     | s_chunk_size_almost_done \<Rightarrow> STRICT_CHECK (ch \<noteq> LF) ex
         (let ex = reset_nread ex in
          CALLBACK_NOTIFY cb ChunkHeader HPE_CB_chunk_header
            (if hp_content_length p = 0 then UPDATE_STATE s_header_field_start (upd (add_flag F_TRAILING) ex)
             else UPDATE_STATE s_chunk_data ex) Next)
     | s_chunk_data \<Rightarrow>
         assert_ex (hp_content_length p \<noteq> 0 \<and> hp_content_length p \<noteq> ULLONG_MAX)
           (let ex = take_body data ex in
            Next (if hp_content_length (ex_parser ex) = 0 then UPDATE_STATE s_chunk_data_almost_done ex else ex))
     | s_chunk_data_almost_done \<Rightarrow>
         assert_ex (hp_content_length p = 0)
           (STRICT_CHECK (ch \<noteq> CR) ex (CALLBACK_DATA cb data Mbody (UPDATE_STATE s_chunk_data_done ex) Next))
     | s_chunk_data_done \<Rightarrow> STRICT_CHECK (ch \<noteq> LF) ex
         (CALLBACK_NOTIFY cb ChunkComplete HPE_CB_chunk_complete (UPDATE_STATE s_chunk_size_start (reset_nread ex)) Next)
     | _ \<Rightarrow> Abort LogicError))"

subsection \<open>The loop\<close>

definition step :: "'s settings \<Rightarrow> u8 list \<Rightarrow> 's exec \<Rightarrow> 's outcome" where
  "step cb data ex = (let s = ex_state ex in
     if s \<in> set [s_dead, s_start_req_or_res, s_res_or_resp_H, s_start_res] then step_start cb ex
     else if s \<in> set [s_res_H, s_res_HT, s_res_HTT, s_res_HTTP, s_res_http_major, s_res_http_dot, s_res_http_minor,
         s_res_http_end, s_res_first_status_code, s_res_status_code, s_res_status_start, s_res_status,
         s_res_line_almost_done] then step_status cb data ex
     else if s \<in> set [s_start_req, s_req_method] then step_method cb ex
     else if s \<in> set [s_req_spaces_before_url, s_req_schema, s_req_schema_slash, s_req_schema_slash_slash,
         s_req_server_start, s_req_server, s_req_server_with_at, s_req_path, s_req_query_string_start,
         s_req_query_string, s_req_fragment_start, s_req_fragment] then step_url cb data ex
     else if s \<in> set [s_req_http_start, s_req_http_H, s_req_http_HT, s_req_http_HTT, s_req_http_HTTP, s_req_http_I,
         s_req_http_IC, s_req_http_major, s_req_http_dot, s_req_http_minor, s_req_http_end, s_req_line_almost_done]
       then step_version ex
     else if s = s_header_field_start then step_header_field_start ex
     else if s = s_header_field then step_header_field cb data ex
     else if s = s_header_value_discard_ws then step_value_discard_ws ex
     else if s = s_header_value_start then value_start ex
     else if s = s_header_value then step_header_value cb data ex
     else if s \<in> set [s_header_almost_done, s_header_value_lws, s_header_value_discard_ws_almost_done,
         s_header_value_discard_lws] then step_value_end cb data ex
     else if s = s_headers_almost_done then step_headers_almost_done cb ex
     else if s = s_headers_done then step_headers_done cb ex
     else if s \<in> set [s_body_identity, s_body_identity_eof, s_message_done] then step_body cb data ex
     else step_chunk cb data ex)"

text \<open>The order in which the states hand the same byte to one another.\<close>

definition reexecute_rank :: "p_state \<Rightarrow> nat" where
  "reexecute_rank s =
     (if s \<in> set [s_start_req_or_res, s_res_status_code, s_header_value_lws, s_header_value_discard_lws] then 6
      else if s \<in> set [s_res_status_start, s_header_field_start, s_header_value] then 5
      else if s = s_headers_almost_done then 4 else if s \<in> set [s_headers_done, s_body_identity] then 3
      else if s \<in> set [s_header_value_start, s_header_almost_done, s_start_req, s_res_status, s_message_done] then 2 else 1)"
subsection \<open>Laws of the macros\<close>

lemma upd_fields [simp]:
  "ex_p (upd f ex) = ex_p ex" "ex_ch (upd f ex) = ex_ch ex" "ex_state (upd f ex) = ex_state ex"
  "ex_nread (upd f ex) = ex_nread ex" "ex_parser (upd f ex) = f (ex_parser ex)" "ex_marks (upd f ex) = ex_marks ex"
  "ex_user (upd f ex) = ex_user ex"
  by (simp_all add: upd_def)

lemma UPDATE_STATE_fields [simp]:
  "ex_p (UPDATE_STATE s ex) = ex_p ex" "ex_ch (UPDATE_STATE s ex) = ex_ch ex" "ex_state (UPDATE_STATE s ex) = s"
  "ex_nread (UPDATE_STATE s ex) = ex_nread ex" "ex_parser (UPDATE_STATE s ex) = ex_parser ex"
  "ex_marks (UPDATE_STATE s ex) = ex_marks ex" "ex_user (UPDATE_STATE s ex) = ex_user ex"
  by (simp_all add: UPDATE_STATE_def)

lemma SET_ERRNO_fields [simp]:
  "ex_p (SET_ERRNO e ex) = ex_p ex" "ex_ch (SET_ERRNO e ex) = ex_ch ex" "ex_state (SET_ERRNO e ex) = ex_state ex"
  "ex_nread (SET_ERRNO e ex) = ex_nread ex"
  "ex_parser (SET_ERRNO e ex) = (ex_parser ex)\<lparr>hp_nread := ex_nread ex, http_errno := e\<rparr>"
  "ex_marks (SET_ERRNO e ex) = ex_marks ex" "ex_user (SET_ERRNO e ex) = ex_user ex"
  by (simp_all add: SET_ERRNO_def)

lemma MARK_fields [simp]:
  "ex_p (MARK m ex) = ex_p ex" "ex_ch (MARK m ex) = ex_ch ex" "ex_state (MARK m ex) = ex_state ex"
  "ex_nread (MARK m ex) = ex_nread ex" "ex_parser (MARK m ex) = ex_parser ex" "ex_user (MARK m ex) = ex_user ex"
  "ex_marks (MARK m ex) n = (if n = m \<and> ex_marks ex m = None then Some (ex_p ex) else ex_marks ex n)"
  by (simp_all add: MARK_def split: option.splits)

lemma reset_nread_fields [simp]:
  "ex_p (reset_nread ex) = ex_p ex" "ex_ch (reset_nread ex) = ex_ch ex" "ex_state (reset_nread ex) = ex_state ex"
  "ex_nread (reset_nread ex) = 0" "ex_parser (reset_nread ex) = (ex_parser ex)\<lparr>hp_nread := 0\<rparr>"
  "ex_marks (reset_nread ex) = ex_marks ex" "ex_user (reset_nread ex) = ex_user ex"
  by (simp_all add: reset_nread_def)

text \<open>
  The rules below reduce a predicate on the outcome of a macro to the outcomes the macro ends with, so
  that a property of the code of a state is proved by going through its branches.
\<close>

named_theorems outcome_rules

lemma fail_outcome [outcome_rules]: "Q (fail e ex) \<longleftrightarrow> Q (Error (SET_ERRNO e ex))"
  by (simp add: fail_def)

lemma RETURN_outcome [outcome_rules]:
  "Q (RETURN v ex) \<longleftrightarrow> Q (Return v (upd (\<lambda>p. p\<lparr>hp_nread := ex_nread ex, hp_state := ex_state ex\<rparr>) ex))"
  by (simp add: RETURN_def)

lemma assert_outcome [outcome_rules]: "Q (assert_ex b o1) \<longleftrightarrow> (b \<longrightarrow> Q o1) \<and> (\<not> b \<longrightarrow> Q (Abort AssertFail))"
  by (simp add: assert_ex_def)

lemma STRICT_CHECK_outcome [outcome_rules]:
  "Q (STRICT_CHECK c ex o1) \<longleftrightarrow> (c \<longrightarrow> Q (Error (SET_ERRNO HPE_STRICT ex))) \<and> (\<not> c \<longrightarrow> Q o1)"
  by (simp add: STRICT_CHECK_def fail_def)

definition count_header :: "nat \<Rightarrow> 's exec \<Rightarrow> 's exec" where
  "count_header v ex = ex\<lparr>ex_nread := ex_nread ex + of_nat v\<rparr>"

lemma count_header_fields [simp]:
  "ex_p (count_header v ex) = ex_p ex" "ex_ch (count_header v ex) = ex_ch ex" "ex_state (count_header v ex) = ex_state ex"
  "ex_parser (count_header v ex) = ex_parser ex" "ex_marks (count_header v ex) = ex_marks ex"
  "ex_user (count_header v ex) = ex_user ex" "ex_nread (count_header v ex) = ex_nread ex + of_nat v"
  by (simp_all add: count_header_def)

lemma COUNT_outcome [outcome_rules]:
  "Q (COUNT_HEADER_SIZE v ex k) \<longleftrightarrow>
     (max_header_size < ex_nread (count_header v ex) \<longrightarrow> Q (Error (SET_ERRNO HPE_HEADER_OVERFLOW (count_header v ex)))) \<and>
     (\<not> max_header_size < ex_nread (count_header v ex) \<longrightarrow> Q (k (count_header v ex)))"
  by (simp add: COUNT_HEADER_SIZE_def Let_def fail_def count_header_def)

text \<open>The state a callback leaves: the structure holds the state, the user state is the one returned.\<close>

definition called :: "'s settings \<Rightarrow> parser_event \<Rightarrow> 's exec \<Rightarrow> 's exec" where
  "called cb ev ex = (let ex = upd (\<lambda>p. p\<lparr>hp_state := ex_state ex\<rparr>) ex in
     ex\<lparr>ex_user := snd (cb ev (ex_parser ex) (ex_user ex))\<rparr>)"

definition cb_fails :: "'s settings \<Rightarrow> parser_event \<Rightarrow> 's exec \<Rightarrow> bool" where
  "cb_fails cb ev ex \<longleftrightarrow> fst (cb ev ((ex_parser ex)\<lparr>hp_state := ex_state ex\<rparr>) (ex_user ex)) \<noteq> 0"

lemma called_fields [simp]:
  "ex_p (called cb ev ex) = ex_p ex" "ex_ch (called cb ev ex) = ex_ch ex" "ex_state (called cb ev ex) = ex_state ex"
  "ex_nread (called cb ev ex) = ex_nread ex" "ex_parser (called cb ev ex) = (ex_parser ex)\<lparr>hp_state := ex_state ex\<rparr>"
  "ex_marks (called cb ev ex) = ex_marks ex"
  "ex_user (called cb ev ex) = snd (cb ev ((ex_parser ex)\<lparr>hp_state := ex_state ex\<rparr>) (ex_user ex))"
  by (simp_all add: called_def Let_def)

lemma NOTIFY'_outcome [outcome_rules]:
  "Q (CALLBACK_NOTIFY' cb ev er ret ex k) \<longleftrightarrow>
     (http_errno (ex_parser ex) \<noteq> HPE_OK \<longrightarrow> Q (Abort AssertFail)) \<and>
     (http_errno (ex_parser ex) = HPE_OK \<longrightarrow>
       (cb_fails cb ev ex \<longrightarrow> Q (Return ret (SET_ERRNO er (called cb ev ex)))) \<and>
       (\<not> cb_fails cb ev ex \<longrightarrow> Q (k (called cb ev ex))))"
  by (simp add: CALLBACK_NOTIFY'_def assert_ex_def Let_def called_def cb_fails_def split: prod.splits)

lemma NOTIFY_outcome [outcome_rules]:
  "Q (CALLBACK_NOTIFY cb ev er ex k) \<longleftrightarrow> Q (CALLBACK_NOTIFY' cb ev er (ex_p ex + 1) ex k)"
  "Q (CALLBACK_NOTIFY_NOADVANCE cb ev er ex k) \<longleftrightarrow> Q (CALLBACK_NOTIFY' cb ev er (ex_p ex) ex k)"
  by (simp_all add: CALLBACK_NOTIFY_def CALLBACK_NOTIFY_NOADVANCE_def)

text \<open>The state after the data callback of a mark.\<close>

definition flushed :: "'s settings \<Rightarrow> u8 list \<Rightarrow> mark \<Rightarrow> nat \<Rightarrow> 's exec \<Rightarrow> 's exec" where
  "flushed cb data m e ex = (case ex_marks ex m of None \<Rightarrow> ex
     | Some i \<Rightarrow> (called cb (mark_event m (take (e - i) (drop i data))) ex)\<lparr>ex_marks := (ex_marks ex)(m := None)\<rparr>)"

lemma DATA'_outcome [outcome_rules]:
  "Q (CALLBACK_DATA' cb data m e ret ex k) \<longleftrightarrow>
     (http_errno (ex_parser ex) \<noteq> HPE_OK \<longrightarrow> Q (Abort AssertFail)) \<and>
     (http_errno (ex_parser ex) = HPE_OK \<longrightarrow>
       (\<forall>i. ex_marks ex m = Some i \<and> (e < i \<or> length data < e) \<longrightarrow> Q (Abort BufferOverflow)) \<and>
       (\<forall>i. ex_marks ex m = Some i \<and> \<not> (e < i \<or> length data < e) \<and>
            cb_fails cb (mark_event m (take (e - i) (drop i data))) ex \<longrightarrow>
          Q (Return ret (SET_ERRNO (mark_errno m) (called cb (mark_event m (take (e - i) (drop i data))) ex)))) \<and>
       ((\<forall>i. ex_marks ex m = Some i \<longrightarrow> \<not> (e < i \<or> length data < e) \<and> \<not> cb_fails cb (mark_event m (take (e - i) (drop i data))) ex) \<longrightarrow>
          Q (k (flushed cb data m e ex))))"
  by (cases "ex_marks ex m") (auto simp: CALLBACK_DATA'_def assert_outcome NOTIFY'_outcome flushed_def)

lemma DATA_outcome [outcome_rules]:
  "Q (CALLBACK_DATA cb data m ex k) \<longleftrightarrow> Q (CALLBACK_DATA' cb data m (ex_p ex) (ex_p ex + 1) ex k)"
  "Q (CALLBACK_DATA_NOADVANCE cb data m ex k) \<longleftrightarrow> Q (CALLBACK_DATA' cb data m (ex_p ex) (ex_p ex) ex k)"
  by (simp_all add: CALLBACK_DATA_def CALLBACK_DATA_NOADVANCE_def)

lemma flushed_fields [simp]:
  "ex_p (flushed cb data m e ex) = ex_p ex" "ex_ch (flushed cb data m e ex) = ex_ch ex"
  "ex_state (flushed cb data m e ex) = ex_state ex" "ex_nread (flushed cb data m e ex) = ex_nread ex"
  "ex_marks (flushed cb data m e ex) = (ex_marks ex)(m := None)"
  "hp_header_state (ex_parser (flushed cb data m e ex)) = hp_header_state (ex_parser ex)"
  "hp_flags (ex_parser (flushed cb data m e ex)) = hp_flags (ex_parser ex)"
  "hp_content_length (ex_parser (flushed cb data m e ex)) = hp_content_length (ex_parser ex)"
  "hp_type (ex_parser (flushed cb data m e ex)) = hp_type (ex_parser ex)"
  "hp_method (ex_parser (flushed cb data m e ex)) = hp_method (ex_parser ex)"
  "hp_index (ex_parser (flushed cb data m e ex)) = hp_index (ex_parser ex)"
  "http_errno (ex_parser (flushed cb data m e ex)) = http_errno (ex_parser ex)"
  "upgrade (ex_parser (flushed cb data m e ex)) = upgrade (ex_parser ex)"
  by (auto simp: flushed_def fun_eq_iff split: option.splits)

lemma complete_message_outcome [outcome_rules]:
  "Q (complete_message cb ex k) \<longleftrightarrow>
     Q (CALLBACK_NOTIFY' cb MessageComplete HPE_CB_message_complete (ex_p ex + 1) (UPDATE_STATE (NEW_MESSAGE (ex_parser ex)) ex) k)"
  by (simp add: complete_message_def NOTIFY_outcome)
subsection \<open>Progress\<close>

definition progress :: "u8 list \<Rightarrow> 's exec \<Rightarrow> 's outcome \<Rightarrow> bool" where
  "progress data ex out = (case out of
       Next e \<Rightarrow> ex_p ex < length data \<longrightarrow> ex_p ex \<le> ex_p e \<and> ex_p e < length data
     | Reexecute e \<Rightarrow> reexecute_rank (ex_state e) < reexecute_rank (ex_state ex) \<and>
         (ex_p ex < length data \<longrightarrow> ex_p ex \<le> ex_p e \<and> ex_p e < length data)
     | _ \<Rightarrow> True)"

lemmas progress_rules = outcome_rules [where Q = "progress data ex0" for data ex0]

lemma progress_simps [simp]:
  "progress data ex (Next e) \<longleftrightarrow> (ex_p ex < length data \<longrightarrow> ex_p ex \<le> ex_p e \<and> ex_p e < length data)"
  "progress data ex (Reexecute e) \<longleftrightarrow> reexecute_rank (ex_state e) < reexecute_rank (ex_state ex) \<and>
     (ex_p ex < length data \<longrightarrow> ex_p ex \<le> ex_p e \<and> ex_p e < length data)"
  "progress data ex (Return n e)" "progress data ex (Error e)" "progress data ex (Abort x)"
  by (simp_all add: progress_def)

lemma progress_start: "progress data ex (step_start cb ex)"
  by (cases "ex_state ex") (simp_all add: step_start_def Let_def progress_rules reexecute_rank_def)
lemma progress_status: "progress data ex (step_status cb data ex)"
  by (cases "ex_state ex") (simp_all add: step_status_def Let_def progress_rules reexecute_rank_def)

lemma progress_method: "progress data ex (step_method cb ex)"
  by (cases "ex_state ex") (simp_all add: step_method_def Let_def progress_rules reexecute_rank_def split: option.split)

lemma progress_url_next: "ex_p ex = ex_p ex0 \<Longrightarrow> progress data ex0 (url_next ex)"
  by (simp add: url_next_def Let_def progress_rules)

lemma progress_url: "progress data ex (step_url cb data ex)"
  by (cases "ex_state ex") (simp_all add: step_url_def Let_def progress_rules progress_url_next)

lemma progress_version: "progress data ex (step_version ex)"
  by (cases "ex_state ex") (simp_all add: step_version_def Let_def progress_rules)

lemma progress_header_field_start: "ex_state ex = s_header_field_start \<Longrightarrow> progress data ex (step_header_field_start ex)"
  by (simp add: step_header_field_start_def Let_def progress_rules reexecute_rank_def)

lemma skip_tokens_less: "p < pe \<Longrightarrow> skip_tokens data pe p < pe"
proof (induction data pe p rule: skip_tokens.induct)
  case (1 data pe p)
  then show ?case by (subst skip_tokens.simps) (auto simp del: One_nat_def)
qed

lemma search_end_le: "p \<le> length data \<Longrightarrow> search_end data p \<le> length data"
  by (simp add: search_end_def)

lemma search_end_greater: "p < length data \<Longrightarrow> p < search_end data p"
  by (simp add: search_end_def max_header_size_def)

text \<open>The ways on from a character of a field name.\<close>

lemma field_loop_cases:
  assumes "field_loop data p ch hp = r"
  obtains (stop) "length data \<le> p \<or> STRICT_TOKEN (data ! p) = 0" "r = Inr (p, if length data \<le> p then ch else data ! p, hp)"
  | (abort) e where "p < length data" "STRICT_TOKEN (data ! p) \<noteq> 0"
      "field_char (data ! p) (STRICT_TOKEN (data ! p)) hp = Inl e" "r = Inl e"
  | (char) hp' q where "p < length data" "field_char (data ! p) (STRICT_TOKEN (data ! p)) hp = Inr hp'"
      "STRICT_TOKEN (data ! p) \<noteq> 0" "p < q" "q \<le> length data" "r = field_loop data q (data ! p) hp'"
proof -
  let ?c = "STRICT_TOKEN (data ! p)" and ?q = "if hp_header_state hp = h_general then skip_tokens data (search_end data p) p else p"
  show ?thesis
  proof (cases "length data \<le> p \<or> ?c = 0")
    case True
    then show ?thesis using stop assms by (subst (asm) field_loop.simps) (auto simp: Let_def split: if_splits)
  next
    case False
    then have r: "r = (case field_char (data ! p) ?c hp of Inl e \<Rightarrow> Inl e | Inr hp' \<Rightarrow> field_loop data (?q + 1) (data ! p) hp')"
      using assms by (subst (asm) field_loop.simps) (auto simp: Let_def)
    have "p \<le> ?q" "?q < length data"
      using False skip_tokens_ge [of p data "search_end data p"] skip_tokens_less [OF search_end_greater, of p data data]
        search_end_le [of p data] by auto
    then show ?thesis using abort char [where q = "?q + 1"] r False by (cases "field_char (data ! p) ?c hp") auto
  qed
qed

lemma field_loop_range:
  assumes "field_loop data p ch hp = Inr (p', ch', hp')" "p \<le> length data"
  shows "p \<le> p' \<and> p' \<le> length data \<and> (p' < length data \<longrightarrow> ch' = data ! p' \<and> STRICT_TOKEN (data ! p') = 0)"
  using assms
proof (induction "length data - p" arbitrary: p ch hp rule: less_induct)
  case less
  from less.prems(1) show ?case
  proof (cases rule: field_loop_cases)
    case (char hp1 q)
    then show ?thesis using less.hyps [of q "data ! p" hp1] by (auto simp: diff_less_mono2)
  qed (use less.prems in auto)
qed

lemma scan_value_le: "p \<le> pe \<Longrightarrow> fst (scan_value lenient data pe p ch) \<le> pe"
proof (induction lenient data pe p ch rule: scan_value.induct)
  case (1 lenient data pe p ch)
  then show ?case by (subst scan_value.simps) (auto simp: Let_def)
qed

lemma scan_value_bad_less: "p \<le> pe \<Longrightarrow> snd (snd (scan_value lenient data pe p ch)) \<Longrightarrow> fst (scan_value lenient data pe p ch) < pe"
proof (induction lenient data pe p ch rule: scan_value.induct)
  case (1 lenient data pe p ch)
  from "1.prems" "1.IH" show ?case
    by (subst scan_value.simps, subst (asm) (2) scan_value.simps) (auto simp: Let_def split: if_splits)
qed

text \<open>The two ways on from a character of a value that does not end the loop.\<close>

lemma value_loop_cases:
  assumes "value_loop data p ch h hp = r"
  obtains (stop) v where "r = Inr (v, p, if length data \<le> p then ch else data ! p, h, hp)"
      and "v = V_end \<longleftrightarrow> length data \<le> p" "v \<noteq> V_length" "v = V_lf \<Longrightarrow> data ! p = LF"
  | (token) p' ch' where "p < length data" "r = Inr (V_token, p', ch', h, hp)" "p \<le> p'" "p' < length data"
  | (scan) p' ch' where "p < length data" "h = h_general" "p < p'" "p' \<le> length data" "r = value_loop data p' ch' h hp"
  | (abort) e where "p < length data" "h \<noteq> h_general" "value_char (data ! p) h hp = Inl e" "r = Inl e"
  | (refuse) h' hp' where "p < length data" "value_char (data ! p) h hp = Inr (True, h', hp')" "h \<noteq> h_general"
      "r = Inr (V_length, p, data ! p, h', hp')"
  | (char) h' hp' where "p < length data" "value_char (data ! p) h hp = Inr (False, h', hp')" "h \<noteq> h_general"
      "r = value_loop data (p + 1) (data ! p) h' hp'"
proof -
  let ?c = "data ! p"
  show ?thesis
  proof (cases "length data \<le> p \<or> ?c = CR \<or> ?c = LF \<or> \<not> hp_lenient hp \<and> \<not> IS_HEADER_CHAR ?c")
    case True
    have "\<exists>v. r = Inr (v, p, if length data \<le> p then ch else ?c, h, hp) \<and> (v = V_end \<longleftrightarrow> length data \<le> p) \<and>
        v \<noteq> V_length \<and> (v = V_lf \<longrightarrow> ?c = LF)"
      using assms True by (subst (asm) value_loop.simps) (auto simp: Let_def split: if_splits)
    then show ?thesis using stop by blast
  next
    case False
    then have p: "p < length data" and cl: "?c \<noteq> CR" "?c \<noteq> LF" and ok: "\<not> (\<not> hp_lenient hp \<and> \<not> IS_HEADER_CHAR ?c)" by auto
    show ?thesis
    proof (cases "h = h_general")
      case True
      obtain p' ch' bad where s: "scan_value (hp_lenient hp) data (search_end data p) p ?c = (p', ch', bad)" by (metis prod_cases3)
      have b: "p \<le> p'" "p' \<le> length data" "bad \<Longrightarrow> p' < length data"
        using scan_value_progress [OF cl, of "hp_lenient hp" "search_end data p" ?c]
          scan_value_le [of p "search_end data p" "hp_lenient hp" data ?c] search_end_le [of p data]
          scan_value_bad_less [of p "search_end data p" "hp_lenient hp" data ?c] search_end_greater [OF p] p s by auto
      show ?thesis
      proof (cases bad)
        case True
        then have "r = Inr (V_token, p', ch', h, hp)"
          using assms p cl ok s \<open>h = h_general\<close> by (subst (asm) value_loop.simps) (auto simp: Let_def)
        then show ?thesis using token p b True by blast
      next
        case False
        let ?q = "(if p' = length data then p' - 1 else p') + 1"
        have "r = value_loop data ?q ch' h hp"
          using assms p cl ok s False \<open>h = h_general\<close> by (subst (asm) value_loop.simps) (auto simp: Let_def)
        then show ?thesis using scan [OF p True, of ?q ch'] b p by (auto split: if_splits)
      qed
    next
      case False
      then have r: "r = (case value_char ?c h hp of Inl e \<Rightarrow> Inl e
          | Inr (bad, h', hp') \<Rightarrow> if bad then Inr (V_length, p, ?c, h', hp') else value_loop data (p + 1) ?c h' hp')"
        using assms p cl ok by (subst (asm) value_loop.simps) (auto simp: Let_def)
      show ?thesis
        using abort [OF p False] refuse [OF p] char [OF p] False r
        by (cases "value_char ?c h hp") (auto split: if_splits)
    qed
  qed
qed


lemma value_loop_range:
  assumes "value_loop data p ch h hp = Inr (v, p', ch', h', hp')" "p \<le> length data"
  shows "p \<le> p' \<and> p' \<le> length data \<and> (v = V_end \<longleftrightarrow> p' = length data) \<and> (v = V_lf \<longrightarrow> ch' = LF)"
  using assms
proof (induction "length data - p" arbitrary: p ch h hp rule: less_induct)
  case less
  from less.prems(1) show ?case
  proof (cases rule: value_loop_cases)
    case (scan q c)
    then show ?thesis using less.hyps [of q c h hp] by (auto simp: diff_less_mono2)
  next
    case (char h1 hp1)
    then show ?thesis using less.hyps [of "p + 1" "data ! p" h1 hp1] by (auto simp: diff_less_mono2)
  qed (use less.prems in \<open>auto split: if_splits\<close>)
qed
lemma progress_header_field: "progress data ex (step_header_field cb data ex)"
proof (cases "field_loop data (ex_p ex) (ex_ch ex) (ex_parser ex)")
  case (Inr r)
  obtain p ch hp where "r = (p, ch, hp)" by (metis prod_cases3)
  then show ?thesis using Inr field_loop_range [of data "ex_p ex" "ex_ch ex" "ex_parser ex" p ch hp]
    by (auto simp: step_header_field_def Let_def progress_rules)
qed (simp add: step_header_field_def)

lemma progress_value_start: "progress data ex (value_start ex)"
  by (cases "hp_header_state (ex_parser ex)") (simp_all add: value_start_def Let_def progress_rules)

lemma progress_value_discard_ws: "progress data ex (step_value_discard_ws ex)"
  by (simp add: step_value_discard_ws_def Let_def progress_value_start)

lemma progress_header_value: "ex_state ex = s_header_value \<Longrightarrow> progress data ex (step_header_value cb data ex)"
proof (cases "value_loop data (ex_p ex) (ex_ch ex) (hp_header_state (ex_parser ex)) (ex_parser ex)")
  case (Inr r)
  assume "ex_state ex = s_header_value"
  moreover obtain v p ch h hp where "r = (v, p, ch, h, hp)" by (metis prod_cases5)
  ultimately show ?thesis
    using Inr value_loop_range [of data "ex_p ex" "ex_ch ex" "hp_header_state (ex_parser ex)" "ex_parser ex" v p ch h hp]
    by (cases v) (auto simp: step_header_value_def Let_def progress_rules reexecute_rank_def)
qed (simp add: step_header_value_def)

lemma progress_value_end: "progress data ex (step_value_end cb data ex)"
  by (cases "ex_state ex") (simp_all add: step_value_end_def Let_def progress_rules reexecute_rank_def)

lemma progress_headers_almost_done:
  "ex_state ex = s_headers_almost_done \<Longrightarrow> progress data ex (step_headers_almost_done cb ex)"
  by (simp add: step_headers_almost_done_def Let_def progress_rules reexecute_rank_def split: prod.split)

lemma progress_headers_done: "progress data ex (step_headers_done cb ex)"
  by (simp add: step_headers_done_def Let_def progress_rules)

lemma take_body_fields:
  "ex_state (take_body data ex) = ex_state ex" "ex_nread (take_body data ex) = ex_nread ex"
  "ex_p ex < length data \<Longrightarrow> ex_p ex \<le> ex_p (take_body data ex) \<and> ex_p (take_body data ex) < length data"
  by (auto simp: take_body_def Let_def)

lemma progress_body: "progress data ex (step_body cb data ex)"
  by (cases "ex_state ex")
    (auto simp: step_body_def Let_def progress_rules take_body_fields reexecute_rank_def)

lemma progress_chunk: "progress data ex (step_chunk cb data ex)"
  by (cases "ex_state ex")
    (simp_all add: step_chunk_def Let_def progress_rules take_body_fields split: option.split)

lemmas progress_states = progress_start progress_status progress_method progress_url progress_version
  progress_header_field_start progress_header_field progress_value_discard_ws progress_value_start
  progress_header_value progress_value_end progress_headers_almost_done progress_headers_done progress_body
  progress_chunk

lemma step_progress: "progress data ex (step cb data ex)"
  by (simp add: step_def Let_def progress_states)

text \<open>The states that handle one byte: \<open>goto reexecute\<close> until the byte is done with.\<close>

function reexecute :: "'s settings \<Rightarrow> u8 list \<Rightarrow> 's exec \<Rightarrow> 's outcome" where
  "reexecute cb data ex = (case step cb data ex of Reexecute ex' \<Rightarrow> reexecute cb data ex' | out \<Rightarrow> out)"
  by pat_completeness auto
termination
proof (relation "measure (\<lambda>(cb, data, ex). reexecute_rank (ex_state ex))", goal_cases)
  case (2 cb data ex ex')
  then show ?case using step_progress [of data ex cb] by simp
qed simp

declare reexecute.simps [simp del]

lemma reexecute_progress:
  assumes "reexecute cb data ex = Next e" "ex_p ex < length data"
  shows "ex_p ex \<le> ex_p e \<and> ex_p e < length data"
  using assms
proof (induction cb data ex rule: reexecute.induct)
  case (1 cb data ex)
  show ?case
    using "1.prems" "1.IH" step_progress [of data ex cb] reexecute.simps [of cb data ex]
    by (cases "step cb data ex") (auto simp: order_trans)
qed

definition fetch :: "'s settings \<Rightarrow> u8 list \<Rightarrow> 's exec \<Rightarrow> 's outcome" where
  "fetch cb data ex = (let ex = ex\<lparr>ex_ch := data ! ex_p ex\<rparr> in
     if PARSING_HEADER (ex_state ex) then COUNT_HEADER_SIZE 1 ex (reexecute cb data) else reexecute cb data ex)"

lemma fetch_progress: "fetch cb data ex = Next e \<Longrightarrow> ex_p ex < length data \<Longrightarrow> ex_p ex \<le> ex_p e \<and> ex_p e < length data"
  by (auto simp: fetch_def Let_def COUNT_HEADER_SIZE_def fail_def dest: reexecute_progress split: if_splits)

function exec_loop :: "'s settings \<Rightarrow> u8 list \<Rightarrow> 's exec \<Rightarrow> 's outcome" where
  "exec_loop cb data ex =
     (if length data \<le> ex_p ex then Next ex
      else case fetch cb data ex of
        Next ex' \<Rightarrow> exec_loop cb data (ex'\<lparr>ex_p := ex_p ex' + 1\<rparr>)
      | out \<Rightarrow> out)"
  by pat_completeness auto
termination
proof (relation "measure (\<lambda>(cb, data, ex). length data - ex_p ex)", goal_cases)
  case (2 cb data ex ex')
  then show ?case using fetch_progress [of cb data ex ex'] by auto
qed simp

declare exec_loop.simps [simp del]

text \<open>The callbacks of the marks that are left, and \<open>RETURN(len)\<close>.\<close>

definition flush_marks :: "'s settings \<Rightarrow> u8 list \<Rightarrow> 's exec \<Rightarrow> 's outcome" where
  "flush_marks cb data ex =
     assert_ex (length (filter (\<lambda>m. ex_marks ex m \<noteq> None) [Mheader_field, Mheader_value, Murl, Mbody, Mstatus]) \<le> 1)
      (CALLBACK_DATA_NOADVANCE cb data Mheader_field ex (\<lambda>ex.
       CALLBACK_DATA_NOADVANCE cb data Mheader_value ex (\<lambda>ex.
       CALLBACK_DATA_NOADVANCE cb data Murl ex (\<lambda>ex.
       CALLBACK_DATA_NOADVANCE cb data Mbody ex (\<lambda>ex.
       CALLBACK_DATA_NOADVANCE cb data Mstatus ex (\<lambda>ex. RETURN (length data) ex))))))"

text \<open>The label \<open>error\<close>.\<close>

definition error_exit :: "'s exec \<Rightarrow> 's outcome" where
  "error_exit ex = RETURN (ex_p ex) (if http_errno (ex_parser ex) = HPE_OK then SET_ERRNO HPE_UNKNOWN ex else ex)"

definition url_states :: "p_state list" where
  "url_states = [s_req_path, s_req_schema, s_req_schema_slash, s_req_schema_slash_slash, s_req_server_start,
     s_req_server, s_req_server_with_at, s_req_query_string_start, s_req_query_string, s_req_fragment_start, s_req_fragment]"

definition first_marks :: "p_state \<Rightarrow> mark \<Rightarrow> nat option" where
  "first_marks s m = (if m = Mheader_field \<and> s = s_header_field \<or> m = Mheader_value \<and> s = s_header_value \<or>
     m = Murl \<and> s \<in> set url_states \<or> m = Mstatus \<and> s = s_res_status then Some 0 else None)"

definition execute_eof :: "'s settings \<Rightarrow> 's exec \<Rightarrow> 's outcome" where
  "execute_eof cb ex =
     (if ex_state ex = s_body_identity_eof then
        CALLBACK_NOTIFY_NOADVANCE cb MessageComplete HPE_CB_message_complete ex (\<lambda>ex. Return 0 ex)
      else if ex_state ex \<in> set [s_dead, s_start_req_or_res, s_start_res, s_start_req] then Return 0 ex
      else Return 1 (SET_ERRNO HPE_INVALID_EOF_STATE ex))"

definition start_exec :: "http_parser \<Rightarrow> 's \<Rightarrow> 's exec" where
  "start_exec hp u = \<lparr>ex_p = 0, ex_ch = 0, ex_state = hp_state hp, ex_nread = hp_nread hp, ex_parser = hp,
     ex_marks = first_marks (hp_state hp), ex_user = u\<rparr>"

definition http_parser_execute :: "'s settings \<Rightarrow> http_parser \<Rightarrow> u8 list \<Rightarrow> 's \<Rightarrow> (nat \<times> http_parser \<times> 's) result" where
  "http_parser_execute cb hp data u =
     (if http_errno hp \<noteq> HPE_OK then Inr (0, hp, u)
      else case (if data = [] then execute_eof cb (start_exec hp u)
          else case exec_loop cb data (start_exec hp u) of
            Next ex \<Rightarrow> flush_marks cb data ex
          | Error ex \<Rightarrow> error_exit ex
          | out \<Rightarrow> out) of
        Return n ex \<Rightarrow> Inr (n, ex_parser ex, ex_user ex)
      | Abort e \<Rightarrow> Inl e
      | _ \<Rightarrow> Inl LogicError)"

end
