(* ===== verification/HttpSafe.thy ===== *)
theory HttpSafe
  imports HttpExecute
begin

text \<open>
  What \<open>http_parser_execute\<close> promises its callers, for every buffer and every set of callbacks: no assertion
  of the library fails and no index leaves its array, the count it returns lies in the buffer, the
  structure it leaves can be given the next buffer, and the callbacks come in the order of a message.
  The order is the interface between the library and the callbacks: the locale \<open>parser_client\<close>.
\<close>

subsection \<open>Flags\<close>

lemma has_flag_add_flag [simp]: "has_flag g (add_flag f p) \<longleftrightarrow> has_flag g p \<or> f AND g \<noteq> 0"
  by (simp add: has_flag_def add_flag_def bit.conj_disj_distrib2 or_eq_0_iff)

lemma has_flag_frame [simp]:
  "has_flag f (p\<lparr>hp_type := a\<rparr>) = has_flag f p" "has_flag f (p\<lparr>hp_state := b\<rparr>) = has_flag f p"
  "has_flag f (p\<lparr>hp_header_state := c\<rparr>) = has_flag f p" "has_flag f (p\<lparr>hp_index := d\<rparr>) = has_flag f p"
  "has_flag f (p\<lparr>hp_nread := e\<rparr>) = has_flag f p" "has_flag f (p\<lparr>hp_content_length := g\<rparr>) = has_flag f p"
  "has_flag f (p\<lparr>http_major := h\<rparr>) = has_flag f p" "has_flag f (p\<lparr>http_minor := h\<rparr>) = has_flag f p"
  "has_flag f (p\<lparr>status_code := d\<rparr>) = has_flag f p" "has_flag f (p\<lparr>hp_method := i\<rparr>) = has_flag f p"
  "has_flag f (p\<lparr>http_errno := j\<rparr>) = has_flag f p" "has_flag f (p\<lparr>upgrade := k\<rparr>) = has_flag f p"
  "has_flag f (p\<lparr>hp_flags := 0\<rparr>) = False" "has_flag f (set_hs c p) = has_flag f p" "has_flag f (inc_index p) = has_flag f p"
  by (simp_all add: has_flag_def set_hs_def inc_index_def)

lemma add_flag_fields [simp]:
  "hp_type (add_flag f p) = hp_type p" "hp_state (add_flag f p) = hp_state p" "hp_header_state (add_flag f p) = hp_header_state p"
  "hp_index (add_flag f p) = hp_index p" "hp_nread (add_flag f p) = hp_nread p" "hp_content_length (add_flag f p) = hp_content_length p"
  "hp_method (add_flag f p) = hp_method p" "http_errno (add_flag f p) = http_errno p" "upgrade (add_flag f p) = upgrade p"
  "hp_lenient (add_flag f p) = hp_lenient p"
  by (simp_all add: add_flag_def)

lemma set_hs_fields [simp]:
  "hp_type (set_hs f p) = hp_type p" "hp_state (set_hs f p) = hp_state p" "hp_header_state (set_hs f p) = f"
  "hp_index (set_hs f p) = hp_index p" "hp_nread (set_hs f p) = hp_nread p" "hp_content_length (set_hs f p) = hp_content_length p"
  "hp_method (set_hs f p) = hp_method p" "http_errno (set_hs f p) = http_errno p" "upgrade (set_hs f p) = upgrade p"
  "hp_lenient (set_hs f p) = hp_lenient p" "hp_flags (set_hs f p) = hp_flags p"
  by (simp_all add: set_hs_def)

lemma inc_index_fields [simp]:
  "hp_type (inc_index p) = hp_type p" "hp_state (inc_index p) = hp_state p" "hp_header_state (inc_index p) = hp_header_state p"
  "hp_index (inc_index p) = (hp_index p + 1) mod 128" "hp_nread (inc_index p) = hp_nread p"
  "hp_content_length (inc_index p) = hp_content_length p" "hp_method (inc_index p) = hp_method p"
  "http_errno (inc_index p) = http_errno p" "upgrade (inc_index p) = upgrade p" "hp_lenient (inc_index p) = hp_lenient p"
  "hp_flags (inc_index p) = hp_flags p"
  by (simp_all add: inc_index_def)

lemma flushed_flag [simp]: "has_flag f (ex_parser (flushed cb data m e ex)) = has_flag f (ex_parser ex)"
  by (simp add: has_flag_def)

lemma flushed_user [simp]:
  "ex_marks ex m = Some i \<Longrightarrow> ex_user (flushed cb data m e ex) =
     snd (cb (mark_event m (take (e - i) (drop i data))) ((ex_parser ex)\<lparr>hp_state := ex_state ex\<rparr>) (ex_user ex))"
  "ex_marks ex m = None \<Longrightarrow> flushed cb data m e ex = ex"
  by (simp_all add: flushed_def)

lemmas flag_defs = F_CHUNKED_def F_CONNECTION_KEEP_ALIVE_def F_CONNECTION_CLOSE_def F_CONNECTION_UPGRADE_def
  F_TRAILING_def F_UPGRADE_def F_SKIPBODY_def F_CONTENTLENGTH_def

subsection \<open>Methods\<close>

lemma length_bytes: "length (bytes s) = length s"
  by (simp add: bytes_def)

lemma method_str_lengths:
  "map length s_method_string = [6, 3, 4, 4, 3, 7, 7, 5, 4, 4, 5, 4, 8, 9, 6, 6, 4, 6, 6, 3, 6, 10, 8, 5, 8, 6, 9, 11, 5, 5, 10, 4, 6, 6]"
  by (simp add: s_method_string_def HTTP_METHOD_MAP_def length_bytes)

lemma method_str_length:
  "length (http_method_str m) = (if method_value m < 34 then map length s_method_string ! method_value m else 9)"
  by (auto simp: http_method_str_def length_bytes)

lemma method_str_bounds: "2 < length (http_method_str m) \<and> length (http_method_str m) < 100"
proof -
  have "list_all (\<lambda>n. 2 < n \<and> n < 100) (map length s_method_string)" by (simp add: method_str_lengths)
  then show ?thesis by (auto simp: method_str_length list_all_length)
qed

lemma method_switch_index: "map_of method_switch (m, i, c) = Some m' \<Longrightarrow> i < length (http_method_str m')"
proof -
  have "list_all (\<lambda>((m, i, c), m'). i \<le> 2 \<or> i < 5 \<and> m' \<in> {PROPPATCH, MKCALENDAR, UNLINK}) method_switch"
    by (simp add: method_switch_def)
  moreover have "method_value PROPPATCH = 13" "method_value MKCALENDAR = 30" "method_value UNLINK = 32"
    by (simp_all add: method_value_def HTTP_METHOD_MAP_def)
  then have "5 \<le> length (http_method_str m')" if "m' \<in> {PROPPATCH, MKCALENDAR, UNLINK}" for m'
    using that by (auto simp: method_str_length method_str_lengths)
  ultimately show "map_of method_switch (m, i, c) = Some m' \<Longrightarrow> i < length (http_method_str m')"
    using map_of_SomeD [of method_switch "(m, i, c)" m'] method_str_bounds [of m'] unfolding list_all_iff by fastforce
qed

lemma char_at_end: "i \<le> length w \<Longrightarrow> char_at w i \<noteq> 0 \<Longrightarrow> i < length w"
  by (cases "i = length w") (simp_all add: char_at_def)

subsection \<open>The order of the callbacks\<close>

text \<open>Where in a message the callbacks are; the flag says whether the headers are the trailer of a chunked body.\<close>

datatype phase = Idle | Line | Name bool | Value bool | Body

fun next_phase :: "phase \<Rightarrow> parser_event \<Rightarrow> phase option" where
  "next_phase Idle MessageBegin = Some Line"
| "next_phase Line (Url _) = Some Line"
| "next_phase Line (StatusText _) = Some Line"
| "next_phase Line (HeaderField _) = Some (Name False)"
| "next_phase Line HeadersComplete = Some Body"
| "next_phase (Name t) (HeaderField _) = Some (Name t)"
| "next_phase (Name t) (HeaderValue _) = Some (Value t)"
| "next_phase (Value t) (HeaderValue _) = Some (Value t)"
| "next_phase (Value t) (HeaderField _) = Some (Name t)"
| "next_phase (Value False) HeadersComplete = Some Body"
| "next_phase (Value True) ChunkComplete = Some Body"
| "next_phase Body (BodyPart _) = Some Body"
| "next_phase Body ChunkHeader = Some Body"
| "next_phase Body ChunkComplete = Some Body"
| "next_phase Body (HeaderField _) = Some (Name True)"
| "next_phase Body MessageComplete = Some Idle"
| "next_phase _ _ = None"

text \<open>The phases the callbacks may be in when the machine is in a state.\<close>

definition phases :: "p_state \<Rightarrow> bool \<Rightarrow> phase list" where
  "phases s t = (case s of
       s_dead \<Rightarrow> [Idle] | s_start_req_or_res \<Rightarrow> [Idle] | s_start_res \<Rightarrow> [Idle] | s_start_req \<Rightarrow> [Idle]
     | s_header_field_start \<Rightarrow> (if t then [Body, Value True] else [Line, Value False])
     | s_headers_almost_done \<Rightarrow> (if t then [Body, Value True] else [Line, Value False])
     | s_header_field \<Rightarrow> (if t then [Body, Value True, Name True] else [Line, Value False, Name False])
     | s_header_value_discard_ws \<Rightarrow> [Name t] | s_header_value_discard_ws_almost_done \<Rightarrow> [Name t]
     | s_header_value_discard_lws \<Rightarrow> [Name t]
     | s_header_value_start \<Rightarrow> [Name t, Value t] | s_header_value \<Rightarrow> [Name t, Value t]
     | s_header_value_lws \<Rightarrow> [Value t] | s_header_almost_done \<Rightarrow> [Value t]
     | s_headers_done \<Rightarrow> [Body] | s_chunk_size_start \<Rightarrow> [Body] | s_chunk_size \<Rightarrow> [Body] | s_chunk_parameters \<Rightarrow> [Body]
     | s_chunk_size_almost_done \<Rightarrow> [Body] | s_chunk_data \<Rightarrow> [Body] | s_chunk_data_almost_done \<Rightarrow> [Body]
     | s_chunk_data_done \<Rightarrow> [Body] | s_body_identity \<Rightarrow> [Body] | s_body_identity_eof \<Rightarrow> [Body] | s_message_done \<Rightarrow> [Body]
     | _ \<Rightarrow> (if t then [] else [Line]))"

definition moves :: "p_state \<Rightarrow> bool \<Rightarrow> parser_event \<Rightarrow> p_state \<Rightarrow> bool \<Rightarrow> bool" where
  "moves s t ev s' t' \<longleftrightarrow>
     list_all (\<lambda>ph. case next_phase ph ev of None \<Rightarrow> False | Some ph' \<Rightarrow> ph' \<in> set (phases s' t')) (phases s t)"

definition heard :: "p_state \<Rightarrow> bool \<Rightarrow> parser_event \<Rightarrow> bool" where
  "heard s t ev \<longleftrightarrow> list_all (\<lambda>ph. next_phase ph ev \<noteq> None) (phases s t)"

abbreviation trailing :: "http_parser \<Rightarrow> bool" where "trailing hp \<equiv> has_flag F_TRAILING hp"

subsection \<open>The invariant of the structure\<close>

definition field_hs :: "header_states list" where
  "field_hs = [h_general, h_C, h_CO, h_CON, h_matching_connection, h_matching_proxy_connection,
     h_matching_content_length, h_matching_transfer_encoding, h_matching_upgrade, h_connection, h_content_length,
     h_transfer_encoding, h_upgrade]"

definition value_hs :: "header_states list" where
  "value_hs = [h_general, h_content_length_num, h_content_length_ws, h_matching_transfer_encoding_chunked,
     h_matching_connection_token_start, h_matching_connection_keep_alive, h_matching_connection_close,
     h_matching_connection_upgrade, h_matching_connection_token, h_transfer_encoding_chunked,
     h_connection_keep_alive, h_connection_close, h_connection_upgrade]"

definition length_known :: "http_parser \<Rightarrow> bool" where
  "length_known hp \<longleftrightarrow> hp_content_length hp \<noteq> 0 \<and> hp_content_length hp \<noteq> ULLONG_MAX"

text \<open>\<open>k\<close> is the number of bytes of a chunk size counted when it starts: 0 between two bytes, 1 at its first byte.\<close>

definition state_ok :: "u32 \<Rightarrow> p_state \<Rightarrow> u32 \<Rightarrow> http_parser \<Rightarrow> bool" where
  "state_ok k s nread hp = (case s of
       s_req_method \<Rightarrow> 1 \<le> hp_index hp \<and> hp_index hp \<le> length (http_method_str (hp_method hp))
     | s_header_field \<Rightarrow> hp_header_state hp \<in> set field_hs
     | s_header_value \<Rightarrow> hp_header_state hp \<in> set value_hs
     | s_chunk_size_start \<Rightarrow> nread = k \<and> has_flag F_CHUNKED hp
     | s_chunk_size \<Rightarrow> hp_content_length hp \<noteq> ULLONG_MAX \<and> has_flag F_CHUNKED hp
     | s_chunk_parameters \<Rightarrow> hp_content_length hp \<noteq> ULLONG_MAX \<and> has_flag F_CHUNKED hp
     | s_chunk_size_almost_done \<Rightarrow> hp_content_length hp \<noteq> ULLONG_MAX \<and> has_flag F_CHUNKED hp
     | s_chunk_data \<Rightarrow> length_known hp \<and> has_flag F_CHUNKED hp
     | s_chunk_data_almost_done \<Rightarrow> hp_content_length hp = 0 \<and> has_flag F_CHUNKED hp
     | s_chunk_data_done \<Rightarrow> has_flag F_CHUNKED hp
     | s_body_identity \<Rightarrow> length_known hp
     | _ \<Rightarrow> True)"

text \<open>The mark that is set in a state; in the states of a body it may be.\<close>

definition state_mark :: "p_state \<Rightarrow> mark option" where
  "state_mark s = (case s of
       s_header_field \<Rightarrow> Some Mheader_field | s_header_value \<Rightarrow> Some Mheader_value | s_res_status \<Rightarrow> Some Mstatus
     | s_req_path \<Rightarrow> Some Murl | s_req_schema \<Rightarrow> Some Murl | s_req_schema_slash \<Rightarrow> Some Murl
     | s_req_schema_slash_slash \<Rightarrow> Some Murl | s_req_server_start \<Rightarrow> Some Murl | s_req_server \<Rightarrow> Some Murl
     | s_req_server_with_at \<Rightarrow> Some Murl | s_req_query_string_start \<Rightarrow> Some Murl | s_req_query_string \<Rightarrow> Some Murl
     | s_req_fragment_start \<Rightarrow> Some Murl | s_req_fragment \<Rightarrow> Some Murl
     | _ \<Rightarrow> None)"

definition body_state :: "p_state \<Rightarrow> bool" where
  "body_state s = (case s of s_body_identity \<Rightarrow> True | s_body_identity_eof \<Rightarrow> True | s_chunk_data \<Rightarrow> True
     | s_chunk_data_almost_done \<Rightarrow> True | _ \<Rightarrow> False)"

definition marks_ok :: "p_state \<Rightarrow> nat \<Rightarrow> (mark \<Rightarrow> nat option) \<Rightarrow> bool" where
  "marks_ok s p mk = (case state_mark s of
       Some m \<Rightarrow> \<exists>i\<le>p. mk = [m \<mapsto> i]
     | None \<Rightarrow> mk = Map.empty \<or> body_state s \<and> (\<exists>i\<le>p. mk = [Mbody \<mapsto> i]))"

lemma single_mark_eq [simp]: "[m \<mapsto> i] = [m \<mapsto> j] \<longleftrightarrow> i = j"
  by (metis fun_upd_same option.inject)

lemma first_marks_ok: "marks_ok s p (first_marks s)"
  by (cases s) (auto simp: marks_ok_def state_mark_def first_marks_def url_states_def fun_eq_iff)

lemma MARK_marks [simp]:
  "ex_marks (MARK m ex) = (if ex_marks ex m = None then (ex_marks ex)(m \<mapsto> ex_p ex) else ex_marks ex)"
  by (simp add: fun_eq_iff)

definition hp_ok :: "http_parser \<Rightarrow> bool" where
  "hp_ok hp \<longleftrightarrow> http_errno hp = HPE_OK \<longrightarrow>
     state_ok 0 (hp_state hp) (hp_nread hp) hp \<and> phases (hp_state hp) (trailing hp) \<noteq> []"

locale parser_client =
  fixes cb :: "'s settings" and I :: "phase \<Rightarrow> 's \<Rightarrow> bool"
  assumes in_order: "I ph u \<Longrightarrow> next_phase ph ev = Some ph' \<Longrightarrow> cb ev hp u = (r, u') \<Longrightarrow> I ph' u'"
begin

definition tracks :: "p_state \<Rightarrow> bool \<Rightarrow> 's \<Rightarrow> bool" where
  "tracks s t u \<longleftrightarrow> (\<exists>ph\<in>set (phases s t). I ph u)"

definition somewhere :: "'s \<Rightarrow> bool" where "somewhere u \<longleftrightarrow> (\<exists>ph. I ph u)"

definition ok_ex :: "u32 \<Rightarrow> u8 list \<Rightarrow> 's exec \<Rightarrow> bool" where
  "ok_ex k data ex \<longleftrightarrow> ex_p ex < length data \<and> http_errno (ex_parser ex) = HPE_OK \<and>
     state_ok k (ex_state ex) (ex_nread ex) (ex_parser ex) \<and> marks_ok (ex_state ex) (ex_p ex) (ex_marks ex) \<and>
     tracks (ex_state ex) (trailing (ex_parser ex)) (ex_user ex)"

definition safe :: "u8 list \<Rightarrow> 's outcome \<Rightarrow> bool" where
  "safe data out = (case out of
       Next e \<Rightarrow> ok_ex 0 data e
     | Reexecute e \<Rightarrow> ok_ex 1 data e
     | Return n e \<Rightarrow> n \<le> length data \<and> somewhere (ex_user e) \<and> (http_errno (ex_parser e) = HPE_OK \<longrightarrow>
         state_ok 0 (hp_state (ex_parser e)) (hp_nread (ex_parser e)) (ex_parser e) \<and> upgrade (ex_parser e) \<and>
         tracks (hp_state (ex_parser e)) (trailing (ex_parser e)) (ex_user e))
     | Error e \<Rightarrow> ex_p e \<le> length data \<and> somewhere (ex_user e)
     | Abort e \<Rightarrow> False)"

lemmas safe_rules = outcome_rules [where Q = "safe data" for data]

lemma safe_simps [simp]:
  "safe data (Next e) = ok_ex 0 data e" "safe data (Reexecute e) = ok_ex 1 data e"
  "safe data (Return n e) \<longleftrightarrow> n \<le> length data \<and> somewhere (ex_user e) \<and> (http_errno (ex_parser e) = HPE_OK \<longrightarrow>
     state_ok 0 (hp_state (ex_parser e)) (hp_nread (ex_parser e)) (ex_parser e) \<and> upgrade (ex_parser e) \<and>
     tracks (hp_state (ex_parser e)) (trailing (ex_parser e)) (ex_user e))"
  "safe data (Error e) \<longleftrightarrow> ex_p e \<le> length data \<and> somewhere (ex_user e)"
  "\<not> safe data (Abort x)"
  by (simp_all add: safe_def)

lemma tracks_somewhere: "tracks s t u \<Longrightarrow> somewhere u"
  by (auto simp: tracks_def somewhere_def)

lemma tracks_stay: "tracks s t u \<Longrightarrow> list_all (\<lambda>ph. ph \<in> set (phases s' t')) (phases s t) \<Longrightarrow> tracks s' t' u"
  by (auto simp: tracks_def list_all_iff)

lemma in_order_snd: "I ph u \<Longrightarrow> next_phase ph ev = Some ph' \<Longrightarrow> I ph' (snd (cb ev hp u))"
  by (metis in_order prod.collapse)

lemma tracks_moves: "tracks s t u \<Longrightarrow> moves s t ev s' t' \<Longrightarrow> tracks s' t' (snd (cb ev hp u))"
  unfolding tracks_def moves_def list_all_iff
  by (metis (no_types, lifting) in_order option.case_eq_if option.collapse prod.collapse)

lemma tracks_heard: "tracks s t u \<Longrightarrow> heard s t ev \<Longrightarrow> somewhere (snd (cb ev hp u))"
  unfolding tracks_def heard_def list_all_iff somewhere_def
  by (metis in_order option.collapse prod.collapse)

lemmas track_defs = moves_def heard_def phases_def

text \<open>What the invariant gives in a state.\<close>

lemma ok_exD:
  assumes "ok_ex k data ex"
  shows "ex_p ex < length data" "http_errno (ex_parser ex) = HPE_OK"
    "state_ok k (ex_state ex) (ex_nread ex) (ex_parser ex)" "marks_ok (ex_state ex) (ex_p ex) (ex_marks ex)"
    "tracks (ex_state ex) (trailing (ex_parser ex)) (ex_user ex)" "somewhere (ex_user ex)"
    "moves (ex_state ex) (trailing (ex_parser ex)) ev s' t' \<Longrightarrow> tracks s' t' (snd (cb ev hp (ex_user ex)))"
    "heard (ex_state ex) (trailing (ex_parser ex)) ev \<Longrightarrow> somewhere (snd (cb ev hp (ex_user ex)))"
    "list_all (\<lambda>ph. ph \<in> set (phases s' t')) (phases (ex_state ex) (trailing (ex_parser ex))) \<Longrightarrow> tracks s' t' (ex_user ex)"
  using assms by (auto simp: ok_ex_def intro: tracks_moves tracks_heard tracks_stay tracks_somewhere)

lemmas ok_defs = ok_ex_def state_ok_def marks_ok_def state_mark_def body_state_def

lemma safe_start:
  assumes "ok_ex 1 data ex" "ex_state ex \<in> set [s_dead, s_start_req_or_res, s_res_or_resp_H, s_start_res]"
  shows "safe data (step_start cb ex)"
proof -
  note ok = ok_exD [OF assms(1)]
  have m: "ex_marks ex = Map.empty" "2 \<le> length (http_method_str HEAD)"
    using assms(2) ok(4) method_str_bounds [of HEAD] by (auto simp: marks_ok_def state_mark_def body_state_def)
  show ?thesis
    using assms(2) [simplified] by (elim disjE; use ok(1,2,6) m in \<open>simp add: step_start_def Let_def safe_rules ok_defs ok(7-9)
      track_defs begin_message_def\<close>)
qed

lemma safe_status:
  assumes "ok_ex 1 data ex" "ex_state ex \<in> set [s_res_H, s_res_HT, s_res_HTT, s_res_HTTP, s_res_http_major, s_res_http_dot,
    s_res_http_minor, s_res_http_end, s_res_first_status_code, s_res_status_code, s_res_status_start, s_res_status,
    s_res_line_almost_done]"
  shows "safe data (step_status cb data ex)"
proof -
  note ok = ok_exD [OF assms(1)]
  show ?thesis
    using assms(2) [simplified] by (elim disjE; use ok(1,2,4,6) in \<open>auto simp add: step_status_def Let_def safe_rules ok_defs ok(7-9)
      track_defs\<close>)
qed

lemma safe_req_method:
  assumes "ok_ex 1 data ex" "ex_state ex = s_req_method"
  shows "safe data (step_method cb ex)"
proof -
  note ok = ok_exD [OF assms(1)]
  let ?w = "http_method_str (hp_method (ex_parser ex))" and ?i = "hp_index (ex_parser ex)"
  have i: "1 \<le> ?i" "?i \<le> length ?w" "?i < 100" "(?i + 1) mod 128 = ?i + 1"
    using ok(3) assms(2) method_str_bounds [of "hp_method (ex_parser ex)"] by (auto simp: state_ok_def)
  show ?thesis
  proof (cases "ex_ch ex = 0 \<or> ex_ch ex = 32 \<and> char_at ?w ?i = 0 \<or> ex_ch ex = char_at ?w ?i")
    case True
    then show ?thesis using assms(2) ok(1,2,4,6) i char_at_end [of ?i ?w]
      by (auto simp: step_method_def Let_def safe_rules ok_defs ok(7-9) track_defs simp del: Suc_eq_plus1)
  next
    case False
    then show ?thesis using assms(2) ok(1,2,4,6) i method_switch_index [of "hp_method (ex_parser ex)" ?i "ex_ch ex"]
      by (auto simp: step_method_def Let_def safe_rules ok_defs ok(7-9) track_defs split: option.split)
  qed
qed

lemma safe_method:
  assumes "ok_ex 1 data ex" "ex_state ex \<in> set [s_start_req, s_req_method]"
  shows "safe data (step_method cb ex)"
proof (cases "ex_state ex = s_req_method")
  case False
  note ok = ok_exD [OF assms(1)]
  have m: "1 \<le> length (http_method_str m)" for m
    using method_str_bounds [of m] by auto
  show ?thesis using assms(2) False ok(1,2,4,6) m
    by (auto simp add: step_method_def Let_def safe_rules ok_defs ok(7-9) track_defs begin_message_def split: option.split)
qed (use assms safe_req_method in blast)

text \<open>The URL states.\<close>

lemma parse_url_char_state:
  "parse_url_char s ch = s_dead \<or> state_mark (parse_url_char s ch) = Some Murl \<and> state_ok k (parse_url_char s ch) n hp \<and>
     phases (parse_url_char s ch) t = (if t then [] else [Line])"
  by (cases s) (auto simp: parse_url_char_def url_server_char_def state_mark_def state_ok_def phases_def)

lemma safe_url_next:
  assumes "ex_p ex < length data" "http_errno (ex_parser ex) = HPE_OK" "\<exists>i\<le>ex_p ex. ex_marks ex = [Murl \<mapsto> i]"
    and "\<not> trailing (ex_parser ex)" "I Line (ex_user ex)"
  shows "safe data (url_next ex)"
  using assms parse_url_char_state [of "ex_state ex" "ex_ch ex" 0 "ex_nread ex" "ex_parser ex" False]
  by (auto simp: url_next_def Let_def safe_rules ok_ex_def marks_ok_def tracks_def somewhere_def)

lemma safe_url:
  assumes "ok_ex 1 data ex" "ex_state ex \<in> set [s_req_spaces_before_url, s_req_schema, s_req_schema_slash,
    s_req_schema_slash_slash, s_req_server_start, s_req_server, s_req_server_with_at, s_req_path,
    s_req_query_string_start, s_req_query_string, s_req_fragment_start, s_req_fragment]"
  shows "safe data (step_url cb data ex)"
proof -
  note ok = ok_exD [OF assms(1)]
  have t: "\<not> trailing (ex_parser ex)" "I Line (ex_user ex)"
    using ok(5) assms(2) by (auto simp: tracks_def phases_def split: if_splits)
  show ?thesis
  proof (cases "ex_state ex = s_req_spaces_before_url")
    case True
    then show ?thesis using ok(1-6) t
      by (auto simp: step_url_def Let_def ok_defs intro!: safe_url_next)
  next
    case False
    then have m: "\<exists>i\<le>ex_p ex. ex_marks ex = [Murl \<mapsto> i]"
      using ok(4) assms(2) by (auto simp: marks_ok_def state_mark_def)
    have u: "I Line (snd (cb (Url b) hp (ex_user ex)))" for b hp using t(2) by (rule in_order_snd) simp
    have n: "safe data (url_next ex)" using ok t m by (intro safe_url_next)
    have d: "safe data (CALLBACK_DATA cb data Murl (UPDATE_STATE s (upd f ex)) Next)"
      if "s \<in> set [s_req_http_start, s_req_line_almost_done, s_header_field_start]" "http_errno (f (ex_parser ex)) = HPE_OK"
         "has_flag F_TRAILING (f (ex_parser ex)) = trailing (ex_parser ex)" for s f
      using that m ok(1,2) t(1) u
      by (auto simp: safe_rules ok_defs tracks_def somewhere_def phases_def)
    have d1: "safe data (CALLBACK_DATA cb data Murl (UPDATE_STATE s_req_http_start ex) Next)"
      using d [of s_req_http_start "\<lambda>p. p"] ok(2) by (simp add: upd_def)
    show ?thesis
      using assms(2) [simplified] by (elim disjE; use False n d d1 ok(1,2,6) in \<open>simp add: step_url_def Let_def fail_def\<close>)
  qed
qed

lemma safe_version:
  assumes "ok_ex 1 data ex" "ex_state ex \<in> set [s_req_http_start, s_req_http_H, s_req_http_HT, s_req_http_HTT,
    s_req_http_HTTP, s_req_http_I, s_req_http_IC, s_req_http_major, s_req_http_dot, s_req_http_minor, s_req_http_end,
    s_req_line_almost_done]"
  shows "safe data (step_version ex)"
proof -
  note ok = ok_exD [OF assms(1)]
  show ?thesis
    using assms(2) [simplified] by (elim disjE; use ok(1,2,4,6) in \<open>simp add: step_version_def Let_def safe_rules ok_defs
      ok(7-9) track_defs\<close>)
qed

lemma safe_header_field_start:
  assumes "ok_ex 1 data ex" "ex_state ex = s_header_field_start"
  shows "safe data (step_header_field_start ex)"
  using ok_exD(1,2,4,6) [OF assms(1)] assms(2)
  by (simp add: step_header_field_start_def Let_def safe_rules ok_defs ok_exD(9) [OF assms(1)] track_defs field_hs_def)

lemma field_char_ok:
  assumes "hp_header_state hp \<in> set field_hs"
  obtains hp' where "field_char ch c hp = Inr hp'" "hp_header_state hp' \<in> set field_hs" "hp_flags hp' = hp_flags hp"
    "http_errno hp' = http_errno hp"
proof -
  have "\<exists>hp'. field_char ch c hp = Inr hp' \<and> hp_header_state hp' \<in> set field_hs \<and> hp_flags hp' = hp_flags hp \<and>
      http_errno hp' = http_errno hp"
    using assms [unfolded field_hs_def, simplified]
    by (elim disjE; simp add: field_char_def Let_def match_word_def field_hs_def)
  then show ?thesis using that by blast
qed

lemma field_loop_ok:
  assumes "hp_header_state hp \<in> set field_hs"
  shows "\<exists>p' ch' hp'. field_loop data p ch hp = Inr (p', ch', hp') \<and> hp_header_state hp' \<in> set field_hs \<and>
    hp_flags hp' = hp_flags hp \<and> http_errno hp' = http_errno hp"
  using assms
proof (induction "length data - p" arbitrary: p ch hp rule: less_induct)
  case less
  obtain hp1 where hp1: "field_char (data ! p) (STRICT_TOKEN (data ! p)) hp = Inr hp1" "hp_header_state hp1 \<in> set field_hs"
    "hp_flags hp1 = hp_flags hp" "http_errno hp1 = http_errno hp"
    using field_char_ok [OF less.prems] by metis
  obtain r where r: "field_loop data p ch hp = r" by simp
  then show ?case
  proof (cases rule: field_loop_cases)
    case stop
    then show ?thesis using less.prems r by simp
  next
    case (abort e)
    then show ?thesis using hp1(1) by simp
  next
    case (char hp2 q)
    then show ?thesis using less.hyps [of q hp1 "data ! p"] hp1 r by (simp add: diff_less_mono2)
  qed
qed

lemma safe_header_field:
  assumes "ok_ex 1 data ex" "ex_state ex = s_header_field"
  shows "safe data (step_header_field cb data ex)"
proof -
  note ok = ok_exD [OF assms(1)]
  obtain p ch hp where l: "field_loop data (ex_p ex) (ex_ch ex) (ex_parser ex) = Inr (p, ch, hp)"
    "hp_header_state hp \<in> set field_hs" "hp_flags hp = hp_flags (ex_parser ex)" "http_errno hp = HPE_OK"
    using field_loop_ok [of "ex_parser ex" data "ex_p ex" "ex_ch ex"] ok(2,3) assms(2) by (auto simp: state_ok_def)
  have r: "ex_p ex \<le> p" "p \<le> length data" using field_loop_range [OF l(1)] ok(1) by auto
  have f: "has_flag f hp = has_flag f (ex_parser ex)" for f using l(3) by (simp add: has_flag_def)
  show ?thesis using l(1,2,4) r ok(1,4,6) assms(2)
    by (auto simp: step_header_field_def Let_def safe_rules ok_defs ok(7-9) track_defs f)
qed

lemma safe_value_start:
  assumes "ok_ex 1 data ex" "ex_state ex \<in> set [s_header_value_discard_ws, s_header_value_start]"
  shows "safe data (value_start ex)"
proof -
  note ok = ok_exD [OF assms(1)]
  show ?thesis using assms(2) [simplified]
    by (elim disjE; cases "hp_header_state (ex_parser ex)"; use ok(1,2,4,6) in \<open>simp add: value_start_def Let_def safe_rules
      ok_defs ok(7-9) track_defs value_hs_def flag_defs\<close>)
qed

lemma safe_value_discard_ws:
  assumes "ok_ex 1 data ex" "ex_state ex = s_header_value_discard_ws"
  shows "safe data (step_value_discard_ws ex)"
  using ok_exD(1,2,4,6) [OF assms(1)] assms(2) safe_value_start [OF assms(1)]
  by (simp add: step_value_discard_ws_def Let_def ok_defs ok_exD(9) [OF assms(1)] track_defs)

lemma connection_flag_and: "connection_flag h AND F_TRAILING = 0" "connection_flag h AND F_CHUNKED = 0"
  by (simp_all add: connection_flag_def flag_defs)

lemma length_char_ok:
  "length_char ch hp = (bad, h', hp') \<Longrightarrow> h' \<in> set value_hs \<and> hp_flags hp' = hp_flags hp \<and> http_errno hp' = http_errno hp"
  by (auto simp: length_char_def value_hs_def split: if_splits option.splits)

lemma value_char_ok:
  assumes "h \<in> set value_hs"
  shows "case value_char ch h hp of Inl _ \<Rightarrow> False
    | Inr (bad, h', hp') \<Rightarrow> h' \<in> set value_hs \<and> http_errno hp' = http_errno hp \<and> trailing hp' = trailing hp"
proof -
  obtain bad h1 hp1 where "length_char ch hp = (bad, h1, hp1)" by (metis prod_cases3)
  then have l: "length_char ch hp = (bad, h1, hp1)" "h1 \<in> set value_hs" "trailing hp1 = trailing hp" "http_errno hp1 = http_errno hp"
    using length_char_ok by (auto simp: has_flag_def)
  have v: "match_word w c i a b d \<in> set value_hs" if "a \<in> set value_hs" "b \<in> set value_hs" "d \<in> set value_hs" for w c i a b d
    using that by (simp add: match_word_def)
  have hs: "x \<in> set value_hs" if "x \<in> set [h_general, h_content_length_ws, h_matching_connection_token_start,
      h_matching_connection_keep_alive, h_matching_connection_close, h_matching_connection_upgrade,
      h_matching_connection_token, h_transfer_encoding_chunked, h_connection_keep_alive, h_connection_close,
      h_connection_upgrade, h_matching_transfer_encoding_chunked]" for x
    using that by (auto simp: value_hs_def)
  show ?thesis
    using assms [unfolded value_hs_def, simplified]
    by (elim disjE; simp add: value_char_def Let_def l v hs connection_flag_and)
qed

lemma value_loop_ok:
  assumes "h \<in> set value_hs"
  shows "\<exists>v p' ch' h' hp'. value_loop data p ch h hp = Inr (v, p', ch', h', hp') \<and> h' \<in> set value_hs \<and>
    http_errno hp' = http_errno hp \<and> trailing hp' = trailing hp"
  using assms
proof (induction "length data - p" arbitrary: p ch h hp rule: less_induct)
  case less
  obtain bad h1 hp1 where c: "value_char (data ! p) h hp = Inr (bad, h1, hp1)" "h1 \<in> set value_hs"
    "http_errno hp1 = http_errno hp" "trailing hp1 = trailing hp"
    using value_char_ok [OF less.prems, where ch = "data ! p" and hp = hp] by (auto split: sum.splits)
  obtain r where r: "value_loop data p ch h hp = r" by simp
  then show ?case
  proof (cases rule: value_loop_cases)
    case (scan p' ch')
    then show ?thesis using less.hyps [of p' h ch' hp] less.prems r by (simp add: diff_less_mono2)
  next
    case (char h' hp')
    then show ?thesis using less.hyps [of "p + 1" h1 "data ! p" hp1] c r by (simp add: diff_less_mono2)
  qed (use less.prems c r in simp_all)
qed

lemma safe_header_value:
  assumes "ok_ex 1 data ex" "ex_state ex = s_header_value"
  shows "safe data (step_header_value cb data ex)"
proof -
  note ok = ok_exD [OF assms(1)]
  obtain v p ch h hp where l: "value_loop data (ex_p ex) (ex_ch ex) (hp_header_state (ex_parser ex)) (ex_parser ex) = Inr (v, p, ch, h, hp)"
    "h \<in> set value_hs" "http_errno hp = HPE_OK" "trailing hp = trailing (ex_parser ex)"
    using value_loop_ok [of "hp_header_state (ex_parser ex)" data "ex_p ex" "ex_ch ex" "ex_parser ex"] ok(2,3) assms(2)
    by (auto simp: state_ok_def)
  have r: "ex_p ex \<le> p" "p \<le> length data" "v = V_end \<longleftrightarrow> p = length data" using value_loop_range [OF l(1)] ok(1) by auto
  show ?thesis
    by (cases v; use l r ok(1,4,6) assms(2) in \<open>auto simp: step_header_value_def Let_def safe_rules ok_defs ok(7-9) track_defs\<close>)
qed

lemma header_flag_and: "header_flag h AND F_TRAILING = 0"
  by (cases h) (simp_all add: header_flag_def flag_defs)

lemma finish_header_fields [simp]:
  "trailing (finish_header hp) = trailing hp" "http_errno (finish_header hp) = http_errno hp"
  by (simp_all add: finish_header_def header_flag_and)

lemma safe_value_end:
  assumes "ok_ex 1 data ex" "ex_state ex \<in> set [s_header_almost_done, s_header_value_lws,
    s_header_value_discard_ws_almost_done, s_header_value_discard_lws]"
  shows "safe data (step_value_end cb data ex)"
proof -
  note ok = ok_exD [OF assms(1)]
  show ?thesis using assms(2) [simplified]
    by (elim disjE; use ok(1,2,4,6) in \<open>simp add: step_value_end_def Let_def safe_rules ok_defs ok(7-9) track_defs\<close>)
qed

lemma state_ok_new_message: "state_ok k (NEW_MESSAGE hp) n hp'" "state_mark (NEW_MESSAGE hp) = None" "phases (NEW_MESSAGE hp) t = [Idle]"
  by (simp_all add: NEW_MESSAGE_def start_state_def state_ok_def state_mark_def phases_def)

lemma safe_headers_almost_done:
  assumes "ok_ex 1 data ex" "ex_state ex = s_headers_almost_done"
  shows "safe data (step_headers_almost_done cb ex)"
proof -
  note ok = ok_exD [OF assms(1)]
  have h: "\<not> trailing (ex_parser ex) \<Longrightarrow> cb HeadersComplete hp (ex_user ex) = (r, u) \<Longrightarrow> tracks s_headers_done t u \<and> somewhere u" for hp r u t
    using ok(7) [of HeadersComplete s_headers_done t hp] assms(2) tracks_somewhere [of s_headers_done t u]
    by (simp add: track_defs)
  show ?thesis using assms(2) ok(1,2,4,6) h
    by (simp add: step_headers_almost_done_def Let_def safe_rules ok_defs ok(7-9) track_defs split: prod.split)
qed

lemma safe_complete:
  assumes "ok_ex 1 data ex" "ex_state ex \<in> set [s_headers_done, s_message_done]" "hp_flags hp = hp_flags (ex_parser ex)"
    and "http_errno hp = HPE_OK"
  shows "safe data (complete_message cb (ex\<lparr>ex_nread := n, ex_parser := hp\<rparr>) Next)"
    and "upgrade hp \<Longrightarrow> safe data (complete_message cb (ex\<lparr>ex_nread := n, ex_parser := hp\<rparr>) (\<lambda>ex. RETURN (ex_p ex + 1) ex))"
proof -
  note ok = ok_exD [OF assms(1)]
  have b: "phases (ex_state ex) t = [Body]" for t using assms(2) by (auto simp: phases_def)
  have c: "tracks (NEW_MESSAGE hp) t (snd (cb MessageComplete q (ex_user ex)))" "somewhere (snd (cb MessageComplete q (ex_user ex)))" for t q
    using ok(7) [of MessageComplete "NEW_MESSAGE hp" t q] ok(8) [of MessageComplete q]
    by (auto simp: moves_def heard_def state_ok_new_message b)
  have m: "ex_marks ex = Map.empty" using ok(4) assms(2) by (auto simp: marks_ok_def state_mark_def body_state_def)
  show "safe data (complete_message cb (ex\<lparr>ex_nread := n, ex_parser := hp\<rparr>) Next)"
    using ok(1) c m assms(4) by (simp add: safe_rules ok_ex_def marks_ok_def state_ok_new_message)
  show "upgrade hp \<Longrightarrow> safe data (complete_message cb (ex\<lparr>ex_nread := n, ex_parser := hp\<rparr>) (\<lambda>ex. RETURN (ex_p ex + 1) ex))"
    using ok(1) c m assms(4) by (simp add: safe_rules ok_ex_def marks_ok_def state_ok_new_message)
qed

lemma safe_headers_done:
  assumes "ok_ex 1 data ex" "ex_state ex = s_headers_done"
  shows "safe data (step_headers_done cb ex)"
proof -
  note ok = ok_exD [OF assms(1)]
  let ?hp = "(ex_parser ex)\<lparr>hp_nread := 0\<rparr>"
  have e: "reset_nread ex = ex\<lparr>ex_nread := 0, ex_parser := ?hp\<rparr>" by (simp add: reset_nread_def upd_def)
  have c: "safe data (complete_message cb (ex\<lparr>ex_nread := 0, ex_parser := ?hp\<rparr>) Next)"
      "upgrade ?hp \<Longrightarrow> safe data (complete_message cb (ex\<lparr>ex_nread := 0, ex_parser := ?hp\<rparr>) (\<lambda>ex. RETURN (ex_p ex + 1) ex))"
    using safe_complete [OF assms(1), of ?hp 0] assms(2) ok(2) by simp_all
  show ?thesis using assms(2) ok(1,2,4,6) c
    by (auto simp: step_headers_done_def Let_def STRICT_CHECK_def fail_def e ok_defs length_known_def ok(9) track_defs)
qed

lemma take_body_laws:
  assumes "length_known (ex_parser ex)" "ex_p ex < length data"
  shows "http_errno (ex_parser (take_body data ex)) = http_errno (ex_parser ex)"
    "has_flag f (ex_parser (take_body data ex)) = has_flag f (ex_parser ex)"
    "hp_content_length (ex_parser (take_body data ex)) \<noteq> ULLONG_MAX"
    "ex_marks (take_body data ex) = ex_marks (MARK Mbody ex)" "ex_user (take_body data ex) = ex_user ex"
proof -
  let ?cl = "hp_content_length (ex_parser ex)" and ?n = "min (unat (hp_content_length (ex_parser ex))) (length data - ex_p ex)"
  have n: "unat (of_nat ?n :: u64) = ?n"
  proof -
    have "unat ?cl < 2 ^ 64" using unsigned_less [of ?cl] by simp
    then show ?thesis by (simp add: unat_of_nat del: of_nat_min)
  qed
  then have "unat (?cl - of_nat ?n) = unat ?cl - ?n"
    by (subst unat_sub) (simp_all add: word_le_nat_alt)
  moreover have "?cl < ULLONG_MAX" using assms(1) by (simp add: length_known_def word_order.not_eq_extremum)
  ultimately have "?cl - of_nat ?n < ULLONG_MAX" unfolding word_less_nat_alt by simp
  then show "hp_content_length (ex_parser (take_body data ex)) \<noteq> ULLONG_MAX"
    by (auto simp: take_body_def Let_def)
qed (simp_all add: take_body_def Let_def)

lemma take_body_marks:
  assumes "marks_ok s (ex_p ex) (ex_marks ex)" "body_state s" "ex_p ex < length data"
  shows "\<exists>i\<le>ex_p (take_body data ex). ex_marks (take_body data ex) = [Mbody \<mapsto> i]"
proof -
  have "state_mark s = None" using assms(2) by (cases s) (simp_all add: body_state_def state_mark_def)
  then have "\<exists>i\<le>ex_p ex. ex_marks (take_body data ex) = [Mbody \<mapsto> i]"
    using assms(1) by (auto simp: marks_ok_def take_body_def Let_def)
  then show ?thesis using take_body_fields(3) [OF assms(3)] by (meson order_trans)
qed

lemma safe_body:
  assumes "ok_ex 1 data ex" "ex_state ex \<in> set [s_body_identity, s_body_identity_eof, s_message_done]"
  shows "safe data (step_body cb data ex)"
proof -
  note ok = ok_exD [OF assms(1)]
  consider "ex_state ex = s_body_identity" | "ex_state ex = s_body_identity_eof" | "ex_state ex = s_message_done"
    using assms(2) by auto
  then show ?thesis
  proof cases
    case 1
    then have k: "length_known (ex_parser ex)" using ok(3) by (simp add: state_ok_def)
    let ?ex = "take_body data ex"
    note tb = take_body_laws [OF k ok(1)] take_body_fields(1,2) [of data ex] take_body_fields(3) [OF ok(1)]
    obtain i where i: "i \<le> ex_p ?ex" "ex_marks ?ex = [Mbody \<mapsto> i]"
      using take_body_marks [OF ok(4)] 1 ok(1) by (auto simp: body_state_def)
    show ?thesis using 1 k i tb(3,5-8) ok(2,6)
      by (auto simp: step_body_def Let_def safe_rules ok_defs length_known_def ok(7-9) track_defs tb(1,2))
  next
    case 2
    then show ?thesis using ok(1,2,4,6) by (auto simp: step_body_def Let_def ok_defs ok(9) track_defs)
  next
    case 3
    then show ?thesis using safe_complete [OF assms(1), of "ex_parser ex" "ex_nread ex"] ok(2)
      by (auto simp: step_body_def complete_message_outcome [where Q = "safe data"] NOTIFY'_outcome [where Q = "safe data"])
  qed
qed

lemma unhex_range: "unhex ch \<noteq> - 1 \<Longrightarrow> 0 \<le> unhex ch \<and> unhex ch < 16"
  by (auto simp: unhex_def IS_NUM_def word_le_def split: if_splits)

lemma more_length_16:
  assumes "more_length 16 cl (of_int d) = Some t" "0 \<le> d" "d < 16"
  shows "t \<noteq> ULLONG_MAX"
proof -
  have c: "uint cl \<le> 0x0FFFFFFFFFFFFFFE" and t: "t = cl * 16 + of_int d"
    using assms(1) by (auto simp: more_length_def word_le_def word_less_def split: if_splits)
  have "uint t = uint cl * 16 + d"
    using c assms(2,3) unfolding t by (simp add: uint_word_ariths uint_word_of_int)
  moreover have "uint ULLONG_MAX = 2 ^ 64 - 1" by (simp add: unsigned_minus_1_eq_mask mask_eq_exp_minus_1)
  ultimately show ?thesis using c assms(3) by auto
qed

lemma safe_chunk:
  assumes "ok_ex 1 data ex" "ex_state ex \<in> set [s_chunk_size_start, s_chunk_size, s_chunk_parameters, s_chunk_size_almost_done,
    s_chunk_data, s_chunk_data_almost_done, s_chunk_data_done]"
  shows "safe data (step_chunk cb data ex)"
proof -
  note ok = ok_exD [OF assms(1)]
  have u: "of_int (unhex (ex_ch ex)) \<noteq> (ULLONG_MAX :: u64)" if "unhex (ex_ch ex) \<noteq> - 1"
    using unhex_range [OF that] more_length_16 [of 0 "unhex (ex_ch ex)"] by (simp add: more_length_def)
  have m: "t \<noteq> ULLONG_MAX" if "unhex (ex_ch ex) \<noteq> - 1" "more_length 16 cl (of_int (unhex (ex_ch ex))) = Some t" for cl t
    using more_length_16 [OF that(2)] unhex_range [OF that(1)] by simp
  show ?thesis
  proof (cases "ex_state ex = s_chunk_data")
    case True
    then have k: "length_known (ex_parser ex)" "has_flag F_CHUNKED (ex_parser ex)" using ok(3) by (simp_all add: state_ok_def)
    note tb = take_body_laws [OF k(1) ok(1)] take_body_fields(1,2) [of data ex] take_body_fields(3) [OF ok(1)]
    obtain i where i: "i \<le> ex_p (take_body data ex)" "ex_marks (take_body data ex) = [Mbody \<mapsto> i]"
      using take_body_marks [OF ok(4)] True ok(1) by (auto simp: body_state_def)
    show ?thesis using True k i tb(3,5-8) ok(2,6)
      by (auto simp: step_chunk_def Let_def safe_rules ok_defs length_known_def ok(7-9) track_defs tb(1,2))
  next
    case False
    then show ?thesis
      using assms(2) [simplified] by (elim disjE; use ok(1-4,6) u m in \<open>auto simp: step_chunk_def Let_def safe_rules ok_defs length_known_def
        ok(7-9) track_defs flag_defs split: option.splits\<close>)
  qed
qed

lemmas safe_states = safe_start safe_status safe_method safe_url safe_version safe_header_field_start safe_header_field
  safe_value_discard_ws safe_value_start safe_header_value safe_value_end safe_headers_almost_done safe_headers_done
  safe_body safe_chunk

lemma step_safe:
  assumes "ok_ex 1 data ex"
  shows "safe data (step cb data ex)"
  by (cases "ex_state ex") (simp_all add: step_def safe_states [OF assms])

lemma reexecute_safe: "ok_ex 1 data ex \<Longrightarrow> safe data (reexecute cb data ex) \<and> (\<forall>e. reexecute cb data ex \<noteq> Reexecute e)"
proof (induction "reexecute_rank (ex_state ex)" arbitrary: ex rule: less_induct)
  case less
  note r = reexecute.simps [of cb data ex]
  show ?case
    using step_safe [OF less.prems] step_progress [of data ex cb] less.hyps
    by (cases "step cb data ex") (simp_all add: r)
qed

text \<open>Between two bytes.\<close>

definition ok_between :: "u8 list \<Rightarrow> 's exec \<Rightarrow> bool" where
  "ok_between data ex \<longleftrightarrow> ex_p ex \<le> length data \<and> http_errno (ex_parser ex) = HPE_OK \<and>
     state_ok 0 (ex_state ex) (ex_nread ex) (ex_parser ex) \<and> marks_ok (ex_state ex) (ex_p ex) (ex_marks ex) \<and>
     tracks (ex_state ex) (trailing (ex_parser ex)) (ex_user ex)"

lemma state_ok_count:
  "state_ok 0 s n hp \<Longrightarrow> state_ok 1 s (n + 1) hp"
  "state_ok 0 s n hp \<Longrightarrow> \<not> PARSING_HEADER s \<Longrightarrow> state_ok 1 s n hp"
  by (cases s; simp add: state_ok_def PARSING_HEADER_def)+

lemma marks_ok_mono: "marks_ok s p mk \<Longrightarrow> p \<le> p' \<Longrightarrow> marks_ok s p' mk"
  unfolding marks_ok_def by (auto split: option.splits intro: order_trans)

lemma fetch_safe:
  assumes "ok_between data ex" "ex_p ex < length data"
  shows "safe data (fetch cb data ex) \<and> (\<forall>e. fetch cb data ex \<noteq> Reexecute e)"
proof -
  have s: "somewhere (ex_user ex)" using assms(1) tracks_somewhere by (auto simp: ok_between_def)
  have r: "safe data (reexecute cb data (ex\<lparr>ex_ch := c, ex_nread := n\<rparr>)) \<and> (\<forall>e. reexecute cb data (ex\<lparr>ex_ch := c, ex_nread := n\<rparr>) \<noteq> Reexecute e)"
    if "state_ok 1 (ex_state ex) n (ex_parser ex)" for c n
    using assms that by (intro reexecute_safe) (simp add: ok_ex_def ok_between_def)
  have n: "ex\<lparr>ex_ch := c, ex_nread := ex_nread ex\<rparr> = ex\<lparr>ex_ch := c\<rparr>" for c by simp
  show ?thesis
    using assms s r state_ok_count [of "ex_state ex" "ex_nread ex" "ex_parser ex"] r [of "ex_nread ex", unfolded n]
    by (simp add: fetch_def Let_def COUNT_HEADER_SIZE_def fail_def ok_between_def)
qed

lemma exec_loop_safe:
  assumes "ok_between data ex"
  shows "case exec_loop cb data ex of
      Next e \<Rightarrow> ok_between data e \<and> ex_p e = length data
    | Reexecute e \<Rightarrow> False
    | out \<Rightarrow> safe data out"
  using assms
proof (induction "length data - ex_p ex" arbitrary: ex rule: less_induct)
  case less
  note r = exec_loop.simps [of cb data ex]
  show ?case
  proof (cases "ex_p ex < length data")
    case False
    then show ?thesis using less.prems r by (auto simp: ok_between_def)
  next
    case True
    note f = fetch_safe [OF less.prems True]
    show ?thesis
    proof (cases "fetch cb data ex")
      case (Next e)
      then have e: "ok_ex 0 data e" "ex_p ex \<le> ex_p e" using f fetch_progress [OF Next True] by auto
      have "ok_between data (e\<lparr>ex_p := ex_p e + 1\<rparr>)"
        using e(1) marks_ok_mono [of "ex_state e" "ex_p e" "ex_marks e" "ex_p e + 1"] by (simp add: ok_ex_def ok_between_def)
      from less.hyps [OF _ this] show ?thesis using Next r True e by (simp add: diff_less_mono2)
    qed (use f r True in simp_all)
  qed
qed

text \<open>What \<open>http_parser_execute\<close> returns.\<close>

definition returned :: "(nat \<Rightarrow> http_parser \<Rightarrow> bool) \<Rightarrow> 's outcome \<Rightarrow> bool" where
  "returned P out = (case out of
       Return n e \<Rightarrow> P n (ex_parser e) \<and> somewhere (ex_user e) \<and> (http_errno (ex_parser e) = HPE_OK \<longrightarrow>
         state_ok 0 (hp_state (ex_parser e)) (hp_nread (ex_parser e)) (ex_parser e) \<and>
         tracks (hp_state (ex_parser e)) (trailing (ex_parser e)) (ex_user e))
     | _ \<Rightarrow> False)"

lemma returned_simps [simp]:
  "returned P (Return n e) \<longleftrightarrow> P n (ex_parser e) \<and> somewhere (ex_user e) \<and> (http_errno (ex_parser e) = HPE_OK \<longrightarrow>
     state_ok 0 (hp_state (ex_parser e)) (hp_nread (ex_parser e)) (ex_parser e) \<and>
     tracks (hp_state (ex_parser e)) (trailing (ex_parser e)) (ex_user e))"
  "\<not> returned P (Next e)" "\<not> returned P (Error e)" "\<not> returned P (Reexecute e)" "\<not> returned P (Abort x)"
  by (simp_all add: returned_def)

lemmas returned_rules = outcome_rules [where Q = "returned P" for P]

lemma mark_moves:
  "state_mark s = Some m \<Longrightarrow> moves s t (mark_event m b) s t \<and> heard s t (mark_event m b)"
  "body_state s \<Longrightarrow> moves s t (BodyPart b) s t \<and> heard s t (BodyPart b)"
  by (cases s; auto simp: state_mark_def body_state_def track_defs)+

lemma state_ok_stored:
  "state_ok k s n (hp\<lparr>hp_nread := a\<rparr>) = state_ok k s n hp" "state_ok k s n (hp\<lparr>hp_state := b\<rparr>) = state_ok k s n hp"
  "state_ok k s n (ex_parser (flushed cb data m e ex)) = state_ok k s n (ex_parser ex)"
  by (cases s; simp add: state_ok_def length_known_def)+

lemma flush_safe:
  assumes "ok_between data ex" "ex_p ex = length data"
  shows "returned (\<lambda>n hp. n = length data) (flush_marks cb data ex)"
proof -
  note ok = assms(1) [unfolded ok_between_def]
  have s: "somewhere (ex_user ex)" using ok tracks_somewhere by blast
  show ?thesis
  proof (cases "ex_marks ex = Map.empty")
    case True
    then show ?thesis using ok s by (simp add: flush_marks_def returned_rules state_ok_stored)
  next
    case False
    then obtain m i where m: "ex_marks ex = [m \<mapsto> i]" "i \<le> length data" "state_mark (ex_state ex) = Some m \<or> body_state (ex_state ex) \<and> m = Mbody"
      using ok assms(2) by (auto simp: marks_ok_def split: option.splits)
    have t: "tracks (ex_state ex) (trailing (ex_parser ex)) (snd (cb (mark_event m b) hp (ex_user ex)))"
      "somewhere (snd (cb (mark_event m b) hp (ex_user ex)))" for b hp
      using mark_moves(1) [of "ex_state ex" m "trailing (ex_parser ex)" b] mark_moves(2) [of "ex_state ex" "trailing (ex_parser ex)" b]
        m(3) ok tracks_moves tracks_heard by (metis mark_event.simps(4))+
    show ?thesis
      by (cases m; use ok m(1,2) assms(2) t in \<open>simp add: flush_marks_def returned_rules state_ok_stored\<close>)
  qed
qed

lemma execute_returns:
  assumes "hp_ok hp" "http_errno hp = HPE_OK" "data \<noteq> []" "tracks (hp_state hp) (trailing hp) u"
  shows "\<exists>n hp' u'. http_parser_execute cb hp data u = Inr (n, hp', u') \<and> n \<le> length data \<and> hp_ok hp' \<and> somewhere u' \<and>
    (http_errno hp' = HPE_OK \<longrightarrow> (n = length data \<or> upgrade hp') \<and> tracks (hp_state hp') (trailing hp') u')"
proof -
  let ?P = "\<lambda>n hp. n \<le> length data \<and> (http_errno hp = HPE_OK \<longrightarrow> n = length data \<or> upgrade hp)"
  let ?out = "case exec_loop cb data (start_exec hp u) of Next ex \<Rightarrow> flush_marks cb data ex | Error ex \<Rightarrow> error_exit ex | out \<Rightarrow> out"
  have l: "ok_between data (start_exec hp u)"
    using assms first_marks_ok [of "hp_state hp" 0] by (simp add: ok_between_def start_exec_def hp_ok_def)
  have "returned ?P ?out"
  proof (cases "exec_loop cb data (start_exec hp u)")
    case (Next ex)
    then have "returned (\<lambda>n hp. n = length data) (flush_marks cb data ex)" using exec_loop_safe [OF l] flush_safe by simp
    then show ?thesis using Next by (auto simp: returned_def split: outcome.splits)
  qed (use exec_loop_safe [OF l] in \<open>auto simp: error_exit_def RETURN_def\<close>)
  then obtain n e where "?out = Return n e" "?P n (ex_parser e)" "somewhere (ex_user e)" "http_errno (ex_parser e) = HPE_OK \<longrightarrow>
      state_ok 0 (hp_state (ex_parser e)) (hp_nread (ex_parser e)) (ex_parser e) \<and>
      tracks (hp_state (ex_parser e)) (trailing (ex_parser e)) (ex_user e)"
    unfolding returned_def by (auto split: outcome.splits)
  moreover have "tracks s t v \<Longrightarrow> phases s t \<noteq> []" for s t v by (auto simp: tracks_def)
  ultimately show ?thesis using assms(2,3) by (auto simp: http_parser_execute_def hp_ok_def)
qed

end

subsection \<open>Every set of callbacks\<close>

text \<open>The user state after a list of callbacks, each with the structure it was given.\<close>

definition deliver :: "'s settings \<Rightarrow> (parser_event \<times> http_parser) list \<Rightarrow> 's \<Rightarrow> 's" where
  "deliver cb evs u = fold (\<lambda>(ev, hp) u. snd (cb ev hp u)) evs u"

fun phase_run :: "phase \<Rightarrow> parser_event list \<Rightarrow> phase option" where
  "phase_run ph [] = Some ph"
| "phase_run ph (ev # evs) = (case next_phase ph ev of None \<Rightarrow> None | Some ph' \<Rightarrow> phase_run ph' evs)"

lemma phase_run_snoc: "phase_run ph evs = Some ph1 \<Longrightarrow> next_phase ph1 ev = Some ph2 \<Longrightarrow> phase_run ph (evs @ [ev]) = Some ph2"
  by (induction ph evs rule: phase_run.induct) (auto split: option.splits)

text \<open>The user state is what callbacks in the order of the messages have made of \<open>u0\<close>.\<close>

definition told :: "'s settings \<Rightarrow> 's \<Rightarrow> phase \<Rightarrow> 's \<Rightarrow> bool" where
  "told cb u0 ph u \<longleftrightarrow> (\<exists>evs. u = deliver cb evs u0 \<and> phase_run Idle (map fst evs) = Some ph)"

interpretation in_order: parser_client cb "told cb u0" for cb u0
proof
  fix ph ev ph' hp r and u u' :: 'a
  assume "told cb u0 ph u" and n: "next_phase ph ev = Some ph'" and c: "cb ev hp u = (r, u')"
  then obtain evs where e: "u = deliver cb evs u0" "phase_run Idle (map fst evs) = Some ph" by (auto simp: told_def)
  have "u' = deliver cb (evs @ [(ev, hp)]) u0" using e(1) c by (simp add: deliver_def)
  then show "told cb u0 ph' u'" using phase_run_snoc [OF e(2) n] unfolding told_def
    by (intro exI [of _ "evs @ [(ev, hp)]"]) simp
qed

lemma told_start: "told cb u0 Idle u0"
  unfolding told_def by (rule exI [of _ "[]"]) (simp add: deliver_def)

text \<open>The caller's loop: one buffer after the other.\<close>

fun feed :: "'s settings \<Rightarrow> http_parser \<Rightarrow> u8 list list \<Rightarrow> 's \<Rightarrow> (http_parser \<times> 's) result" where
  "feed cb hp [] u = Inr (hp, u)"
| "feed cb hp (d # ds) u = (case http_parser_execute cb hp d u of Inl e \<Rightarrow> Inl e | Inr (n, hp, u) \<Rightarrow> feed cb hp ds u)"

lemma http_init_ok: "hp_ok (http_parser_init t)" "hp_state (http_parser_init t) \<in> set [s_start_req, s_start_res, s_start_req_or_res]"
  by (cases t; simp add: hp_ok_def http_parser_init_def state_ok_def phases_def)+

lemma execute_in_order:
  assumes "hp_ok hp" "data \<noteq> []" "http_errno hp = HPE_OK \<longrightarrow> (\<exists>ph\<in>set (phases (hp_state hp) (trailing hp)). told cb u0 ph u)"
    and "\<exists>ph. told cb u0 ph u"
  shows "\<exists>n hp' u'. http_parser_execute cb hp data u = Inr (n, hp', u') \<and> n \<le> length data \<and> hp_ok hp' \<and> (\<exists>ph. told cb u0 ph u') \<and>
    (http_errno hp' = HPE_OK \<longrightarrow> (n = length data \<or> upgrade hp') \<and> (\<exists>ph\<in>set (phases (hp_state hp') (trailing hp')). told cb u0 ph u'))"
proof (cases "http_errno hp = HPE_OK")
  case True
  then show ?thesis using in_order.execute_returns [of hp data cb u0 u] assms
    by (simp add: in_order.tracks_def in_order.somewhere_def)
qed (use assms in \<open>simp add: http_parser_execute_def\<close>)

lemma feed_in_order:
  assumes "hp_ok hp" "[] \<notin> set ds" "http_errno hp = HPE_OK \<longrightarrow> (\<exists>ph\<in>set (phases (hp_state hp) (trailing hp)). told cb u0 ph u)"
    and "\<exists>ph. told cb u0 ph u"
  shows "\<exists>hp' u'. feed cb hp ds u = Inr (hp', u') \<and> hp_ok hp' \<and> (\<exists>ph. told cb u0 ph u') \<and>
    (http_errno hp' = HPE_OK \<longrightarrow> (\<exists>ph\<in>set (phases (hp_state hp') (trailing hp')). told cb u0 ph u'))"
  using assms
proof (induction ds arbitrary: hp u)
  case (Cons d ds)
  obtain n hp1 u1 where e: "http_parser_execute cb hp d u = Inr (n, hp1, u1)" "hp_ok hp1" "\<exists>ph. told cb u0 ph u1"
    "http_errno hp1 = HPE_OK \<longrightarrow> (\<exists>ph\<in>set (phases (hp_state hp1) (trailing hp1)). told cb u0 ph u1)"
    using execute_in_order [of hp d cb u0 u] Cons.prems by auto
  from Cons.IH [OF e(2) _ e(4,3)] Cons.prems(2) e(1) show ?case by simp
qed simp

interpretation any_client: parser_client cb "\<lambda>_ _. True" for cb
  by unfold_locales simp

lemma execute_at_eof:
  assumes "hp_ok hp" "http_errno hp = HPE_OK"
  shows "\<exists>n hp' u'. http_parser_execute cb hp [] u = Inr (n, hp', u') \<and> hp_ok hp' \<and> n \<le> 1"
proof -
  have "hp_ok (hp\<lparr>hp_state := hp_state hp\<rparr>)" using assms(1) by simp
  then show ?thesis using assms
    by (cases "hp_state hp = s_body_identity_eof")
      (auto simp: http_parser_execute_def execute_eof_def start_exec_def CALLBACK_NOTIFY_NOADVANCE_def CALLBACK_NOTIFY'_def
        assert_ex_def Let_def hp_ok_def split: prod.split)
qed

lemma execute_safe:
  assumes "hp_ok hp"
  shows "\<exists>n hp' u'. http_parser_execute cb hp data u = Inr (n, hp', u') \<and> hp_ok hp' \<and> n \<le> max 1 (length data) \<and>
    (data \<noteq> [] \<and> http_errno hp' = HPE_OK \<longrightarrow> n \<le> length data \<and> (n = length data \<or> upgrade hp'))"
proof -
  consider "http_errno hp \<noteq> HPE_OK" | "http_errno hp = HPE_OK" "data = []" | "http_errno hp = HPE_OK" "data \<noteq> []" by blast
  then show ?thesis
  proof cases
    case 1
    then show ?thesis using assms by (simp add: http_parser_execute_def)
  next
    case 2
    then show ?thesis using execute_at_eof [OF assms] by simp
  next
    case 3
    then have "any_client.tracks (hp_state hp) (trailing hp) u" using assms
      by (cases "phases (hp_state hp) (trailing hp)") (auto simp: hp_ok_def any_client.tracks_def)
    from any_client.execute_returns [OF assms 3 this, of cb] show ?thesis by fastforce
  qed
qed

text \<open>C6: Safety of the grammar library. In any state reached from \<open>http_parser_init\<close>, on any buffer and with
  any callbacks, \<open>http_parser_execute\<close> returns: no assertion in it fails, no index leaves the method
  strings or the header words, no data callback gets a piece outside the buffer. The structure it leaves
  is again such a state. The count it returns lies in the buffer (at the end of the input, signalled by an
  empty buffer, it is 0 or 1), and as long as there is no error every byte was parsed, unless the
  message asked for another protocol.\<close>

theorem http_parser_execute_safe:
  assumes "hp_ok hp"
  shows "\<exists>n hp' u'. http_parser_execute cb hp data u = Inr (n, hp', u') \<and> hp_ok hp' \<and> n \<le> max 1 (length data) \<and>
    (data \<noteq> [] \<and> http_errno hp' = HPE_OK \<longrightarrow> n \<le> length data \<and> (n = length data \<or> upgrade hp'))"
  using assms by (rule execute_safe)

theorem http_parser_execute_safe_witness:
  "\<exists>n hp' u'. http_parser_execute (\<lambda>ev hp u. (7, u + 1)) (http_parser_init HTTP_BOTH) [72, 200] (0 :: nat) = Inr (n, hp', u')
     \<and> n \<le> max 1 (length [72, 200 :: u8])"
  using http_parser_execute_safe [OF http_init_ok(1), of "\<lambda>ev hp u. (7, u + 1)" HTTP_BOTH "[72, 200]" "0 :: nat"] by blast

text \<open>C11: The order of the callbacks. A parser fresh from \<open>http_parser_init\<close> that is given any non-empty buffers
  one after the other returns from each, and what its callbacks have done is what a sequence of
  callbacks in the order of HTTP messages does: message begin, URL or status, headers with at least one
  value after each name, headers complete, body pieces and chunk marks, for a chunked body trailer headers,
  message complete, and so on with the next message. While there is no error, the place in that order
  agrees with the state of the machine.\<close>

theorem callbacks_in_order:
  assumes "[] \<notin> set ds"
  shows "\<exists>hp u' evs ph. feed cb (http_parser_init t) ds u = Inr (hp, u') \<and> u' = deliver cb evs u \<and>
    phase_run Idle (map fst evs) = Some ph \<and> (http_errno hp = HPE_OK \<longrightarrow> ph \<in> set (phases (hp_state hp) (trailing hp)))"
proof -
  have "Idle \<in> set (phases (hp_state (http_parser_init t)) (trailing (http_parser_init t)))"
    using http_init_ok(2) [of t] by (auto simp: phases_def)
  then have "\<exists>ph\<in>set (phases (hp_state (http_parser_init t)) (trailing (http_parser_init t))). told cb u ph u"
    using told_start [of cb u] by blast
  then obtain hp u' where f: "feed cb (http_parser_init t) ds u = Inr (hp, u')" "\<exists>ph. told cb u ph u'"
    "http_errno hp = HPE_OK \<longrightarrow> (\<exists>ph\<in>set (phases (hp_state hp) (trailing hp)). told cb u ph u')"
    using feed_in_order [OF http_init_ok(1) assms, of t cb u u] by blast
  then obtain ph where "told cb u ph u'" "http_errno hp = HPE_OK \<longrightarrow> ph \<in> set (phases (hp_state hp) (trailing hp))" by blast
  then show ?thesis using f(1) unfolding told_def by blast
qed

theorem callbacks_in_order_witness:
  "\<exists>hp u' evs ph. feed (\<lambda>ev hp u. (0, ev # u)) (http_parser_init HTTP_REQUEST) [bytes ''GET /a'', bytes ''b H''] [] = Inr (hp, u')
     \<and> u' = deliver (\<lambda>ev hp u. (0, ev # u)) evs [] \<and> phase_run Idle (map fst evs) = Some ph"
  using callbacks_in_order [of "[bytes ''GET /a'', bytes ''b H'']" "\<lambda>ev hp u. (0, ev # u)" HTTP_REQUEST "[]"]
  by (auto simp: bytes_def)

text \<open>A URL that continues in the next buffer is reported in two pieces.\<close>

lemma url_in_pieces:
  "map_sum id snd (feed (\<lambda>ev hp u. (0, u @ [ev])) (http_parser_init HTTP_REQUEST) [bytes ''GET /a'', bytes ''b H''] [])
     = Inr [MessageBegin, Url (bytes ''/a''), Url (bytes ''b'')]"
  by code_simp

end
