(* ===== verification/HttpParser.thy ===== *)
theory HttpParser
  imports Http Config HttpUrl HttpSafe
begin

text \<open>
  \<open>src/http/HttpParser.cc\<close>: the request and response parsers, which collect what the grammar library reports
  through callbacks. The user state of the callbacks is the parser object that the library's \<open>data\<close>
  pointer refers to.
\<close>

definition version_byte :: "http_parser \<Rightarrow> u8" where
  "version_byte f = ucast (push_bit 4 (http_major f) OR http_minor f)"

subsection \<open>Requests\<close>

record request_parser =
  rp_parser :: http_parser
  rp_data :: http_request
  rp_error :: int
  rp_finished :: bool
  rp_field :: "u8 list"

definition new_HttpRequestParser :: request_parser where
  "new_HttpRequestParser = \<lparr>rp_parser = http_parser_init HTTP_REQUEST, rp_data = new_HttpRequest 0x11 True, rp_error = 0,
     rp_finished = False, rp_field = []\<rparr>"

text \<open>\<open>on_request_url_cb\<close>; that \<open>http_parser_parse_url\<close> does not abort is a theorem of the theory HttpUrl.\<close>

definition on_request_url :: "u8 list \<Rightarrow> http_request \<Rightarrow> int \<times> http_request" where
  "on_request_url buf r = (case http_parser_parse_url buf False http_parser_url_init of
       Inr (Some u) \<Rightarrow>
       (0, let r = (case url_part buf u UF_PATH of Some p \<Rightarrow> r\<lparr>rq_path := p\<rparr> | None \<Rightarrow> r);
               r = (case url_part buf u UF_QUERY of Some q \<Rightarrow> r\<lparr>rq_query := q\<rparr> | None \<Rightarrow> r)
           in (case url_part buf u UF_FRAGMENT of Some g \<Rightarrow> r\<lparr>rq_fragment := g\<rparr> | None \<Rightarrow> r))
     | _ \<Rightarrow> (1, r))"

definition on_request_headers_complete :: "http_parser \<Rightarrow> http_request \<Rightarrow> http_request" where
  "on_request_headers_complete f r = r\<lparr>rq_version := version_byte f, rq_method := hp_method f\<rparr>"

text \<open>The table \<open>s_request_settings\<close> and its callbacks.\<close>

definition request_callback :: "request_parser settings" where
  "request_callback e f p = (case e of
     MessageBegin \<Rightarrow> (0, p)
   | Url buf \<Rightarrow> (let (rt, r) = on_request_url buf (rp_data p) in (rt, p\<lparr>rp_data := r\<rparr>))
   | StatusText buf \<Rightarrow> (0, p)
   | HeaderField buf \<Rightarrow> (0, p\<lparr>rp_field := buf\<rparr>)
   | HeaderValue buf \<Rightarrow> (0, p\<lparr>rp_data := rq_setHeader (rp_field p) buf (rp_data p)\<rparr>)
   | HeadersComplete \<Rightarrow> (0, p\<lparr>rp_data := on_request_headers_complete f (rp_data p)\<rparr>)
   | BodyPart buf \<Rightarrow> (0, p\<lparr>rp_data := (rp_data p)\<lparr>rq_body := rq_body (rp_data p) @ buf\<rparr>\<rparr>)
   | MessageComplete \<Rightarrow> (0, p\<lparr>rp_finished := True\<rparr>)
   | ChunkHeader \<Rightarrow> (0, p)
   | ChunkComplete \<Rightarrow> (0, p))"

text \<open>\<open>(int8_t)m_parser.http_errno\<close>.\<close>

definition to_int8 :: "nat \<Rightarrow> int" where
  "to_int8 n = sint (of_nat n :: u8)"

text \<open>\<open>execute\<close>: the bytes parsed, the buffer afterwards (what was not parsed moves to its front) and the parser.\<close>

definition request_execute :: "u8 list \<Rightarrow> request_parser \<Rightarrow> (nat \<times> u8 list \<times> request_parser) result" where
  "request_execute data p = (case http_parser_execute request_callback (rp_parser p) data p of
       Inl e \<Rightarrow> Inl e
     | Inr (nparsed, hp, p) \<Rightarrow>
         let p = p\<lparr>rp_parser := hp\<rparr> in
         if upgrade hp then Inr (nparsed, data, p\<lparr>rp_error := int (errno_value HPE_UNKNOWN)\<rparr>)
         else if http_errno hp \<noteq> HPE_OK then Inr (nparsed, data, p\<lparr>rp_error := to_int8 (errno_value (http_errno hp))\<rparr>)
         else Inr (nparsed, if nparsed < length data then drop nparsed data else data, p))"

subsection \<open>Responses\<close>

record response_parser =
  sp_parser :: http_parser
  sp_data :: http_response
  sp_error :: int
  sp_finished :: bool
  sp_field :: "u8 list"

definition new_HttpResponseParser :: response_parser where
  "new_HttpResponseParser = \<lparr>sp_parser = http_parser_init HTTP_RESPONSE, sp_data = new_HttpResponse 0x11 True, sp_error = 0,
     sp_finished = False, sp_field = []\<rparr>"

definition response_callback :: "response_parser settings" where
  "response_callback e f p = (case e of
     MessageBegin \<Rightarrow> (0, p)
   | Url buf \<Rightarrow> (0, p)
   | StatusText buf \<Rightarrow> (0, p\<lparr>sp_data := (sp_data p)\<lparr>rs_status := status_code f\<rparr>\<rparr>)
   | HeaderField buf \<Rightarrow> (0, p\<lparr>sp_field := buf\<rparr>)
   | HeaderValue buf \<Rightarrow> (0, p\<lparr>sp_data := rs_setHeader (sp_field p) buf (sp_data p)\<rparr>)
   | HeadersComplete \<Rightarrow> (0, p\<lparr>sp_data := (sp_data p)\<lparr>rs_version := version_byte f, rs_status := status_code f\<rparr>\<rparr>)
   | BodyPart buf \<Rightarrow> (0, p\<lparr>sp_data := (sp_data p)\<lparr>rs_body := rs_body (sp_data p) @ buf\<rparr>\<rparr>)
   | MessageComplete \<Rightarrow> (0, p\<lparr>sp_finished := True\<rparr>)
   | ChunkHeader \<Rightarrow> (0, p)
   | ChunkComplete \<Rightarrow> (0, p))"

definition response_execute :: "u8 list \<Rightarrow> response_parser \<Rightarrow> (nat \<times> u8 list \<times> response_parser) result" where
  "response_execute data p = (case http_parser_execute response_callback (sp_parser p) data p of
       Inl e \<Rightarrow> Inl e
     | Inr (nparsed, hp, p) \<Rightarrow>
         let p = p\<lparr>sp_parser := hp\<rparr> in
         if http_errno hp \<noteq> HPE_OK then Inr (nparsed, data, p\<lparr>sp_error := to_int8 (errno_value (http_errno hp))\<rparr>)
         else Inr (nparsed, if nparsed < length data then drop nparsed data else data, p))"

subsection \<open>The configured sizes\<close>

text \<open>
  The four variables, the static copies \<open>s_http_\<dots>\<close> of their values, and the ids of the listeners
  that \<open>_RequestSizeIniter\<close> registers. The listener ids come from the counter of \<open>ConfigVar<uint64_t>\<close>.
\<close>

datatype http_size = request_buffer_size | request_max_body_size | response_buffer_size | response_max_body_size

definition all_sizes :: "http_size list" where
  "all_sizes = [request_buffer_size, request_max_body_size, response_buffer_size, response_max_body_size]"

record http_sizes =
  hz_vars :: "http_size \<Rightarrow> u64 config_var"
  hz_sizes :: "http_size \<Rightarrow> u64"
  hz_listeners :: "http_size \<Rightarrow> nat"
  hz_funcId :: nat

definition size_default :: "http_size \<Rightarrow> u64" where
  "size_default z = (if z \<in> set [request_buffer_size, response_buffer_size] then 4 * 1024 else 64 * 1024 * 1024)"

definition size_name :: "http_size \<Rightarrow> u8 list" where
  "size_name z = bytes (case z of request_buffer_size \<Rightarrow> ''http.request.buffer_size''
     | request_max_body_size \<Rightarrow> ''http.request.max_body_size'' | response_buffer_size \<Rightarrow> ''http.response.buffer_size''
     | response_max_body_size \<Rightarrow> ''http.response.max_body_size'')"

definition add_size_listener :: "http_size \<Rightarrow> http_sizes \<Rightarrow> http_sizes" where
  "add_size_listener z hz = (let (fid, i, c) = addListener (hz_funcId hz) (hz_vars hz z) in
     hz\<lparr>hz_vars := (hz_vars hz)(z := c), hz_listeners := (hz_listeners hz)(z := i), hz_funcId := fid\<rparr>)"

definition RequestSizeIniter :: "nat \<Rightarrow> (http_size \<Rightarrow> u64 config_var) \<Rightarrow> http_sizes" where
  "RequestSizeIniter fid vars =
     fold add_size_listener all_sizes
       \<lparr>hz_vars = vars, hz_sizes = (\<lambda>z. m_val (vars z)), hz_listeners = (\<lambda>_. 0), hz_funcId = fid\<rparr>"

text \<open>\<open>setValue\<close> on one of the variables, with the calls of its listeners: ours copies the new value.\<close>

definition size_notify :: "http_size \<Rightarrow> u64 notification \<Rightarrow> http_sizes \<Rightarrow> http_sizes" where
  "size_notify z ntf hz = (case ntf of (i, ov, nv) \<Rightarrow>
     if i = hz_listeners hz z then hz\<lparr>hz_sizes := (hz_sizes hz)(z := nv)\<rparr> else hz)"

definition set_size :: "http_size \<Rightarrow> u64 \<Rightarrow> http_sizes \<Rightarrow> http_sizes" where
  "set_size z v hz = (let (ntfs, c) = setValue v (hz_vars hz z) in
     fold (size_notify z) ntfs (hz\<lparr>hz_vars := (hz_vars hz)(z := c)\<rparr>))"

definition sizes_ok :: "http_sizes \<Rightarrow> bool" where
  "sizes_ok hz \<longleftrightarrow> (\<forall>z. hz_sizes hz z = m_val (hz_vars hz z) \<and> hz_listeners hz z \<in> set (m_onChangeMap (hz_vars hz z)))"

lemma size_notify_fold:
  assumes "hz_listeners hz z = i" "\<forall>n\<in>set ntfs. snd (snd n) = v"
  shows "fold (size_notify z) ntfs hz = (if i \<in> set (map fst ntfs) then hz\<lparr>hz_sizes := (hz_sizes hz)(z := v)\<rparr> else hz)"
  using assms
  by (induction ntfs arbitrary: hz) (auto simp: size_notify_def simp del: set_map)

lemma sizes_follow_init: "sizes_ok (RequestSizeIniter fid vars)"
proof -
  show ?thesis
    unfolding sizes_ok_def
  proof
    fix z show "hz_sizes (RequestSizeIniter fid vars) z = m_val (hz_vars (RequestSizeIniter fid vars) z) \<and>
        hz_listeners (RequestSizeIniter fid vars) z \<in> set (m_onChangeMap (hz_vars (RequestSizeIniter fid vars) z))"
      by (cases z) (simp_all add: RequestSizeIniter_def all_sizes_def add_size_listener_def addListener_def Let_def)
  qed
qed

lemma set_size_ok:
  assumes "sizes_ok hz"
  shows "sizes_ok (set_size z v hz)" "m_val (hz_vars (set_size z v hz) z) = v"
proof -
  show "sizes_ok (set_size z v hz)"
    using assms size_notify_fold [where z = z and v = v]
    by (auto simp: sizes_ok_def set_size_def setValue_def Let_def image_image)
  show "m_val (hz_vars (set_size z v hz) z) = v"
    using size_notify_fold [where z = z and v = v] by (auto simp: set_size_def setValue_def Let_def comp_def)
qed

text \<open>The configured sizes. After start-up and any sequence of changes of the four variables the sizes the server works
  with are the current values of the variables; a change of one leaves the other three.\<close>

theorem sizes_follow_config:
  "sizes_ok (fold (\<lambda>(z, v). set_size z v) changes (RequestSizeIniter fid vars)) \<and>
   hz_sizes (set_size z v (fold (\<lambda>(z, v). set_size z v) changes (RequestSizeIniter fid vars))) =
     (hz_sizes (fold (\<lambda>(z, v). set_size z v) changes (RequestSizeIniter fid vars)))(z := v)"
proof -
  have f: "sizes_ok (fold (\<lambda>(z, v). set_size z v) changes hz)" if "sizes_ok hz" for hz
    using that by (induction changes arbitrary: hz) (auto simp: set_size_ok)
  let ?hz = "fold (\<lambda>(z, v). set_size z v) changes (RequestSizeIniter fid vars)"
  have k: "sizes_ok ?hz" by (rule f [OF sizes_follow_init])
  have "hz_vars (set_size z v ?hz) x = hz_vars ?hz x" if "x \<noteq> z" for x
    using that size_notify_fold [where z = z and v = v] by (auto simp: set_size_def setValue_def Let_def image_image)
  then have "hz_sizes (set_size z v ?hz) x = ((hz_sizes ?hz)(z := v)) x" for x
    using set_size_ok [OF k, of z v] k by (cases "x = z") (auto simp: sizes_ok_def)
  then show ?thesis using k by blast
qed

subsection \<open>What the callbacks collect\<close>

text \<open>A list of callbacks, up to the first that fails.\<close>

fun run_callbacks :: "'s settings \<Rightarrow> (parser_event \<times> http_parser) list \<Rightarrow> 's \<Rightarrow> bool \<times> 's" where
  "run_callbacks cb [] s = (True, s)"
| "run_callbacks cb ((e, f) # es) s = (let (rt, s) = cb e f s in if rt \<noteq> 0 then (False, s) else run_callbacks cb es s)"

lemma run_callbacks_append:
  "run_callbacks cb (a @ b) s = (case run_callbacks cb a s of (False, s) \<Rightarrow> (False, s) | (True, s) \<Rightarrow> run_callbacks cb b s)"
  by (induction cb a s rule: run_callbacks.induct) (auto split: prod.splits)

text \<open>The callbacks for one header: field and value may come in pieces.\<close>

definition header_events :: "u8 list list \<Rightarrow> u8 list list \<Rightarrow> parser_event list" where
  "header_events fs vs = map HeaderField fs @ map HeaderValue vs"

definition body_events :: "u8 list list \<Rightarrow> parser_event list" where
  "body_events bs = map BodyPart bs"

text \<open>A whole request: the URL, the headers, the end of the headers, the body in pieces, the end.\<close>

definition request_events ::
  "u8 list \<Rightarrow> (u8 list list \<times> u8 list list) list \<Rightarrow> u8 list list \<Rightarrow> parser_event list" where
  "request_events url hs bs = MessageBegin # Url url # concat (map (\<lambda>(fs, vs). header_events fs vs) hs)
     @ HeadersComplete # body_events bs @ [MessageComplete]"

definition with_fields :: "http_parser \<Rightarrow> parser_event list \<Rightarrow> (parser_event \<times> http_parser) list" where
  "with_fields f es = map (\<lambda>e. (e, f)) es"

lemma request_callback_simps [simp]:
  "request_callback MessageBegin f p = (0, p)"
  "request_callback (HeaderField b) f p = (0, p\<lparr>rp_field := b\<rparr>)"
  "request_callback (HeaderValue b) f p = (0, p\<lparr>rp_data := rq_setHeader (rp_field p) b (rp_data p)\<rparr>)"
  "request_callback HeadersComplete f p = (0, p\<lparr>rp_data := on_request_headers_complete f (rp_data p)\<rparr>)"
  "request_callback (BodyPart b) f p = (0, p\<lparr>rp_data := (rp_data p)\<lparr>rq_body := rq_body (rp_data p) @ b\<rparr>\<rparr>)"
  "request_callback MessageComplete f p = (0, p\<lparr>rp_finished := True\<rparr>)"
  by (simp_all add: request_callback_def)

lemma with_fields_simps [simp]:
  "with_fields f [] = []" "with_fields f (e # es) = (e, f) # with_fields f es"
  "with_fields f (a @ b) = with_fields f a @ with_fields f b"
  by (simp_all add: with_fields_def)

lemma ci_assign_twice: "ci_assign k b (ci_assign k a m) = ci_assign k b m"
  using ci.weak_irrefl by (induction m) (auto simp: ci_assign_def)

lemma fields_run:
  "fs \<noteq> [] \<Longrightarrow> run_callbacks (request_callback) (with_fields f (map HeaderField fs)) p = (True, p\<lparr>rp_field := last fs\<rparr>)"
  by (induction fs arbitrary: p) auto

lemma values_run:
  "vs \<noteq> [] \<Longrightarrow> run_callbacks (request_callback) (with_fields f (map HeaderValue vs)) p
      = (True, p\<lparr>rp_data := rq_setHeader (rp_field p) (last vs) (rp_data p)\<rparr>)"
proof (induction vs arbitrary: p)
  case (Cons v vs)
  then show ?case by (cases "vs = []") (simp_all add: rq_setHeader_def ci_assign_twice)
qed simp

text \<open>The headers after the events of a list of headers: of each field and value the last piece counts.\<close>

definition collect :: "(u8 list list \<times> u8 list list) list \<Rightarrow> MapType \<Rightarrow> MapType" where
  "collect hs m = foldl (\<lambda>m h. ci_assign (last (fst h)) (last (snd h)) m) m hs"

lemma headers_run:
  "list_all (\<lambda>h. fst h \<noteq> [] \<and> snd h \<noteq> []) hs \<Longrightarrow> \<exists>fld.
   run_callbacks (request_callback) (with_fields f (concat (map (\<lambda>(fs, vs). header_events fs vs) hs))) p
     = (True, p\<lparr>rp_data := (rp_data p)\<lparr>rq_headers := collect hs (rq_headers (rp_data p))\<rparr>, rp_field := fld\<rparr>)"
proof (induction hs arbitrary: p)
  case Nil
  then show ?case by (intro exI [of _ "rp_field p"]) (simp add: collect_def)
next
  case (Cons h hs)
  obtain fs vs where h: "h = (fs, vs)" "fs \<noteq> []" "vs \<noteq> []" using Cons.prems by (cases h) auto
  let ?p = "p\<lparr>rp_field := last fs, rp_data := rq_setHeader (last fs) (last vs) (rp_data p)\<rparr>"
  obtain fld where "run_callbacks (request_callback) (with_fields f (concat (map (\<lambda>(fs, vs). header_events fs vs) hs))) ?p
     = (True, ?p\<lparr>rp_data := (rp_data ?p)\<lparr>rq_headers := collect hs (rq_headers (rp_data ?p))\<rparr>, rp_field := fld\<rparr>)"
    using Cons by fastforce
  then show ?case
    using h by (intro exI [of _ fld])
      (simp add: header_events_def run_callbacks_append fields_run values_run rq_setHeader_def collect_def)
qed

lemma body_run:
  "run_callbacks (request_callback) (with_fields f (body_events bs)) p
     = (True, p\<lparr>rp_data := (rp_data p)\<lparr>rq_body := rq_body (rp_data p) @ concat bs\<rparr>\<rparr>)"
  by (induction bs arbitrary: p) (simp_all add: body_events_def)

text \<open>C29: What the request parser makes of the callbacks of one message. It fails exactly when the URL cannot be
  parsed; otherwise method, version, path and query are those reported, the body is the one collected
  so far extended by all pieces, the message counts as finished, and the headers are those collected
  so far updated by each header in turn. Of a field or value that is reported in several pieces (as
  the library does when it continues in the next buffer) only the last piece is kept; and nothing is
  reset at the start of a message, so that a second message in the same buffer adds its headers and
  body to those of the first.\<close>

theorem request_collected:
  assumes "list_all (\<lambda>h. fst h \<noteq> [] \<and> snd h \<noteq> []) hs"
  shows "case http_parser_parse_url url False http_parser_url_init of
      Inr (Some u) \<Rightarrow> \<exists>q. run_callbacks request_callback (with_fields f (request_events url hs bs)) p = (True, q)
      \<and> rp_finished q \<and> rp_error q = rp_error p
      \<and> rq_method (rp_data q) = hp_method f \<and> rq_version (rp_data q) = version_byte f
      \<and> rq_path (rp_data q) = (case url_part url u UF_PATH of Some x \<Rightarrow> x | None \<Rightarrow> rq_path (rp_data p))
      \<and> rq_query (rp_data q) = (case url_part url u UF_QUERY of Some x \<Rightarrow> x | None \<Rightarrow> rq_query (rp_data p))
      \<and> rq_headers (rp_data q) = collect hs (rq_headers (rp_data p))
      \<and> rq_body (rp_data q) = rq_body (rp_data p) @ concat bs
    | _ \<Rightarrow> run_callbacks request_callback (with_fields f (request_events url hs bs)) p = (False, p)"
proof (cases "\<exists>u. http_parser_parse_url url False http_parser_url_init = Inr (Some u)")
  case False
  then have "on_request_url url (rp_data p) = (1, rp_data p)" by (auto simp: on_request_url_def split: sum.splits option.splits)
  then show ?thesis using False
    by (auto simp: request_events_def request_callback_def split: sum.splits option.splits)
next
  case True
  then obtain u where Some: "http_parser_parse_url url False http_parser_url_init = Inr (Some u)" by blast
  define r where "r = snd (on_request_url url (rp_data p))"
  let ?p = "p\<lparr>rp_data := r\<rparr>"
  have u: "request_callback (Url url) f p = (0, ?p)"
    using Some by (simp add: request_callback_def on_request_url_def r_def)
  have r: "rq_headers r = rq_headers (rp_data p)" "rq_body r = rq_body (rp_data p)"
    "rq_path r = (case url_part url u UF_PATH of Some x \<Rightarrow> x | None \<Rightarrow> rq_path (rp_data p))"
    "rq_query r = (case url_part url u UF_QUERY of Some x \<Rightarrow> x | None \<Rightarrow> rq_query (rp_data p))"
    using Some by (simp_all add: r_def on_request_url_def Let_def split: option.split)
  obtain fld where h: "run_callbacks request_callback
      (with_fields f (concat (map (\<lambda>(fs, vs). header_events fs vs) hs))) ?p
     = (True, ?p\<lparr>rp_data := (rp_data ?p)\<lparr>rq_headers := collect hs (rq_headers (rp_data ?p))\<rparr>, rp_field := fld\<rparr>)"
    using headers_run [OF assms] by blast
  show ?thesis
    using u h r Some by (simp add: request_events_def run_callbacks_append body_run on_request_headers_complete_def)
qed

lemma find_append: "find P (xs @ ys) = (case find P xs of None \<Rightarrow> find P ys | Some x \<Rightarrow> Some x)"
  by (induction xs) auto

text \<open>The field a value belongs to is found up to case; with each in one piece the last header of a name wins.\<close>

lemma collect_find:
  "map_sorted CaseInsensitiveLess m \<Longrightarrow>
   ci_find key (collect hs m) = (case find (\<lambda>h. lkey (last (fst h)) = lkey key) (rev hs) of
     Some h \<Rightarrow> Some (last (snd h)) | None \<Rightarrow> ci_find key m)"
proof (induction hs arbitrary: m)
  case (Cons h hs)
  have "map_sorted CaseInsensitiveLess (ci_assign (last (fst h)) (last (snd h)) m)"
    using ci.sorted_assign [OF Cons.prems] by (simp add: ci_assign_def)
  from Cons.IH [OF this] show ?case
    using ci_find_assign [OF Cons.prems, of key "last (fst h)" "last (snd h)"]
    by (auto simp: collect_def find_append split: option.splits)
qed (simp add: collect_def)

definition plain_fields :: http_parser where
  "plain_fields = (http_parser_init HTTP_REQUEST)\<lparr>http_major := 1, http_minor := 1, hp_method := POST\<rparr>"

text \<open>A value cut by the end of a buffer loses its first half.\<close>

theorem request_collected_witness:
  "\<exists>q. run_callbacks request_callback
       (with_fields plain_fields (request_events [47] [([[97]], [[49, 50], [51]])] [[1], [2]])) new_HttpRequestParser = (True, q)
     \<and> rq_headers (rp_data q) = [([97], [51])] \<and> rq_body (rp_data q) = [1, 2] \<and> rq_method (rp_data q) = POST"
proof -
  have "target_ok [47] [] []" by (simp add: target_ok_def IS_URL_CHAR_def)
  then obtain u where "http_parser_parse_url [47] False http_parser_url_init = Inr (Some u)"
    using origin_form_parsed [of "[47]" "[]" "[]" http_parser_url_init] by (auto simp: origin_form_def)
  then show ?thesis
    using request_collected [where hs = "[([[97]], [[49, 50], [51]])]" and url = "[47]" and f = plain_fields and bs = "[[1], [2]]" and p = new_HttpRequestParser]
    by (auto simp: plain_fields_def new_HttpRequestParser_def new_HttpRequest_def collect_def ci_assign_def)
qed
subsection \<open>The parser and the library\<close>

lemma request_callback_frame:
  "request_callback e f (p\<lparr>rp_parser := h\<rparr>) = map_prod id (\<lambda>p. p\<lparr>rp_parser := h\<rparr>) (request_callback e f p)"
  by (cases e) (simp_all add: request_callback_def split: prod.split)

lemma request_callback_error: "rp_error (snd (request_callback e f p)) = rp_error p"
  by (cases e) (simp_all add: request_callback_def split: prod.split)

text \<open>The parser holds what callbacks in the order of HTTP messages have collected, and no error is recorded.\<close>

definition assembled :: "phase \<Rightarrow> request_parser \<Rightarrow> bool" where
  "assembled ph p \<longleftrightarrow> rp_error p = 0 \<and>
     told request_callback new_HttpRequestParser ph (p\<lparr>rp_parser := rp_parser new_HttpRequestParser\<rparr>)"

interpretation request_client: parser_client request_callback assembled
proof
  fix ph ev ph' hp r u u'
  assume a: "assembled ph u" "next_phase ph ev = Some ph'" "request_callback ev hp u = (r, u')"
  have "request_callback ev hp (u\<lparr>rp_parser := rp_parser new_HttpRequestParser\<rparr>) = (r, u'\<lparr>rp_parser := rp_parser new_HttpRequestParser\<rparr>)"
    using a(3) by (simp add: request_callback_frame)
  moreover have "told request_callback new_HttpRequestParser ph (u\<lparr>rp_parser := rp_parser new_HttpRequestParser\<rparr>)"
    using a(1) by (simp add: assembled_def)
  ultimately have "told request_callback new_HttpRequestParser ph' (u'\<lparr>rp_parser := rp_parser new_HttpRequestParser\<rparr>)"
    using in_order.in_order [of request_callback, OF _ a(2)] by metis
  then show "assembled ph' u'"
    using a(1,3) request_callback_error [of ev hp u] by (auto simp: assembled_def)
qed

lemma assembled_parser: "assembled ph (p\<lparr>rp_parser := h\<rparr>) = assembled ph p"
  by (simp add: assembled_def)

text \<open>A parser that has been given bytes without an error.\<close>

definition rp_ok :: "request_parser \<Rightarrow> bool" where
  "rp_ok p \<longleftrightarrow> hp_ok (rp_parser p) \<and> http_errno (rp_parser p) = HPE_OK \<and>
     (\<exists>ph\<in>set (phases (hp_state (rp_parser p)) (trailing (rp_parser p))). assembled ph p)"

lemma new_request_parser_ok: "rp_ok new_HttpRequestParser"
  using told_start [of request_callback new_HttpRequestParser] http_init_ok(1) [of HTTP_REQUEST]
  by (simp add: rp_ok_def assembled_def new_HttpRequestParser_def http_parser_init_def phases_def)

lemma to_int8_id: "n < 128 \<Longrightarrow> to_int8 n = int n"
  by (simp add: to_int8_def sint_uint uint_nat unat_of_nat signed_take_bit_int_eq_self)

lemma errno_value_range: "errno_value e < 128" "errno_value e = 0 \<longleftrightarrow> e = HPE_OK"
proof -
  have "length (takeWhile P HTTP_ERRNO_MAP) \<le> 33" for P
    using length_takeWhile_le [of P HTTP_ERRNO_MAP] by (simp add: HTTP_ERRNO_MAP_def)
  then show "errno_value e < 128" unfolding errno_value_def by (rule le_less_trans) simp
  have "HTTP_ERRNO_MAP \<noteq> []" "fst (hd HTTP_ERRNO_MAP) = HPE_OK" by (simp_all add: HTTP_ERRNO_MAP_def)
  then show "errno_value e = 0 \<longleftrightarrow> e = HPE_OK" by (auto simp: errno_value_def takeWhile_eq_Nil_iff split_beta)
qed

lemma request_execute_ok:
  assumes "rp_ok p" "data \<noteq> []"
  obtains k data2 p2 where "request_execute data p = Inr (k, data2, p2)" "k \<le> length data"
    "rp_error p2 = 0 \<Longrightarrow> k = length data \<and> rp_ok p2"
proof -
  have h: "hp_ok (rp_parser p)" "http_errno (rp_parser p) = HPE_OK"
    "request_client.tracks (hp_state (rp_parser p)) (trailing (rp_parser p)) p"
    using assms(1) by (auto simp: rp_ok_def request_client.tracks_def)
  obtain n hp q where e: "http_parser_execute request_callback (rp_parser p) data p = Inr (n, hp, q)" "n \<le> length data" "hp_ok hp"
    "http_errno hp = HPE_OK \<longrightarrow> (n = length data \<or> upgrade hp) \<and> request_client.tracks (hp_state hp) (trailing hp) q"
    using request_client.execute_returns [OF h(1,2) assms(2) h(3)] by blast
  let ?q = "q\<lparr>rp_parser := hp\<rparr>"
  let ?p2 = "if upgrade hp then ?q\<lparr>rp_error := int (errno_value HPE_UNKNOWN)\<rparr>
    else if http_errno hp \<noteq> HPE_OK then ?q\<lparr>rp_error := to_int8 (errno_value (http_errno hp))\<rparr> else ?q"
  have "\<exists>data2. request_execute data p = Inr (n, data2, ?p2)" using e(1) by (simp add: request_execute_def Let_def)
  then obtain data2 where "request_execute data p = Inr (n, data2, ?p2)" by blast
  moreover have "n = length data \<and> rp_ok ?p2" if "rp_error ?p2 = 0"
  proof -
    have "\<not> upgrade hp" "http_errno hp = HPE_OK"
      using that errno_value_range(2) [of HPE_UNKNOWN] errno_value_range [of "http_errno hp"]
      by (auto simp: to_int8_id split: if_splits)
    then show ?thesis using e(3,4) by (auto simp: rp_ok_def request_client.tracks_def assembled_parser)
  qed
  ultimately show ?thesis using that e(2) by blast
qed
subsection \<open>Where buffers and messages do not coincide\<close>

definition crlf :: "u8 list" where "crlf = [13, 10]"

definition then_execute :: "u8 list \<Rightarrow> (nat \<times> u8 list \<times> request_parser) result \<Rightarrow> (nat \<times> u8 list \<times> request_parser) result" where
  "then_execute data r = (case r of Inl e \<Rightarrow> Inl e | Inr (n, buf, p) \<Rightarrow> request_execute data p)"

text \<open>
  A request is refused when a buffer ends inside its URL: the second piece of the URL is parsed as a URL of
  its own, the callback fails (error 2, \<open>HPE_CB_url\<close>).
\<close>

lemma split_url_refused:
  "case then_execute (bytes ''b HTTP/1.1'' @ crlf @ crlf) (request_execute (bytes ''GET /a'') new_HttpRequestParser) of
     Inr (n, buf, p) \<Rightarrow> rp_error p = 2 | _ \<Rightarrow> False"
  by code_simp

text \<open>A header value loses what came before the end of a buffer.\<close>

lemma split_value_truncated:
  "case then_execute (bytes ''cd'' @ crlf @ crlf)
       (request_execute (bytes ''GET / HTTP/1.1'' @ crlf @ bytes ''h: ab'') new_HttpRequestParser) of
     Inr (n, buf, p) \<Rightarrow> rp_finished p \<and> rp_error p = 0 \<and> rq_headers (rp_data p) = [(bytes ''h'', bytes ''cd'')] | _ \<Rightarrow> False"
  by code_simp

text \<open>Two requests in one buffer become one: the path is the second one's, the headers are both.\<close>

lemma pipelined_requests_merged:
  "case request_execute (bytes ''GET /1 HTTP/1.1'' @ crlf @ bytes ''a: 1'' @ crlf @ crlf @ bytes ''GET /2 HTTP/1.1'' @ crlf @ crlf)
      new_HttpRequestParser of
     Inr (n, buf, p) \<Rightarrow> n = 44 \<and> rp_finished p \<and> rp_error p = 0 \<and> rq_path (rp_data p) = bytes ''/2''
       \<and> rq_headers (rp_data p) = [(bytes ''a'', bytes ''1'')] | _ \<Rightarrow> False"
  by code_simp

end
