(* ===== verification/HttpReader.thy ===== *)
theory HttpReader
  imports HttpSafe Http
begin

text \<open>
  How \<open>http_parser_execute\<close> of \<open>src/http/http_parser.cc\<close> reads a message that is in one buffer: the states at the
  borders of its parts (header lines, end of the headers, body) and the way from one to the next. The
  parts are found in the data by what is left of it, \<open>drop k data\<close>.
\<close>

subsection \<open>Positions\<close>

lemma drop_Cons_nth: "drop k xs = c # rest \<Longrightarrow> k < length xs \<and> xs ! k = c \<and> drop (Suc k) xs = rest"
  by (metis Cons_nth_drop_Suc drop_all list.distinct(1) list.inject not_le)

lemma drop_append_drop: "drop k xs = a @ b \<Longrightarrow> drop (k + length a) xs = b"
  by (metis add.commute append_eq_conv_conj drop_drop)

lemma drop_append_nth: "drop k xs = a @ b \<Longrightarrow> i < length a \<Longrightarrow> xs ! (k + i) = a ! i"
  by (metis add_leD1 drop_all drop_eq_Nil append_is_Nil_conv length_0_conv less_nat_zero_code linorder_le_cases nth_append nth_drop)

lemma drop_append_length: "drop k xs = a @ b \<Longrightarrow> a @ b \<noteq> [] \<Longrightarrow> length xs = k + length a + length b"
  by (metis add.assoc drop_eq_Nil2 le_add_diff_inverse length_append length_drop nat_le_linear)

lemma drop_take_segment: "drop k xs = a @ b \<Longrightarrow> take (length a) (drop k xs) = a"
  by simp

subsection \<open>The loop from a position\<close>

text \<open>The result of \<open>http_parser_execute\<close> when its loop is at a given point.\<close>

definition fin :: "'s settings \<Rightarrow> u8 list \<Rightarrow> 's exec \<Rightarrow> (nat \<times> http_parser \<times> 's) result" where
  "fin cb data ex = (case (case exec_loop cb data ex of
       Next ex \<Rightarrow> flush_marks cb data ex | Error ex \<Rightarrow> error_exit ex | out \<Rightarrow> out) of
     Return n ex \<Rightarrow> Inr (n, ex_parser ex, ex_user ex) | Abort e \<Rightarrow> Inl e | _ \<Rightarrow> Inl LogicError)"

text \<open>Between two bytes of the header: so far every byte has been counted.\<close>

definition at_head :: "nat \<Rightarrow> p_state \<Rightarrow> http_parser \<Rightarrow> (mark \<Rightarrow> nat option) \<Rightarrow> 's \<Rightarrow> 's exec" where
  "at_head k s hp mk u = \<lparr>ex_p = k, ex_ch = 0, ex_state = s, ex_nread = of_nat k, ex_parser = hp, ex_marks = mk, ex_user = u\<rparr>"

lemma at_head_p [simp]: "ex_p (at_head k s hp mk u) = k"
  by (simp add: at_head_def)

text \<open>On a byte of the header, with the bytes up to \<open>j\<close> counted.\<close>

definition skip_head :: "nat \<Rightarrow> nat \<Rightarrow> u8 \<Rightarrow> p_state \<Rightarrow> http_parser \<Rightarrow> (mark \<Rightarrow> nat option) \<Rightarrow> 's \<Rightarrow> 's exec" where
  "skip_head j k c s hp mk u =
     \<lparr>ex_p = k, ex_ch = c, ex_state = s, ex_nread = of_nat (Suc j), ex_parser = hp, ex_marks = mk, ex_user = u\<rparr>"

abbreviation on_head :: "nat \<Rightarrow> u8 \<Rightarrow> p_state \<Rightarrow> http_parser \<Rightarrow> (mark \<Rightarrow> nat option) \<Rightarrow> 's \<Rightarrow> 's exec" where
  "on_head k \<equiv> skip_head k k"

lemma skip_head_fields [simp]:
  "ex_p (skip_head j k c s hp mk u) = k" "ex_ch (skip_head j k c s hp mk u) = c" "ex_state (skip_head j k c s hp mk u) = s"
  "ex_nread (skip_head j k c s hp mk u) = of_nat (Suc j)" "ex_parser (skip_head j k c s hp mk u) = hp"
  "ex_marks (skip_head j k c s hp mk u) = mk" "ex_user (skip_head j k c s hp mk u) = u"
  by (simp_all add: skip_head_def)

lemma upd_skip_head [simp]: "upd f (skip_head j k c s hp mk u) = skip_head j k c s (f hp) mk u"
  by (simp add: upd_def skip_head_def)

lemma UPDATE_STATE_skip_head [simp]: "UPDATE_STATE t (skip_head j k c s hp mk u) = skip_head j k c t hp mk u"
  by (simp add: UPDATE_STATE_def skip_head_def)

lemma MARK_skip_head [simp]:
  "MARK m (skip_head j k c s hp mk u) = skip_head j k c s hp (if mk m = None then mk(m \<mapsto> k) else mk) u"
  by (auto simp: MARK_def skip_head_def split: option.split)

lemma skip_head_updates [simp]:
  "skip_head j k c s hp mk u\<lparr>ex_user := v\<rparr> = skip_head j k c s hp mk v"
  "skip_head j k c s hp mk u\<lparr>ex_marks := mk'\<rparr> = skip_head j k c s hp mk' u"
  "skip_head j k c s hp mk u\<lparr>ex_p := p, ex_ch := d, ex_parser := hp'\<rparr> = skip_head j p d s hp' mk u"
  by (simp_all add: skip_head_def)

lemma fetch_ch: "fetch cb data (ex\<lparr>ex_ch := c\<rparr>) = fetch cb data ex"
  by (simp add: fetch_def)

lemma flush_ch:
  "(case flush_marks cb data (ex\<lparr>ex_ch := c\<rparr>) of
     Return n ex \<Rightarrow> Inr (n, ex_parser ex, ex_user ex) | Abort e \<Rightarrow> Inl e | _ \<Rightarrow> Inl LogicError)
   = (case flush_marks cb data ex of
     Return n ex \<Rightarrow> Inr (n, ex_parser ex, ex_user ex) | Abort e \<Rightarrow> Inl e | _ \<Rightarrow> Inl LogicError)"
  by (simp add: flush_marks_def CALLBACK_DATA_NOADVANCE_def CALLBACK_DATA'_def CALLBACK_NOTIFY'_def assert_ex_def RETURN_def
      SET_ERRNO_def upd_def Let_def split: option.split prod.split)

lemma fin_ch: "fin cb data (ex\<lparr>ex_ch := c\<rparr>) = fin cb data ex"
proof (cases "length data \<le> ex_p ex")
  case True
  then show ?thesis by (simp add: fin_def exec_loop.simps flush_ch)
next
  case False
  then have "exec_loop cb data (ex\<lparr>ex_ch := c\<rparr>) = exec_loop cb data ex"
    by (subst (1 2) exec_loop.simps) (simp add: fetch_ch)
  then show ?thesis by (simp add: fin_def)
qed

lemma fin_loop:
  assumes "ex_p ex < length data" and "fetch cb data ex = Next e"
  shows "fin cb data ex = fin cb data (e\<lparr>ex_p := Suc (ex_p e)\<rparr>)"
  using assms by (simp add: fin_def exec_loop.simps [of cb data ex])

text \<open>One turn of the loop; the states of a line may skip over several bytes.\<close>

lemma fin_next:
  assumes "drop k data = c # rest" and "PARSING_HEADER s" and "k < 81920"
    and "reexecute cb data (on_head k c s hp mk u) = Next (on_head j d t hp' mk' u')"
  shows "fin cb data (at_head k s hp mk u) = fin cb data (at_head (Suc j) t hp' mk' u')"
proof -
  note d = drop_Cons_nth [OF assms(1)]
  have n: "\<not> max_header_size < (of_nat (Suc k) :: u32)"
    using assms(3) by (simp add: max_header_size_def word_less_nat_alt unat_of_nat del: of_nat_Suc)
  have "fetch cb data (at_head k s hp mk u) = Next (on_head j d t hp' mk' u')"
    using d assms(2,4) n by (simp add: fetch_def at_head_def skip_head_def Let_def COUNT_HEADER_SIZE_def add.commute)
  then have "fin cb data (at_head k s hp mk u) = fin cb data ((on_head j d t hp' mk' u')\<lparr>ex_p := Suc j\<rparr>)"
    using d by (subst fin_loop [where e = "on_head j d t hp' mk' u'"]) (simp_all add: at_head_def)
  also have "\<dots> = fin cb data (at_head (Suc j) t hp' mk' u')"
    by (subst fin_ch [symmetric, where c = 0]) (simp add: skip_head_def at_head_def)
  finally show ?thesis .
qed

lemma reexecute_cases:
  "step cb data ex = Next e \<Longrightarrow> reexecute cb data ex = Next e"
  "step cb data ex = Reexecute e \<Longrightarrow> reexecute cb data ex = reexecute cb data e"
  by (simp_all add: reexecute.simps [of cb data ex])

lemmas reexecute_step = reexecute.simps [of cb data "on_head k c s hp mk u" for cb data k c s hp mk u]

lemma callbacks_on_head [simp]:
  "http_errno hp = HPE_OK \<Longrightarrow> cb ev (hp\<lparr>hp_state := s\<rparr>) u = (0, v) \<Longrightarrow>
     CALLBACK_NOTIFY' cb ev er ret (skip_head j k c s hp mk u) f = f (skip_head j k c s (hp\<lparr>hp_state := s\<rparr>) mk v)"
  by (simp add: CALLBACK_NOTIFY'_def assert_ex_def Let_def)


subsection \<open>Field names\<close>

definition proper :: "u8 list \<Rightarrow> u8 list \<Rightarrow> nat \<Rightarrow> bool" where
  "proper w X i \<longleftrightarrow> w = take (length w) X \<and> 0 < length w \<and> length w < length X \<and> i = length w - 1"

text \<open>
  What \<open>header_state\<close> and \<open>index\<close> say of the part of the name that was read, in lower case: a proper prefix of a known
  name, the whole of one, or nothing.
\<close>

definition field_inv :: "u8 list \<Rightarrow> header_states \<Rightarrow> nat \<Rightarrow> bool" where
  "field_inv w h i \<longleftrightarrow> (case h of
     h_general \<Rightarrow> True
   | h_C \<Rightarrow> w = bytes ''c'' \<and> i = 0 | h_CO \<Rightarrow> w = bytes ''co'' \<and> i = 1 | h_CON \<Rightarrow> w = bytes ''con'' \<and> i = 2
   | h_matching_connection \<Rightarrow> proper w (bytes ''connection'') i
   | h_matching_proxy_connection \<Rightarrow> proper w (bytes ''proxy-connection'') i
   | h_matching_content_length \<Rightarrow> proper w (bytes ''content-length'') i
   | h_matching_transfer_encoding \<Rightarrow> proper w (bytes ''transfer-encoding'') i
   | h_matching_upgrade \<Rightarrow> proper w (bytes ''upgrade'') i
   | h_connection \<Rightarrow> True
   | h_content_length \<Rightarrow> w = bytes ''content-length''
   | h_transfer_encoding \<Rightarrow> w = bytes ''transfer-encoding''
   | h_upgrade \<Rightarrow> w = bytes ''upgrade''
   | _ \<Rightarrow> False)"

lemma match_word_inv:
  assumes "proper w X i" and "P bad" and "proper (w @ [c]) X (Suc i) \<Longrightarrow> P same" and "w @ [c] = X \<Longrightarrow> P good"
  shows "P (match_word X c (Suc i) bad same good)"
proof -
  have i: "Suc i = length w" "length w < length X" "w = take (length w) X" using assms(1) by (auto simp: proper_def)
  show ?thesis
  proof (cases "c = X ! length w")
    case True
    have w: "w @ [c] = take (Suc (length w)) X" using i True by (simp add: take_Suc_conv_app_nth)
    show ?thesis
    proof (cases "Suc (length w) = length X")
      case True
      then have "length w = length X - 1" by simp
      then show ?thesis using assms(4) i w \<open>c = _\<close> True by (simp add: match_word_def char_at_def nth_append)
    next
      case False
      then have "proper (w @ [c]) X (Suc i)" "length w \<noteq> length X - 1" using i w by (auto simp: proper_def)
      then show ?thesis using assms(3) i True by (simp add: match_word_def char_at_def nth_append)
    qed
  next
    case False
    then show ?thesis using assms(2) i by (simp add: match_word_def char_at_def nth_append)
  qed
qed

lemma proper_words:
  "w = bytes ''con'' \<Longrightarrow> proper (w @ [110]) (bytes ''connection'') 3"
  "w = bytes ''con'' \<Longrightarrow> proper (w @ [116]) (bytes ''content-length'') 3"
  by (simp_all add: proper_def bytes_def)

lemma field_char_inv:
  assumes "field_inv w (hp_header_state hp) (hp_index hp)" and "ch \<noteq> 32"
  shows "\<exists>h i. field_char ch c hp = Inr (hp\<lparr>hp_header_state := h, hp_index := i\<rparr>) \<and> field_inv (w @ [c]) h i"
proof -
  have inc: "inc_index hp = hp\<lparr>hp_index := Suc (hp_index hp)\<rparr>" if "hp_index hp < 20" using that by (simp add: inc_index_def)
  have word: ?thesis if "proper w X (hp_index hp)" "length X < 20"
    "\<And>i. proper (w @ [c]) X i \<Longrightarrow> field_inv (w @ [c]) (hp_header_state hp) i" "\<And>i. w @ [c] = X \<Longrightarrow> field_inv (w @ [c]) good i"
    "field_char ch c hp = Inr (set_hs (match_word X c (hp_index (inc_index hp)) h_general (hp_header_state hp) good) (inc_index hp))"
    for X good
  proof -
    have q: "inc_index hp = hp\<lparr>hp_index := Suc (hp_index hp)\<rparr>" using that(1,2) by (intro inc) (auto simp: proper_def)
    have "field_inv (w @ [c]) (match_word X c (Suc (hp_index hp)) h_general (hp_header_state hp) good) (Suc (hp_index hp))"
      by (rule match_word_inv [OF that(1)]) (use that in \<open>simp_all add: field_inv_def\<close>)
    then show ?thesis using that(5) q
      by (intro exI [of _ "match_word X c (Suc (hp_index hp)) h_general (hp_header_state hp) good"] exI [of _ "Suc (hp_index hp)"])
        (simp add: set_hs_def)
  qed
  have plain: ?thesis if "field_char ch c hp = Inr (hp\<lparr>hp_header_state := h, hp_index := i\<rparr>)" "field_inv (w @ [c]) h i" for h i
    using that by blast
  show ?thesis
  proof (cases "hp_header_state hp")
    case h_general
    then show ?thesis using plain [where h = h_general and i = "hp_index hp"] by (simp add: field_char_def Let_def field_inv_def)
  next
    case h_C
    then show ?thesis using assms inc plain [where h = "if c = 111 then h_CO else h_general" and i = 1]
      by (simp add: field_char_def Let_def field_inv_def set_hs_def bytes_def split: if_splits)
  next
    case h_CO
    then show ?thesis using assms inc plain [where h = "if c = 110 then h_CON else h_general" and i = 2]
      by (simp add: field_char_def Let_def field_inv_def set_hs_def bytes_def split: if_splits)
  next
    case h_CON
    then show ?thesis
      using assms inc plain [where h = "if c = 110 then h_matching_connection else if c = 116 then h_matching_content_length else h_general" and i = 3]
        proper_words [of w]
      by (simp add: field_char_def Let_def field_inv_def set_hs_def split: if_splits)
  next
    case h_matching_connection
    then show ?thesis using assms word [of "bytes ''connection''" h_connection] by (simp add: field_char_def Let_def field_inv_def length_bytes)
  next
    case h_matching_proxy_connection
    then show ?thesis using assms word [of "bytes ''proxy-connection''" h_connection] by (simp add: field_char_def Let_def field_inv_def length_bytes)
  next
    case h_matching_content_length
    then show ?thesis using assms word [of "bytes ''content-length''" h_content_length] by (simp add: field_char_def Let_def field_inv_def length_bytes)
  next
    case h_matching_transfer_encoding
    then show ?thesis using assms word [of "bytes ''transfer-encoding''" h_transfer_encoding] by (simp add: field_char_def Let_def field_inv_def length_bytes)
  next
    case h_matching_upgrade
    then show ?thesis using assms word [of "bytes ''upgrade''" h_upgrade] by (simp add: field_char_def Let_def field_inv_def length_bytes)
  qed (use assms plain [where h = h_general and i = "hp_index hp"] in \<open>simp_all add: field_char_def Let_def field_inv_def set_hs_def\<close>)
qed


text \<open>The characters of a name one after the other.\<close>

fun field_run :: "u8 list \<Rightarrow> http_parser \<Rightarrow> http_parser result" where
  "field_run [] hp = Inr hp"
| "field_run (c # cs) hp = bind_r (field_char c (STRICT_TOKEN c) hp) (field_run cs)"

lemma field_run_general: "hp_header_state hp = h_general \<Longrightarrow> field_run cs hp = Inr hp"
  by (induction cs) (simp_all add: field_char_def)

lemma skip_tokens_below:
  assumes "p < e" and "STRICT_TOKEN (data ! e) = 0"
  shows "skip_tokens data pe p < e"
  using assms
proof (induction data pe p rule: skip_tokens.induct)
  case (1 data pe p)
  then show ?case by (subst skip_tokens.simps) (cases "Suc p = e"; auto)
qed

lemma field_loop_general:
  assumes "hp_header_state hp = h_general" and "p \<le> e" and "e < length data" and "STRICT_TOKEN (data ! e) = 0"
    and "\<forall>i. p \<le> i \<and> i < e \<longrightarrow> STRICT_TOKEN (data ! i) \<noteq> 0"
  shows "field_loop data p ch hp = Inr (e, data ! e, hp)"
  using assms
proof (induction "e - p" arbitrary: p ch rule: less_induct)
  case less
  show ?case
  proof (cases "p = e")
    case True
    then show ?thesis using less.prems by (subst field_loop.simps) (simp add: Let_def)
  next
    case False
    let ?q = "skip_tokens data (search_end data p) p"
    have q: "p \<le> ?q" "?q < e" using skip_tokens_ge skip_tokens_below False less.prems by simp_all
    have "field_loop data (?q + 1) (data ! p) hp = Inr (e, data ! e, hp)"
      by (rule less.hyps) (use q less.prems False in auto)
    then show ?thesis using less.prems False by (subst field_loop.simps) (simp add: Let_def field_char_def)
  qed
qed

lemma field_loop_name:
  assumes "drop p data = cs @ d # rest" and "\<forall>c\<in>set cs. STRICT_TOKEN c \<noteq> 0" and "STRICT_TOKEN d = 0"
    and "field_inv w (hp_header_state hp) (hp_index hp)"
  shows "\<exists>h i. field_loop data p ch hp = Inr (p + length cs, d, hp\<lparr>hp_header_state := h, hp_index := i\<rparr>)
     \<and> field_inv (w @ map STRICT_TOKEN cs) h i \<and> field_run cs hp = Inr (hp\<lparr>hp_header_state := h, hp_index := i\<rparr>)"
  using assms
proof (induction cs arbitrary: p ch hp w)
  case Nil
  then show ?case
    using drop_Cons_nth [of p data d rest]
    by (intro exI [of _ "hp_header_state hp"] exI [of _ "hp_index hp"]) (subst field_loop.simps, simp add: Let_def)
next
  case (Cons c cs)
  have d: "p < length data" "data ! p = c" "drop (Suc p) data = cs @ d # rest" using drop_Cons_nth [of p data c] Cons.prems(1) by auto
  show ?case
  proof (cases "hp_header_state hp = h_general")
    case True
    have e: "data ! (p + length (c # cs)) = d" "p + length (c # cs) < length data"
      using drop_Cons_nth [OF drop_append_drop [OF Cons.prems(1)]] by auto
    have "field_loop data p ch hp = Inr (p + length (c # cs), data ! (p + length (c # cs)), hp)"
    proof (rule field_loop_general [OF True])
      show "\<forall>i. p \<le> i \<and> i < p + length (c # cs) \<longrightarrow> STRICT_TOKEN (data ! i) \<noteq> 0"
      proof (intro allI impI)
        fix i assume i: "p \<le> i \<and> i < p + length (c # cs)"
        then have "data ! i = (c # cs) ! (i - p)" using drop_append_nth [OF Cons.prems(1), of "i - p"] by (simp add: less_diff_conv2)
        then have "data ! i \<in> set (c # cs)" using i nth_mem [of "i - p" "c # cs"] by (simp add: less_diff_conv2)
        then show "STRICT_TOKEN (data ! i) \<noteq> 0" using Cons.prems(2) by blast
      qed
    qed (use e Cons.prems(3) in simp_all)
    then show ?thesis using True e(1)
      by (intro exI [of _ h_general] exI [of _ "hp_index hp"]) (simp add: field_inv_def field_run_general del: field_run.simps)
  next
    case False
    have "c \<noteq> 32" using Cons.prems(2) by (auto simp: STRICT_TOKEN_def)
    then obtain h i where hi: "field_char c (STRICT_TOKEN c) hp = Inr (hp\<lparr>hp_header_state := h, hp_index := i\<rparr>)"
      "field_inv (w @ [STRICT_TOKEN c]) h i" using field_char_inv [OF Cons.prems(4)] by blast
    let ?hp = "hp\<lparr>hp_header_state := h, hp_index := i\<rparr>"
    have "field_loop data p ch hp = field_loop data (Suc p) c ?hp"
      using d hi(1) False Cons.prems(2) by (subst field_loop.simps) (simp add: Let_def)
    moreover have "\<exists>h' i'. field_loop data (Suc p) c ?hp = Inr (Suc p + length cs, d, ?hp\<lparr>hp_header_state := h', hp_index := i'\<rparr>)
        \<and> field_inv ((w @ [STRICT_TOKEN c]) @ map STRICT_TOKEN cs) h' i' \<and> field_run cs ?hp = Inr (?hp\<lparr>hp_header_state := h', hp_index := i'\<rparr>)"
      by (rule Cons.IH) (use d Cons.prems hi(2) in simp_all)
    ultimately show ?thesis using hi(1) by simp
  qed
qed


text \<open>Counting the bytes a state skips keeps the count equal to the position.\<close>

lemma count_on_head:
  assumes "n = p - j" and "j \<le> p" and "p < 81920"
  shows "COUNT_HEADER_SIZE n (skip_head j p d s hp mk u) f = f (on_head p d s hp mk u)"
proof -
  have "of_nat (Suc j) + of_nat n = (of_nat (Suc p) :: u32)" using assms(1,2) by (simp flip: of_nat_add)
  moreover have "\<not> max_header_size < (of_nat (Suc p) :: u32)"
    using assms(3) by (simp add: max_header_size_def word_less_nat_alt unat_of_nat del: of_nat_Suc)
  ultimately show ?thesis by (simp add: COUNT_HEADER_SIZE_def skip_head_def Let_def del: of_nat_Suc)
qed

lemma data_on_head:
  assumes "mk m = Some i" and "drop i data = seg @ rest" and "p = i + length seg" and "http_errno hp = HPE_OK"
    and "cb (mark_event m seg) (hp\<lparr>hp_state := s\<rparr>) u = (0, v)" and "seg @ rest \<noteq> []"
  shows "CALLBACK_DATA' cb data m p ret (skip_head j k c s hp mk u) f = f (skip_head j k c s (hp\<lparr>hp_state := s\<rparr>) (mk(m := None)) v)"
  using assms drop_append_length [OF assms(2,6)] by (simp add: CALLBACK_DATA'_def assert_ex_def)

lemma token_facts: "STRICT_TOKEN c \<noteq> 0 \<Longrightarrow> c \<noteq> CR \<and> c \<noteq> LF \<and> c \<noteq> 32 \<and> c \<noteq> 9" "STRICT_TOKEN 58 = 0"
  by (auto simp: STRICT_TOKEN_def tokens_def bytes_def)

definition first_hs :: "u8 \<Rightarrow> header_states" where
  "first_hs c = (if c = 99 then h_C else if c = 112 then h_matching_proxy_connection
     else if c = 116 then h_matching_transfer_encoding else if c = 117 then h_matching_upgrade else h_general)"

lemma field_inv_first: "field_inv [c] (first_hs c) 0"
  by (simp add: field_inv_def first_hs_def proper_def bytes_def)

lemma fin_field:
  assumes d: "drop k data = name @ 58 # rest" and n: "name \<noteq> []" "\<forall>c\<in>set name. STRICT_TOKEN c \<noteq> 0"
    and size: "k + length name < 81920" and ok: "http_errno hp = HPE_OK" and cb: "\<And>f. cb (HeaderField name) f u = (0, v)"
  shows "\<exists>h i. fin cb data (at_head k s_header_field_start hp Map.empty u)
      = fin cb data (at_head (Suc (k + length name)) s_header_value_discard_ws
          (hp\<lparr>hp_header_state := h, hp_index := i, hp_state := s_header_value_discard_ws\<rparr>) Map.empty v)
    \<and> field_inv (map STRICT_TOKEN name) h i
    \<and> field_run (tl name) (hp\<lparr>hp_index := 0, hp_header_state := first_hs (STRICT_TOKEN (hd name))\<rparr>)
        = Inr (hp\<lparr>hp_header_state := h, hp_index := i\<rparr>)"
proof -
  obtain c cs where name: "name = c # cs" using n(1) by (cases name) auto
  let ?hp1 = "hp\<lparr>hp_index := 0, hp_header_state := first_hs (STRICT_TOKEN c)\<rparr>"
  have "fin cb data (at_head k s_header_field_start hp Map.empty u)
      = fin cb data (at_head (Suc k) s_header_field ?hp1 [Mheader_field \<mapsto> k] u)"
  proof (rule fin_next [where c = c and rest = "cs @ 58 # rest"])
    show "reexecute cb data (on_head k c s_header_field_start hp Map.empty u)
        = Next (on_head k c s_header_field ?hp1 [Mheader_field \<mapsto> k] u)"
      using n(2) name token_facts(1) [of c]
      by (simp add: reexecute_step step_def step_header_field_start_def Let_def first_hs_def set_hs_def)
  qed (use d name size in \<open>simp_all add: PARSING_HEADER_def\<close>)
  moreover
  have d1: "drop (Suc k) data = cs @ 58 # rest" using d name drop_Cons_nth [of k data c] by simp
  have inv: "field_inv [STRICT_TOKEN c] (hp_header_state ?hp1) (hp_index ?hp1)" by (simp add: field_inv_first)
  obtain b rest' where b: "cs @ 58 # rest = b # rest'" by (cases cs) auto
  from field_loop_name [OF d1 _ token_facts(2) inv, of b] n(2) name
  obtain h i where hi: "field_loop data (Suc k) b ?hp1 = Inr (k + length name, 58, ?hp1\<lparr>hp_header_state := h, hp_index := i\<rparr>)"
    "field_inv (map STRICT_TOKEN name) h i" "field_run cs ?hp1 = Inr (hp\<lparr>hp_header_state := h, hp_index := i\<rparr>)" by auto
  have length_data: "k + length name < length data" using drop_append_length [OF d] by simp
  let ?hp2 = "hp\<lparr>hp_header_state := h, hp_index := i\<rparr>"
  have "fin cb data (at_head (Suc k) s_header_field ?hp1 [Mheader_field \<mapsto> k] u)
      = fin cb data (at_head (Suc (k + length name)) s_header_value_discard_ws (?hp2\<lparr>hp_state := s_header_value_discard_ws\<rparr>) Map.empty v)"
  proof (rule fin_next [where c = b and rest = rest' and d = 58])
    show "reexecute cb data (on_head (Suc k) b s_header_field ?hp1 [Mheader_field \<mapsto> k] u)
        = Next (on_head (k + length name) 58 s_header_value_discard_ws (?hp2\<lparr>hp_state := s_header_value_discard_ws\<rparr>) Map.empty v)"
      using hi(1) d name size ok cb length_data
      by (simp add: reexecute_step step_def step_header_field_def Let_def count_on_head CALLBACK_DATA_def
          data_on_head [where seg = name and rest = "58 # rest"])
  qed (use d1 b name size in \<open>simp_all add: PARSING_HEADER_def\<close>)
  ultimately show ?thesis using hi(2,3) name by (intro exI [of _ h] exI [of _ i]) simp
qed


subsection \<open>Field values\<close>

text \<open>The part of the structure that a field without a meaning for the body leaves alone.\<close>

definition plain_part :: "http_parser \<Rightarrow> http_parser" where
  "plain_part hp = hp\<lparr>hp_state := s_dead, hp_header_state := h_general, hp_index := 0, hp_flags := hp_flags hp AND 0xF1\<rparr>"

lemma plain_part_updates [simp]:
  "plain_part (hp\<lparr>hp_state := s\<rparr>) = plain_part hp" "plain_part (hp\<lparr>hp_header_state := h\<rparr>) = plain_part hp"
  "plain_part (hp\<lparr>hp_index := i\<rparr>) = plain_part hp" "plain_part (set_hs h hp) = plain_part hp"
  "plain_part (inc_index hp) = plain_part hp"
  by (simp_all add: plain_part_def set_hs_def inc_index_def)

lemma plain_part_flag: "f AND 0xF1 = 0 \<Longrightarrow> plain_part (add_flag f hp) = plain_part hp"
  by (simp add: plain_part_def add_flag_def bit.conj_disj_distrib2)

lemma plain_partD:
  assumes "plain_part a = plain_part b"
  shows "hp_type a = hp_type b" "hp_lenient a = hp_lenient b" "hp_nread a = hp_nread b" "hp_content_length a = hp_content_length b"
    "http_major a = http_major b" "http_minor a = http_minor b" "status_code a = status_code b" "hp_method a = hp_method b"
    "http_errno a = http_errno b" "upgrade a = upgrade b" "hp_flags a AND 0xF1 = hp_flags b AND 0xF1"
  using arg_cong [OF assms, of hp_type] arg_cong [OF assms, of hp_lenient] arg_cong [OF assms, of hp_nread]
    arg_cong [OF assms, of hp_content_length] arg_cong [OF assms, of http_major] arg_cong [OF assms, of http_minor]
    arg_cong [OF assms, of status_code] arg_cong [OF assms, of hp_method] arg_cong [OF assms, of http_errno]
    arg_cong [OF assms, of upgrade] arg_cong [OF assms, of hp_flags]
  by (simp_all add: plain_part_def)

lemma plain_part_has_flag:
  assumes "plain_part a = plain_part b" and "f AND 0xF1 = f"
  shows "has_flag f a = has_flag f b"
proof -
  have "hp_flags x AND f = (hp_flags x AND 0xF1) AND f" for x using assms(2) by (metis and.assoc and.commute)
  then have "hp_flags a AND f = hp_flags b AND f" using plain_partD(11) [OF assms(1)] by metis
  then show ?thesis by (simp add: has_flag_def)
qed

definition conn_hs :: "header_states list" where
  "conn_hs = [h_general, h_matching_connection_token_start, h_matching_connection_keep_alive, h_matching_connection_close,
     h_matching_connection_upgrade, h_matching_connection_token, h_connection_keep_alive, h_connection_close, h_connection_upgrade]"

lemma connection_flag_plain: "connection_flag h AND 0xF1 = 0"
  by (simp add: connection_flag_def flag_defs)

lemma match_word_in: "bad \<in> S \<Longrightarrow> same \<in> S \<Longrightarrow> good \<in> S \<Longrightarrow> match_word w c i bad same good \<in> S"
  by (simp add: match_word_def)

lemma value_char_conn:
  assumes "h \<in> set conn_hs" and "h \<noteq> h_general"
  shows "\<exists>h' hp'. value_char ch h hp = Inr (False, h', hp') \<and> h' \<in> set conn_hs \<and> plain_part hp' = plain_part hp"
proof -
  have words: "match_word w c i h_matching_connection_token h good \<in> set conn_hs" if "good \<in> set conn_hs" for w c i good
    using that assms(1) by (intro match_word_in) (simp_all add: conn_hs_def)
  consider "h = h_matching_connection_token_start" | "h = h_matching_connection_token"
    | "h \<in> set [h_matching_connection_keep_alive, h_matching_connection_close, h_matching_connection_upgrade]"
    | "h \<in> set [h_connection_keep_alive, h_connection_close, h_connection_upgrade]"
    using assms by (auto simp: conn_hs_def)
  then show ?thesis
  proof cases
    case 3
    then show ?thesis
      using words [of h_connection_keep_alive] words [of h_connection_close] words [of h_connection_upgrade]
      by (auto simp: value_char_def Let_def conn_hs_def)
  qed (auto simp: value_char_def Let_def conn_hs_def plain_part_flag connection_flag_plain)
qed

definition value_byte :: "u8 \<Rightarrow> bool" where
  "value_byte c \<longleftrightarrow> IS_HEADER_CHAR c \<and> c \<noteq> CR \<and> c \<noteq> LF"

lemma scan_value_line:
  assumes "drop p data = cs @ CR # rest" and "list_all value_byte cs" and "p + length cs < pe"
  shows "scan_value lenient data pe p ch = (p + length cs - 1, CR, False)"
  using assms
proof (induction cs arbitrary: p ch)
  case Nil
  then show ?case using drop_Cons_nth [of p data CR] by (subst scan_value.simps) (simp add: Let_def)
next
  case (Cons c cs)
  have "drop (Suc p) data = cs @ CR # rest" "data ! p = c" using drop_Cons_nth [of p data c] Cons.prems(1) by auto
  then show ?case using Cons.IH [of "Suc p" c] Cons.prems(2,3) by (subst scan_value.simps) (simp add: Let_def value_byte_def)
qed

lemma value_loop_line:
  assumes "drop p data = cs @ CR # rest" and "list_all value_byte cs" and "length cs < 81920"
    and "h \<in> set conn_hs"
  shows "\<exists>h' hp'. value_loop data p ch h hp = Inr (V_cr, p + length cs, CR, h', hp') \<and> h' \<in> set conn_hs \<and> plain_part hp' = plain_part hp"
  using assms
proof (induction cs arbitrary: p ch h hp)
  case Nil
  then show ?case using drop_Cons_nth [of p data CR] by (subst value_loop.simps) (simp add: Let_def)
next
  case (Cons c cs)
  have d: "drop (Suc p) data = cs @ CR # rest" "data ! p = c" "p < length data" using drop_Cons_nth [of p data c] Cons.prems(1) by auto
  show ?case
  proof (cases "h = h_general")
    case True
    have e: "drop (p + length (c # cs)) data = CR # rest" by (rule drop_append_drop [OF Cons.prems(1)])
    have l: "p + length (c # cs) < length data" using drop_Cons_nth [OF e] by simp
    then have "scan_value (hp_lenient hp) data (search_end data p) p c = (p + length (c # cs) - 1, CR, False)"
      using Cons.prems(3) by (intro scan_value_line [OF Cons.prems(1,2)]) (simp add: search_end_def max_header_size_def)
    then have "value_loop data p ch h hp = value_loop data (p + length (c # cs)) CR h hp"
      using d l True Cons.prems(2) by (subst value_loop.simps) (simp add: Let_def value_byte_def)
    also have "\<dots> = Inr (V_cr, p + length (c # cs), CR, h, hp)"
      using drop_Cons_nth [OF e] by (subst value_loop.simps) (simp add: Let_def)
    finally show ?thesis using Cons.prems(4) by auto
  next
    case False
    obtain h1 hp1 where 1: "value_char c h hp = Inr (False, h1, hp1)" "h1 \<in> set conn_hs" "plain_part hp1 = plain_part hp"
      using value_char_conn [OF Cons.prems(4) False] by blast
    have "value_loop data p ch h hp = value_loop data (Suc p) c h1 hp1"
      using d False 1(1) Cons.prems(2) by (subst value_loop.simps) (simp add: Let_def value_byte_def)
    then show ?thesis using Cons.IH [OF d(1) _ _ 1(2), of c hp1] Cons.prems(2,3) 1(3) by auto
  qed
qed


text \<open>The names whose values change how the message goes on.\<close>

definition special_names :: "u8 list list" where
  "special_names = [bytes ''content-length'', bytes ''transfer-encoding'', bytes ''upgrade'']"

lemma value_start_conn:
  assumes "field_inv w (hp_header_state hp) i" and "w \<notin> set special_names" and "mk Mheader_value = None"
  shows "\<exists>hp'. value_start (on_head k c s hp mk u) = Next (on_head k c s_header_value hp' (mk(Mheader_value \<mapsto> k)) u)
    \<and> hp_header_state hp' \<in> set conn_hs \<and> plain_part hp' = plain_part hp"
  using assms
  by (cases "hp_header_state hp") (auto simp: field_inv_def special_names_def value_start_def Let_def conn_hs_def set_hs_def)

lemma fin_after_value:
  assumes "drop k data = c # rest" and "k < 81920" and "c \<noteq> 32" and "c \<noteq> 9"
  shows "fin cb data (at_head k s_header_value_lws hp mk u) = fin cb data (at_head k s_header_field_start (finish_header hp) mk u)"
proof -
  have n: "\<not> max_header_size < (of_nat (Suc k) :: u32)"
    using assms(2) by (simp add: max_header_size_def word_less_nat_alt unat_of_nat del: of_nat_Suc)
  have "fetch cb data (at_head k s_header_value_lws hp mk u) = fetch cb data (at_head k s_header_field_start (finish_header hp) mk u)"
    using drop_Cons_nth [OF assms(1)] n assms(3,4) reexecute.simps [of cb data "on_head k c s_header_value_lws hp mk u"]
    by (simp add: fetch_def at_head_def Let_def COUNT_HEADER_SIZE_def PARSING_HEADER_def add.commute step_def step_value_end_def
        skip_head_def UPDATE_STATE_def upd_def)
  then show ?thesis using drop_Cons_nth [OF assms(1)]
    by (simp add: fin_def exec_loop.simps [of cb data "at_head k s hp mk u" for s hp])
qed

lemma header_flag_plain: "h \<in> set conn_hs \<Longrightarrow> header_flag h AND 0xF1 = 0"
  by (auto simp: conn_hs_def header_flag_def flag_defs)

lemma fin_value:
  assumes d: "drop k data = 32 # (b # bs) @ CR # LF # c # rest" and c: "c \<noteq> 32" "c \<noteq> 9"
    and v: "b \<noteq> 32" "b \<noteq> 9" "b \<noteq> CR" "b \<noteq> LF"
    and size: "k + length bs + 4 < 81920" and ok: "http_errno hp2 = HPE_OK"
    and start: "value_start (on_head (Suc k) b s_header_value_discard_ws hp Map.empty u)
      = Next (on_head (Suc k) b s_header_value hp1 [Mheader_value \<mapsto> Suc k] u)"
    and loop: "value_loop data (Suc (Suc k)) (data ! Suc (Suc k)) (hp_header_state hp1) hp1
      = Inr (V_cr, Suc (Suc k) + length bs, CR, h2, hp2)"
    and cb: "\<And>f. cb (HeaderValue (b # bs)) f u = (0, u')"
  shows "fin cb data (at_head k s_header_value_discard_ws hp Map.empty u)
      = fin cb data (at_head (k + length bs + 4) s_header_field_start
          (finish_header ((set_hs h2 hp2)\<lparr>hp_state := s_header_almost_done\<rparr>)) Map.empty u')"
proof -
  have d1: "drop (Suc k) data = b # bs @ CR # LF # c # rest" using drop_Cons_nth [OF d] by simp
  have d2: "drop (Suc (Suc k)) data = bs @ CR # LF # c # rest" using drop_Cons_nth [OF d1] by simp
  have d3: "drop (Suc (Suc k) + length bs) data = CR # LF # c # rest" by (rule drop_append_drop [OF d2])
  have d4: "drop (Suc (Suc (Suc k) + length bs)) data = LF # c # rest" using drop_Cons_nth [OF d3] by simp
  have d5: "drop (Suc (Suc (Suc (Suc k) + length bs))) data = c # rest" using drop_Cons_nth [OF d4] by simp
  have "fin cb data (at_head k s_header_value_discard_ws hp Map.empty u)
      = fin cb data (at_head (Suc k) s_header_value_discard_ws hp Map.empty u)"
    by (rule fin_next [OF d, where d = 32])
      (use size in \<open>simp_all add: PARSING_HEADER_def reexecute_step step_def step_value_discard_ws_def\<close>)
  also have "\<dots> = fin cb data (at_head (Suc (Suc k)) s_header_value hp1 [Mheader_value \<mapsto> Suc k] u)"
    by (rule fin_next [OF d1, where d = b])
      (use size start v in \<open>simp_all add: PARSING_HEADER_def reexecute_step step_def step_value_discard_ws_def\<close>)
  also obtain e es where e: "bs @ CR # LF # c # rest = e # es" by (cases bs) auto
  let ?hp3 = "(set_hs h2 hp2)\<lparr>hp_state := s_header_almost_done\<rparr>"
  have "fin cb data (at_head (Suc (Suc k)) s_header_value hp1 [Mheader_value \<mapsto> Suc k] u)
      = fin cb data (at_head (Suc (Suc (Suc k) + length bs)) s_header_almost_done ?hp3 Map.empty u')"
  proof (rule fin_next [where c = e and rest = es and d = CR])
    show "reexecute cb data (on_head (Suc (Suc k)) e s_header_value hp1 [Mheader_value \<mapsto> Suc k] u)
        = Next (on_head (Suc (Suc k) + length bs) CR s_header_almost_done ?hp3 Map.empty u')"
      using loop size ok cb d1 drop_Cons_nth [of "Suc (Suc k)" data e es] d2 e
      by (simp add: reexecute_step step_def step_header_value_def Let_def CALLBACK_DATA_def count_on_head
          data_on_head [where seg = "b # bs" and rest = "CR # LF # c # rest"])
  qed (use d2 e size in \<open>simp_all add: PARSING_HEADER_def\<close>)
  also have "\<dots> = fin cb data (at_head (Suc (Suc (Suc (Suc k) + length bs))) s_header_value_lws ?hp3 Map.empty u')"
    by (rule fin_next [OF d4, where d = LF])
      (use size in \<open>simp_all add: PARSING_HEADER_def reexecute_step step_def step_value_end_def\<close>)
  also have "\<dots> = fin cb data (at_head (Suc (Suc (Suc (Suc k) + length bs))) s_header_field_start (finish_header ?hp3) Map.empty u')"
    by (rule fin_after_value [OF d5 _ c]) (use size in simp)
  finally show ?thesis by (simp add: eval_nat_numeral)
qed

lemma fin_plain_value:
  assumes d: "drop k data = 32 # val @ CR # LF # c # rest" and c: "c \<noteq> 32" "c \<noteq> 9"
    and v: "val \<noteq> []" "hd val \<noteq> 32" "hd val \<noteq> 9" "list_all value_byte val"
    and size: "k + length val + 3 < 81920" and ok: "http_errno hp = HPE_OK"
    and h: "field_inv w (hp_header_state hp) i" "w \<notin> set special_names"
    and cb: "\<And>f. cb (HeaderValue val) f u = (0, u')"
  shows "\<exists>hp'. fin cb data (at_head k s_header_value_discard_ws hp Map.empty u)
      = fin cb data (at_head (k + length val + 3) s_header_field_start hp' Map.empty u') \<and> plain_part hp' = plain_part hp"
proof -
  obtain b bs where vb: "val = b # bs" using v(1) by (cases val) auto
  have d2: "drop (Suc (Suc k)) data = bs @ CR # LF # c # rest"
    using drop_Cons_nth [OF d] vb drop_Cons_nth [of "Suc k" data b] by simp
  obtain hp1 where 1: "value_start (on_head (Suc k) b s_header_value_discard_ws hp Map.empty u)
      = Next (on_head (Suc k) b s_header_value hp1 [Mheader_value \<mapsto> Suc k] u)" "hp_header_state hp1 \<in> set conn_hs"
      "plain_part hp1 = plain_part hp"
    using value_start_conn [OF h, of Map.empty "Suc k" b s_header_value_discard_ws u] by auto
  obtain h2 hp2 where 2: "value_loop data (Suc (Suc k)) (data ! Suc (Suc k)) (hp_header_state hp1) hp1
      = Inr (V_cr, Suc (Suc k) + length bs, CR, h2, hp2)" "h2 \<in> set conn_hs" "plain_part hp2 = plain_part hp1"
    using value_loop_line [OF d2 _ _ 1(2), of "data ! Suc (Suc k)" hp1] v(4) vb size by auto
  have ok2: "http_errno hp2 = HPE_OK" using plain_partD(9) [OF 2(3)] plain_partD(9) [OF 1(3)] ok by simp
  let ?hp3 = "(set_hs h2 hp2)\<lparr>hp_state := s_header_almost_done\<rparr>"
  have "fin cb data (at_head k s_header_value_discard_ws hp Map.empty u)
      = fin cb data (at_head (k + length bs + 4) s_header_field_start (finish_header ?hp3) Map.empty u')"
    by (rule fin_value [OF _ c _ _ _ _ _ ok2 1(1) 2(1)]) (use d v size cb vb in \<open>simp_all add: value_byte_def\<close>)
  moreover have "plain_part (finish_header ?hp3) = plain_part hp"
    using 1(3) 2(2,3) header_flag_plain [of h2] by (simp add: finish_header_def plain_part_flag set_hs_def)
  ultimately show ?thesis using vb by (intro exI [of _ "finish_header ?hp3"]) (simp add: add.commute)
qed


subsection \<open>The length of the body\<close>

definition number :: "u8 list \<Rightarrow> nat \<Rightarrow> nat" where
  "number ds a = foldl (\<lambda>a c. a * 10 + (unat c - 48)) a ds"

lemma number_simps [simp]: "number [] a = a" "number (c # cs) a = number cs (a * 10 + (unat c - 48))"
  "number (cs @ [c]) a = number cs a * 10 + (unat c - 48)"
  by (simp_all add: number_def)

lemma number_ge: "a \<le> number ds a"
proof (induction ds arbitrary: a)
  case (Cons c ds)
  have "a \<le> a * 10 + (unat c - 48)" by simp
  also have "\<dots> \<le> number ds (a * 10 + (unat c - 48))" by (rule Cons.IH)
  finally show ?case by simp
qed simp

lemma digit_byte: "n < 10 \<Longrightarrow> IS_NUM (of_nat (48 + n)) \<and> unat (of_nat (48 + n) :: u8) = 48 + n"
  by (simp add: IS_NUM_def word_le_nat_alt unat_of_nat del: of_nat_add)

lemma decimal_number: "list_all IS_NUM (decimal n) \<and> decimal n \<noteq> [] \<and> number (decimal n) 0 = n"
proof (induction n rule: decimal.induct)
  case (1 n)
  show ?case
  proof (cases "n < 10")
    case True
    then show ?thesis using digit_byte [of n] by (subst (1 2 3) decimal.simps) simp
  next
    case False
    then show ?thesis using 1 digit_byte [of "n mod 10"] by (subst (1 2 3) decimal.simps) simp
  qed
qed

lemma num_byte: "IS_NUM c \<Longrightarrow> value_byte c \<and> c \<noteq> 32 \<and> c \<noteq> 9"
  by (auto simp: IS_NUM_def value_byte_def IS_HEADER_CHAR_def word_le_nat_alt word_less_nat_alt)

lemma digit_value: "IS_NUM c \<Longrightarrow> (ucast c - 48 :: u64) = of_nat (unat c - 48)"
  by (simp add: IS_NUM_def word_le_nat_alt of_nat_diff)

lemma value_loop_digits:
  assumes "drop p data = cs @ CR # rest" and "list_all IS_NUM cs" and "hp_content_length hp = of_nat a"
    and "number cs a < 2 ^ 63"
  shows "value_loop data p ch h_content_length_num hp
    = Inr (V_cr, p + length cs, CR, h_content_length_num, hp\<lparr>hp_content_length := of_nat (number cs a)\<rparr>)"
  using assms
proof (induction cs arbitrary: p ch hp a)
  case Nil
  then show ?case using drop_Cons_nth [of p data CR] by (subst value_loop.simps) (simp add: Let_def)
next
  case (Cons c cs)
  have d: "drop (Suc p) data = cs @ CR # rest" "data ! p = c" "p < length data" using drop_Cons_nth [of p data c] Cons.prems(1) by auto
  let ?b = "a * 10 + (unat c - 48)"
  have n: "IS_NUM c" "value_byte c" "c \<noteq> 32" using Cons.prems(2) num_byte [of c] by auto
  have "?b < 2 ^ 63" using number_ge [of ?b cs] Cons.prems(4) by simp
  then have "a < 922337203685477581" by simp
  then have "\<not> (ULLONG_MAX - 10) div 10 < (of_nat a :: u64)"
    by (simp add: word_less_nat_alt unat_of_nat unat_div)
  then have "length_char c hp = (False, h_content_length_num, hp\<lparr>hp_content_length := of_nat ?b\<rparr>)"
    using n Cons.prems(3) by (simp add: length_char_def more_length_def digit_value)
  then have "value_loop data p ch h_content_length_num hp
      = value_loop data (Suc p) c h_content_length_num (hp\<lparr>hp_content_length := of_nat ?b\<rparr>)"
    using d n(2) by (subst value_loop.simps) (simp add: Let_def value_byte_def value_char_def)
  also have "\<dots> = Inr (V_cr, Suc p + length cs, CR, h_content_length_num,
      hp\<lparr>hp_content_length := of_nat ?b\<rparr>\<lparr>hp_content_length := of_nat (number cs ?b)\<rparr>)"
    by (rule Cons.IH) (use d Cons.prems in simp_all)
  finally show ?case by simp
qed

lemma length_field_run:
  assumes "name = bytes ''content-length''"
    and "field_run (tl name) (hp\<lparr>hp_index := 0, hp_header_state := first_hs (STRICT_TOKEN (hd name))\<rparr>)
        = Inr (hp\<lparr>hp_header_state := h, hp_index := i\<rparr>)"
  shows "h = h_content_length"
proof -
  have "STRICT_TOKEN c = c" if "97 \<le> c \<and> c \<le> 122 \<or> c = 45" for c
    using that by (auto simp: STRICT_TOKEN_def tokens_def bytes_def word_le_nat_alt)
  then have "field_run (tl (bytes ''content-length'')) (hp\<lparr>hp_index := 0, hp_header_state := first_hs (STRICT_TOKEN (hd (bytes ''content-length'')))\<rparr>)
      = Inr (hp\<lparr>hp_header_state := h_content_length, hp_index := 13\<rparr>)"
    by (simp add: bytes_def field_char_def first_hs_def inc_index_def set_hs_def Let_def match_word_def char_at_def)
  with assms have "hp\<lparr>hp_header_state := h_content_length, hp_index := 13\<rparr> = hp\<lparr>hp_header_state := h, hp_index := i\<rparr>" by simp
  from arg_cong [OF this, of hp_header_state] show ?thesis by simp
qed


definition with_length :: "nat \<Rightarrow> http_parser \<Rightarrow> http_parser" where
  "with_length n hp = (add_flag F_CONTENTLENGTH hp)\<lparr>hp_content_length := of_nat n\<rparr>"

lemma plain_part_length_flag:
  "plain_part (with_length n hp)
    = (plain_part hp)\<lparr>hp_content_length := of_nat n, hp_flags := hp_flags (plain_part hp) OR F_CONTENTLENGTH\<rparr>"
proof -
  have "(hp_flags hp OR F_CONTENTLENGTH) AND 0xF1 = hp_flags hp AND 0xF1 OR F_CONTENTLENGTH"
    by (simp add: bit.conj_disj_distrib2 F_CONTENTLENGTH_def)
  then show ?thesis by (simp add: plain_part_def with_length_def add_flag_def)
qed

lemma plain_part_with_length: "plain_part hp' = plain_part hp \<Longrightarrow> plain_part (with_length n hp') = plain_part (with_length n hp)"
  by (simp only: plain_part_length_flag)

lemma plain_part_length [simp]: "plain_part (hp\<lparr>hp_content_length := l\<rparr>) = (plain_part hp)\<lparr>hp_content_length := l\<rparr>"
  by (simp add: plain_part_def)

lemma fin_length_value:
  assumes d: "drop k data = 32 # decimal n @ CR # LF # c # rest" and c: "c \<noteq> 32" "c \<noteq> 9" and n: "n < 2 ^ 63"
    and size: "k + length (decimal n) + 3 < 81920" and ok: "http_errno hp = HPE_OK"
    and h: "hp_header_state hp = h_content_length" "\<not> has_flag F_CONTENTLENGTH hp"
    and cb: "\<And>f. cb (HeaderValue (decimal n)) f u = (0, u')"
  shows "\<exists>hp'. fin cb data (at_head k s_header_value_discard_ws hp Map.empty u)
      = fin cb data (at_head (k + length (decimal n) + 3) s_header_field_start hp' Map.empty u')
    \<and> plain_part hp' = plain_part (with_length n hp)"
proof -
  obtain b bs where vb: "decimal n = b # bs" using decimal_number [of n] by (cases "decimal n") auto
  have d2: "drop (Suc (Suc k)) data = bs @ CR # LF # c # rest"
    using drop_Cons_nth [OF d] vb drop_Cons_nth [of "Suc k" data b] by simp
  have b: "IS_NUM b" "list_all IS_NUM bs" "number bs (unat b - 48) = n" using decimal_number [of n] vb by auto
  let ?hp1 = "set_hs h_content_length_num ((add_flag F_CONTENTLENGTH (hp\<lparr>hp_index := 0\<rparr>))\<lparr>hp_content_length := of_nat (unat b - 48)\<rparr>)"
  let ?hp2 = "?hp1\<lparr>hp_content_length := of_nat n\<rparr>"
  have 1: "value_start (on_head (Suc k) b s_header_value_discard_ws hp Map.empty u)
      = Next (on_head (Suc k) b s_header_value ?hp1 [Mheader_value \<mapsto> Suc k] u)"
    using h b(1) by (simp add: value_start_def Let_def digit_value)
  have 2: "value_loop data (Suc (Suc k)) (data ! Suc (Suc k)) (hp_header_state ?hp1) ?hp1
      = Inr (V_cr, Suc (Suc k) + length bs, CR, h_content_length_num, ?hp2)"
    using value_loop_digits [OF d2 b(2), of ?hp1 "unat b - 48" "data ! Suc (Suc k)"] b(3) n by simp
  have ok2: "http_errno ?hp2 = HPE_OK" using ok by simp
  let ?hp3 = "finish_header ((set_hs h_content_length_num ?hp2)\<lparr>hp_state := s_header_almost_done\<rparr>)"
  have "fin cb data (at_head k s_header_value_discard_ws hp Map.empty u)
      = fin cb data (at_head (k + length bs + 4) s_header_field_start ?hp3 Map.empty u')"
    by (rule fin_value [OF _ c _ _ _ _ _ ok2 1 2]) (use d b(1) num_byte [of b] size cb vb in \<open>simp_all add: value_byte_def\<close>)
  moreover have "plain_part ?hp3 = plain_part (with_length n hp)"
    by (simp add: finish_header_def header_flag_def set_hs_def with_length_def add_flag_def plain_part_def)
  ultimately show ?thesis using vb by (intro exI [of _ ?hp3]) (simp add: add.commute)
qed

subsection \<open>Programs that read messages\<close>

text \<open>
  What a program does with the callbacks from the headers on: each accepts, and the one at the end of the headers
  looks at the version, the method and the status only.
\<close>

definition header_ok :: "u8 list \<times> u8 list \<Rightarrow> bool" where
  "header_ok e \<longleftrightarrow> fst e \<noteq> [] \<and> list_all (\<lambda>c. STRICT_TOKEN c \<noteq> 0) (fst e) \<and> map STRICT_TOKEN (fst e) \<notin> set special_names
     \<and> snd e \<noteq> [] \<and> hd (snd e) \<noteq> 32 \<and> hd (snd e) \<noteq> 9 \<and> list_all value_byte (snd e)"

definition length_header :: "u8 list \<Rightarrow> (u8 list \<times> u8 list) list" where
  "length_header body = (if body = [] then [] else [length_entry body])"

lemma lines_start:
  assumes "c \<noteq> 32" and "c \<noteq> 9" and "list_all header_ok es"
  obtains b bs where "concat (map header_line es) @ c # rest = b # bs" and "b \<noteq> 32" and "b \<noteq> 9"
proof (cases es)
  case (Cons e es')
  then obtain b bs where b: "fst e = b # bs" using assms(3) by (cases "fst e") (auto simp: header_ok_def)
  then have "b \<noteq> 32" "b \<noteq> 9" using assms(3) Cons token_facts(1) [of b] by (auto simp: header_ok_def)
  then show thesis using Cons b by (intro that [of b]) (auto simp: header_line_def)
qed (use assms that in auto)

locale message_client =
  fixes cb :: "'s settings" and set_field :: "u8 list \<Rightarrow> 's \<Rightarrow> 's" and set_value :: "u8 list \<Rightarrow> 's \<Rightarrow> 's"
    and head_done :: "http_parser \<Rightarrow> 's \<Rightarrow> 's" and add_body :: "u8 list \<Rightarrow> 's \<Rightarrow> 's" and complete :: "'s \<Rightarrow> 's"
  assumes on_field: "cb (HeaderField b) f u = (0, set_field b u)"
    and on_value: "cb (HeaderValue b) f u = (0, set_value b u)"
    and on_headers: "cb HeadersComplete f u = (0, head_done f u)"
    and on_body: "cb (BodyPart b) f u = (0, add_body b u)"
    and on_complete: "cb MessageComplete f u = (0, complete u)"
    and head_done_cong: "http_major f = http_major g \<Longrightarrow> http_minor f = http_minor g \<Longrightarrow> hp_method f = hp_method g \<Longrightarrow>
      status_code f = status_code g \<Longrightarrow> head_done f u = head_done g u"
begin

definition read_header :: "u8 list \<times> u8 list \<Rightarrow> 's \<Rightarrow> 's" where
  "read_header e u = set_value (snd e) (set_field (fst e) u)"

lemma fin_header:
  assumes d: "drop k data = header_line e @ c # rest" and c: "c \<noteq> 32" "c \<noteq> 9" and e: "header_ok e"
    and size: "k + length (header_line e) < 81920" and ok: "http_errno hp = HPE_OK"
  shows "\<exists>hp'. fin cb data (at_head k s_header_field_start hp Map.empty u)
      = fin cb data (at_head (k + length (header_line e)) s_header_field_start hp' Map.empty (read_header e u))
    \<and> plain_part hp' = plain_part hp"
proof -
  let ?k = "Suc (k + length (fst e))"
  have l: "header_line e = fst e @ 58 # 32 # snd e @ [CR, LF]" by (simp add: header_line_def crlf_def bytes_def)
  have d0: "drop k data = fst e @ 58 # 32 # snd e @ CR # LF # c # rest" using d l by simp
  have d1: "drop ?k data = 32 # snd e @ CR # LF # c # rest" using drop_Cons_nth [OF drop_append_drop [OF d0]] by simp
  obtain h i where 1: "fin cb data (at_head k s_header_field_start hp Map.empty u)
      = fin cb data (at_head ?k s_header_value_discard_ws
          (hp\<lparr>hp_header_state := h, hp_index := i, hp_state := s_header_value_discard_ws\<rparr>) Map.empty (set_field (fst e) u))"
      (is "_ = fin cb data (at_head _ _ ?hp1 _ _)")
    "field_inv (map STRICT_TOKEN (fst e)) h i"
    using fin_field [OF d0, of hp cb u "set_field (fst e) u"] ok on_field e size l by (auto simp: header_ok_def list_all_iff)
  have "\<exists>hp'. fin cb data (at_head ?k s_header_value_discard_ws ?hp1 Map.empty (set_field (fst e) u))
      = fin cb data (at_head (?k + length (snd e) + 3) s_header_field_start hp' Map.empty (read_header e u)) \<and> plain_part hp' = plain_part ?hp1"
    by (rule fin_plain_value [OF d1 c, where w = "map STRICT_TOKEN (fst e)" and i = i])
      (use e ok 1(2) size l in \<open>simp_all add: header_ok_def on_value read_header_def\<close>)
  moreover have len: "k + length (header_line e) = ?k + length (snd e) + 3" using l by simp
  ultimately show ?thesis by (simp only: 1(1) len plain_part_updates)
qed

lemma fin_headers:
  assumes "drop k data = concat (map header_line es) @ c # rest" and "c \<noteq> 32" and "c \<noteq> 9" and "list_all header_ok es"
    and "k + length (concat (map header_line es)) < 81920" and "http_errno hp = HPE_OK"
  shows "\<exists>hp'. fin cb data (at_head k s_header_field_start hp Map.empty u)
      = fin cb data (at_head (k + length (concat (map header_line es))) s_header_field_start hp' Map.empty (fold read_header es u))
    \<and> plain_part hp' = plain_part hp"
  using assms
proof (induction es arbitrary: k hp u)
  case (Cons e es)
  obtain b bs where b: "concat (map header_line es) @ c # rest = b # bs" "b \<noteq> 32" "b \<noteq> 9"
    using lines_start [OF Cons.prems(2,3), of es rest] Cons.prems(4) by auto
  then obtain hp1 where 1: "fin cb data (at_head k s_header_field_start hp Map.empty u)
      = fin cb data (at_head (k + length (header_line e)) s_header_field_start hp1 Map.empty (read_header e u))"
    "plain_part hp1 = plain_part hp"
    using fin_header [of k data e b bs hp u] Cons.prems by auto
  have "drop (k + length (header_line e)) data = concat (map header_line es) @ c # rest"
    by (rule drop_append_drop) (use Cons.prems(1) in simp)
  then show ?case
    using Cons.IH [of "k + length (header_line e)" hp1 "read_header e u"] Cons.prems 1 plain_partD(9) [OF 1(2)]
    by (simp add: add.assoc)
qed auto

lemma fin_length_line:
  assumes d: "drop k data = header_line (length_entry body) @ c # rest" and c: "c \<noteq> 32" "c \<noteq> 9" and n: "length body < 2 ^ 63"
    and size: "k + length (header_line (length_entry body)) < 81920" and ok: "http_errno hp = HPE_OK" "\<not> has_flag F_CONTENTLENGTH hp"
  shows "\<exists>hp'. fin cb data (at_head k s_header_field_start hp Map.empty u)
      = fin cb data (at_head (k + length (header_line (length_entry body))) s_header_field_start hp' Map.empty
          (read_header (length_entry body) u))
    \<and> plain_part hp' = plain_part (with_length (length body) hp)"
proof -
  let ?name = "bytes ''content-length''"
  let ?k = "Suc (k + length ?name)" and ?d = "decimal (length body)"
  have l: "header_line (length_entry body) = ?name @ 58 # 32 # ?d @ [CR, LF]"
    by (simp add: header_line_def crlf_def length_entry_def) (simp add: bytes_def)
  have d0: "drop k data = ?name @ 58 # 32 # ?d @ CR # LF # c # rest" using d l by simp
  have d1: "drop ?k data = 32 # ?d @ CR # LF # c # rest" using drop_Cons_nth [OF drop_append_drop [OF d0]] by simp
  have tok: "?name \<noteq> []" "\<forall>c\<in>set ?name. STRICT_TOKEN c \<noteq> 0" by (simp_all add: bytes_def STRICT_TOKEN_def tokens_def)
  have sz: "k + length ?name < 81920" "?k + length ?d + 3 < 81920" using size l by simp_all
  obtain h i where 1: "fin cb data (at_head k s_header_field_start hp Map.empty u)
      = fin cb data (at_head ?k s_header_value_discard_ws
          (hp\<lparr>hp_header_state := h, hp_index := i, hp_state := s_header_value_discard_ws\<rparr>) Map.empty (set_field ?name u))"
      (is "_ = fin cb data (at_head _ _ ?hp1 _ _)")
    "field_run (tl ?name) (hp\<lparr>hp_index := 0, hp_header_state := first_hs (STRICT_TOKEN (hd ?name))\<rparr>)
        = Inr (hp\<lparr>hp_header_state := h, hp_index := i\<rparr>)"
    using fin_field [OF d0 tok sz(1) ok(1), of cb u "set_field ?name u"] on_field by auto
  have h: "h = h_content_length" by (rule length_field_run [OF HOL.refl 1(2)])
  have "\<exists>hp'. fin cb data (at_head ?k s_header_value_discard_ws ?hp1 Map.empty (set_field ?name u))
      = fin cb data (at_head (?k + length ?d + 3) s_header_field_start hp' Map.empty (read_header (length_entry body) u))
        \<and> plain_part hp' = plain_part (with_length (length body) ?hp1)"
    by (rule fin_length_value [OF d1 c n sz(2)]) (use h ok in \<open>simp_all add: on_value read_header_def length_entry_def\<close>)
  moreover have len: "k + length (header_line (length_entry body)) = ?k + length ?d + 3" using l by simp
  moreover have "plain_part (with_length (length body) ?hp1) = plain_part (with_length (length body) hp)"
    by (rule plain_part_with_length) simp
  ultimately show ?thesis by (simp only: 1(1) len)
qed

text \<open>The empty line: the end of the headers is reported, and of the message when it has no body.\<close>

lemma fin_head_end:
  assumes d: "drop k data = CR # LF # body" and size: "Suc k < 81920" and ok: "http_errno hp = HPE_OK"
    and f: "\<not> has_flag F_TRAILING hp" "\<not> has_flag F_CHUNKED hp" "\<not> has_flag F_UPGRADE hp" and m: "hp_method hp \<noteq> CONNECT"
  shows "fin cb data (at_head k s_header_field_start hp Map.empty u)
    = fin cb data (at_head (Suc k) s_headers_almost_done hp Map.empty u)"
    and "fetch cb data (at_head (Suc k) s_headers_almost_done hp Map.empty u)
      = reexecute cb data (on_head (Suc k) LF s_headers_done (hp\<lparr>upgrade := False\<rparr>) Map.empty (head_done (hp\<lparr>upgrade := False\<rparr>) u))"
proof -
  show "fin cb data (at_head k s_header_field_start hp Map.empty u) = fin cb data (at_head (Suc k) s_headers_almost_done hp Map.empty u)"
    by (rule fin_next [OF d, where d = CR])
      (use size in \<open>simp_all add: PARSING_HEADER_def reexecute_step step_def step_header_field_start_def\<close>)
  have n: "\<not> max_header_size < (of_nat (Suc (Suc k)) :: u32)"
    using size by (simp add: max_header_size_def word_less_nat_alt unat_of_nat del: of_nat_Suc)
  have d1: "data ! Suc k = LF" using drop_Cons_nth [OF d] drop_Cons_nth [of "Suc k" data LF body] by simp
  have "fetch cb data (at_head (Suc k) s_headers_almost_done hp Map.empty u)
      = reexecute cb data (on_head (Suc k) LF s_headers_almost_done hp Map.empty u)"
    using d1 n by (simp add: fetch_def at_head_def skip_head_def Let_def COUNT_HEADER_SIZE_def PARSING_HEADER_def add.commute)
  also have "step cb data (on_head (Suc k) LF s_headers_almost_done hp Map.empty u)
      = Reexecute (on_head (Suc k) LF s_headers_done (hp\<lparr>upgrade := False\<rparr>) Map.empty (head_done (hp\<lparr>upgrade := False\<rparr>) u))"
    using ok f m by (simp add: step_def step_headers_almost_done_def STRICT_CHECK_def on_headers Let_def)
  then have "reexecute cb data (on_head (Suc k) LF s_headers_almost_done hp Map.empty u)
      = reexecute cb data (on_head (Suc k) LF s_headers_done (hp\<lparr>upgrade := False\<rparr>) Map.empty (head_done (hp\<lparr>upgrade := False\<rparr>) u))"
    by (simp add: reexecute.simps [of cb data "on_head (Suc k) LF s_headers_almost_done hp Map.empty u"])
  finally show "fetch cb data (at_head (Suc k) s_headers_almost_done hp Map.empty u)
      = reexecute cb data (on_head (Suc k) LF s_headers_done (hp\<lparr>upgrade := False\<rparr>) Map.empty (head_done (hp\<lparr>upgrade := False\<rparr>) u))" .
qed

lemma fin_end:
  assumes "length data \<le> ex_p e" and "ex_marks e = Map.empty" and "http_errno (ex_parser e) = HPE_OK"
  shows "fin cb data e = Inr (length data, (ex_parser e)\<lparr>hp_nread := ex_nread e, hp_state := ex_state e\<rparr>, ex_user e)"
  using assms by (simp add: fin_def exec_loop.simps flush_marks_def assert_ex_def CALLBACK_DATA_NOADVANCE_def CALLBACK_DATA'_def RETURN_def)

lemma fin_no_body:
  assumes d: "drop k data = [CR, LF]" and size: "Suc k < 81920" and ok: "http_errno hp = HPE_OK"
    and f: "\<not> has_flag F_TRAILING hp" "\<not> has_flag F_CHUNKED hp" "\<not> has_flag F_UPGRADE hp" "\<not> has_flag F_SKIPBODY hp"
    and m: "hp_method hp \<noteq> CONNECT" and r: "hp_type hp = HTTP_REQUEST" "hp_content_length hp = ULLONG_MAX"
  shows "\<exists>hp'. fin cb data (at_head k s_header_field_start hp Map.empty u)
      = Inr (length data, hp', complete (head_done (hp\<lparr>upgrade := False\<rparr>) u)) \<and> http_errno hp' = HPE_OK \<and> \<not> upgrade hp'"
proof -
  note e = fin_head_end [OF d size ok f(1-3) m, of u]
  let ?hp = "hp\<lparr>upgrade := False, hp_nread := 0\<rparr>"
  let ?e = "\<lparr>ex_p = Suc k, ex_ch = LF, ex_state = NEW_MESSAGE ?hp, ex_nread = 0, ex_parser = ?hp\<lparr>hp_state := NEW_MESSAGE ?hp\<rparr>,
    ex_marks = Map.empty, ex_user = complete (head_done (hp\<lparr>upgrade := False\<rparr>) u)\<rparr>"
  have l: "length data = Suc (Suc k)" using drop_append_length [of k data "[CR, LF]" "[]"] d by simp
  have "reexecute cb data (on_head (Suc k) LF s_headers_done (hp\<lparr>upgrade := False\<rparr>) Map.empty (head_done (hp\<lparr>upgrade := False\<rparr>) u)) = Next ?e"
    using ok f r by (intro reexecute_cases(1)) (simp add: step_def step_headers_done_def STRICT_CHECK_def reset_nread_def Let_def complete_message_def
        CALLBACK_NOTIFY_def CALLBACK_NOTIFY'_def assert_ex_def on_complete http_message_needs_eof_def skip_head_def UPDATE_STATE_def upd_def)
  then have "fin cb data (at_head (Suc k) s_headers_almost_done hp Map.empty u) = fin cb data (?e\<lparr>ex_p := Suc (ex_p ?e)\<rparr>)"
    using e(2) l by (intro fin_loop) simp_all
  also have "\<dots> = Inr (length data, ?hp\<lparr>hp_state := NEW_MESSAGE ?hp\<rparr>, complete (head_done (hp\<lparr>upgrade := False\<rparr>) u))"
    using ok l by (subst fin_end) simp_all
  finally show ?thesis using e(1) ok by simp
qed

text \<open>The body in one piece.\<close>

lemma fetch_body:
  assumes d: "drop k data = body" and ok: "http_errno hp = HPE_OK" "\<not> upgrade hp"
    and r: "body \<noteq> []" "hp_content_length hp = of_nat (length body)" "length body < 2 ^ 63"
  obtains e where "fetch cb data \<lparr>ex_p = k, ex_ch = c, ex_state = s_body_identity, ex_nread = 0, ex_parser = hp,
      ex_marks = Map.empty, ex_user = u\<rparr> = Next e" and "Suc (ex_p e) = length data" and "ex_marks e = Map.empty"
    and "ex_user e = complete (add_body body u)" and "http_errno (ex_parser e) = HPE_OK" and "\<not> upgrade (ex_parser e)"
proof -
  have l: "length data = k + length body" using drop_append_length [of k data body "[]"] d r(1) by simp
  have cl: "of_nat (length body) \<noteq> (0 :: u64)" "of_nat (length body) \<noteq> ULLONG_MAX" "unat (of_nat (length body) :: u64) = length body"
    using r(1,3) by (auto simp: unat_of_nat word_unat_eq_iff unsigned_minus_1_eq_mask mask_eq_exp_minus_1)
  let ?hp = "hp\<lparr>hp_content_length := 0, hp_state := s_message_done\<rparr>" and ?k = "k + (length body - 1)"
  let ?e2 = "\<lparr>ex_p = k, ex_ch = data ! k, ex_state = s_body_identity, ex_nread = 0, ex_parser = hp, ex_marks = Map.empty, ex_user = u\<rparr>"
  let ?e3 = "\<lparr>ex_p = ?k, ex_ch = data ! k, ex_state = s_message_done, ex_nread = 0, ex_parser = ?hp, ex_marks = Map.empty,
    ex_user = add_body body u\<rparr>"
  let ?e4 = "\<lparr>ex_p = ?k, ex_ch = data ! k, ex_state = NEW_MESSAGE ?hp, ex_nread = 0, ex_parser = ?hp\<lparr>hp_state := NEW_MESSAGE ?hp\<rparr>,
    ex_marks = Map.empty, ex_user = complete (add_body body u)\<rparr>"
  have "take_body data ?e2 = \<lparr>ex_p = ?k, ex_ch = data ! k, ex_state = s_body_identity, ex_nread = 0,
      ex_parser = hp\<lparr>hp_content_length := 0\<rparr>, ex_marks = [Mbody \<mapsto> k], ex_user = u\<rparr>"
    using r(2) cl l by (simp add: take_body_def Let_def upd_def MARK_def)
  then have "step cb data ?e2 = Reexecute ?e3"
    using ok r(1,2) cl l d by (simp add: step_def step_body_def assert_ex_def Let_def UPDATE_STATE_def upd_def
        CALLBACK_DATA'_def CALLBACK_NOTIFY'_def on_body)
  moreover have "step cb data ?e3 = Next ?e4"
    using ok by (simp add: step_def step_body_def complete_message_def CALLBACK_NOTIFY_def CALLBACK_NOTIFY'_def assert_ex_def
        upd_def UPDATE_STATE_def on_complete Let_def)
  ultimately have "reexecute cb data ?e2 = Next ?e4" by (simp only: reexecute_cases)
  then show thesis using ok l r(1) by (intro that [of ?e4]) (simp_all add: fetch_def PARSING_HEADER_def)
qed

lemma fin_body:
  assumes d: "drop k data = CR # LF # body" and size: "Suc k < 81920" and ok: "http_errno hp = HPE_OK"
    and f: "\<not> has_flag F_TRAILING hp" "\<not> has_flag F_CHUNKED hp" "\<not> has_flag F_UPGRADE hp" "\<not> has_flag F_SKIPBODY hp"
    and m: "hp_method hp \<noteq> CONNECT" and r: "body \<noteq> []" "hp_content_length hp = of_nat (length body)" "length body < 2 ^ 63"
  shows "\<exists>hp'. fin cb data (at_head k s_header_field_start hp Map.empty u)
      = Inr (length data, hp', complete (add_body body (head_done (hp\<lparr>upgrade := False\<rparr>) u))) \<and> http_errno hp' = HPE_OK \<and> \<not> upgrade hp'"
proof -
  note e = fin_head_end [OF d size ok f(1-3) m, of u]
  let ?hp = "hp\<lparr>upgrade := False, hp_nread := 0\<rparr>" and ?u = "head_done (hp\<lparr>upgrade := False\<rparr>) u"
  let ?e = "\<lparr>ex_p = Suc k, ex_ch = LF, ex_state = s_body_identity, ex_nread = 0, ex_parser = ?hp, ex_marks = Map.empty, ex_user = ?u\<rparr>"
  let ?e1 = "\<lparr>ex_p = Suc (Suc k), ex_ch = LF, ex_state = s_body_identity, ex_nread = 0, ex_parser = ?hp, ex_marks = Map.empty, ex_user = ?u\<rparr>"
  have d2: "drop (Suc (Suc k)) data = body" using drop_Cons_nth [OF d] drop_Cons_nth [of "Suc k" data LF body] by simp
  have l: "length data = Suc (Suc k) + length body" using drop_append_length [of k data "[CR, LF]" body] d by simp
  have cl: "of_nat (length body) \<noteq> (0 :: u64)" "of_nat (length body) \<noteq> ULLONG_MAX"
    using r(1,3) by (auto simp: unat_of_nat word_unat_eq_iff unsigned_minus_1_eq_mask mask_eq_exp_minus_1)
  have "reexecute cb data (on_head (Suc k) LF s_headers_done (hp\<lparr>upgrade := False\<rparr>) Map.empty ?u) = Next ?e"
    using ok f r(2) cl by (intro reexecute_cases(1)) (simp add: step_def step_headers_done_def STRICT_CHECK_def reset_nread_def Let_def
        skip_head_def UPDATE_STATE_def upd_def)
  then have "fin cb data (at_head (Suc k) s_headers_almost_done hp Map.empty u) = fin cb data ?e1"
    using e(2) l by (subst fin_loop [where e = ?e]) simp_all
  moreover obtain e' where e': "fetch cb data ?e1 = Next e'" "Suc (ex_p e') = length data" "ex_marks e' = Map.empty"
      "ex_user e' = complete (add_body body ?u)" "http_errno (ex_parser e') = HPE_OK" "\<not> upgrade (ex_parser e')"
    by (rule fetch_body [OF d2, where hp = ?hp and c = LF and u = ?u]) (use ok r in simp_all)
  have "fin cb data ?e1 = fin cb data (e'\<lparr>ex_p := Suc (ex_p e')\<rparr>)"
    by (rule fin_loop [OF _ e'(1)]) (use l r(1) in simp)
  moreover have "\<dots> = Inr (length data, (ex_parser e')\<lparr>hp_nread := ex_nread e', hp_state := ex_state e'\<rparr>, complete (add_body body ?u))"
    using e'(2-5) by (subst fin_end) simp_all
  ultimately show ?thesis using e(1) e'(5,6) by simp
qed

text \<open>Everything after the first line.\<close>

lemma head_done_parts: "plain_part f = plain_part g \<Longrightarrow> head_done (f\<lparr>upgrade := b\<rparr>) u = head_done g u"
  using plain_partD [of f g] by (intro head_done_cong) simp_all

lemma head_done_length: "plain_part f = plain_part (with_length n g) \<Longrightarrow> head_done (f\<lparr>upgrade := b\<rparr>) u = head_done g u"
  using plain_partD [of f "with_length n g"] by (intro head_done_cong) (simp_all add: with_length_def add_flag_def)

lemma rest_no_body:
  assumes d: "drop k data = concat (map header_line es) @ [CR, LF]" and es: "list_all header_ok es"
    and size: "k + length (concat (map header_line es)) + 1 < 81920"
    and hp: "http_errno hp = HPE_OK" "hp_flags hp = 0" "hp_method hp \<noteq> CONNECT" "hp_content_length hp = ULLONG_MAX" "hp_type hp = HTTP_REQUEST"
  shows "\<exists>hp'. fin cb data (at_head k s_header_field_start hp Map.empty u)
      = Inr (length data, hp', complete (head_done hp (fold read_header es u))) \<and> http_errno hp' = HPE_OK \<and> \<not> upgrade hp'"
proof -
  let ?k = "k + length (concat (map header_line es))" and ?u = "fold read_header es u"
  have flags: "\<not> has_flag g hp" for g using hp(2) by (simp add: has_flag_def)
  obtain hp1 where 1: "fin cb data (at_head k s_header_field_start hp Map.empty u)
      = fin cb data (at_head ?k s_header_field_start hp1 Map.empty ?u)" "plain_part hp1 = plain_part hp"
    using fin_headers [of k data es CR "[LF]" hp u] d es size hp(1) by auto
  have fl: "\<not> has_flag g hp1" if "g AND 0xF1 = g" for g using plain_part_has_flag [OF 1(2) that] flags by simp
  have "drop ?k data = [CR, LF]" by (rule drop_append_drop [OF d])
  then have "\<exists>hp'. fin cb data (at_head ?k s_header_field_start hp1 Map.empty ?u)
      = Inr (length data, hp', complete (head_done (hp1\<lparr>upgrade := False\<rparr>) ?u)) \<and> http_errno hp' = HPE_OK \<and> \<not> upgrade hp'"
    by (rule fin_no_body) (use size hp plain_partD [OF 1(2)] in \<open>simp_all add: fl flag_defs\<close>)
  then show ?thesis by (simp only: 1(1) head_done_parts [OF 1(2)])
qed

lemma length_line_start: "\<exists>rest. header_line (length_entry body) = 99 # rest"
  by (simp add: header_line_def length_entry_def bytes_def)

lemma rest_body:
  assumes d: "drop k data = concat (map header_line es) @ header_line (length_entry body) @ CR # LF # body" and es: "list_all header_ok es"
    and size: "k + length (concat (map header_line es)) + length (header_line (length_entry body)) + 1 < 81920"
    and body: "length body < 2 ^ 63" "body \<noteq> []"
    and hp: "http_errno hp = HPE_OK" "hp_flags hp = 0" "hp_method hp \<noteq> CONNECT"
  shows "\<exists>hp'. fin cb data (at_head k s_header_field_start hp Map.empty u)
      = Inr (length data, hp', complete (add_body body (head_done hp (read_header (length_entry body) (fold read_header es u)))))
    \<and> http_errno hp' = HPE_OK \<and> \<not> upgrade hp'"
proof -
  let ?k = "k + length (concat (map header_line es))" and ?u = "fold read_header es u" and ?l = "header_line (length_entry body)"
  have flags: "\<not> has_flag g hp" for g using hp(2) by (simp add: has_flag_def)
  obtain rest where c: "?l = 99 # rest" using length_line_start by blast
  have d0: "drop k data = concat (map header_line es) @ 99 # rest @ CR # LF # body" using d c by simp
  obtain hp1 where 1: "fin cb data (at_head k s_header_field_start hp Map.empty u)
      = fin cb data (at_head ?k s_header_field_start hp1 Map.empty ?u)" "plain_part hp1 = plain_part hp"
    using fin_headers [OF d0 _ _ es, of hp u] size hp(1) by auto
  have d1: "drop ?k data = ?l @ CR # LF # body" by (rule drop_append_drop [OF d])
  have ok1: "\<not> has_flag F_CONTENTLENGTH hp1" "http_errno hp1 = HPE_OK"
    using plain_part_has_flag [OF 1(2), of F_CONTENTLENGTH] plain_partD(9) [OF 1(2)] flags hp(1) by (simp_all add: F_CONTENTLENGTH_def)
  obtain hp2 where 2: "fin cb data (at_head ?k s_header_field_start hp1 Map.empty ?u)
      = fin cb data (at_head (?k + length ?l) s_header_field_start hp2 Map.empty (read_header (length_entry body) ?u))"
      "plain_part hp2 = plain_part (with_length (length body) hp1)"
    using fin_length_line [OF d1 _ _ body(1) _ ok1(2,1), of ?u] size by auto
  have p: "plain_part hp2 = plain_part (with_length (length body) hp)" using 2(2) plain_part_with_length [OF 1(2)] by simp
  have d2: "drop (?k + length ?l) data = CR # LF # body" by (rule drop_append_drop [OF d1])
  have fl: "\<not> has_flag g hp2" if "g AND 0xF1 = g" "F_CONTENTLENGTH AND g = 0" for g
    using plain_part_has_flag [OF p that(1)] flags that(2) by (simp add: with_length_def)
  have "\<exists>hp'. fin cb data (at_head (?k + length ?l) s_header_field_start hp2 Map.empty (read_header (length_entry body) ?u))
      = Inr (length data, hp', complete (add_body body (head_done (hp2\<lparr>upgrade := False\<rparr>) (read_header (length_entry body) ?u))))
        \<and> http_errno hp' = HPE_OK \<and> \<not> upgrade hp'"
    by (rule fin_body [OF d2]) (use size body hp plain_partD [OF p] in \<open>simp_all add: fl with_length_def flag_defs\<close>)
  then show ?thesis by (simp only: 1(1) 2(1) head_done_length [OF p])
qed

lemma message_rest:
  assumes "drop k data = concat (map header_line (es @ length_header body)) @ CR # LF # body" and "list_all header_ok es"
    and "k + length (concat (map header_line (es @ length_header body))) + 1 < 81920" and "length body < 2 ^ 63"
    and "http_errno hp = HPE_OK" "hp_flags hp = 0" "hp_method hp \<noteq> CONNECT" "hp_content_length hp = ULLONG_MAX"
    and "body = [] \<longrightarrow> hp_type hp = HTTP_REQUEST"
  shows "\<exists>hp'. fin cb data (at_head k s_header_field_start hp Map.empty u)
      = Inr (length data, hp', complete ((if body = [] then id else add_body body)
          (head_done hp (fold read_header (es @ length_header body) u))))
    \<and> http_errno hp' = HPE_OK \<and> \<not> upgrade hp'"
proof (cases "body = []")
  case True
  then show ?thesis using rest_no_body [of k data es hp u] assms by (simp add: length_header_def)
next
  case False
  then show ?thesis using rest_body [of k data es body hp u] assms by (simp add: length_header_def add.assoc)
qed

end

end
