(* ===== verification/HttpRoundTrip.thy ===== *)
theory HttpRoundTrip
  imports HttpReader HttpParser
begin

text \<open>
  Messages that \<open>HttpRequest::dump\<close> and \<open>HttpResponse::dump\<close> (\<open>src/http/http.cc\<close>) write and the parsers of
  \<open>src/http/HttpParser.cc\<close> read: the composition of the output, the grammar library and the callbacks.
\<close>

subsection \<open>The request line\<close>

text \<open>One character of a method, and a word of them.\<close>

definition method_char :: "u8 \<Rightarrow> HttpMethod \<times> nat \<Rightarrow> (HttpMethod \<times> nat) option" where
  "method_char c = (\<lambda>(m, i).
     if length (http_method_str m) < i \<or> \<not> (65 \<le> c \<and> c \<le> 90 \<or> c = 45) \<or> 100 < i then None
     else if c = char_at (http_method_str m) i then Some (m, Suc i)
     else map_option (\<lambda>m. (m, Suc i)) (map_of method_switch (m, i, c)))"

fun method_run :: "u8 list \<Rightarrow> HttpMethod \<times> nat \<Rightarrow> (HttpMethod \<times> nat) option" where
  "method_run [] s = Some s"
| "method_run (c # cs) s = (case method_char c s of None \<Rightarrow> None | Some s \<Rightarrow> method_run cs s)"

definition method_reached :: "HttpMethod \<Rightarrow> bool" where
  "method_reached m = (case http_method_str m of [] \<Rightarrow> False
     | c # cs \<Rightarrow> IS_ALPHA c \<and> c \<noteq> CR \<and> c \<noteq> LF \<and> (case first_method c of None \<Rightarrow> False
         | Some m0 \<Rightarrow> method_run cs (m0, 1) = Some (m, length (http_method_str m))))"

lemma all_methods_reached: "list_all method_reached
    [DELETE, GET, HEAD, POST, PUT, CONNECT, OPTIONS, TRACE, COPY, LOCK, MKCOL, MOVE, PROPFIND, PROPPATCH, SEARCH, UNLOCK, BIND,
     REBIND, UNBIND, ACL, REPORT, MKACTIVITY, CHECKOUT, MERGE, MSEARCH, NOTIFY, SUBSCRIBE, UNSUBSCRIBE, PATCH, PURGE, MKCALENDAR, LINK, UNLINK, SOURCE]"
  by code_simp

lemma methods_reached: "m \<noteq> INVALID_METHOD \<Longrightarrow> method_reached m"
  using all_methods_reached by (cases m) simp_all

lemma step_method_char:
  assumes "method_char c (hp_method hp, hp_index hp) = Some (m, i)"
  shows "step cb data (on_head k c s_req_method hp mk u) = Next (on_head k c s_req_method (hp\<lparr>hp_method := m, hp_index := i\<rparr>) mk u)"
    and "i = Suc (hp_index hp)"
proof -
  have c: "65 \<le> c \<and> c \<le> 90 \<or> c = 45" "\<not> length (http_method_str (hp_method hp)) < hp_index hp" "hp_index hp \<le> 100"
    using assms by (simp_all add: method_char_def split: if_splits)
  then have c0: "c \<noteq> 0" "c \<noteq> 32" by (auto simp: word_le_nat_alt)
  have inc: "Suc (hp_index hp) mod 128 = Suc (hp_index hp)" using c(3) by simp
  show "i = Suc (hp_index hp)" using assms c by (auto simp: method_char_def split: if_splits)
  show "step cb data (on_head k c s_req_method hp mk u) = Next (on_head k c s_req_method (hp\<lparr>hp_method := m, hp_index := i\<rparr>) mk u)"
  proof (cases "c = char_at (http_method_str (hp_method hp)) (hp_index hp)")
    case True
    then have "m = hp_method hp" "i = Suc (hp_index hp)" using assms c by (auto simp: method_char_def split: if_splits)
    then show ?thesis using True c(2) c0 inc by (simp add: step_def step_method_def Let_def inc_index_def)
  next
    case False
    then have "map_of method_switch (hp_method hp, hp_index hp, c) = Some m" "i = Suc (hp_index hp)"
      using assms c by (auto simp: method_char_def)
    then show ?thesis using False c c0 inc by (simp add: step_def step_method_def Let_def inc_index_def)
  qed
qed

lemma fin_method_chars:
  assumes "drop k data = cs @ rest" and "method_run cs (hp_method hp, hp_index hp) = Some (m, i)" and "k + length cs < 81920"
  shows "fin cb data (at_head k s_req_method hp Map.empty u)
    = fin cb data (at_head (k + length cs) s_req_method (hp\<lparr>hp_method := m, hp_index := i\<rparr>) Map.empty u)"
  using assms
proof (induction cs arbitrary: k hp)
  case (Cons c cs)
  from Cons.prems(2) obtain m1 j where m1: "method_char c (hp_method hp, hp_index hp) = Some (m1, j)" "method_run cs (m1, j) = Some (m, i)"
    by (auto split: option.splits)
  let ?hp = "hp\<lparr>hp_method := m1, hp_index := j\<rparr>"
  have "fin cb data (at_head k s_req_method hp Map.empty u) = fin cb data (at_head (Suc k) s_req_method ?hp Map.empty u)"
    by (rule fin_next [where c = c and d = c, OF _ _ _ reexecute_cases(1) [OF step_method_char(1) [OF m1(1)]]])
      (use Cons.prems in \<open>simp_all add: PARSING_HEADER_def\<close>)
  also have "\<dots> = fin cb data (at_head (Suc k + length cs) s_req_method (?hp\<lparr>hp_method := m, hp_index := i\<rparr>) Map.empty u)"
    by (rule Cons.IH) (use Cons.prems(1,3) m1(2) drop_Cons_nth [of k data c] in simp_all)
  finally show ?case by simp
qed auto


lemma fin_method:
  assumes d: "drop k data = http_method_str m @ 32 # rest" and m: "m \<noteq> INVALID_METHOD"
    and size: "k + length (http_method_str m) < 81920" and ok: "http_errno hp = HPE_OK" and cb: "\<And>f. cb MessageBegin f u = (0, v)"
  shows "\<exists>i. fin cb data (at_head k s_start_req hp Map.empty u)
    = fin cb data (at_head (Suc (k + length (http_method_str m))) s_req_spaces_before_url
        (hp\<lparr>hp_flags := 0, hp_content_length := ULLONG_MAX, hp_state := s_req_method, hp_method := m, hp_index := i\<rparr>) Map.empty v)"
proof -
  obtain c cs m0 where c: "http_method_str m = c # cs" "IS_ALPHA c" "c \<noteq> CR" "c \<noteq> LF" "first_method c = Some m0"
    "method_run cs (m0, 1) = Some (m, length (http_method_str m))"
    using methods_reached [OF m] by (auto simp: method_reached_def split: list.splits option.splits)
  let ?n = "length (http_method_str m)"
  let ?hp1 = "hp\<lparr>hp_flags := 0, hp_content_length := ULLONG_MAX, hp_method := m0, hp_index := 1, hp_state := s_req_method\<rparr>"
  let ?hp2 = "?hp1\<lparr>hp_method := m, hp_index := ?n\<rparr>"
  have d1: "drop (Suc k) data = cs @ 32 # rest" using drop_Cons_nth [of k data c] d c(1) by simp
  have d2: "drop (k + ?n) data = 32 # rest" by (rule drop_append_drop [OF d])
  have n: "?n < 100" using method_str_bounds [of m] by simp
  have "fin cb data (at_head k s_start_req hp Map.empty u) = fin cb data (at_head (Suc k) s_req_method ?hp1 Map.empty v)"
    by (rule fin_next [where c = c and d = c and rest = "cs @ 32 # rest"])
      (use d c cb ok size in \<open>simp_all add: PARSING_HEADER_def reexecute_step step_def step_method_def begin_message_def
        CALLBACK_NOTIFY_def\<close>)
  also have "\<dots> = fin cb data (at_head (Suc k + length cs) s_req_method ?hp2 Map.empty v)"
    using fin_method_chars [OF d1, of ?hp1 m ?n cb v] c(1,6) size by simp
  also have "\<dots> = fin cb data (at_head (k + ?n) s_req_method ?hp2 Map.empty v)" using c(1) by simp
  also have "\<dots> = fin cb data (at_head (Suc (k + ?n)) s_req_spaces_before_url (?hp2\<lparr>hp_index := Suc ?n mod 128\<rparr>) Map.empty v)"
    by (rule fin_next [OF d2, where d = 32])
      (use size n in \<open>simp_all add: PARSING_HEADER_def reexecute_step step_def step_method_def char_at_def nth_append inc_index_def Let_def\<close>)
  finally show ?thesis by (intro exI [of _ "Suc ?n mod 128"]) simp
qed

definition target_states :: "p_state list" where
  "target_states = [s_req_path, s_req_query_string_start, s_req_query_string, s_req_fragment_start, s_req_fragment]"

definition target_byte :: "u8 \<Rightarrow> bool" where
  "target_byte c \<longleftrightarrow> IS_URL_CHAR c \<or> c = 63 \<or> c = 35"

lemma target_byte_facts: "target_byte c \<Longrightarrow> c \<noteq> 32 \<and> c \<noteq> CR \<and> c \<noteq> LF \<and> c \<noteq> 9 \<and> c \<noteq> 12"
  by (auto simp: target_byte_def IS_URL_CHAR_def)

lemma target_state_next: "s \<in> set target_states \<Longrightarrow> target_byte c \<Longrightarrow> parse_url_char s c \<in> set target_states"
  using target_byte_facts [of c] by (auto simp: target_states_def parse_url_char_def target_byte_def IS_URL_CHAR_def)

lemma target_state_facts: "s \<in> set target_states \<Longrightarrow> s \<noteq> s_dead \<and> PARSING_HEADER s"
  by (auto simp: target_states_def PARSING_HEADER_def)

lemma step_target:
  assumes "s \<in> set target_states" and "target_byte c"
  shows "step cb data (on_head k c s hp mk u) = Next (on_head k c (parse_url_char s c) hp mk u)"
  using assms target_byte_facts [OF assms(2)] target_state_facts [OF target_state_next [OF assms]]
  by (auto simp: target_states_def step_def step_url_def url_next_def Let_def)

lemma fin_target_chars:
  assumes "drop k data = cs @ rest" and "list_all target_byte cs" and "s \<in> set target_states" and "k + length cs < 81920"
  shows "\<exists>s'. fin cb data (at_head k s hp mk u) = fin cb data (at_head (k + length cs) s' hp mk u) \<and> s' \<in> set target_states"
  using assms
proof (induction cs arbitrary: k s)
  case (Cons c cs)
  have "fin cb data (at_head k s hp mk u) = fin cb data (at_head (Suc k) (parse_url_char s c) hp mk u)"
    by (rule fin_next [where c = c and d = c, OF _ _ _ reexecute_cases(1) [OF step_target]])
      (use Cons.prems target_state_facts [of s] in simp_all)
  moreover have "\<exists>s'. fin cb data (at_head (Suc k) (parse_url_char s c) hp mk u) = fin cb data (at_head (Suc k + length cs) s' hp mk u)
      \<and> s' \<in> set target_states"
    by (rule Cons.IH) (use Cons.prems drop_Cons_nth [of k data c] target_state_next [of s c] in simp_all)
  ultimately show ?case by simp
qed auto

lemma fin_target:
  assumes d: "drop k data = (c # cs) @ 32 # rest" and c: "c = 47 \<or> c = 42" "list_all target_byte cs"
    and size: "k + length (c # cs) < 81920" and hp: "http_errno hp = HPE_OK" "hp_method hp \<noteq> CONNECT"
    and cb: "\<And>f. cb (Url (c # cs)) f u = (0, v)"
  shows "fin cb data (at_head k s_req_spaces_before_url hp Map.empty u)
    = fin cb data (at_head (Suc (k + length (c # cs))) s_req_http_start (hp\<lparr>hp_state := s_req_http_start\<rparr>) Map.empty v)"
proof -
  have d1: "drop (Suc k) data = cs @ 32 # rest" using drop_Cons_nth [of k data c] d by simp
  have d2: "drop (k + length (c # cs)) data = 32 # rest" by (rule drop_append_drop [OF d])
  have "step cb data (on_head k c s_req_spaces_before_url hp Map.empty u) = Next (on_head k c s_req_path hp [Murl \<mapsto> k] u)"
    using c(1) hp(2) by (auto simp: step_def step_url_def url_next_def parse_url_char_def Let_def)
  from fin_next [OF _ _ _ reexecute_cases(1) [OF this]] d size
  have "fin cb data (at_head k s_req_spaces_before_url hp Map.empty u) = fin cb data (at_head (Suc k) s_req_path hp [Murl \<mapsto> k] u)"
    by (simp add: PARSING_HEADER_def)
  moreover obtain s where s: "fin cb data (at_head (Suc k) s_req_path hp [Murl \<mapsto> k] u)
      = fin cb data (at_head (k + length (c # cs)) s hp [Murl \<mapsto> k] u)" "s \<in> set target_states"
    using fin_target_chars [OF d1 c(2), of s_req_path cb hp "[Murl \<mapsto> k]" u] size by (auto simp: target_states_def)
  moreover have "fin cb data (at_head (k + length (c # cs)) s hp [Murl \<mapsto> k] u)
      = fin cb data (at_head (Suc (k + length (c # cs))) s_req_http_start (hp\<lparr>hp_state := s_req_http_start\<rparr>) Map.empty v)"
  proof (rule fin_next [OF d2, where d = 32])
    have "step cb data (on_head (k + length (c # cs)) 32 s hp [Murl \<mapsto> k] u)
        = CALLBACK_DATA cb data Murl (on_head (k + length (c # cs)) 32 s_req_http_start hp [Murl \<mapsto> k] u) Next"
      using s(2) by (auto simp: target_states_def step_def step_url_def Let_def)
    also have "\<dots> = Next (on_head (k + length (c # cs)) 32 s_req_http_start (hp\<lparr>hp_state := s_req_http_start\<rparr>) Map.empty v)"
      using hp cb d by (simp add: CALLBACK_DATA_def data_on_head [where seg = "c # cs" and rest = "32 # rest"])
    finally show "reexecute cb data (on_head (k + length (c # cs)) 32 s hp [Murl \<mapsto> k] u)
        = Next (on_head (k + length (c # cs)) 32 s_req_http_start (hp\<lparr>hp_state := s_req_http_start\<rparr>) Map.empty v)"
      by (rule reexecute_cases(1))
  qed (use size target_state_facts [OF s(2)] in simp_all)
  ultimately show ?thesis by (simp only:)
qed

lemma drop_Cons_Suc: "drop k xs = c # rest \<Longrightarrow> drop (Suc k) xs = rest"
  by (simp add: drop_Cons_nth)

definition version_states :: "p_state list" where
  "version_states = [s_req_http_start, s_req_http_H, s_req_http_HT, s_req_http_HTT, s_req_http_HTTP, s_req_http_major,
     s_req_http_dot, s_req_http_minor, s_req_http_end, s_req_line_almost_done]"

lemma fin_version_byte:
  assumes "drop k data = c # rest" and "k < 81920" and "s \<in> set version_states"
    and "step_version (on_head k c s hp Map.empty u) = Next (on_head k c t hp' Map.empty u)"
  shows "fin cb data (at_head k s hp Map.empty u) = fin cb data (at_head (Suc k) t hp' Map.empty u)"
proof (rule fin_next [OF assms(1) _ assms(2)])
  have "step cb data (on_head k c s hp Map.empty u) = step_version (on_head k c s hp Map.empty u)"
    using assms(3) by (auto simp: version_states_def step_def)
  then show "reexecute cb data (on_head k c s hp Map.empty u) = Next (on_head k c t hp' Map.empty u)"
    using assms(4) by (intro reexecute_cases(1)) simp
qed (use assms(3) in \<open>auto simp: version_states_def PARSING_HEADER_def\<close>)

lemma fin_version:
  assumes d: "drop k data = 72 # 84 # 84 # 80 # 47 # x # 46 # y # CR # LF # rest"
    and xy: "IS_NUM x" "IS_NUM y" and size: "k + 10 < 81920"
  shows "fin cb data (at_head k s_req_http_start hp Map.empty u)
    = fin cb data (at_head (k + 10) s_header_field_start (hp\<lparr>http_major := ucast x - 48, http_minor := ucast y - 48\<rparr>) Map.empty u)"
proof -
  let ?f = "\<lambda>k s hp. fin cb data (at_head k s hp Map.empty u)"
  note ver = version_states_def step_version_def STRICT_CHECK_def
  note d1 = drop_Cons_Suc [OF d] note d2 = drop_Cons_Suc [OF d1] note d3 = drop_Cons_Suc [OF d2] note d4 = drop_Cons_Suc [OF d3]
  note d5 = drop_Cons_Suc [OF d4] note d6 = drop_Cons_Suc [OF d5] note d7 = drop_Cons_Suc [OF d6] note d8 = drop_Cons_Suc [OF d7]
  note d9 = drop_Cons_Suc [OF d8]
  let ?hp1 = "hp\<lparr>http_major := ucast x - 48\<rparr>" and ?hp2 = "hp\<lparr>http_major := ucast x - 48, http_minor := ucast y - 48\<rparr>"
  have "?f k s_req_http_start hp = ?f (Suc k) s_req_http_H hp"
    by (rule fin_version_byte [OF d]) (use size in \<open>simp_all add: ver\<close>)
  also have "\<dots> = ?f (Suc (Suc k)) s_req_http_HT hp"
    by (rule fin_version_byte [OF d1]) (use size in \<open>simp_all add: ver\<close>)
  also have "\<dots> = ?f (Suc (Suc (Suc k))) s_req_http_HTT hp"
    by (rule fin_version_byte [OF d2]) (use size in \<open>simp_all add: ver\<close>)
  also have "\<dots> = ?f (Suc (Suc (Suc (Suc k)))) s_req_http_HTTP hp"
    by (rule fin_version_byte [OF d3]) (use size in \<open>simp_all add: ver\<close>)
  also have "\<dots> = ?f (Suc (Suc (Suc (Suc (Suc k))))) s_req_http_major hp"
    by (rule fin_version_byte [OF d4]) (use size in \<open>simp_all add: ver\<close>)
  also have "\<dots> = ?f (Suc (Suc (Suc (Suc (Suc (Suc k)))))) s_req_http_dot ?hp1"
    by (rule fin_version_byte [OF d5]) (use size xy in \<open>simp_all add: ver\<close>)
  also have "\<dots> = ?f (Suc (Suc (Suc (Suc (Suc (Suc (Suc k))))))) s_req_http_minor ?hp1"
    by (rule fin_version_byte [OF d6]) (use size in \<open>simp_all add: ver\<close>)
  also have "\<dots> = ?f (Suc (Suc (Suc (Suc (Suc (Suc (Suc (Suc k)))))))) s_req_http_end ?hp2"
    by (rule fin_version_byte [OF d7]) (use size xy in \<open>simp_all add: ver\<close>)
  also have "\<dots> = ?f (Suc (Suc (Suc (Suc (Suc (Suc (Suc (Suc (Suc k))))))))) s_req_line_almost_done ?hp2"
    by (rule fin_version_byte [OF d8]) (use size in \<open>simp_all add: ver\<close>)
  also have "\<dots> = ?f (Suc (Suc (Suc (Suc (Suc (Suc (Suc (Suc (Suc (Suc k)))))))))) s_header_field_start ?hp2"
    by (rule fin_version_byte [OF d9]) (use size in \<open>simp_all add: ver\<close>)
  finally show ?thesis by (simp add: eval_nat_numeral)
qed


subsection \<open>Requests\<close>

text \<open>What the callbacks of the request parser do.\<close>

definition request_field :: "u8 list \<Rightarrow> request_parser \<Rightarrow> request_parser" where
  "request_field b p = p\<lparr>rp_field := b\<rparr>"

definition request_value :: "u8 list \<Rightarrow> request_parser \<Rightarrow> request_parser" where
  "request_value b p = p\<lparr>rp_data := rq_setHeader (rp_field p) b (rp_data p)\<rparr>"

definition request_head :: "http_parser \<Rightarrow> request_parser \<Rightarrow> request_parser" where
  "request_head f p = p\<lparr>rp_data := on_request_headers_complete f (rp_data p)\<rparr>"

definition request_body :: "u8 list \<Rightarrow> request_parser \<Rightarrow> request_parser" where
  "request_body b p = p\<lparr>rp_data := (rp_data p)\<lparr>rq_body := rq_body (rp_data p) @ b\<rparr>\<rparr>"

definition request_done :: "request_parser \<Rightarrow> request_parser" where
  "request_done p = p\<lparr>rp_finished := True\<rparr>"

lemmas request_effects = request_field_def request_value_def request_head_def request_body_def request_done_def

interpretation request: message_client request_callback request_field request_value request_head request_body request_done
  by unfold_locales (simp_all add: request_effects on_request_headers_complete_def version_byte_def)

text \<open>The header lines of a dump but that of the length of the body.\<close>

definition sent_headers :: "http_request \<Rightarrow> MapType" where
  "sent_headers r = (if rq_websocket r then [] else [connection_entry (rq_close r)])
     @ filter (\<lambda>e. \<not> (\<not> rq_websocket r \<and> strcasecmp (fst e) (bytes ''connection'') = 0)
         \<and> \<not> (rq_body r \<noteq> [] \<and> strcasecmp (fst e) (bytes ''content-length'') = 0)) (rq_headers r)"

definition request_line :: "http_request \<Rightarrow> u8 list" where
  "request_line r = HttpMethodToString (rq_method r) @ [32] @ origin_form (rq_path r) (rq_query r) (rq_fragment r)
     @ [32] @ version_text (rq_version r) @ Http.crlf"

lemma rq_dump_parts:
  "rq_dump r = request_line r @ concat (map header_line (sent_headers r @ length_header (rq_body r))) @ CR # LF # rq_body r"
  by (simp add: rq_dump_def request_line_def origin_form_def sent_headers_def length_header_def Http.crlf_def)
    (simp add: bytes_def Http.crlf_def)

text \<open>The requests that survive: the grammar library refuses or changes the meaning of the others.\<close>

definition sendable :: "http_request \<Rightarrow> bool" where
  "sendable r \<longleftrightarrow> rq_method r \<noteq> CONNECT \<and> rq_method r \<noteq> INVALID_METHOD
     \<and> target_ok (rq_path r) (rq_query r) (rq_fragment r) \<and> length (origin_form (rq_path r) (rq_query r) (rq_fragment r)) < 2 ^ 16
     \<and> unat (drop_bit 4 (rq_version r)) < 10 \<and> unat (rq_version r AND 0x0F) < 10
     \<and> map_sorted CaseInsensitiveLess (rq_headers r) \<and> list_all header_ok (sent_headers r) \<and> length (rq_body r) < 2 ^ 63
     \<and> length (request_line r) + length (concat (map header_line (sent_headers r @ length_header (rq_body r)))) + 1 < 81920"

lemma digit_word:
  fixes c :: u8
  assumes "unat c = 48 + n"
  shows "(ucast c - 48 :: u16) = of_nat n"
proof -
  have "(ucast c :: u16) = of_nat (unat c)" by simp
  then show ?thesis using assms by simp
qed

lemma version_nibbles:
  fixes v :: u8
  shows "(ucast (push_bit 4 (ucast (drop_bit 4 v) :: u16) OR (ucast (v AND 0x0F) :: u16)) :: u8) = v"
proof -
  have m: "v AND 0x0F = take_bit 4 v" by (simp add: take_bit_eq_mask mask_eq_exp_minus_1)
  show ?thesis unfolding m by (intro bit_word_eqI) (auto simp: bit_simps)
qed

lemma version_bytes:
  assumes "unat (drop_bit 4 v) < 10" and "unat (v AND 0x0F) < 10"
  obtains x y where "version_text v = [72, 84, 84, 80, 47, x, 46, y]" and "IS_NUM x" and "IS_NUM y"
    and "(ucast (push_bit 4 (ucast x - 48 :: u16) OR (ucast y - 48 :: u16)) :: u8) = v"
proof -
  let ?x = "of_nat (48 + unat (drop_bit 4 v)) :: u8" and ?y = "of_nat (48 + unat (v AND 0x0F)) :: u8"
  have "version_text v = [72, 84, 84, 80, 47, ?x, 46, ?y]"
    using assms by (simp add: version_text_def decimal.simps [of "unat _"] bytes_def)
  moreover have "IS_NUM ?x" "IS_NUM ?y" using digit_byte assms by blast+
  moreover have "(ucast (push_bit 4 (ucast ?x - 48 :: u16) OR (ucast ?y - 48 :: u16)) :: u8) = v"
    using digit_word [of ?x "unat (drop_bit 4 v)"] digit_word [of ?y "unat (v AND 0x0F)"] digit_byte assms version_nibbles [of v]
    by (simp del: of_nat_add)
  ultimately show thesis by (rule that)
qed


text \<open>The callback of the target.\<close>

lemma request_url:
  assumes "target_ok path query fragment" and "length (origin_form path query fragment) < 2 ^ 16"
  shows "request_callback (Url (origin_form path query fragment)) f p = (0, p\<lparr>rp_data := (rp_data p)\<lparr>rq_path := path,
    rq_query := if query = [] then rq_query (rp_data p) else query,
    rq_fragment := if fragment = [] then rq_fragment (rp_data p) else fragment\<rparr>\<rparr>)"
  using origin_form_parsed [OF assms, of http_parser_url_init] by (auto simp: request_callback_def on_request_url_def Let_def)

lemma target_bytes:
  assumes "target_ok path query fragment"
  obtains c cs where "origin_form path query fragment = c # cs" and "c = 47 \<or> c = 42" and "list_all target_byte cs"
proof -
  obtain c cs where c: "path = c # cs" using assms by (cases path) (auto simp: target_ok_def)
  have "list_all target_byte (origin_form path query fragment)"
    using assms by (auto simp: target_ok_def origin_form_def target_byte_def list_all_iff)
  then show thesis using c assms by (intro that [of c]) (auto simp: origin_form_def target_ok_def)
qed

lemma execute_fin:
  assumes "data \<noteq> []"
  shows "http_parser_execute cb (http_parser_init HTTP_REQUEST) data u
    = fin cb data (at_head 0 s_start_req (http_parser_init HTTP_REQUEST) Map.empty u)"
proof -
  have "start_exec (http_parser_init HTTP_REQUEST) u = at_head 0 s_start_req (http_parser_init HTTP_REQUEST) Map.empty u"
    by (auto simp: start_exec_def at_head_def http_parser_init_def first_marks_def url_states_def)
  then show ?thesis using assms by (simp add: http_parser_execute_def fin_def http_parser_init_def)
qed

lemma request_line_read:
  assumes "sendable r" and d: "data = request_line r @ rest"
  shows "\<exists>hp. fin request_callback data (at_head 0 s_start_req (http_parser_init HTTP_REQUEST) Map.empty p)
      = fin request_callback data (at_head (length (request_line r)) s_header_field_start hp Map.empty
         (p\<lparr>rp_data := (rp_data p)\<lparr>rq_path := rq_path r, rq_query := if rq_query r = [] then rq_query (rp_data p) else rq_query r,
            rq_fragment := if rq_fragment r = [] then rq_fragment (rp_data p) else rq_fragment r\<rparr>\<rparr>))
    \<and> http_errno hp = HPE_OK \<and> hp_flags hp = 0 \<and> hp_method hp = rq_method r \<and> hp_content_length hp = ULLONG_MAX
    \<and> hp_type hp = HTTP_REQUEST \<and> version_byte hp = rq_version r"
proof -
  note s = assms(1) [unfolded sendable_def]
  let ?t = "origin_form (rq_path r) (rq_query r) (rq_fragment r)" and ?m = "http_method_str (rq_method r)"
  obtain x y where v: "version_text (rq_version r) = [72, 84, 84, 80, 47, x, 46, y]" "IS_NUM x" "IS_NUM y"
    "(ucast (push_bit 4 (ucast x - 48 :: u16) OR (ucast y - 48 :: u16)) :: u8) = rq_version r"
    using version_bytes s by metis
  obtain c cs where t: "?t = c # cs" "c = 47 \<or> c = 42" "list_all target_byte cs" using target_bytes s by metis
  have m: "HttpMethodToString (rq_method r) = ?m" by (simp add: HttpMethodToString_def http_method_str_def Let_def)
  have l: "request_line r = ?m @ 32 # ?t @ 32 # [72, 84, 84, 80, 47, x, 46, y, CR, LF]"
    by (simp add: request_line_def m v(1) Http.crlf_def)
  let ?k1 = "Suc (length ?m)" and ?k2 = "Suc (Suc (length ?m) + length ?t)"
  have d0: "drop 0 data = ?m @ 32 # ?t @ 32 # [72, 84, 84, 80, 47, x, 46, y, CR, LF] @ rest" using d l by simp
  have d1: "drop ?k1 data = (c # cs) @ 32 # [72, 84, 84, 80, 47, x, 46, y, CR, LF] @ rest"
    using drop_Cons_Suc [OF drop_append_drop [OF d0]] t(1) by simp
  have d2: "drop ?k2 data = 72 # 84 # 84 # 80 # 47 # x # 46 # y # CR # LF # rest"
    using drop_Cons_Suc [OF drop_append_drop [OF d1]] t(1) by simp
  let ?p = "p\<lparr>rp_data := (rp_data p)\<lparr>rq_path := rq_path r, rq_query := if rq_query r = [] then rq_query (rp_data p) else rq_query r,
            rq_fragment := if rq_fragment r = [] then rq_fragment (rp_data p) else rq_fragment r\<rparr>\<rparr>"
  have size: "length (request_line r) < 81920" using s by simp
  let ?hp = "\<lambda>i. (http_parser_init HTTP_REQUEST)\<lparr>hp_flags := 0, hp_content_length := ULLONG_MAX, hp_state := s_req_method,
    hp_method := rq_method r, hp_index := i\<rparr>"
  obtain i where "fin request_callback data (at_head 0 s_start_req (http_parser_init HTTP_REQUEST) Map.empty p)
      = fin request_callback data (at_head ?k1 s_req_spaces_before_url (?hp i) Map.empty p)"
    using fin_method [OF d0, of "http_parser_init HTTP_REQUEST" request_callback p p] s size l by (auto simp: http_parser_init_def)
  also have "\<dots> = fin request_callback data (at_head ?k2 s_req_http_start ((?hp i)\<lparr>hp_state := s_req_http_start\<rparr>) Map.empty ?p)"
    using fin_target [OF d1 t(2,3), of "?hp i" request_callback p ?p] s size l t(1) request_url [of "rq_path r" "rq_query r" "rq_fragment r" _ p]
    by (simp add: http_parser_init_def)
  also have "\<dots> = fin request_callback data (at_head (?k2 + 10) s_header_field_start
      ((?hp i)\<lparr>hp_state := s_req_http_start, http_major := ucast x - 48, http_minor := ucast y - 48\<rparr>) Map.empty ?p)"
    by (subst fin_version [OF d2 v(2,3)]) (use size l in simp_all)
  finally have run: "fin request_callback data (at_head 0 s_start_req (http_parser_init HTTP_REQUEST) Map.empty p)
      = fin request_callback data (at_head (?k2 + 10) s_header_field_start
      ((?hp i)\<lparr>hp_state := s_req_http_start, http_major := ucast x - 48, http_minor := ucast y - 48\<rparr>) Map.empty ?p)" .
  have len: "?k2 + 10 = length (request_line r)" using l by simp
  show ?thesis
    by (intro exI [of _ "(?hp i)\<lparr>hp_state := s_req_http_start, http_major := ucast x - 48, http_minor := ucast y - 48\<rparr>"] conjI,
        rule run [unfolded len]) (use v(4) in \<open>simp_all add: http_parser_init_def version_byte_def\<close>)
qed

text \<open>The header map the receiver builds from the lines.\<close>

definition received_headers :: "(u8 list \<times> u8 list) list \<Rightarrow> MapType" where
  "received_headers es = fold (\<lambda>e. ci_assign (fst e) (snd e)) es []"

lemma read_headers:
  "rp_data (fold request.read_header es p)
     = (rp_data p)\<lparr>rq_headers := fold (\<lambda>e. ci_assign (fst e) (snd e)) es (rq_headers (rp_data p))\<rparr>"
  "rp_error (fold request.read_header es p) = rp_error p"
  by (induction es arbitrary: p) (simp_all add: request.read_header_def request_effects rq_setHeader_def)

lemma fold_assign_find:
  "map_sorted CaseInsensitiveLess m \<Longrightarrow>
   ci_find key (fold (\<lambda>e. ci_assign (fst e) (snd e)) es m) = (case find (\<lambda>e. lkey (fst e) = lkey key) (rev es) of
     Some e \<Rightarrow> Some (snd e) | None \<Rightarrow> ci_find key m)"
proof (induction es arbitrary: m)
  case (Cons e es)
  have "map_sorted CaseInsensitiveLess (ci_assign (fst e) (snd e) m)"
    using ci.sorted_assign [OF Cons.prems] by (simp add: ci_assign_def)
  from Cons.IH [OF this] show ?case
    using ci_find_assign [OF Cons.prems, of key "fst e" "snd e"] by (auto simp: find_append split: option.splits)
qed simp

text \<open>A header that is not about the connection or the length is found with the value it had.\<close>

lemma received_find:
  assumes "map_sorted CaseInsensitiveLess (rq_headers r)" and "lkey key \<noteq> lkey (bytes ''connection'')"
    and "lkey key \<noteq> lkey (bytes ''content-length'')"
  shows "ci_find key (received_headers (sent_headers r @ length_header (rq_body r))) = ci_find key (rq_headers r)"
proof -
  let ?es = "sent_headers r @ length_header (rq_body r)"
  have mem: "e \<in> set ?es \<longleftrightarrow> e \<in> set (rq_headers r)" if "lkey (fst e) = lkey key" for e
    using that assms(2,3) by (auto simp: sent_headers_def length_header_def strcasecmp_zero connection_entry_def length_entry_def)
  have found: "ci_find key (rq_headers r) = Some (snd e)" if "e \<in> set (rq_headers r)" "lkey (fst e) = lkey key" for e
    using ci.find_mem [OF assms(1), of "fst e" "snd e"] ci.find_equiv [of "fst e" key "rq_headers r"] that
    by (simp add: ci_find_def ci_equiv)
  have "map_sorted CaseInsensitiveLess ([] :: MapType)" by (simp add: map_sorted_def)
  then have "ci_find key (received_headers ?es) = (case find (\<lambda>e. lkey (fst e) = lkey key) (rev ?es) of
      Some e \<Rightarrow> Some (snd e) | None \<Rightarrow> ci_find key [])" unfolding received_headers_def by (rule fold_assign_find)
  also have "\<dots> = ci_find key (rq_headers r)"
  proof (cases "find (\<lambda>e. lkey (fst e) = lkey key) (rev ?es)")
    case None
    then have "\<forall>e\<in>set ?es. lkey (fst e) \<noteq> lkey key" unfolding find_None_iff by force
    then have "\<forall>e\<in>set (rq_headers r). lkey (fst e) \<noteq> lkey key" using mem by blast
    then have "ci_find key (rq_headers r) = None"
      using ci.find_Some_mem [of key "rq_headers r"] by (cases "ci_find key (rq_headers r)") (auto simp: ci_find_def ci_equiv)
    then show ?thesis using None by (simp add: ci_find_def)
  next
    case (Some e)
    then have "e \<in> set (rev ?es)" "lkey (fst e) = lkey key" unfolding find_Some_iff by (metis nth_mem)+
    then have "e \<in> set ?es" "lkey (fst e) = lkey key" by (simp_all only: set_rev)
    then show ?thesis using Some mem found by simp
  qed
  finally show ?thesis .
qed

text \<open>
  C12: A request that is sent and received. When \<open>dump\<close> writes a request and a fresh \<open>HttpRequestParser\<close> gets the text in one
  buffer, all of it is parsed without an error and the message is finished; method, version, path, query, fragment and
  body are those that were sent, and the headers are the ones of the header lines, each assigned in turn; a header
  that is not about the connection or the length of the body is read back with the value it had.
  This holds for every method but \<open>CONNECT\<close>, targets in origin form, versions of one digit on each side of the dot, field
  names made of token characters that do not frame the message themselves, values that are not empty and do not start with
  a blank, a head of at most 80 kilobytes and any body.
\<close>

theorem request_roundtrip:
  assumes "sendable r"
  shows "\<exists>p. request_execute (rq_dump r) new_HttpRequestParser = Inr (length (rq_dump r), rq_dump r, p)
    \<and> rp_error p = 0 \<and> rp_finished p
    \<and> rp_data p = (new_HttpRequest 0x11 True)\<lparr>rq_method := rq_method r, rq_version := rq_version r, rq_path := rq_path r,
        rq_query := rq_query r, rq_fragment := rq_fragment r, rq_body := rq_body r,
        rq_headers := received_headers (sent_headers r @ length_header (rq_body r))\<rparr>
    \<and> (\<forall>key def. lkey key \<noteq> lkey (bytes ''connection'') \<and> lkey key \<noteq> lkey (bytes ''content-length'') \<longrightarrow>
         rq_getHeader (rp_data p) key def = rq_getHeader r key def)"
proof -
  let ?data = "rq_dump r" and ?p = new_HttpRequestParser
  let ?es = "sent_headers r @ length_header (rq_body r)"
  note s = assms [unfolded sendable_def]
  obtain hp where hp: "fin request_callback ?data (at_head 0 s_start_req (http_parser_init HTTP_REQUEST) Map.empty ?p)
      = fin request_callback ?data (at_head (length (request_line r)) s_header_field_start hp Map.empty
         (?p\<lparr>rp_data := (rp_data ?p)\<lparr>rq_path := rq_path r, rq_query := if rq_query r = [] then rq_query (rp_data ?p) else rq_query r,
            rq_fragment := if rq_fragment r = [] then rq_fragment (rp_data ?p) else rq_fragment r\<rparr>\<rparr>))"
      (is "_ = fin _ _ (at_head _ _ _ _ ?p1)")
    "http_errno hp = HPE_OK" "hp_flags hp = 0" "hp_method hp = rq_method r" "hp_content_length hp = ULLONG_MAX"
    "hp_type hp = HTTP_REQUEST" "version_byte hp = rq_version r"
    using request_line_read [OF assms rq_dump_parts, of ?p] by (elim exE conjE)
  have d: "drop (length (request_line r)) ?data = concat (map header_line ?es) @ CR # LF # rq_body r" by (simp add: rq_dump_parts)
  let ?q = "(if rq_body r = [] then id else request_body (rq_body r)) (request_head hp (fold request.read_header ?es ?p1))"
  obtain hp' where hp': "fin request_callback ?data (at_head (length (request_line r)) s_header_field_start hp Map.empty ?p1)
      = Inr (length ?data, hp', request_done ?q)" "http_errno hp' = HPE_OK" "\<not> upgrade hp'"
    using request.message_rest [OF d, of hp ?p1] s hp by auto
  have "http_parser_execute request_callback (rp_parser ?p) ?data ?p = Inr (length ?data, hp', request_done ?q)"
    using execute_fin [of ?data request_callback ?p] hp(1) hp'(1) by (simp add: new_HttpRequestParser_def rq_dump_parts)
  then have "request_execute ?data ?p = Inr (length ?data, ?data, (request_done ?q)\<lparr>rp_parser := hp'\<rparr>)"
    using hp'(2,3) by (simp add: request_execute_def Let_def)
  moreover have "rp_data ?q = (new_HttpRequest 0x11 True)\<lparr>rq_method := rq_method r, rq_version := rq_version r, rq_path := rq_path r,
        rq_query := rq_query r, rq_fragment := rq_fragment r, rq_body := rq_body r, rq_headers := received_headers ?es\<rparr>"
    using hp by (simp add: request_head_def request_body_def read_headers on_request_headers_complete_def new_HttpRequestParser_def
        new_HttpRequest_def received_headers_def)
  moreover have "rp_error ?q = 0" by (simp add: request_head_def request_body_def read_headers new_HttpRequestParser_def)
  ultimately show ?thesis by (intro exI [of _ "(request_done ?q)\<lparr>rp_parser := hp'\<rparr>"])
    (simp add: request_done_def rq_getHeader_def received_find s)
qed

definition sample_request :: http_request where
  "sample_request = (new_HttpRequest 0x11 False)\<lparr>rq_method := POST, rq_path := bytes ''/a'', rq_query := bytes ''b=1'',
     rq_headers := [(bytes ''Host'', bytes ''h'')], rq_body := bytes ''hi''\<rparr>"

lemma sample_headers: "sent_headers sample_request = [(bytes ''connection'', bytes ''keep-alive''), (bytes ''Host'', bytes ''h'')]"
  by code_simp

lemma sample_sendable: "sendable sample_request"
proof -
  have "list_all header_ok (sent_headers sample_request)" by code_simp
  moreover have "target_ok (rq_path sample_request) (rq_query sample_request) (rq_fragment sample_request)" by code_simp
  moreover have "length (request_line sample_request) + length (concat (map header_line
      (sent_headers sample_request @ length_header (rq_body sample_request)))) + 1 = 75" by code_simp
  moreover have "map_sorted CaseInsensitiveLess (rq_headers sample_request)" by (simp add: sample_request_def map_sorted_def)
  ultimately show ?thesis
    by (simp add: sendable_def) (simp add: sample_request_def new_HttpRequest_def origin_form_def bytes_def)
qed

theorem request_roundtrip_witness:
  "\<exists>p. request_execute (rq_dump sample_request) new_HttpRequestParser
      = Inr (length (rq_dump sample_request), rq_dump sample_request, p)
     \<and> rp_finished p \<and> rq_method (rp_data p) = POST \<and> rq_body (rp_data p) = bytes ''hi''
     \<and> rq_getHeader (rp_data p) (bytes ''host'') [] = bytes ''h''"
proof -
  have "rq_getHeader sample_request (bytes ''host'') [] = bytes ''h''" "lkey (bytes ''host'') \<noteq> lkey (bytes ''connection'')"
    "lkey (bytes ''host'') \<noteq> lkey (bytes ''content-length'')" "rq_method sample_request = POST" "rq_body sample_request = bytes ''hi''"
    by code_simp+
  then show ?thesis using request_roundtrip [OF sample_sendable] by fastforce
qed

end
