(* ===== verification/TcpServer.thy ===== *)
theory TcpServer
  imports Sockets
begin

text \<open>
  \<open>src/tcpserver/tcpserver.cc\<close>: a server that binds listening sockets, accepts clients in tasks on one
  scheduler and hands them to another. Sockets are shared objects: the server, the accept tasks and the
  client tasks hold pointers to them. So they live in a store \<open>w_heap\<close> and are named by their index
  there. The tasks handed to the two schedulers and not yet finished are part of the state; an accept
  task that runs is one that has not finished, and its loop is taken one iteration at a time.
\<close>

subsection \<open>State\<close>

record tcp_server =
  ts_socks :: "nat list"
  ts_ioWorker :: "u8 list option"
  ts_acceptWorker :: "u8 list option"
  ts_recvTimeout :: u64
  ts_name :: "u8 list"
  ts_type :: "u8 list"
  ts_isStop :: bool

datatype accept_task = StartAccept nat | CloseAll

text \<open>Each client task comes with the descriptor context its receive timeout was set in. \<open>w_acts\<close> are the
  descriptors opened and closed so far.\<close>

record tcp_world =
  w_heap :: "socket list"
  w_accept :: "accept_task list"
  w_io :: "(nat \<times> fd_ctx option) list"
  w_acts :: "sock_action list"

text \<open>\<open>timeout\<close> is the value of the configuration variable \<open>tcp_server.read_timeout\<close>.\<close>

definition new_TcpServer :: "u64 \<Rightarrow> u8 list option \<Rightarrow> u8 list option \<Rightarrow> tcp_server" where
  "new_TcpServer timeout ioWorker acceptWorker =
     \<lparr>ts_socks = [], ts_ioWorker = ioWorker, ts_acceptWorker = acceptWorker, ts_recvTimeout = timeout,
      ts_name = bytes ''phase0/1.0.0'', ts_type = bytes ''tcp'', ts_isStop = True\<rparr>"

definition ts_setName :: "u8 list \<Rightarrow> 'x tcp_server_scheme \<Rightarrow> 'x tcp_server_scheme" where
  "ts_setName v srv = srv\<lparr>ts_name := v\<rparr>"

definition ts_setRecvTimeout :: "u64 \<Rightarrow> 'x tcp_server_scheme \<Rightarrow> 'x tcp_server_scheme" where
  "ts_setRecvTimeout v srv = srv\<lparr>ts_recvTimeout := v\<rparr>"

subsection \<open>Closing\<close>

definition close_at :: "nat \<Rightarrow> tcp_world \<Rightarrow> tcp_world" where
  "close_at i w = (let (_, s, acts) = close_socket (w_heap w ! i) in
     w\<lparr>w_heap := (w_heap w)[i := s], w_acts := w_acts w @ acts\<rparr>)"

text \<open>The server drops its pointer to a socket: the object is destroyed unless an accept task holds it.\<close>

definition release :: "nat \<Rightarrow> tcp_world \<Rightarrow> tcp_world" where
  "release i w = (if StartAccept i \<in> set (w_accept w) then w else close_at i w)"

definition delete_TcpServer :: "'x tcp_server_scheme \<Rightarrow> tcp_world \<Rightarrow> tcp_world" where
  "delete_TcpServer srv w = fold close_at (ts_socks srv) w"

subsection \<open>Binding\<close>

text \<open>An address to bind with the outcomes of the system calls made for it.\<close>

type_synonym bind_input = "address \<times> sock_sys \<times> sock_sys"

definition bind_one :: "bind_input \<Rightarrow> socket option \<times> sock_action list" where
  "bind_one b = (let (addr, sys, sys2) = b; (ok, s, acts) = sock_bind sys sys2 addr (CreateTCP addr) in
     if \<not> ok then (None, acts @ delete_Socket s)
     else if \<not> sock_listen sys s then (None, acts @ delete_Socket s)
     else (Some s, acts))"

fun bind_loop ::
  "bind_input list \<Rightarrow> address list \<Rightarrow> 'x tcp_server_scheme \<Rightarrow> tcp_world \<Rightarrow> address list \<times> 'x tcp_server_scheme \<times> tcp_world" where
  "bind_loop [] fails srv w = (fails, srv, w)"
| "bind_loop (b # bs) fails srv w = (case bind_one b of
     (None, acts) \<Rightarrow> bind_loop bs (fails @ [fst b]) srv (w\<lparr>w_acts := w_acts w @ acts\<rparr>)
   | (Some s, acts) \<Rightarrow> bind_loop bs fails (srv\<lparr>ts_socks := ts_socks srv @ [length (w_heap w)]\<rparr>)
       (w\<lparr>w_heap := w_heap w @ [s], w_acts := w_acts w @ acts\<rparr>))"

definition tcp_bind ::
  "bind_input list \<Rightarrow> address list \<Rightarrow> 'x tcp_server_scheme \<Rightarrow> tcp_world \<Rightarrow> bool \<times> address list \<times> 'x tcp_server_scheme \<times> tcp_world" where
  "tcp_bind addrs fails srv w = (let (fails, srv, w) = bind_loop addrs fails srv w in
     if fails \<noteq> [] then (False, fails, srv\<lparr>ts_socks := []\<rparr>, fold release (ts_socks srv) w)
     else (True, fails, srv, w))"

definition tcp_bind_addr :: "bind_input \<Rightarrow> 'x tcp_server_scheme \<Rightarrow> tcp_world \<Rightarrow> bool \<times> 'x tcp_server_scheme \<times> tcp_world" where
  "tcp_bind_addr b srv w = (let (ok, _, srv, w) = tcp_bind [b] [] srv w in (ok, srv, w))"

subsection \<open>Accepting\<close>

text \<open>One round of the loop of \<open>startAccept\<close>: \<open>True\<close> when the loop goes on. \<open>sys\<close> holds the outcome of \<open>accept\<close>
  and \<open>ctx\<close> the context of the new descriptor (hooks are on in the tasks of a scheduler). At the end of
  the loop the task drops its pointer.\<close>

definition startAccept ::
  "nat \<Rightarrow> sock_sys \<Rightarrow> fd_ctx option \<Rightarrow> 'x tcp_server_scheme \<Rightarrow> tcp_world \<Rightarrow> (bool \<times> tcp_world) result" where
  "startAccept i sys ctx srv w =
     (if ts_isStop srv then
        let w = w\<lparr>w_accept := remove1 (StartAccept i) (w_accept w)\<rparr> in
        Inr (False, if i \<in> set (ts_socks srv) then w else release i w)
      else case sock_accept sys ctx (w_heap w ! i) of
        (Some client, acts) \<Rightarrow>
          if ts_ioWorker srv = None then Inl NullDeref
          else Inr (True, w\<lparr>w_heap := w_heap w @ [client], w_acts := w_acts w @ acts,
             w_io := w_io w @ [(length (w_heap w), setRecvTimeout True (sint (ts_recvTimeout srv)) ctx)]\<rparr>)
      | (None, acts) \<Rightarrow> Inr (True, w\<lparr>w_acts := w_acts w @ acts\<rparr>))"

definition start_server :: "'x tcp_server_scheme \<Rightarrow> tcp_world \<Rightarrow> (bool \<times> 'x tcp_server_scheme \<times> tcp_world) result" where
  "start_server srv w =
     (if \<not> ts_isStop srv then Inr (True, srv, w)
      else if ts_socks srv \<noteq> [] \<and> ts_acceptWorker srv = None then Inl NullDeref
      else Inr (True, srv\<lparr>ts_isStop := False\<rparr>, w\<lparr>w_accept := w_accept w @ map StartAccept (ts_socks srv)\<rparr>))"

definition stop_server :: "'x tcp_server_scheme \<Rightarrow> tcp_world \<Rightarrow> ('x tcp_server_scheme \<times> tcp_world) result" where
  "stop_server srv w =
     (if ts_acceptWorker srv = None then Inl NullDeref
      else Inr (srv\<lparr>ts_isStop := True\<rparr>, w\<lparr>w_accept := w_accept w @ [CloseAll]\<rparr>))"

text \<open>The task \<open>stop\<close> schedules. (\<open>cancelAll\<close> wakes the tasks that wait for the socket; the descriptor state is
  not changed by it.)\<close>

definition close_all :: "'x tcp_server_scheme \<Rightarrow> tcp_world \<Rightarrow> 'x tcp_server_scheme \<times> tcp_world" where
  "close_all srv w = (srv\<lparr>ts_socks := []\<rparr>,
     fold close_at (ts_socks srv) (w\<lparr>w_accept := remove1 CloseAll (w_accept w)\<rparr>))"

definition ts_toString :: "u8 list \<Rightarrow> 'x tcp_server_scheme \<Rightarrow> tcp_world \<Rightarrow> u8 list" where
  "ts_toString prefix srv w =
     (let pfx = (if prefix = [] then bytes ''    '' else prefix) in
      prefix @ bytes ''[type='' @ ts_type srv @ bytes '' name='' @ ts_name srv
      @ bytes '' ioWorker='' @ (case ts_ioWorker srv of Some n \<Rightarrow> n | None \<Rightarrow> [])
      @ bytes '' accept='' @ (case ts_acceptWorker srv of Some n \<Rightarrow> n | None \<Rightarrow> [])
      @ bytes '' recv_timeout='' @ decimal (unat (ts_recvTimeout srv)) @ bytes '']'' @ [10]
      @ concat (map (\<lambda>i. pfx @ pfx @ sock_dump (w_heap w ! i) @ [10]) (ts_socks srv)))"

subsection \<open>Steps of the system\<close>

text \<open>Calls of the owner, rounds of the accept loops, the closing task, and a client task that ends (it closes
  its socket). For a successful \<open>accept\<close> the hook has entered the new descriptor in the table.\<close>

definition accept_registered :: "sock_sys \<Rightarrow> fd_ctx option \<Rightarrow> bool" where
  "accept_registered sys ctx \<longleftrightarrow> sys_accept sys = - 1 \<or> (case ctx of Some c \<Rightarrow> m_isSocket c \<and> \<not> m_isClosed c | None \<Rightarrow> False)"

inductive tcp_reach :: "tcp_server \<Rightarrow> tcp_world \<Rightarrow> bool" where
  tcp_new: "tcp_reach (new_TcpServer timeout io acc) \<lparr>w_heap = [], w_accept = [], w_io = [], w_acts = []\<rparr>"
| tcp_bound: "tcp_reach srv w \<Longrightarrow> tcp_bind bs fails srv w = (ok, fails2, srv2, w2) \<Longrightarrow> tcp_reach srv2 w2"
| tcp_started: "tcp_reach srv w \<Longrightarrow> start_server srv w = Inr (ok, srv2, w2) \<Longrightarrow> tcp_reach srv2 w2"
| tcp_stopped: "tcp_reach srv w \<Longrightarrow> stop_server srv w = Inr (srv2, w2) \<Longrightarrow> tcp_reach srv2 w2"
| tcp_accept: "tcp_reach srv w \<Longrightarrow> StartAccept i \<in> set (w_accept w) \<Longrightarrow> accept_registered sys ctx \<Longrightarrow>
    startAccept i sys ctx srv w = Inr (goes_on, w2) \<Longrightarrow> tcp_reach srv w2"
| tcp_closed: "tcp_reach srv w \<Longrightarrow> CloseAll \<in> set (w_accept w) \<Longrightarrow> close_all srv w = (srv2, w2) \<Longrightarrow> tcp_reach srv2 w2"
| tcp_client: "tcp_reach srv w \<Longrightarrow> (i, ctx) \<in> set (w_io w) \<Longrightarrow>
    tcp_reach srv (close_at i (w\<lparr>w_io := remove1 (i, ctx) (w_io w)\<rparr>))"
| tcp_named: "tcp_reach srv w \<Longrightarrow> tcp_reach (ts_setName v srv) w"
| tcp_timeout: "tcp_reach srv w \<Longrightarrow> tcp_reach (ts_setRecvTimeout v srv) w"

text \<open>Every descriptor opened is closed again or held by one of the sockets.\<close>

definition ledger :: "tcp_world \<Rightarrow> bool" where
  "ledger w \<longleftrightarrow> (\<forall>fd. fd \<noteq> - 1 \<longrightarrow>
     count_list (w_acts w) (OpenFd fd) = count_list (w_acts w) (CloseFd fd) + sum_list (map (\<lambda>s. held s fd) (w_heap w)))"

definition tcp_inv :: "'x tcp_server_scheme \<Rightarrow> tcp_world \<Rightarrow> bool" where
  "tcp_inv srv w \<longleftrightarrow> distinct (ts_socks srv) \<and> ledger w
     \<and> (\<forall>i \<in> set (ts_socks srv). i < length (w_heap w) \<and> isValid (w_heap w ! i) \<and> i \<notin> fst ` set (w_io w))
     \<and> (\<forall>i. StartAccept i \<in> set (w_accept w) \<longrightarrow> i < length (w_heap w) \<and> i \<notin> fst ` set (w_io w))
     \<and> (\<forall>i \<in> fst ` set (w_io w). i < length (w_heap w))"

lemma sum_list_update_held:
  "i < length ss \<Longrightarrow> sum_list (map f (ss[i := t])) + f (ss ! i) = sum_list (map f ss) + (f t :: nat)"
  by (induction ss arbitrary: i) (auto split: nat.splits)

lemma close_at_keeps [simp]:
  "w_accept (close_at i w) = w_accept w" "w_io (close_at i w) = w_io w" "length (w_heap (close_at i w)) = length (w_heap w)"
  "j \<noteq> i \<Longrightarrow> w_heap (close_at i w) ! j = w_heap w ! j"
  by (simp_all add: close_at_def split: prod.split)

lemma close_at_invalid: "i < length (w_heap w) \<Longrightarrow> \<not> isValid (w_heap (close_at i w) ! i)"
  by (simp add: close_at_def close_socket_def isValid_def)

lemma close_at_ledger:
  assumes "ledger w" and "i < length (w_heap w)"
  shows "ledger (close_at i w)"
proof -
  obtain ok t acts where c: "close_socket (w_heap w ! i) = (ok, t, acts)" by (cases "close_socket (w_heap w ! i)")
  have b: "balanced (w_heap w ! i) acts t" using close_socket_ok [OF c] by (simp add: step_ok_def)
  show ?thesis
    unfolding ledger_def
  proof (intro allI impI)
    fix fd :: int assume fd: "fd \<noteq> - 1"
    have "sum_list (map (\<lambda>s. held s fd) ((w_heap w)[i := t])) + held (w_heap w ! i) fd
        = sum_list (map (\<lambda>s. held s fd) (w_heap w)) + held t fd"
      by (rule sum_list_update_held [OF assms(2)])
    moreover have "count_list acts (OpenFd fd) + held (w_heap w ! i) fd = count_list acts (CloseFd fd) + held t fd"
      using b fd by (simp add: balanced_def)
    moreover have "count_list (w_acts w) (OpenFd fd) = count_list (w_acts w) (CloseFd fd) + sum_list (map (\<lambda>s. held s fd) (w_heap w))"
      using assms(1) fd by (simp add: ledger_def)
    ultimately show "count_list (w_acts (close_at i w)) (OpenFd fd)
        = count_list (w_acts (close_at i w)) (CloseFd fd) + sum_list (map (\<lambda>s. held s fd) (w_heap (close_at i w)))"
      using c by (simp add: close_at_def)
  qed
qed

text \<open>What closing one socket after another leaves alone; the same for releasing.\<close>

lemma fold_close_keeps [simp]:
  "w_accept (fold close_at is w) = w_accept w" "w_io (fold close_at is w) = w_io w"
  "length (w_heap (fold close_at is w)) = length (w_heap w)"
  by (induction "is" arbitrary: w) simp_all

lemma fold_close_other: "j \<notin> set is \<Longrightarrow> w_heap (fold close_at is w) ! j = w_heap w ! j"
  by (induction "is" arbitrary: w) auto

lemma fold_close_ledger: "ledger w \<Longrightarrow> list_all (\<lambda>i. i < length (w_heap w)) is \<Longrightarrow> ledger (fold close_at is w)"
  by (induction "is" arbitrary: w) (simp_all add: close_at_ledger)

lemma close_at_stays_invalid: "\<not> isValid (w_heap w ! j) \<Longrightarrow> j < length (w_heap w) \<Longrightarrow> \<not> isValid (w_heap (close_at i w) ! j)"
  using close_at_invalid by (cases "j = i") auto

lemma fold_close_stays_invalid:
  "\<not> isValid (w_heap w ! j) \<Longrightarrow> j < length (w_heap w) \<Longrightarrow> \<not> isValid (w_heap (fold close_at is w) ! j)"
  by (induction "is" arbitrary: w) (simp_all add: close_at_stays_invalid)

lemma fold_close_invalid: "j \<in> set is \<Longrightarrow> j < length (w_heap w) \<Longrightarrow> \<not> isValid (w_heap (fold close_at is w) ! j)"
proof (induction "is" arbitrary: w)
  case (Cons i "is")
  show ?case
  proof (cases "j \<in> set is")
    case True
    then show ?thesis using Cons by simp
  next
    case False
    then have "j = i" using Cons.prems by simp
    then show ?thesis using Cons.prems by (simp add: fold_close_stays_invalid close_at_invalid)
  qed
qed simp

lemma fold_release: "fold release is w = fold close_at (filter (\<lambda>i. StartAccept i \<notin> set (w_accept w)) is) w"
proof (induction "is" arbitrary: w)
  case (Cons i "is")
  show ?case using Cons.IH [of w] Cons.IH [of "close_at i w"] by (simp add: release_def)
qed simp

lemma bind_one_None: "bind_one b = (None, acts) \<Longrightarrow> balanced_acts acts"
proof -
  assume b: "bind_one b = (None, acts)"
  obtain addr sys sys2 where a: "b = (addr, sys, sys2)" by (cases b)
  obtain ok s bacts where k: "sock_bind sys sys2 addr (CreateTCP addr) = (ok, s, bacts)"
    by (cases "sock_bind sys sys2 addr (CreateTCP addr)")
  have "balanced_acts (bacts @ delete_Socket s)"
    using sock_bind_ok [OF k] by (intro delete_balances) (auto simp: step_ok_def CreateTCP_def new_Socket_def)
  then show ?thesis using b a k by (auto simp: bind_one_def split: if_splits)
qed

lemma bind_one_Some:
  assumes "bind_one b = (Some s, acts)"
  shows "isValid s" and "fd \<noteq> - 1 \<Longrightarrow> count_list acts (OpenFd fd) = count_list acts (CloseFd fd) + held s fd"
proof -
  obtain addr sys sys2 where a: "b = (addr, sys, sys2)" by (cases b)
  obtain ok t bacts where k: "sock_bind sys sys2 addr (CreateTCP addr) = (ok, t, bacts)"
    by (cases "sock_bind sys sys2 addr (CreateTCP addr)")
  have s: "t = s" "bacts = acts" "sock_listen sys s" using assms a k by (auto simp: bind_one_def split: if_splits)
  show "isValid s" using s(3) by (simp add: sock_listen_def split: if_splits)
  show "count_list acts (OpenFd fd) = count_list acts (CloseFd fd) + held s fd" if "fd \<noteq> - 1"
    using sock_bind_ok [OF k] s that by (auto simp: step_ok_def balanced_def held_def CreateTCP_def new_Socket_def)
qed

text \<open>The sockets a call of \<open>bind\<close> brings into being, and the addresses it fails on.\<close>

fun bound_socks :: "bind_input list \<Rightarrow> socket list" where
  "bound_socks [] = []"
| "bound_socks (b # bs) = (case fst (bind_one b) of None \<Rightarrow> bound_socks bs | Some s \<Rightarrow> s # bound_socks bs)"

definition failed_addrs :: "bind_input list \<Rightarrow> address list" where
  "failed_addrs bs = map fst (filter (\<lambda>b. fst (bind_one b) = None) bs)"

lemma bind_loop_result:
  "bind_loop bs fails srv w =
     (fails @ failed_addrs bs, srv\<lparr>ts_socks := ts_socks srv @ [length (w_heap w)..<length (w_heap w) + length (bound_socks bs)]\<rparr>,
      w\<lparr>w_heap := w_heap w @ bound_socks bs, w_acts := w_acts w @ concat (map (snd \<circ> bind_one) bs)\<rparr>)"
proof (induction bs arbitrary: fails srv w)
  case Nil
  then show ?case by (simp add: failed_addrs_def)
next
  case (Cons b bs)
  obtain r acts where b: "bind_one b = (r, acts)" by fastforce
  have up: "n # [Suc n..<Suc (n + k)] = [n..<Suc (n + k)]" for n k by (simp add: upt_conv_Cons)
  show ?case
    using b Cons.IH up by (cases r) (simp_all add: failed_addrs_def del: upt_Suc)
qed

lemma bound_socks_valid: "s \<in> set (bound_socks bs) \<Longrightarrow> isValid s"
proof (induction bs)
  case (Cons b bs)
  obtain r acts where b: "bind_one b = (r, acts)" by fastforce
  then show ?case using Cons bind_one_Some(1) [of b] by (cases r) auto
qed simp

lemma bound_socks_ledger:
  "fd \<noteq> - 1 \<Longrightarrow> count_list (concat (map (snd \<circ> bind_one) bs)) (OpenFd fd)
     = count_list (concat (map (snd \<circ> bind_one) bs)) (CloseFd fd) + sum_list (map (\<lambda>s. held s fd) (bound_socks bs))"
proof (induction bs)
  case (Cons b bs)
  obtain r acts where b: "bind_one b = (r, acts)" by fastforce
  show ?case
    using b Cons bind_one_None [of b acts] bind_one_Some(2) [of b _ acts fd]
    by (cases r) (auto simp: balanced_acts_def)
qed simp

lemma accept_ledger:
  assumes "sock_accept sys ctx l = (r, acts)" and "accept_registered sys ctx" and "fd \<noteq> - 1"
  shows "count_list acts (OpenFd fd) = count_list acts (CloseFd fd) + (case r of Some s \<Rightarrow> held s fd | None \<Rightarrow> 0)"
proof (cases r)
  case None
  then show ?thesis
    using assms by (auto simp: sock_accept_def init_Socket_def accept_registered_def Let_def split: if_splits option.splits prod.splits)
next
  case (Some s)
  then show ?thesis using run_ok_init [of sys ctx l s acts] assms by (simp add: run_ok_def)
qed

lemma tcp_bind_inv:
  assumes inv: "tcp_inv srv w" and b: "tcp_bind bs fails srv w = (ok, fails2, srv2, w2)"
  shows "tcp_inv srv2 w2"
proof -
  let ?n = "length (w_heap w)"
  let ?socks = "ts_socks srv @ [?n..<?n + length (bound_socks bs)]"
  let ?w = "w\<lparr>w_heap := w_heap w @ bound_socks bs, w_acts := w_acts w @ concat (map (snd \<circ> bind_one) bs)\<rparr>"
  have l: "ledger ?w" using inv bound_socks_ledger [of _ bs] by (simp add: ledger_def tcp_inv_def)
  have mid: "tcp_inv (srv\<lparr>ts_socks := ?socks\<rparr>) ?w"
    using inv l bound_socks_valid [of _ bs] by (fastforce simp: tcp_inv_def nth_append)
  show ?thesis
  proof (cases "fails @ failed_addrs bs = []")
    case True
    then show ?thesis using b mid by (auto simp: tcp_bind_def bind_loop_result)
  next
    case False
    then have e: "srv2 = srv\<lparr>ts_socks := []\<rparr>" "w2 = fold release ?socks ?w"
      using b by (auto simp: tcp_bind_def bind_loop_result)
    have "list_all (\<lambda>i. i < length (w_heap ?w)) (filter (\<lambda>i. StartAccept i \<notin> set (w_accept ?w)) ?socks)"
      using mid by (auto simp: tcp_inv_def list_all_iff)
    from fold_close_ledger [OF l this] have "ledger w2" using e(2) by (simp add: fold_release)
    then show ?thesis using mid e by (simp add: tcp_inv_def fold_release)
  qed
qed

lemma startAccept_inv:
  assumes inv: "tcp_inv srv w" and i: "StartAccept i \<in> set (w_accept w)" and reg: "accept_registered sys ctx"
    and a: "startAccept i sys ctx srv w = Inr (goes_on, w2)"
  shows "tcp_inv srv w2"
proof (cases "ts_isStop srv")
  case True
  let ?w = "w\<lparr>w_accept := remove1 (StartAccept i) (w_accept w)\<rparr>"
  have sub: "StartAccept j \<in> set (w_accept ?w) \<Longrightarrow> StartAccept j \<in> set (w_accept w)" for j
    using notin_set_remove1 by fastforce
  then have mid: "tcp_inv srv ?w" using inv by (auto simp: tcp_inv_def ledger_def)
  have "w2 = ?w \<or> (i \<notin> set (ts_socks srv) \<and> w2 = close_at i ?w)"
    using a True by (auto simp: startAccept_def release_def Let_def split: if_splits)
  moreover have "tcp_inv srv (close_at i ?w)" if "i \<notin> set (ts_socks srv)"
  proof -
    have "ledger (close_at i ?w)" using mid inv i by (intro close_at_ledger) (auto simp: tcp_inv_def)
    moreover have "j \<in> set (ts_socks srv) \<Longrightarrow> w_heap (close_at i ?w) ! j = w_heap w ! j" for j
      using that by (cases "j = i") simp_all
    ultimately show ?thesis using mid by (simp add: tcp_inv_def)
  qed
  ultimately show ?thesis using mid by blast
next
  case False
  obtain r acts where r: "sock_accept sys ctx (w_heap w ! i) = (r, acts)" by fastforce
  note led = accept_ledger [OF r reg]
  show ?thesis
  proof (cases r)
    case None
    then have "w2 = w\<lparr>w_acts := w_acts w @ acts\<rparr>" using a False r by (auto simp: startAccept_def)
    then show ?thesis using inv led None by (auto simp: tcp_inv_def ledger_def)
  next
    case (Some c)
    let ?w = "w\<lparr>w_heap := w_heap w @ [c], w_acts := w_acts w @ acts,
      w_io := w_io w @ [(length (w_heap w), setRecvTimeout True (sint (ts_recvTimeout srv)) ctx)]\<rparr>"
    have w2: "w2 = ?w" using a False r Some by (auto simp: startAccept_def split: if_splits)
    have "ledger ?w" using inv led Some by (auto simp: tcp_inv_def ledger_def)
    then show ?thesis using inv w2 by (fastforce simp: tcp_inv_def nth_append)
  qed
qed

lemma close_all_inv:
  assumes inv: "tcp_inv srv w" and c: "close_all srv w = (srv2, w2)"
  shows "tcp_inv srv2 w2"
proof -
  let ?w = "w\<lparr>w_accept := remove1 CloseAll (w_accept w)\<rparr>"
  have sub: "StartAccept j \<in> set (w_accept ?w) \<Longrightarrow> StartAccept j \<in> set (w_accept w)" for j
    using notin_set_remove1 by fastforce
  have "ledger (fold close_at (ts_socks srv) ?w)"
    using inv by (intro fold_close_ledger) (auto simp: tcp_inv_def ledger_def list_all_iff)
  moreover have "tcp_inv srv ?w" using inv sub by (auto simp: tcp_inv_def ledger_def)
  moreover have "srv2 = srv\<lparr>ts_socks := []\<rparr>" "w2 = fold close_at (ts_socks srv) ?w" using c by (simp_all add: close_all_def)
  ultimately show ?thesis by (simp add: tcp_inv_def)
qed

lemma tcp_client_inv:
  assumes inv: "tcp_inv srv w" and i: "(i, ctx) \<in> set (w_io w)"
  shows "tcp_inv srv (close_at i (w\<lparr>w_io := remove1 (i, ctx) (w_io w)\<rparr>))"
proof -
  let ?w = "w\<lparr>w_io := remove1 (i, ctx) (w_io w)\<rparr>"
  have sub: "fst ` set (remove1 (i, ctx) (w_io w)) \<subseteq> fst ` set (w_io w)"
    using set_remove1_subset by (rule image_mono)
  have "i \<in> fst ` set (w_io w)" using i by force
  then have il: "i < length (w_heap w)" and ni: "i \<notin> set (ts_socks srv)" using inv by (auto simp: tcp_inv_def)
  have "ledger ?w" using inv by (simp add: tcp_inv_def ledger_def)
  then have "ledger (close_at i ?w)" using il by (intro close_at_ledger) simp_all
  moreover have "j \<in> set (ts_socks srv) \<Longrightarrow> w_heap (close_at i ?w) ! j = w_heap w ! j" for j
    using ni by (cases "j = i") simp_all
  moreover define A B where "A = fst ` set (w_io w)" and "B = fst ` set (remove1 (i, ctx) (w_io w))"
  ultimately show ?thesis
    using inv sub unfolding tcp_inv_def A_def [symmetric] by (auto simp: B_def [symmetric])
qed

lemma tcp_reach_inv: "tcp_reach srv w \<Longrightarrow> tcp_inv srv w"
proof (induction rule: tcp_reach.induct)
  case (tcp_bound srv w bs fails ok fails2 srv2 w2)
  then show ?case using tcp_bind_inv by blast
next
  case (tcp_accept srv w i sys ctx goes_on w2)
  then show ?case using startAccept_inv by blast
next
  case (tcp_closed srv w srv2 w2)
  then show ?case using close_all_inv by blast
next
  case (tcp_client srv w i ctx)
  then show ?case using tcp_client_inv by blast
qed (auto simp: tcp_inv_def ledger_def new_TcpServer_def start_server_def stop_server_def ts_setName_def ts_setRecvTimeout_def
      split: if_splits)


definition empty_world :: tcp_world where
  "empty_world = \<lparr>w_heap = [], w_accept = [], w_io = [], w_acts = []\<rparr>"

definition sample_server :: tcp_server where
  "sample_server = new_TcpServer 120000 (Some []) (Some [])"

lemma sample_reach: "tcp_reach sample_server empty_world"
  unfolding sample_server_def empty_world_def by (rule tcp_new)

lemma no_failed_addrs: "failed_addrs bs = [] \<Longrightarrow> length (bound_socks bs) = length bs"
  by (induction bs) (auto simp: failed_addrs_def split: option.splits if_splits)

text \<open>C38: Binding several addresses. The addresses that failed are appended to \<open>fails\<close>, in order, and the result is
  success exactly when that list is empty. On success the server has gained one listening socket per
  address, in order. On failure it has none at all: all sockets of this call and of earlier successful
  calls are dropped, and closed unless an accept loop holds them; one that an accept loop holds stays
  open, and is no longer known to the server.\<close>

theorem bind_all_or_nothing:
  assumes r: "tcp_reach srv w" and b: "tcp_bind bs fails srv w = (ok, fails2, srv2, w2)"
  shows "fails2 = fails @ failed_addrs bs \<and> (ok \<longleftrightarrow> fails2 = [])
    \<and> (ok \<longrightarrow> w_heap w2 = w_heap w @ bound_socks bs \<and> length (bound_socks bs) = length bs
         \<and> ts_socks srv2 = ts_socks srv @ [length (w_heap w)..<length (w_heap w) + length bs])
    \<and> (\<not> ok \<longrightarrow> ts_socks srv2 = [] \<and> length (w_heap w2) = length (w_heap w) + length (bound_socks bs)
         \<and> (\<forall>i \<in> set (ts_socks srv) \<union> {length (w_heap w)..<length (w_heap w2)}.
              if StartAccept i \<in> set (w_accept w) then w_heap w2 ! i = w_heap w ! i else \<not> isValid (w_heap w2 ! i)))"
proof (cases "fails @ failed_addrs bs = []")
  case True
  then show ?thesis
    using b no_failed_addrs [of bs] by (auto simp: tcp_bind_def bind_loop_result)
next
  case False
  let ?n = "length (w_heap w)"
  let ?socks = "ts_socks srv @ [?n..<?n + length (bound_socks bs)]"
  let ?w = "w\<lparr>w_heap := w_heap w @ bound_socks bs, w_acts := w_acts w @ concat (map (snd \<circ> bind_one) bs)\<rparr>"
  let ?drop = "filter (\<lambda>i. StartAccept i \<notin> set (w_accept w)) ?socks"
  have e: "\<not> ok" "fails2 = fails @ failed_addrs bs" "srv2 = srv\<lparr>ts_socks := []\<rparr>" "w2 = fold close_at ?drop ?w"
    using b False by (auto simp: tcp_bind_def bind_loop_result fold_release)
  have inv: "tcp_inv srv w" using r by (rule tcp_reach_inv)
  have "if StartAccept i \<in> set (w_accept w) then w_heap w2 ! i = w_heap w ! i else \<not> isValid (w_heap w2 ! i)"
    if i: "i \<in> set ?socks" for i
  proof (cases "StartAccept i \<in> set (w_accept w)")
    case True
    then have "i < ?n" using inv by (simp add: tcp_inv_def)
    moreover have "w_heap w2 ! i = w_heap ?w ! i" unfolding e(4) using True by (intro fold_close_other) simp
    ultimately show ?thesis using True by (simp add: nth_append)
  next
    case n: False
    have "i < length (w_heap ?w)" using i inv by (auto simp: tcp_inv_def)
    then have "\<not> isValid (w_heap w2 ! i)" unfolding e(4) using n i by (intro fold_close_invalid) simp_all
    then show ?thesis using n by simp
  qed
  moreover have "length (w_heap w2) = ?n + length (bound_socks bs)" using e(4) by simp
  ultimately show ?thesis using e(1-3) False by simp
qed

definition busy_sys :: sock_sys where
  "busy_sys = sample_sys\<lparr>sys_bind := - 1, sys_socket := 9\<rparr>"

text \<open>Of two addresses the second is in use: the server ends up with no socket.\<close>

theorem bind_all_or_nothing_witness:
  "\<exists>srv2 w2. tcp_bind [(sample_addr, sample_sys, sample_sys), (sample_addr, busy_sys, busy_sys)] [] sample_server empty_world
      = (False, [sample_addr], srv2, w2) \<and> ts_socks srv2 = []"
proof -
  let ?bs = "[(sample_addr, sample_sys, sample_sys), (sample_addr, busy_sys, busy_sys)]"
  obtain ok fails2 srv2 w2 where b: "tcp_bind ?bs [] sample_server empty_world = (ok, fails2, srv2, w2)"
    by (cases "tcp_bind ?bs [] sample_server empty_world")
  have "failed_addrs ?bs = [sample_addr]"
    by (simp add: failed_addrs_def bind_one_def sock_bind_def CreateTCP_def new_Socket_def open_if_needed_def newSock_def
        isValid_def sample_sys_def busy_sys_def sample_addr_def sock_listen_def Let_def getLocalAddress_def)
  then show ?thesis using bind_all_or_nothing [OF sample_reach b] b by auto
qed


lemma sample_bound:
  "\<exists>srv w. tcp_reach srv w \<and> ts_socks srv = [0] \<and> ts_acceptWorker srv = Some []"
proof -
  obtain srv w where b: "tcp_bind [(sample_addr, sample_sys, sample_sys)] [] sample_server empty_world = (True, [], srv, w)"
    "ts_socks srv = [0]" "ts_acceptWorker srv = Some []"
    by (simp add: tcp_bind_def bind_one_def sock_bind_def CreateTCP_def new_Socket_def open_if_needed_def newSock_def
        isValid_def sample_sys_def sample_addr_def sock_listen_def Let_def getLocalAddress_def sample_server_def
        new_TcpServer_def empty_world_def)
  then show ?thesis using tcp_bound [OF sample_reach b(1)] by blast
qed



text \<open>A descriptor that \<open>accept\<close> returns but that has no context in the table is dropped without being closed.\<close>

lemma accept_leaks:
  "sys_accept sys \<noteq> - 1 \<Longrightarrow> sock_accept sys None s = (None, [OpenFd (sys_accept sys)])"
  by (simp add: sock_accept_def init_Socket_def Let_def)

text \<open>The destructor closes every listening socket.\<close>

lemma delete_closes:
  "tcp_reach srv w \<Longrightarrow> i \<in> set (ts_socks srv) \<Longrightarrow> \<not> isValid (w_heap (delete_TcpServer srv w) ! i)"
  using tcp_reach_inv [of srv w] by (simp add: delete_TcpServer_def tcp_inv_def fold_close_invalid)

end
