(* ===== verification/HttpServe.thy ===== *)
theory HttpServe
  imports Streams Servlet HttpParser TcpServer
begin

text \<open>
  \<open>src/http/HttpSession.cc\<close> and \<open>src/http/HttpServer.cc\<close>: receiving requests from a connection, sending
  responses, and the loop that serves one client. \<open>fnmatch\<close> and the user's servlets
  are arguments, as in the theory of the dispatcher.
\<close>

subsection \<open>\<open>HttpSession\<close>\<close>

definition new_HttpSession :: "socket option \<Rightarrow> bool \<Rightarrow> socket_stream" where
  "new_HttpSession sock owner = new_SocketStream sock owner"

definition session_close :: "stream_state \<Rightarrow> stream_state \<times> sock_action list" where
  "session_close st = (let (s, acts) = ss_close (fst st) in ((s, snd st), acts))"

text \<open>One round of the loop of \<open>recvRequest\<close>. \<open>buf\<close> are the \<open>offset\<close> bytes at the front of the buffer.\<close>

datatype recv_next =
    Returned "http_request option" stream_state "sock_action list"
  | Again "u8 list" request_parser stream_state
  | Crashed cpp_error

definition recv_round :: "nat \<Rightarrow> u8 list \<Rightarrow> request_parser \<Rightarrow> stream_state \<Rightarrow> recv_next" where
  "recv_round buff_size buf parser st =
     (let fail = (\<lambda>st. let (st, acts) = session_close st in Returned None st acts);
          (len, d, st) = ss_read (buff_size - length buf) st in
      if len \<le> 0 then fail st
      else let data = buf @ d in case request_execute data parser of
        Inl e \<Rightarrow> Crashed e
      | Inr (nparse, data2, parser) \<Rightarrow>
        if rp_error parser \<noteq> 0 then fail st
        else let offset = to_int32 (int (length data) - int nparse) in
          if offset = to_int32 (int buff_size) then fail st
          else if rp_finished parser then Returned (Some (rq_init (rp_data parser))) st []
          else Again (take (nat offset) data2) parser st)"

lemma ss_read_shorter:
  assumes "ss_read n st = (r, d, st1)" and "0 < r"
  shows "length (ss_pending st1) < length (ss_pending st)"
proof -
  have "0 < n" using assms by (cases n) (auto simp: ss_read_def recv_buf_def k_recv_def Let_def split: prod.splits list.splits if_splits)
  then have "int (length d) = r" "ss_pending st = d @ ss_pending st1" using sock_src.rd_some [OF _ assms] by auto
  then show ?thesis using assms(2) by auto
qed

lemma recv_round_Again:
  assumes "recv_round n buf parser st = Again buf2 parser2 st2"
  obtains r d where "ss_read (n - length buf) st = (r, d, st2)" and "0 < r"
  using assms by (auto simp: recv_round_def Let_def split: prod.splits if_splits sum.splits)

text \<open>The loop ends because every round that continues has taken bytes from those the connection will deliver.\<close>

function recv_loop ::
  "nat \<Rightarrow> u8 list \<Rightarrow> request_parser \<Rightarrow> stream_state \<Rightarrow> (http_request option \<times> stream_state \<times> sock_action list) result" where
  "recv_loop buff_size buf parser st =
     (case recv_round buff_size buf parser st of
        Returned req st acts \<Rightarrow> Inr (req, st, acts)
      | Again buf parser st \<Rightarrow> recv_loop buff_size buf parser st
      | Crashed e \<Rightarrow> Inl e)"
  by pat_completeness auto
termination
  by (relation "measure (\<lambda>(buff_size, buf, parser, st). length (ss_pending st))")
    (auto elim: recv_round_Again dest: ss_read_shorter)

declare recv_loop.simps [simp del]

text \<open>\<open>buff_size\<close> is the value of \<open>http.request.buffer_size\<close>.\<close>

definition recvRequest :: "nat \<Rightarrow> stream_state \<Rightarrow> (http_request option \<times> stream_state \<times> sock_action list) result" where
  "recvRequest buff_size st = recv_loop buff_size [] new_HttpRequestParser st"

definition sendResponse :: "http_response \<Rightarrow> stream_state \<Rightarrow> int \<times> stream_state" where
  "sendResponse rsp st = (let data = rs_dump rsp in writeFixSize ss_write data (length data) st)"

subsection \<open>\<open>HttpServer\<close>\<close>

text \<open>The world of a servlet is the session's stream and anything else (\<open>'x\<close>).\<close>

record 'x http_server = tcp_server +
  hs_isKeepalive :: bool
  hs_dispatch :: "(stream_state \<times> 'x) servlet_dispatch"

definition new_HttpServer :: "bool \<Rightarrow> u64 \<Rightarrow> u8 list option \<Rightarrow> u8 list option \<Rightarrow> 'x http_server" where
  "new_HttpServer keepalive timeout ioWorker acceptWorker =
     tcp_server.extend ((new_TcpServer timeout ioWorker acceptWorker)\<lparr>ts_type := bytes ''http''\<rparr>)
       \<lparr>hs_isKeepalive = keepalive, hs_dispatch = new_ServletDispatch\<rparr>"

definition hs_setName :: "u8 list \<Rightarrow> 'x http_server \<Rightarrow> 'x http_server" where
  "hs_setName v srv = (ts_setName v srv)\<lparr>hs_dispatch := (hs_dispatch srv)\<lparr>sd_default := Some (new_NotFoundServlet v)\<rparr>\<rparr>"

text \<open>What a server is composed with: the size of the request buffer and \<open>fnmatch\<close>.\<close>

record http_env =
  he_buff_size :: nat
  he_fnmatch :: "u8 list \<Rightarrow> u8 list \<Rightarrow> bool"

text \<open>The exchanges of a client: request and response as the servlet left them, and the result of sending.\<close>

type_synonym exchange = "http_request \<times> http_response \<times> int"

definition serve_request ::
  "http_env \<Rightarrow> 'x http_server \<Rightarrow> http_request \<Rightarrow> stream_state \<Rightarrow> 'x \<Rightarrow> exchange \<times> stream_state \<times> 'x" where
  "serve_request env srv req st w =
     (let rsp = new_HttpResponse (rq_version req) (rq_close req \<or> \<not> hs_isKeepalive srv);
          rsp = rs_setHeader (bytes ''Server'') (ts_name srv) rsp;
          (_, req, rsp, st, w) = dispatch_handle (he_fnmatch env) (hs_dispatch srv) (req, rsp, st, w);
          (rt, st) = sendResponse rsp st
      in ((req, rsp, rt), st, w))"

text \<open>The loop of \<open>handleClient\<close>; \<open>None\<close> when the fuel does not suffice.\<close>

fun client_loop ::
  "http_env \<Rightarrow> 'x http_server \<Rightarrow> nat \<Rightarrow> stream_state \<Rightarrow> 'x \<Rightarrow> (exchange list \<times> stream_state \<times> 'x \<times> sock_action list) result option" where
  "client_loop env srv 0 st w = None"
| "client_loop env srv (Suc n) st w =
     (case recvRequest (he_buff_size env) st of
        Inl e \<Rightarrow> Some (Inl e)
      | Inr (None, st, acts) \<Rightarrow> Some (Inr ([], st, w, acts))
      | Inr (Some req, st, acts) \<Rightarrow>
          let (x, st, w) = serve_request env srv req st w in
          if \<not> hs_isKeepalive srv \<or> rq_close (fst x) then Some (Inr ([x], st, w, acts))
          else case client_loop env srv n st w of
            Some (Inr (xs, st, w, acts2)) \<Rightarrow> Some (Inr (x # xs, st, w, acts @ acts2))
          | r \<Rightarrow> r)"

text \<open>After the loop the session is closed, and destroyed.\<close>

definition handleClient ::
  "http_env \<Rightarrow> 'x http_server \<Rightarrow> nat \<Rightarrow> socket \<Rightarrow> connection \<Rightarrow> 'x \<Rightarrow>
   (exchange list \<times> stream_state \<times> 'x \<times> sock_action list) result option" where
  "handleClient env srv fuel client conn w =
     (case client_loop env srv fuel (new_HttpSession (Some client) True, conn) w of
        Some (Inr (xs, st, w, acts)) \<Rightarrow> (let (st, acts2) = session_close st in
          Some (Inr (xs, st, w, acts @ acts2 @ delete_SocketStream (fst st))))
      | r \<Rightarrow> r)"

subsection \<open>Receiving\<close>

lemma session_close_disconnects:
  assumes "session_close st = (st2, acts)"
  shows "\<not> ss_isConnected (fst st2)" "snd st2 = snd st"
  using assms by (auto simp: session_close_def ss_close_def ss_isConnected_def close_socket_def Let_def
      split: prod.splits option.splits if_splits)

lemma k_recv_effect:
  assumes "k_recv c n = (r, d)"
  shows "cn_sent (after_recv c n) = cn_sent c"
    and "0 < r \<Longrightarrow> d \<noteq> [] \<and> length d \<le> n \<and> concat (cn_segs c) = d @ concat (cn_segs (after_recv c n))"
    and "r \<le> 0 \<Longrightarrow> concat (cn_segs (after_recv c n)) = concat (cn_segs c)"
proof -
  show "cn_sent (after_recv c n) = cn_sent c" by (simp add: after_recv_def split: list.split)
  have t: "concat (if drop n x = [] then xs else drop n x # xs) = drop n x @ concat xs" for x and xs :: "u8 list list"
    by simp
  show "d \<noteq> [] \<and> length d \<le> n \<and> concat (cn_segs c) = d @ concat (cn_segs (after_recv c n))" if "0 < r"
  proof (cases "cn_segs c")
    case (Cons x xs)
    have "d = take n x" "d \<noteq> []" using assms that Cons by (auto simp: k_recv_def)
    then show ?thesis
      using Cons t [of x xs] by (simp add: after_recv_def del: drop_eq_Nil append_assoc add: append_assoc [symmetric])
  qed (use assms that in \<open>simp add: k_recv_def split: if_splits\<close>)
  show "concat (cn_segs (after_recv c n)) = concat (cn_segs c)" if "r \<le> 0"
  proof (cases "cn_segs c")
    case (Cons x xs)
    have dl: "d = take n x" "r = int (length d)" using assms Cons by (auto simp: k_recv_def)
    from dl(2) that have "d = []" by simp
    then have "take n x = []" by (simp only: dl(1))
    then have "drop n x = x" by auto
    then show ?thesis using Cons t [of x xs] by (simp add: after_recv_def)
  qed (simp add: after_recv_def)
qed

lemma ss_read_effect:
  assumes "ss_read n st = (r, d, st1)"
  shows "fst st1 = fst st" and "ss_sent st1 = ss_sent st"
    and "0 < r \<Longrightarrow> d \<noteq> [] \<and> length d \<le> n \<and> ss_pending st = d @ ss_pending st1"
    and "r \<le> 0 \<Longrightarrow> ss_pending st1 = ss_pending st"
proof -
  obtain s c where st: "st = (s, c)" by fastforce
  have "\<not> ss_isConnected s \<Longrightarrow> r = - 1 \<and> st1 = st" using assms st by (simp add: ss_read_def)
  moreover have "ss_isConnected s \<Longrightarrow> k_recv c n = (r, d) \<and> st1 = (s, after_recv c n)"
    using assms st by (simp add: ss_read_connected prod_eq_iff)
  ultimately consider "r = - 1" "st1 = st" | "k_recv c n = (r, d)" "st1 = (s, after_recv c n)" by blast
  note cs = this
  show "fst st1 = fst st" using cs st by cases auto
  show "ss_sent st1 = ss_sent st" using cs st k_recv_effect(1) [of c n] by cases (auto simp: ss_sent_def)
  show "d \<noteq> [] \<and> length d \<le> n \<and> ss_pending st = d @ ss_pending st1" if "0 < r"
    using cs st that k_recv_effect(2) [of c n r d] by cases (auto simp: ss_pending_def)
  show "ss_pending st1 = ss_pending st" if "r \<le> 0"
    using cs st that k_recv_effect(3) [of c n r d] by cases (auto simp: ss_pending_def)
qed
text \<open>A parser that was fed the bytes \<open>seen\<close> in pieces of at most \<open>n\<close> bytes, none of which made it fail.\<close>

inductive fed :: "nat \<Rightarrow> u8 list \<Rightarrow> request_parser \<Rightarrow> bool" for n where
  fed_new: "fed n [] new_HttpRequestParser"
| fed_more: "fed n seen p \<Longrightarrow> d \<noteq> [] \<Longrightarrow> length d \<le> n \<Longrightarrow> request_execute d p = Inr (length d, data, p2) \<Longrightarrow>
    rp_error p2 = 0 \<Longrightarrow> fed n (seen @ d) p2"

lemma fed_ok: "fed n seen p \<Longrightarrow> rp_ok p"
proof (induction rule: fed.induct)
  case (fed_more seen p d data p2)
  obtain k data2 p3 where e: "request_execute d p = Inr (k, data2, p3)" "rp_error p3 = 0 \<Longrightarrow> rp_ok p3"
    using request_execute_ok [OF fed_more.IH fed_more.hyps(2)] by metis
  then show ?case using fed_more.hyps(4,5) by simp
qed (rule new_request_parser_ok)

lemma to_int32_nat: "m < 2 ^ 31 \<Longrightarrow> to_int32 (int m) = int m"
  by (auto simp: to_int32_id)

text \<open>In every round of the loop the buffer is empty: the library parses all bytes or fails.\<close>

lemma recv_round_cases [consumes 2, case_names failed complete again]:
  assumes "n < 2 ^ 31" and f: "fed n seen p"
  obtains (failed) st1 acts where "recv_round n [] p st = Returned None st1 acts" "\<not> ss_isConnected (fst st1)"
      "\<exists>used. ss_pending st = used @ ss_pending st1" "ss_sent st1 = ss_sent st"
  | (complete) d st1 p2 where "recv_round n [] p st = Returned (Some (rq_init (rp_data p2))) st1 []"
      "fed n (seen @ d) p2" "rp_finished p2" "d \<noteq> []" "ss_pending st = d @ ss_pending st1" "fst st1 = fst st" "ss_sent st1 = ss_sent st"
  | (again) d st1 p2 where "recv_round n [] p st = Again [] p2 st1" "fed n (seen @ d) p2"
      "d \<noteq> []" "ss_pending st = d @ ss_pending st1" "fst st1 = fst st" "ss_sent st1 = ss_sent st"
proof -
  obtain r d st1 where rd: "ss_read n st = (r, d, st1)" by (metis prod_cases3)
  obtain st2 acts where sc: "session_close st1 = (st2, acts)" by fastforce
  note eff = ss_read_effect [OF rd] and dis = session_close_disconnects [OF sc]
  have pend: "ss_pending st2 = ss_pending st1" "ss_sent st2 = ss_sent st1" using dis(2) by (simp_all add: ss_pending_def ss_sent_def)
  show thesis
  proof (cases "r \<le> 0")
    case True
    then have "recv_round n [] p st = Returned None st2 acts" using rd sc by (simp add: recv_round_def)
    then show thesis using failed [of st2 acts] dis(1) pend eff(2,4) True by simp
  next
    case False
    then have d: "d \<noteq> []" "length d \<le> n" "ss_pending st = d @ ss_pending st1" using eff(3) by auto
    obtain k data p2 where x: "request_execute d p = Inr (k, data, p2)" "rp_error p2 = 0 \<Longrightarrow> k = length d"
      using request_execute_ok [OF fed_ok [OF f] d(1)] by metis
    show thesis
    proof (cases "rp_error p2 = 0")
      case True
      then have k: "k = length d" using x(2) by simp
      have f2: "fed n (seen @ d) p2" using fed_more [OF f d(1,2)] x(1) k True by simp
      have "0 < n" using d by (cases n) auto
      then have "to_int32 0 \<noteq> to_int32 (int n)" using to_int32_nat [OF assms(1)] to_int32_nat [of 0] by simp
      then have "recv_round n [] p st = (if rp_finished p2 then Returned (Some (rq_init (rp_data p2))) st1 [] else Again [] p2 st1)"
        using rd False x(1) k True to_int32_nat [of 0] by (simp add: recv_round_def)
      then show thesis using complete [of p2 st1 d] again [of p2 st1 d] f2 d eff(1,2) by (cases "rp_finished p2") auto
    next
      case err: False
      then have "recv_round n [] p st = Returned None st2 acts" using rd sc False x(1) by (simp add: recv_round_def)
      then show thesis using failed [of st2 acts] dis(1) pend eff(2) d(3) by simp
    qed
  qed
qed

lemma recv_loop_result:
  assumes "n < 2 ^ 31" "fed n seen p"
  shows "\<exists>req st2 acts used. recv_loop n [] p st = Inr (req, st2, acts) \<and> ss_pending st = used @ ss_pending st2 \<and> ss_sent st2 = ss_sent st
    \<and> (case req of None \<Rightarrow> \<not> ss_isConnected (fst st2)
       | Some r \<Rightarrow> used \<noteq> [] \<and> fst st2 = fst st \<and> acts = []
           \<and> (\<exists>q. fed n (seen @ used) q \<and> rp_finished q \<and> r = rq_init (rp_data q)))"
  using assms(2)
proof (induction "length (ss_pending st)" arbitrary: seen p st rule: less_induct)
  case less
  note eq = recv_loop.simps [of n "[]" p st]
  from assms(1) less.prems show ?case
  proof (cases rule: recv_round_cases [where st = st])
    case (failed st1 acts1)
    then show ?thesis using eq by auto
  next
    case (complete d st1 p2)
    then show ?thesis using eq by (simp, blast)
  next
    case (again d st1 p2)
    have "length (ss_pending st1) < length (ss_pending st)" using again(3,4) by simp
    from less.hyps [OF this again(2)] obtain req st2 acts used where
      u: "recv_loop n [] p2 st1 = Inr (req, st2, acts)" "ss_pending st1 = used @ ss_pending st2" "ss_sent st2 = ss_sent st1"
      "case req of None \<Rightarrow> \<not> ss_isConnected (fst st2)
       | Some r \<Rightarrow> used \<noteq> [] \<and> fst st2 = fst st1 \<and> acts = []
           \<and> (\<exists>q. fed n ((seen @ d) @ used) q \<and> rp_finished q \<and> r = rq_init (rp_data q))" by blast
    show ?thesis
    proof (intro exI [of _ req] exI [of _ st2] exI [of _ acts] exI [of _ "d @ used"] conjI)
      show "recv_loop n [] p st = Inr (req, st2, acts)" using u(1) again(1) eq by simp
      show "ss_pending st = (d @ used) @ ss_pending st2" using u(2) again(4) by simp
      show "ss_sent st2 = ss_sent st" using u(3) again(6) by simp
      show "case req of None \<Rightarrow> \<not> ss_isConnected (fst st2)
         | Some r \<Rightarrow> d @ used \<noteq> [] \<and> fst st2 = fst st \<and> acts = []
           \<and> (\<exists>q. fed n (seen @ d @ used) q \<and> rp_finished q \<and> r = rq_init (rp_data q))"
        using u(4) again(3,5) by (cases req) auto
    qed
  qed
qed

text \<open>C7: Receiving a request. For every stream of bytes the loop returns; no assertion of the parsing library fails. The
  bytes it took are a prefix of what the connection delivers, and nothing was sent. If it returns a
  request, the session is as before and the request is the one a parser holds that has finished without
  error after being fed exactly these bytes, in the pieces they arrived in; its content is what callbacks in
  the order of HTTP messages make of an empty request. If it returns null, the session is closed: no
  failure leaves a connection open.\<close>

theorem recvRequest_result:
  assumes "n < 2 ^ 31"
  shows "\<exists>req st2 acts used. recvRequest n st = Inr (req, st2, acts) \<and> ss_pending st = used @ ss_pending st2 \<and> ss_sent st2 = ss_sent st
    \<and> (case req of None \<Rightarrow> \<not> ss_isConnected (fst st2)
       | Some r \<Rightarrow> used \<noteq> [] \<and> fst st2 = fst st \<and> acts = []
           \<and> (\<exists>q evs ph. fed n used q \<and> rp_finished q \<and> r = rq_init (rp_data q)
               \<and> phase_run Idle (map fst evs) = Some ph \<and> rp_data q = rp_data (deliver request_callback evs new_HttpRequestParser)))"
proof -
  have a: "\<exists>evs ph. phase_run Idle (map fst evs) = Some ph \<and> rp_data q = rp_data (deliver request_callback evs new_HttpRequestParser)"
    if f: "fed n used q" for used q
  proof -
    obtain ph where "assembled ph q" using fed_ok [OF f] by (auto simp: rp_ok_def)
    then obtain evs where "q\<lparr>rp_parser := rp_parser new_HttpRequestParser\<rparr> = deliver request_callback evs new_HttpRequestParser"
      "phase_run Idle (map fst evs) = Some ph" by (auto simp: assembled_def told_def)
    then show ?thesis by (metis request_parser.select_convs(2) request_parser.surjective request_parser.update_convs(1))
  qed
  obtain req st2 acts used where r: "recvRequest n st = Inr (req, st2, acts)" "ss_pending st = used @ ss_pending st2" "ss_sent st2 = ss_sent st"
    "case req of None \<Rightarrow> \<not> ss_isConnected (fst st2) | Some r \<Rightarrow> used \<noteq> [] \<and> fst st2 = fst st \<and> acts = []
      \<and> (\<exists>q. fed n used q \<and> rp_finished q \<and> r = rq_init (rp_data q))"
    using recv_loop_result [OF assms fed_new, of st] unfolding recvRequest_def append_Nil by blast
  show ?thesis
  proof (cases req)
    case None
    then show ?thesis using r by auto
  next
    case (Some x)
    then obtain q where q: "fed n used q" "rp_finished q" "x = rq_init (rp_data q)" "used \<noteq> []" "fst st2 = fst st" "acts = []" using r(4) by auto
    then show ?thesis using r(1-3) Some a [OF q(1)] by (intro exI [of _ req] exI [of _ st2] exI [of _ acts] exI [of _ used]) auto
  qed
qed

text \<open>A request that arrives in two segments, cut inside the version, followed by the start of another.\<close>

definition get_conn :: connection where
  "get_conn = \<lparr>cn_segs = [bytes ''GET /a HT'', bytes ''TP/1.1'' @ [13, 10, 13, 10], bytes ''GET''], cn_closed = True, cn_sent = [], cn_quota = []\<rparr>"

theorem recvRequest_result_witness:
  "\<exists>req st2 acts used. recvRequest 16 (sample_stream, get_conn) = Inr (req, st2, acts)
     \<and> concat (cn_segs get_conn) = used @ ss_pending st2"
proof -
  have "(16 :: nat) < 2 ^ 31" by simp
  from recvRequest_result [OF this, of "(sample_stream, get_conn)"] show ?thesis
    by (auto simp: ss_pending_def)
qed

lemma get_request:
  "case recvRequest 16 (sample_stream, get_conn) of
     Inr (Some r, st2, acts) \<Rightarrow> ss_pending st2 = bytes ''GET'' \<and> rq_method r = GET \<and> rq_path r = bytes ''/a'' \<and> rq_version r = 0x11 | _ \<Rightarrow> False"
  by code_simp

subsection \<open>Serving a client\<close>

lemma ss_write_pending: "ss_write b st = (r, st2) \<Longrightarrow> ss_pending st2 = ss_pending st"
  by (auto simp: ss_write_def ss_pending_def after_send_def Let_def split: prod.splits if_splits list.splits)

lemma write_loop_keeps:
  assumes "write_fix_loop wr b off left st = (halt, st2)" and "\<And>b st r st2. wr b st = (r, st2) \<Longrightarrow> f st2 = f st"
  shows "f st2 = f st"
  using assms
proof (induction wr b off left st rule: write_fix_loop.induct)
  case (1 wr buffer off left st)
  obtain len st1 where w: "wr (take (nat left) (drop off buffer)) st = (len, st1)" by fastforce
  then have k: "f st1 = f st" by (rule "1.prems"(2))
  have eq: "write_fix_loop wr buffer off left st =
      (if left > 0 then if len \<le> 0 then (Some len, st1) else write_fix_loop wr buffer (off + nat len) (left - len) st1 else (None, st))"
    using w by (subst write_fix_loop.simps) simp
  show ?case
    using "1.prems" eq k "1.IH" [OF _ w [symmetric]] by (auto split: if_splits)
qed

lemma sendResponse_pending: "sendResponse rsp st = (r, st2) \<Longrightarrow> ss_pending st2 = ss_pending st"
  using write_loop_keeps [of ss_write _ _ _ st _ st2 ss_pending] ss_write_pending
  by (auto simp: sendResponse_def writeFixSize_def Let_def split: prod.splits)

text \<open>A servlet may read from the session but does not put bytes into the incoming stream.\<close>

definition servlets_consume :: "(u8 list \<Rightarrow> u8 list \<Rightarrow> bool) \<Rightarrow> (stream_state \<times> 'x) servlet_dispatch \<Rightarrow> bool" where
  "servlets_consume fnmatch d \<longleftrightarrow> (\<forall>uri slt req rsp st w rt req2 rsp2 st2 w2. getMatchedServlet fnmatch uri d = Some slt \<longrightarrow>
     servlet_handle slt (req, rsp, st, w) = (rt, req2, rsp2, st2, w2) \<longrightarrow> length (ss_pending st2) \<le> length (ss_pending st))"

lemma dispatch_consumes:
  assumes "servlets_consume fnmatch d" and "dispatch_handle fnmatch d (req, rsp, st, w) = (rt, req2, rsp2, st2, w2)"
  shows "length (ss_pending st2) \<le> length (ss_pending st)"
proof (cases "getMatchedServlet fnmatch (rq_path req) d")
  case None
  then show ?thesis using assms(2) by (simp add: dispatch_handle_def)
next
  case (Some slt)
  obtain rt3 req3 rsp3 st3 w3 where h: "servlet_handle slt (req, rsp, st, w) = (rt3, req3, rsp3, st3, w3)"
    by (cases "servlet_handle slt (req, rsp, st, w)")
  then have "st2 = st3" using assms(2) Some by (simp add: dispatch_handle_def)
  then show ?thesis using assms(1) Some h unfolding servlets_consume_def by blast
qed

lemma serve_request_consumes:
  assumes "servlets_consume (he_fnmatch env) (hs_dispatch srv)" and "serve_request env srv req st w = (x, st2, w2)"
  shows "length (ss_pending st2) \<le> length (ss_pending st)"
proof -
  let ?rsp = "rs_setHeader (bytes ''Server'') (ts_name srv) (new_HttpResponse (rq_version req) (rq_close req \<or> \<not> hs_isKeepalive srv))"
  obtain rt req2 rsp2 st3 w3 where
    d: "dispatch_handle (he_fnmatch env) (hs_dispatch srv) (req, ?rsp, st, w) = (rt, req2, rsp2, st3, w3)"
    by (cases "dispatch_handle (he_fnmatch env) (hs_dispatch srv) (req, ?rsp, st, w)")
  obtain r st4 where r: "sendResponse rsp2 st3 = (r, st4)" by (cases "sendResponse rsp2 st3")
  have "st2 = st4" using assms(2) d r by (simp add: serve_request_def Let_def)
  then show ?thesis using dispatch_consumes [OF assms(1) d] sendResponse_pending [OF r] by simp
qed

lemma recvRequest_shorter:
  assumes "n < 2 ^ 31"
  obtains st1 acts where "recvRequest n st = Inr (None, st1, acts)"
  | req st1 acts where "recvRequest n st = Inr (Some req, st1, acts)" "length (ss_pending st1) < length (ss_pending st)"
proof -
  obtain req st1 acts used where r: "recvRequest n st = Inr (req, st1, acts)" "ss_pending st = used @ ss_pending st1"
    "case req of None \<Rightarrow> True | Some r \<Rightarrow> used \<noteq> []"
    using recv_loop_result [OF assms fed_new, of st] unfolding recvRequest_def append_Nil by (auto split: option.splits)
  then show thesis using that by (cases req) auto
qed

lemma client_loop_returns:
  assumes "he_buff_size env < 2 ^ 31" "servlets_consume (he_fnmatch env) (hs_dispatch srv)" and "length (ss_pending st) < fuel"
  shows "\<exists>xs st2 w2 acts. client_loop env srv fuel st w = Some (Inr (xs, st2, w2, acts))
    \<and> length xs \<le> length (ss_pending st) \<and> (\<not> hs_isKeepalive srv \<longrightarrow> length xs \<le> 1)
    \<and> list_all (\<lambda>x. hs_isKeepalive srv \<and> \<not> rq_close (fst x)) (butlast xs)"
  using assms(3)
proof (induction fuel arbitrary: st w)
  case (Suc n)
  show ?case
  proof (cases rule: recvRequest_shorter [OF assms(1), of st])
    case (1 st1 acts)
    then show ?thesis by simp
  next
    case (2 q st1 acts)
    obtain x st2 w2 where s: "serve_request env srv q st1 w = (x, st2, w2)" by (cases "serve_request env srv q st1 w")
    have le: "length (ss_pending st2) \<le> length (ss_pending st1)" using serve_request_consumes [OF assms(2) s] .
    show ?thesis
    proof (cases "\<not> hs_isKeepalive srv \<or> rq_close (fst x)")
      case True
      then show ?thesis using s 2 by auto
    next
      case False
      obtain xs st3 w3 acts2 where "client_loop env srv n st2 w2 = Some (Inr (xs, st3, w3, acts2))"
        "length xs \<le> length (ss_pending st2)" "list_all (\<lambda>x. hs_isKeepalive srv \<and> \<not> rq_close (fst x)) (butlast xs)"
        using Suc.IH [of st2 w2] Suc.prems 2(2) le by auto
      then show ?thesis using s 2 le False by auto
    qed
  qed
qed simp

text \<open>C8: Serving a client comes to an end. When the client sends finitely many bytes and no servlet invents incoming
  bytes, the loop ends after at most as many requests as bytes, without a failed assertion; without
  keep-alive after at most one. A further request is read only after one that asked to keep the
  connection, on a server that allows it. At the end the connection is closed.\<close>

theorem handleClient_returns:
  assumes "he_buff_size env < 2 ^ 31" and "servlets_consume (he_fnmatch env) (hs_dispatch srv)" and "length (concat (cn_segs conn)) < fuel"
  shows "\<exists>xs st2 w2 acts. handleClient env srv fuel client conn w = Some (Inr (xs, st2, w2, acts))
    \<and> length xs \<le> length (concat (cn_segs conn)) \<and> (\<not> hs_isKeepalive srv \<longrightarrow> length xs \<le> 1)
    \<and> list_all (\<lambda>x. hs_isKeepalive srv \<and> \<not> rq_close (fst x)) (butlast xs)
    \<and> \<not> ss_isConnected (fst st2)"
proof -
  let ?st = "(new_HttpSession (Some client) True, conn)"
  have p: "ss_pending ?st = concat (cn_segs conn)" by (simp add: ss_pending_def)
  obtain xs st2 w2 acts where l: "client_loop env srv fuel ?st w = Some (Inr (xs, st2, w2, acts))"
    "length xs \<le> length (concat (cn_segs conn))" "\<not> hs_isKeepalive srv \<longrightarrow> length xs \<le> 1"
    "list_all (\<lambda>x. hs_isKeepalive srv \<and> \<not> rq_close (fst x)) (butlast xs)"
    using client_loop_returns [OF assms(1,2), of ?st fuel w] assms(3) unfolding p by blast
  obtain st3 acts2 where c: "session_close st2 = (st3, acts2)" by fastforce
  have "handleClient env srv fuel client conn w = Some (Inr (xs, st3, w2, acts @ acts2 @ delete_SocketStream (fst st3)))"
    using l(1) c by (simp add: handleClient_def)
  then show ?thesis using l(2-4) session_close_disconnects(1) [OF c] by blast
qed

definition plain_env :: http_env where
  "plain_env = \<lparr>he_buff_size = 16, he_fnmatch = (\<lambda>_ _. False)\<rparr>"

lemma default_consumes: "servlets_consume fnmatch (new_ServletDispatch :: (stream_state \<times> 'x) servlet_dispatch)"
  by (auto simp: servlets_consume_def new_ServletDispatch_def getMatchedServlet_def servlet_handle_def new_NotFoundServlet_def)

theorem handleClient_returns_witness:
  "\<exists>xs st2 w2 acts. handleClient plain_env (new_HttpServer True 1000 None None :: unit http_server) 30 (the (ss_socket sample_stream)) get_conn ()
      = Some (Inr (xs, st2, w2, acts)) \<and> \<not> ss_isConnected (fst st2)"
proof -
  have c: "servlets_consume (he_fnmatch plain_env) (hs_dispatch (new_HttpServer True 1000 None None :: unit http_server))"
    by (simp add: new_HttpServer_def tcp_server.defs new_TcpServer_def default_consumes)
  have n: "length (concat (cn_segs get_conn)) < 30" "he_buff_size plain_env < 2 ^ 31" by (simp_all add: get_conn_def plain_env_def bytes_def)
  show ?thesis using handleClient_returns [OF n(2) c n(1), of "the (ss_socket sample_stream)" "()"] by blast
qed
end
