(* ===== verification/Spec2Isabelle.thy ===== *)
theory Spec2Isabelle
  imports ByteArraySpec EventLoop HookWait Http Address Config LogStore Streams Servlet HttpParser HttpRoundTrip TcpServer HttpServe
begin

text \<open>
  Phase0, a C++ framework for network servers built on fibers: a verification of its sources under
  \<open>src/src\<close>.

  \<^bold>\<open>The program.\<close> User code runs in fibers (\<open>fiber/fiber.cc\<close>), which a pool of threads takes from a queue
  (\<open>fiber/scheduler.cc\<close>). The I/O manager (\<open>fiber/iomannager.cc\<close>) is a scheduler whose idle fiber waits in
  \<open>epoll\<close> for descriptors and for timers (\<open>timer/timer.cc\<close>), and puts what becomes ready on the queue.
  The hooks (\<open>hook/hook.cc\<close>) replace the blocking system calls by versions that yield the fiber and let
  the I/O manager wake it; they keep the state of descriptors in \<open>hook/FdManager.cc\<close>. On top of these are
  addresses and sockets (\<open>socket\<close>), streams (\<open>stream\<close>), a TCP server (\<open>tcpserver\<close>) and an HTTP server
  (\<open>http\<close>) that dispatches requests to servlets. \<open>utils/bytearray.cc\<close> is the serialisation buffer,
  \<open>utils/utils.cc\<close> holds string and file helpers, \<open>config\<close> the configuration variables, \<open>log\<close> logging.

  \<^bold>\<open>How the code is modelled.\<close> A class is a record of its members, a member function a function from
  the state to its result and the new state; objects that are shared through pointers live in a store and
  are named by index. Integers have the width of the source (\<open>u8\<close> to \<open>u64\<close> are machine words) where it
  matters, else they are natural numbers or integers with the conversion of the source written out.
  Exceptions, failed assertions and undefined behaviour (null pointers, accesses past an array, shifts by
  too much) are values of \<open>cpp_error\<close>. What is outside the sources is an argument: the outcome of each
  system call, the clock, \<open>getaddrinfo\<close>, \<open>fnmatch\<close>, the YAML library and user code.

  \<^bold>\<open>Theories.\<close>
  \<^item> \<open>Prelude\<close>: words, results with errors, list lemmas. \<open>CppSet\<close>, \<open>CppMap\<close>: \<open>std::set\<close> and \<open>std::map\<close> as
    sorted lists for a given comparison, with their laws in locales. \<open>CString\<close>: C string functions and
    decimal printing.
  \<^item> \<open>Endian\<close>, \<open>Varint\<close>, \<open>ByteArray\<close>, \<open>ByteArrayCodec\<close>, \<open>ByteArrayIO\<close>, \<open>ByteChannel\<close>, \<open>ByteArraySpec\<close>:
    \<open>socket/include/endians.h\<close> and \<open>utils/bytearray.cc\<close>. The node chain with its invariant \<open>ba_inv\<close>, every
    member, and the specification: the array implements one flat sequence with a position, typed values
    come back as written, the two byte orders and the variable-length format included. \<open>ByteChannel\<close> is the
    locale of what the typed members need of reading and writing, interpreted by the chain.
  \<^item> \<open>Timer\<close>: \<open>timer/timer.cc\<close>. The timer set keeps its order through every call; exactly the due timers fire.
  \<^item> \<open>Fiber\<close>, \<open>Scheduler\<close>, \<open>IOManager\<close>: \<open>fiber\<close>. The states of fibers and their switches; the task queue with
    its workers as a step relation (no task is lost or run twice); contexts of descriptors, their events and
    the handling of an \<open>epoll\<close> report. \<open>EventLoop\<close>: the rounds of the idle fiber, which compose timers,
    contexts and queue. \<open>IOWaiters\<close>: the accounting of waiters over a run.
  \<^item> \<open>Hook\<close>: \<open>hook\<close>. Descriptor table, \<open>do_io\<close> over arbitrary outcomes of the system calls, sleeping,
    \<open>connect\<close>, \<open>accept\<close>, \<open>close\<close>. \<open>HookCalls\<close>: the initialisation, the hooks that forward to \<open>do_io\<close>, all
    branches of \<open>fcntl\<close>, \<open>ioctl\<close> and \<open>setsockopt\<close>. \<open>HookWait\<close>: one wait of a hooked call composed with the
    timers and the I/O manager.
  \<^item> \<open>StringUtil\<close>: \<open>utils/utils.cc\<close>. \<open>Config\<close>: \<open>config\<close>. \<open>Logger\<close> (levels, patterns, formatting) and
    \<open>LogStore\<close> (appenders, loggers, manager): \<open>log\<close>.
  \<^item> \<open>Address\<close>, \<open>Sockets\<close>: \<open>socket/address.cc\<close>, \<open>socket/socket.cc\<close>. \<open>Streams\<close>: \<open>stream\<close>, with the locales
    \<open>stream_source\<close>, \<open>array_source\<close>, \<open>stream_sink\<close> and \<open>array_sink\<close> for what the fixed-size loops need of
    the virtual members, interpreted by the socket stream.
  \<^item> \<open>HttpTables\<close>, \<open>Http\<close>: \<open>http/http.cc\<close>.
  \<^item> \<open>HttpGrammar\<close>, \<open>HttpExecute\<close>: \<open>http/http_parser.cc\<close>, the grammar library. The first has the character
    classes, states, the structure \<open>http_parser\<close>, the URL parser; the second the state machine, one function
    per group of states of the big switch, a definition per macro. \<open>HttpUrl\<close>: the URL parser keeps within
    the buffer and splits request targets. \<open>HttpSafe\<close>: the invariant of the machine (\<open>state_ok\<close>,
    \<open>marks_ok\<close>), by which no assertion fails, and the locale \<open>parser_client\<close> of programs that rely on the
    order of the callbacks, interpreted by the history of all callbacks and by the request parser.
  \<^item> \<open>HttpParser\<close>: \<open>http/HttpParser.cc\<close>, the callbacks that build requests and responses, and the
    configured sizes. \<open>HttpReader\<close>: how the state machine goes through the parts of a message, with the
    locale \<open>message_client\<close> of programs that read one; \<open>HttpRoundTrip\<close> interprets it by the request parser and
    composes the output of requests with their parsing. \<open>Servlet\<close>: \<open>http/servlet.cc\<close>. \<open>TcpServer\<close>: \<open>tcpserver\<close>. \<open>HttpServe\<close>: \<open>http/HttpSession.cc\<close> and
    \<open>http/HttpServer.cc\<close>, the composition of stream, grammar library, parser and dispatcher.

  \<^bold>\<open>What is shown.\<close> Each component has an invariant kept by all its operations (byte array, timer
  set, fibers, scheduler, I/O manager, sockets, HTTP state machine, server) or a description of its result on every branch.
  Round trips: typed values and files of byte arrays, whole HTTP requests, URL encoding, query parameters, log patterns.
  Refinements: the byte array and a flat sequence, the dispatcher and its history of
  registrations. Several theorems state what the code does where that is not what it means to do; the
  theorem or lemma says so in its text.

  \<^bold>\<open>Loops and fuel.\<close> Loops are recursive functions with termination proofs. Two kinds of
  loops need more. Retry loops whose end depends on the kernel (\<open>do_io\<close>, the scheduler, the accept loop) are
  taken over a given list of outcomes or one round at a time in a step relation. \<open>client_loop\<close>, which
  calls servlets, has fuel: any number above the count of bytes the client sends suffices, and this is
  proved, for servlets that do not invent incoming bytes.

  \<^bold>\<open>Not modelled.\<close> Of the grammar library the variant without strict checks, \<open>http_parser_set_max_header_size\<close>
  (never called; the limit is the default) and callbacks that change the structure
  of the parser, which the program has none of. Thread creation and memory ordering:
  concurrency is interleaving of critical sections. Context switching in assembly, backtraces, thread
  names and printf formatting. Singletons and macros.
\<close>

end
